(* ===== verification/Prelude.thy ===== *)
theory Prelude
  imports Main "HOL-Library.Word"
begin

unbundle bit_operations_syntax

text \<open>
  Shared ground of the development. The virtual machine is a 32-bit program (an object
  pointer is cast to \<^verbatim>\<open>std::int32_t\<close> throughout \<^verbatim>\<open>vm/oop\<close>), so \<^verbatim>\<open>std::size_t\<close>, pointers and
  words are 32 bits wide.

  Results of operations: a \<open>'a run\<close> is \<open>None\<close> when the code runs for ever, \<open>Some (Inl f)\<close>
  when it stops in a fault (a failed \<^verbatim>\<open>st_assert\<close>, \<^verbatim>\<open>st_fatal\<close>, an access outside its buffer, a
  division by zero) and \<open>Some (Inr v)\<close> when it returns \<open>v\<close>. \<open>ret\<close>, \<open>raise\<close> and \<open>bindR\<close> are
  the monad on it; \<open>guard\<close> is an assertion.
\<close>

section \<open>Runs\<close>

datatype fault =
    Out_Of_Bounds
  | Division_By_Zero
  | Assertion string
  | Fatal string

type_synonym 'a run = "(fault + 'a) option"

definition ret :: "'a \<Rightarrow> 'a run" where
  "ret v = Some (Inr v)"

definition raise :: "fault \<Rightarrow> 'a run" where
  "raise f = Some (Inl f)"

definition bindR :: "'a run \<Rightarrow> ('a \<Rightarrow> 'b run) \<Rightarrow> 'b run" where
  "bindR m k = Option.bind m (\<lambda>r. case r of Inl f \<Rightarrow> Some (Inl f) | Inr v \<Rightarrow> k v)"

definition guard :: "bool \<Rightarrow> string \<Rightarrow> unit run" where
  "guard b msg = (if b then ret () else raise (Assertion msg))"

lemma bindR_ret [simp]: "bindR (ret v) k = k v"
  by (simp add: bindR_def ret_def)

lemma bindR_raise [simp]: "bindR (raise f) k = raise f"
  by (simp add: bindR_def raise_def)

lemma bindR_None [simp]: "bindR None k = None"
  by (simp add: bindR_def)

lemma bindR_assoc: "bindR (bindR m k) h = bindR m (\<lambda>v. bindR (k v) h)"
  by (auto simp: bindR_def split: option.splits sum.splits bind_splits)

lemma bindR_eq_ret: "bindR m k = ret w \<longleftrightarrow> (\<exists>v. m = ret v \<and> k v = ret w)"
  by (auto simp: bindR_def ret_def split: bind_splits sum.splits)

lemma ret_inject [simp]: "ret v = ret w \<longleftrightarrow> v = w"
  by (simp add: ret_def)

lemma ret_not_raise [simp]: "ret v \<noteq> raise f" "raise f \<noteq> ret v"
  by (simp_all add: ret_def raise_def)

lemma raise_inject [simp]: "raise f = raise g \<longleftrightarrow> f = g"
  by (simp add: raise_def)

lemma run_not_None [simp]: "ret v \<noteq> None" "raise f \<noteq> None" "None \<noteq> ret v" "None \<noteq> raise f"
  by (simp_all add: ret_def raise_def)

lemma guard_True [simp]: "guard True msg = ret ()"
  by (simp add: guard_def)

lemma guard_False [simp]: "guard False msg = raise (Assertion msg)"
  by (simp add: guard_def)

lemma guard_eq_ret [simp]: "guard b msg = ret u \<longleftrightarrow> b"
  by (simp add: guard_def)

lemma run_cases [case_names forever fault returns]:
  assumes "m = None \<Longrightarrow> P" "\<And>f. m = raise f \<Longrightarrow> P" "\<And>v. m = ret v \<Longrightarrow> P"
  shows P
proof (cases m)
  case (Some r)
  then show ?thesis using assms(2,3) by (cases r) (auto simp: ret_def raise_def)
qed (rule assms(1))

text \<open>A loop written with \<open>partial_function (option)\<close> may call itself under \<open>bindR\<close>.\<close>

lemma bindR_mono [partial_function_mono]:
  assumes "mono_option F" and "\<And>v. mono_option (\<lambda>f. G v f)"
  shows "mono_option (\<lambda>f. bindR (F f) (\<lambda>v. G v f))"
proof -
  have "mono_option (\<lambda>f. case r of Inl e \<Rightarrow> Some (Inl e) | Inr v \<Rightarrow> G v f)" for r
    using assms(2) by (cases r) (auto simp: monotone_def flat_ord_def fun_ord_def)
  then show ?thesis unfolding bindR_def using assms(1) by (rule bind_mono [rotated])
qed

section \<open>Signed readings of words\<close>

lemma sint_msb_unat:
  fixes w :: "'a::len word"
  shows "sint w = (if sint w < 0 then int (unat w) - 2 ^ LENGTH('a) else int (unat w))"
proof -
  have "Suc (LENGTH('a) - 1) = LENGTH('a)" by simp
  then have "sint w = uint w - 2 ^ LENGTH('a) * of_bool (bit (uint w) (LENGTH('a) - 1))"
    by (simp only: sint_uint signed_take_bit_eq_take_bit_minus) (simp add: bintr_uint)
  then show ?thesis
    using uint_lt2p [of w] uint_ge_0 [of w] by (auto split: if_splits)
qed

lemma sint_nonneg_unat: "0 \<le> sint w \<Longrightarrow> int (unat w) = sint w"
  using sint_msb_unat [of w] by simp

lemma sint_negative_unat:
  fixes w :: "'a::len word"
  shows "sint w < 0 \<Longrightarrow> int (unat w) = sint w + 2 ^ LENGTH('a)"
  using sint_msb_unat [of w] by simp

lemma unat_uminus_negative:
  fixes w :: "'a::len word"
  assumes "sint w < 0"
  shows "int (unat (- w)) = - sint w"
proof -
  have "w \<noteq> 0" using assms by auto
  then have "int (unat (- w)) = 2 ^ LENGTH('a) - int (unat w)"
    using uint_word_ariths(4) [of w] uint_lt2p [of w] by (simp add: zmod_zminus1_eq_if uint_0_iff)
  with sint_negative_unat [OF assms] show ?thesis by simp
qed

lemma sint_small:
  fixes w :: "'a::len word"
  assumes "unat w < 2 ^ (LENGTH('a) - 1)"
  shows "sint w = int (unat w)"
proof -
  have "Suc (LENGTH('a) - 1) = LENGTH('a)" by simp
  then have p: "(2::int) ^ LENGTH('a) = 2 * 2 ^ (LENGTH('a) - 1)" by (metis power_Suc)
  have "int (unat w) < int (2 ^ (LENGTH('a) - 1))" using assms by (simp only: of_nat_less_iff)
  then have "\<not> sint w < 0"
    using sint_negative_unat [of w] sint_ge [of w] p by (auto simp del: int_nat_eq)
  then show ?thesis using sint_nonneg_unat [of w] by linarith
qed

end
