(* ===== verification/Digits.thy ===== *)
theory Digits
  imports Prelude
begin

text \<open>
  \<^verbatim>\<open>vm/utility/Integer.hpp\<close>, \<^verbatim>\<open>vm/utility/IntegerOps.cpp\<close>: the digits of large integers and the
  basic unsigned operations on one digit. A \<^verbatim>\<open>Digit\<close> is a \<open>32 word\<close>, a \<^verbatim>\<open>DoubleDigit\<close> a \<open>64 word\<close>;
  a reference parameter \<^verbatim>\<open>carry\<close> is an argument and the second component of the result.
  \<open>nval\<close> reads a digit sequence, least significant digit first, as a number. The locale
  \<open>carry_chain\<close> is the contract of a digit step whose carry runs through a sequence
  (\<^verbatim>\<open>xpy\<close>, \<^verbatim>\<open>axpy\<close>), \<open>borrow_chain\<close> the one of a subtracting step (\<^verbatim>\<open>xmy\<close>).
\<close>

section \<open>Digits\<close>

type_synonym digit = "32 word"
type_synonym double_digit = "64 word"

definition logB :: nat where
  "logB = 32"

definition digitBitLength :: nat where
  "digitBitLength = 32"

definition oneB :: digit where
  "oneB = 0xFFFFFFFF"

definition DIGITS_BASE :: nat where
  "DIGITS_BASE = 36"

text \<open>The radix \<open>B\<close> of the source's comments.\<close>

definition radix :: nat where
  "radix = 2 ^ 32"

lemma radix_pos [simp]: "0 < radix" "radix \<noteq> 0" "Suc 0 < radix" "Suc 0 \<le> radix"
  by (simp_all add: radix_def)

lemma unat_less_radix [simp]: "unat (d :: digit) < radix"
  using unsigned_less [of d] by (simp add: radix_def)

lemma unat_le_radix1 [simp]: "unat (d :: digit) \<le> radix - 1"
  using unat_less_radix [of d] by linarith

lemma unat_digit_of_nat: "unat (of_nat n :: digit) = n mod radix"
  by (simp add: unat_of_nat radix_def)

definition xpy :: "digit \<Rightarrow> digit \<Rightarrow> digit \<Rightarrow> digit \<times> digit" where
  "xpy x y carry =
     (let lx = ucast x :: double_digit;
          r = lx + ucast y + ucast carry
      in (ucast (r AND ucast oneB), ucast (drop_bit digitBitLength r)))"

definition xmy :: "digit \<Rightarrow> digit \<Rightarrow> digit \<Rightarrow> digit \<times> digit" where
  "xmy x y carry =
     (let lx = ucast x :: double_digit;
          r = lx - ucast y - ucast carry
      in (ucast (r AND ucast oneB), ucast (drop_bit digitBitLength r AND 1)))"

definition axpy :: "digit \<Rightarrow> digit \<Rightarrow> digit \<Rightarrow> digit \<Rightarrow> digit \<times> digit" where
  "axpy a x y carry =
     (let lx = ucast x :: double_digit;
          r = lx * ucast a + ucast y + ucast carry
      in (ucast (r AND ucast oneB), ucast (drop_bit digitBitLength r)))"

definition xdy :: "digit \<Rightarrow> digit \<Rightarrow> digit \<Rightarrow> (digit \<times> digit) run" where
  "xdy x y carry =
     (if y = 0 then raise Division_By_Zero
      else let c = ucast carry :: double_digit;
               total = push_bit digitBitLength c + ucast x
           in ret (ucast ((total div ucast y) AND ucast oneB), ucast (total mod ucast y)))"

subsection \<open>What one step computes\<close>

lemma unat_ucast_up: "unat (ucast (d :: digit) :: double_digit) = unat d"
  by (simp add: unsigned_ucast_eq take_bit_nat_eq_self_iff
      order.strict_trans [OF unsigned_less [of d]])

lemma split_double:
  fixes r :: double_digit
  shows "unat (ucast (r AND ucast oneB) :: digit) + radix * unat (ucast (drop_bit digitBitLength r) :: digit)
         = unat r"
proof -
  have m: "(ucast oneB :: double_digit) = mask 32"
    by (simp add: oneB_def mask_eq_exp_minus_1)
  have "unat (ucast (r AND ucast oneB) :: digit) = take_bit 32 (unat r)"
    by (simp add: m unsigned_ucast_eq unsigned_take_bit_eq flip: take_bit_eq_mask)
  then have lo: "unat (ucast (r AND ucast oneB) :: digit) = unat r mod 2 ^ 32"
    by (simp add: take_bit_eq_mod)
  have "unat r div 2 ^ 32 < 2 ^ 32"
    using unsigned_less [of r, where ?'a = nat] by (simp add: less_mult_imp_div_less)
  then have hi: "unat (ucast (drop_bit digitBitLength r) :: digit) = unat r div 2 ^ 32"
    by (simp only: digitBitLength_def unsigned_ucast_eq unat_drop_bit_eq)
      (simp add: take_bit_nat_eq_self_iff drop_bit_eq_div)
  show ?thesis by (simp add: lo hi radix_def)
qed

lemma xpy_step:
  assumes "xpy x y c = (r, c')"
  shows "unat r + radix * unat c' = unat x + unat y + unat c"
proof -
  let ?s = "ucast x + ucast y + ucast c :: double_digit"
  have "unat x + unat y + unat c < 2 ^ 64"
    using unat_less_radix [of x] unat_less_radix [of y] unat_less_radix [of c]
    by (simp add: radix_def)
  then have "unat ?s = unat x + unat y + unat c"
    by (simp add: unat_word_ariths unat_ucast_up)
  with split_double [of ?s] assms show ?thesis
    by (auto simp: xpy_def Let_def)
qed

lemma axpy_step:
  assumes "axpy a x y c = (r, c')"
  shows "unat r + radix * unat c' = unat a * unat x + unat y + unat c"
proof -
  let ?s = "ucast x * ucast a + ucast y + ucast c :: double_digit"
  have "unat a * unat x \<le> (radix - 1) * (radix - 1)"
    by (intro mult_le_mono) (rule unat_le_radix1)+
  then have "unat x * unat a + unat y + unat c < 2 ^ 64"
    using unat_le_radix1 [of y] unat_le_radix1 [of c] by (simp add: radix_def mult.commute)
  then have "unat ?s = unat x * unat a + unat y + unat c"
    by (simp add: unat_word_ariths unat_ucast_up)
  with split_double [of ?s] assms show ?thesis
    by (auto simp: axpy_def Let_def mult.commute)
qed

lemma xdy_step:
  assumes "xdy x y c = ret (q, c')" and "unat c < unat y"
  shows "unat q * unat y + unat c' = radix * unat c + unat x" and "unat c' < unat y"
proof -
  let ?t = "push_bit digitBitLength (ucast c) + ucast x :: double_digit"
  from assms(2) have y: "y \<noteq> 0" by auto
  have "radix * unat c + unat x < 2 ^ 64"
    using mult_le_mono2 [of "unat c" "radix - 1" radix] unat_le_radix1 [of c] unat_le_radix1 [of x]
    by (simp add: radix_def)
  then have t: "unat ?t = radix * unat c + unat x"
    by (simp add: digitBitLength_def push_bit_eq_mult unat_word_ariths unat_ucast_up radix_def
        mult.commute)
  have "radix * unat c + unat x < radix * unat c + radix"
    by simp
  also have "\<dots> = radix * Suc (unat c)"
    by simp
  also have "\<dots> \<le> radix * unat y"
    using assms(2) by (intro mult_le_mono) simp_all
  finally have lt: "(radix * unat c + unat x) div unat y < radix"
    by (simp add: less_mult_imp_div_less)
  have d: "unat (?t div ucast y) = (radix * unat c + unat x) div unat y"
    by (simp add: unat_div t unat_ucast_up)
  have "drop_bit 32 (unat (?t div ucast y)) = 0"
    using d lt by (simp only: drop_bit_eq_div div_eq_0_iff) (simp add: radix_def)
  then have hi: "unat (ucast (drop_bit digitBitLength (?t div ucast y)) :: digit) = 0"
    by (simp only: digitBitLength_def unsigned_ucast_eq unat_drop_bit_eq) simp
  have "unat (?t mod ucast y) = (radix * unat c + unat x) mod unat y"
    by (simp add: unat_mod t unat_ucast_up)
  moreover have "(radix * unat c + unat x) mod unat y < radix"
    using mod_less_divisor [of "unat y"] unat_less_radix [of y] y
    by (meson less_trans unat_gt_0)
  ultimately have m: "unat (ucast (?t mod ucast y) :: digit) = (radix * unat c + unat x) mod unat y"
    by (simp add: unsigned_ucast_eq take_bit_nat_eq_self_iff radix_def)
  have q: "q = ucast ((?t div ucast y) AND ucast oneB)" and c': "c' = ucast (?t mod ucast y)"
    using assms(1) y by (simp_all add: xdy_def Let_def)
  have "unat q = (radix * unat c + unat x) div unat y"
    using split_double [of "?t div ucast y"] hi d by (simp add: q)
  then show "unat q * unat y + unat c' = radix * unat c + unat x"
    by (simp add: c' m)
  show "unat c' < unat y"
    using assms(2) by (simp add: c' m)
qed

lemma unat_sub2:
  fixes x y c :: digit
  defines "s \<equiv> ucast x - ucast y - ucast c :: double_digit"
  shows "unat x \<ge> unat y + unat c \<Longrightarrow> unat s = unat x - (unat y + unat c)"
    and "unat x < unat y + unat c \<Longrightarrow> unat s + (unat y + unat c) = 2 ^ 64 + unat x"
proof -
  let ?X = "ucast x :: double_digit" and ?Y = "ucast y + ucast c :: double_digit"
  have "unat y + unat c < 2 ^ 64"
    using unat_less_radix [of y] unat_less_radix [of c] by (simp add: radix_def)
  then have Y: "unat ?Y = unat y + unat c"
    by (simp add: unat_word_ariths unat_ucast_up)
  have X: "unat ?X = unat x" by (rule unat_ucast_up)
  have s: "s = ?X - ?Y" by (simp add: s_def)
  show "unat s = unat x - (unat y + unat c)" if "unat x \<ge> unat y + unat c"
    using that unat_sub_if' [of ?X ?Y] X Y by (simp add: s)
  show "unat s + (unat y + unat c) = 2 ^ 64 + unat x" if "unat x < unat y + unat c"
    using that unat_sub_if' [of ?X ?Y] X Y \<open>unat y + unat c < 2 ^ 64\<close> by (simp add: s)
qed

lemma xmy_step:
  assumes "xmy x y c = (r, c')" and "unat y + unat c \<le> radix"
  shows "unat r + unat y + unat c = unat x + radix * unat c'" and "unat c' \<le> 1"
proof -
  let ?s = "ucast x - ucast y - ucast c :: double_digit"
  let ?h = "ucast (drop_bit digitBitLength ?s) :: digit"
  have r: "r = ucast (?s AND ucast oneB)" and c': "c' = ucast (drop_bit digitBitLength ?s AND 1)"
    using assms(1) by (auto simp: xmy_def Let_def)
  have sp: "unat r + radix * unat ?h = unat ?s"
    using split_double [of ?s] by (simp add: r)
  have "c' = ?h AND 1"
    by (simp add: c' unsigned_and_eq)
  then have c1: "unat c' = unat ?h mod 2"
    by (simp add: and_one_eq unat_mod)
  then show "unat c' \<le> 1" by simp
  show "unat r + unat y + unat c = unat x + radix * unat c'"
  proof (cases "unat x \<ge> unat y + unat c")
    case True
    with sp have e: "unat r + radix * unat ?h + (unat y + unat c) = unat x"
      by (simp add: unat_sub2(1))
    have "radix * unat ?h < radix * 1"
      using e unat_less_radix [of x] by linarith
    then have "unat ?h < 1" unfolding mult_less_cancel1 by blast
    then have "unat ?h = 0" by simp
    with e c1 show ?thesis by simp
  next
    case False
    then have e: "unat r + radix * unat ?h + (unat y + unat c) = 2 ^ 64 + unat x"
      using sp by (simp add: unat_sub2(2))
    have rr: "(2::nat) ^ 64 = radix * radix" by (simp add: radix_def)
    have "radix * radix \<le> radix * unat ?h + (radix - 1) + radix"
      using e assms(2) unat_le_radix1 [of r] rr by linarith
    then have "radix * radix < radix * (unat ?h + 2)"
      using radix_pos(1) unfolding distrib_left by linarith
    then have "radix < unat ?h + 2" unfolding mult_less_cancel1 by blast
    with unat_less_radix [of ?h] have h: "unat ?h = radix - 1" by linarith
    then have "unat c' = 1" using c1 by (simp add: radix_def)
    with e h rr show ?thesis by (simp add: radix_def)
  qed
qed

subsection \<open>Digit sequences\<close>

primrec nval :: "digit list \<Rightarrow> nat" where
  "nval [] = 0"
| "nval (d # ds) = unat d + radix * nval ds"

lemma nval_append: "nval (xs @ ys) = nval xs + radix ^ length xs * nval ys"
  by (induction xs) (simp_all add: algebra_simps)

lemma nval_replicate_0 [simp]: "nval (replicate n 0) = 0"
  by (induction n) simp_all

lemma nval_less: "nval ds < radix ^ length ds"
proof (induction ds)
  case (Cons d ds)
  have "unat d + radix * nval ds < radix + radix * nval ds" by simp
  also have "\<dots> \<le> radix * radix ^ length ds"
    using Cons by (metis Suc_leI mult_Suc_right mult_le_mono2)
  finally show ?case by simp
qed simp

lemma nval_eq_0_iff: "nval ds = 0 \<longleftrightarrow> (\<forall>d\<in>set ds. d = 0)"
  by (induction ds) (auto simp: unat_eq_zero)

lemma nval_take_drop: "nval xs = nval (take n xs) + radix ^ min n (length xs) * nval (drop n xs)"
  using nval_append [of "take n xs" "drop n xs"] by (simp add: min.commute)

lemma nval_last_lower:
  assumes "ds \<noteq> []" and "last ds \<noteq> 0"
  shows "radix ^ (length ds - 1) \<le> nval ds"
proof -
  have "nval ds = nval (butlast ds) + radix ^ (length ds - 1) * unat (last ds)"
    using assms(1) nval_append [of "butlast ds" "[last ds]"] by simp
  moreover have "radix ^ (length ds - 1) * 1 \<le> radix ^ (length ds - 1) * unat (last ds)"
    using assms(2) by (intro mult_le_mono2) (simp add: Suc_le_eq unat_gt_0)
  ultimately show ?thesis by linarith
qed

lemma nval_inject: "length xs = length ys \<Longrightarrow> nval xs = nval ys \<Longrightarrow> xs = ys"
proof (induction xs ys rule: list_induct2)
  case (Cons x xs y ys)
  have "unat x = nval (x # xs) mod radix" "unat y = nval (y # ys) mod radix"
    and "nval xs = nval (x # xs) div radix" "nval ys = nval (y # ys) div radix"
    by simp_all
  with Cons show ?case by (metis unsigned_word_eqI)
qed simp

subsection \<open>Chains of digit steps\<close>

text \<open>
  A loop that walks over digits, threads a carry and writes one digit per iteration.
  \<open>chain step as c\<close> is the sequence of written digits and the carry that is left.
\<close>

fun chain :: "('a \<Rightarrow> digit \<Rightarrow> digit \<times> digit) \<Rightarrow> 'a list \<Rightarrow> digit \<Rightarrow> digit list \<times> digit" where
  "chain step [] c = ([], c)"
| "chain step (a # as) c =
     (let (r, c') = step a c; (rs, c'') = chain step as c' in (r # rs, c''))"

lemma length_chain [simp]: "chain step as c = (rs, c') \<Longrightarrow> length rs = length as"
  by (induction as arbitrary: c rs c') (auto split: prod.splits)

text \<open>Weights of the operands of a chain: \<open>wval w as\<close> is the sum of \<open>w a\<close> at the radix.\<close>

primrec wval :: "('a \<Rightarrow> nat) \<Rightarrow> 'a list \<Rightarrow> nat" where
  "wval w [] = 0"
| "wval w (a # as) = w a + radix * wval w as"

lemma wval_append: "wval w (as @ bs) = wval w as + radix ^ length as * wval w bs"
  by (induction as) (simp_all add: algebra_simps)

lemma wval_add: "wval (\<lambda>a. f a + g a) as = wval f as + wval g as"
  by (induction as) (simp_all add: algebra_simps)

lemma wval_scale: "wval (\<lambda>a. k * f a) as = k * wval f as"
  by (induction as) (simp_all add: algebra_simps)

lemma wval_nval: "wval (\<lambda>a. unat (f a)) as = nval (map f as)"
  by (induction as) simp_all

locale carry_chain =
  fixes step :: "'a \<Rightarrow> digit \<Rightarrow> digit \<times> digit" and w :: "'a \<Rightarrow> nat"
  assumes step_sum: "step a c = (r, c') \<Longrightarrow> unat r + radix * unat c' = w a + unat c"
begin

lemma chain_sum:
  "chain step as c = (rs, c') \<Longrightarrow> nval rs + radix ^ length as * unat c' = wval w as + unat c"
proof (induction as arbitrary: c rs)
  case (Cons a as)
  obtain r c1 rs1 where s: "step a c = (r, c1)" and t: "chain step as c1 = (rs1, c')"
    and rs: "rs = r # rs1"
    using Cons.prems by (auto split: prod.splits)
  have "radix * (nval rs1 + radix ^ length as * unat c') = radix * (wval w as + unat c1)"
    using Cons.IH [OF t] by simp
  then show ?case
    using step_sum [OF s] by (simp add: rs algebra_simps)
qed simp

end

locale borrow_chain =
  fixes step :: "'a \<Rightarrow> digit \<Rightarrow> digit \<times> digit" and p :: "'a \<Rightarrow> nat" and q :: "'a \<Rightarrow> nat"
  assumes step_diff:
    "step a c = (r, c') \<Longrightarrow> unat c \<le> 1 \<Longrightarrow> unat r + q a + unat c = p a + radix * unat c'"
    and step_borrow: "step a c = (r, c') \<Longrightarrow> unat c \<le> 1 \<Longrightarrow> unat c' \<le> 1"
begin

lemma chain_diff:
  "chain step as c = (rs, c') \<Longrightarrow> unat c \<le> 1 \<Longrightarrow>
   nval rs + wval q as + unat c = wval p as + radix ^ length as * unat c' \<and> unat c' \<le> 1"
proof (induction as arbitrary: c rs)
  case (Cons a as)
  obtain r c1 rs1 where s: "step a c = (r, c1)" and t: "chain step as c1 = (rs1, c')"
    and rs: "rs = r # rs1"
    using Cons.prems(1) by (auto split: prod.splits)
  have c1: "unat c1 \<le> 1" using s Cons.prems(2) by (rule step_borrow)
  note IH = Cons.IH [OF t c1]
  have "radix * (nval rs1 + wval q as + unat c1) = radix * (wval p as + radix ^ length as * unat c')"
    using IH by simp
  then show ?case
    using IH step_diff [OF s Cons.prems(2)] by (simp add: rs algebra_simps)
qed simp

end

interpretation xpy_chain: carry_chain "\<lambda>(x, y). xpy x y" "\<lambda>(x, y). unat x + unat y"
  by unfold_locales (auto dest: xpy_step)

interpretation axpy_chain: carry_chain "\<lambda>(x, y). axpy a x y" "\<lambda>(x, y). unat a * unat x + unat y"
  for a
  by unfold_locales (auto dest: axpy_step)

interpretation xmy_chain: borrow_chain "\<lambda>(x, y). xmy x y" "\<lambda>(x, y). unat x" "\<lambda>(x, y). unat y"
proof unfold_locales
  fix a c r c' assume "(case a of (x, y) \<Rightarrow> xmy x y) c = (r, c')" and "unat (c :: digit) \<le> 1"
  moreover have "unat y + unat c \<le> radix" for y :: digit
    using unat_less_radix [of y] \<open>unat c \<le> 1\<close> by linarith
  ultimately show "unat r + (case a of (x, y) \<Rightarrow> unat y) + unat c
      = (case a of (x, y) \<Rightarrow> unat x) + radix * unat c'" and "unat c' \<le> 1"
    using xmy_step by (auto split: prod.splits)
qed

lemma chain_append:
  "chain step (as @ bs) c =
     (let (rs, c1) = chain step as c; (ts, c2) = chain step bs c1 in (rs @ ts, c2))"
  by (induction as arbitrary: c) (auto simp: Let_def split: prod.splits)

text \<open>Operands of different lengths, aligned at the least significant digit.\<close>

definition aligned :: "nat \<Rightarrow> digit list \<Rightarrow> digit list \<Rightarrow> (digit \<times> digit) list" where
  "aligned l xs ys = zip (take l xs) (take l ys) @ map (\<lambda>x. (x, 0)) (drop l xs) @ map (Pair 0) (drop l ys)"

lemma length_aligned [simp]:
  "l = min (length xs) (length ys) \<Longrightarrow> length (aligned l xs ys) = max (length xs) (length ys)"
  by (auto simp: aligned_def)

lemma wval_zip_fst: "length as = length bs \<Longrightarrow> wval (\<lambda>(x, y). f x) (zip as bs) = wval f as"
  by (induction as bs rule: list_induct2) simp_all

lemma wval_zip_snd: "length as = length bs \<Longrightarrow> wval (\<lambda>(x, y). f y) (zip as bs) = wval f bs"
  by (induction as bs rule: list_induct2) simp_all

lemma wval_unat [simp]: "wval unat ds = nval ds"
  by (induction ds) simp_all

lemma wval_map: "wval w (map f as) = wval (\<lambda>a. w (f a)) as"
  by (induction as) simp_all

lemma wval_zero [simp]: "wval (\<lambda>a. 0) as = 0"
  by (induction as) simp_all

lemma wval_aligned_fst:
  assumes "l = min (length xs) (length ys)"
  shows "wval (\<lambda>(x, y). unat x) (aligned l xs ys) = nval xs"
proof -
  have "wval (\<lambda>(x, y). unat x) (zip (take l xs) (take l ys)) = nval (take l xs)"
    using assms by (simp add: wval_zip_fst)
  moreover have "length (zip (take l xs) (take l ys)) = min l (length xs)"
    using assms by auto
  ultimately show ?thesis
    using nval_take_drop [of xs l]
    by (simp add: aligned_def wval_append wval_map)
qed

lemma wval_aligned_snd:
  assumes "l = min (length xs) (length ys)"
  shows "wval (\<lambda>(x, y). unat y) (aligned l xs ys) = nval ys"
proof -
  have "wval (\<lambda>(x, y). unat y) (zip (take l xs) (take l ys)) = nval (take l ys)"
    using assms by (simp add: wval_zip_snd)
  moreover have "length (zip (take l xs) (take l ys)) = min l (length ys)"
    using assms by auto
  moreover have "wval (\<lambda>(x, y). unat y) (map (\<lambda>x. (x, 0 :: digit)) (drop l xs)) = 0"
    by (simp add: wval_map)
  moreover have "length (drop l xs) = 0 \<or> nval (drop l ys) = 0"
    using assms by (cases "length xs \<le> length ys") simp_all
  ultimately have "wval (\<lambda>(x, y). unat y) (aligned l xs ys)
      = nval (take l ys) + radix ^ min l (length ys) * nval (drop l ys)"
    by (elim disjE) (simp_all add: aligned_def wval_append wval_map)
  then show ?thesis by (simp only: nval_take_drop [of ys l, symmetric])
qed

lemma wval_aligned:
  assumes "l = min (length xs) (length ys)"
  shows "wval (\<lambda>(x, y). unat x + unat y) (aligned l xs ys) = nval xs + nval ys"
proof -
  have "wval (\<lambda>(x, y). unat x + unat y) (aligned l xs ys)
      = wval (\<lambda>(x, y). unat x) (aligned l xs ys) + wval (\<lambda>(x, y). unat y) (aligned l xs ys)"
    using wval_add [of "\<lambda>(x, y). unat x" "\<lambda>(x, y). unat y" "aligned l xs ys"]
    by (simp only: case_prod_unfold)
  then show ?thesis using assms by (simp add: wval_aligned_fst wval_aligned_snd)
qed

text \<open>Scanning leading zero digits off: \<^verbatim>\<open>while ( i > 0 and z[ i - 1 ] == 0 ) i--\<close>.\<close>

fun trim_length :: "digit list \<Rightarrow> nat \<Rightarrow> nat" where
  "trim_length z 0 = 0"
| "trim_length z (Suc i) = (if z ! i = 0 then trim_length z i else Suc i)"

lemma trim_length_le: "trim_length z i \<le> i"
  by (induction i) simp_all

lemma trim_length_last: "0 < trim_length z i \<Longrightarrow> z ! (trim_length z i - 1) \<noteq> 0"
  by (induction i) auto

lemma nval_trim: "i \<le> length z \<Longrightarrow> nval (take (trim_length z i) z) = nval (take i z)"
  by (induction i) (auto simp: take_Suc_conv_app_nth nval_append)

lemma trim_length_lower:
  assumes "i \<le> length z" "nval (take i z) \<ge> radix ^ n"
  shows "n < trim_length z i"
proof (rule ccontr)
  assume "\<not> n < trim_length z i"
  then have "radix ^ length (take (trim_length z i) z) \<le> radix ^ n"
    by (intro power_increasing) auto
  with nval_less [of "take (trim_length z i) z"]
  have "nval (take (trim_length z i) z) < radix ^ n" by (rule less_le_trans)
  with assms show False by (simp add: nval_trim)
qed

lemma nval_update:
  "k < length z \<Longrightarrow> nval (z[k := r]) + radix ^ k * unat (z ! k) = nval z + radix ^ k * unat r"
proof (induction z arbitrary: k)
  case (Cons d z)
  show ?case
  proof (cases k)
    case (Suc j)
    with Cons have "nval (z[j := r]) + radix ^ j * unat (z ! j) = nval z + radix ^ j * unat r"
      by simp
    then have "radix * (nval (z[j := r]) + radix ^ j * unat (z ! j)) = radix * (nval z + radix ^ j * unat r)"
      by simp
    with Suc show ?thesis by (simp add: algebra_simps)
  qed simp
qed simp

end
