(* ===== verification/Integers.thy ===== *)
theory Integers
  imports Digits
begin

text \<open>
  \<^verbatim>\<open>vm/utility/Integer.hpp\<close>, \<^verbatim>\<open>vm/utility/Integer.cpp\<close> and the arithmetic of
  \<^verbatim>\<open>vm/utility/IntegerOps.cpp\<close>: large integers and their addition, subtraction,
  multiplication and comparison.

  An \<open>Integer\<close> is \<^verbatim>\<open>_signed_length\<close> and the digits of the buffer that starts at
  \<^verbatim>\<open>_first_digit\<close>: all the slots the allocation holds, not only the ones in use. Reading or
  writing past it is the fault \<open>Out_Of_Bounds\<close>. \<open>ival\<close> is the number it stands for.
  A loop that writes \<^verbatim>\<open>z[0], z[1], ...\<close> once each is a \<open>chain\<close> followed by \<open>store\<close>; the
  multiplication, which reads back what it wrote, updates the digit list by index.
  The result \<^verbatim>\<open>z\<close> never shares its buffer with \<^verbatim>\<open>x\<close> or \<^verbatim>\<open>y\<close> (the primitives allocate it).
\<close>

section \<open>Integers\<close>

record Integer =
  signed_length :: int
  digits :: "digit list"

definition ilength :: "Integer \<Rightarrow> nat" where
  "ilength x = nat \<bar>signed_length x\<bar>"

definition set_signed_length :: "Integer \<Rightarrow> int \<Rightarrow> Integer" where
  "set_signed_length x l = x\<lparr>signed_length := l\<rparr>"

definition length_to_size_in_bytes :: "nat \<Rightarrow> nat" where
  "length_to_size_in_bytes l = 4 + l * 4"

definition size_in_bytes :: "Integer \<Rightarrow> nat" where
  "size_in_bytes x = length_to_size_in_bytes (ilength x)"

definition is_zero :: "Integer \<Rightarrow> bool" where
  "is_zero x \<longleftrightarrow> signed_length x = 0"

definition is_not_zero :: "Integer \<Rightarrow> bool" where
  "is_not_zero x \<longleftrightarrow> signed_length x \<noteq> 0"

definition is_positive :: "Integer \<Rightarrow> bool" where
  "is_positive x \<longleftrightarrow> signed_length x > 0"

definition is_negative :: "Integer \<Rightarrow> bool" where
  "is_negative x \<longleftrightarrow> signed_length x < 0"

text \<open>\<^verbatim>\<open>operator[]\<close>, checked against the buffer.\<close>

definition digit_at :: "Integer \<Rightarrow> nat \<Rightarrow> digit run" where
  "digit_at x i = (if i < length (digits x) then ret (digits x ! i) else raise Out_Of_Bounds)"

definition is_valid :: "Integer \<Rightarrow> bool run" where
  "is_valid x =
     (if is_zero x then ret True else bindR (digit_at x (ilength x - 1)) (\<lambda>d. ret (d \<noteq> 0)))"

definition is_odd :: "Integer \<Rightarrow> bool run" where
  "is_odd x = (if is_not_zero x then bindR (digit_at x 0) (\<lambda>d. ret (d AND 1 = 1)) else ret False)"

definition is_even :: "Integer \<Rightarrow> bool run" where
  "is_even x = bindR (is_odd x) (\<lambda>b. ret (\<not> b))"

text \<open>The digits \<^verbatim>\<open>x[0] .. x[n-1]\<close> a loop reads, and the digits a loop writes from \<^verbatim>\<open>z[0]\<close> on.\<close>

definition digits_upto :: "Integer \<Rightarrow> nat \<Rightarrow> digit list run" where
  "digits_upto x n = (if n \<le> length (digits x) then ret (take n (digits x)) else raise Out_Of_Bounds)"

definition live :: "Integer \<Rightarrow> digit list run" where
  "live x = digits_upto x (ilength x)"

definition store :: "Integer \<Rightarrow> digit list \<Rightarrow> int \<Rightarrow> Integer run" where
  "store z ds l =
     (if length ds \<le> length (digits z)
      then ret (z\<lparr>signed_length := l, digits := ds @ drop (length ds) (digits z)\<rparr>)
      else raise Out_Of_Bounds)"

subsection \<open>Values and well-formedness\<close>

definition uval :: "Integer \<Rightarrow> nat" where
  "uval x = nval (take (ilength x) (digits x))"

definition ival :: "Integer \<Rightarrow> int" where
  "ival x = (if signed_length x < 0 then - int (uval x) else int (uval x))"

text \<open>\<open>wf_Integer\<close>: the digits in use lie in the buffer and the top one is not zero.\<close>

definition wf_Integer :: "Integer \<Rightarrow> bool" where
  "wf_Integer x \<longleftrightarrow> ilength x \<le> length (digits x) \<and> (ilength x = 0 \<or> digits x ! (ilength x - 1) \<noteq> 0)"

definition capacity_in_bytes :: "Integer \<Rightarrow> nat" where
  "capacity_in_bytes z = length_to_size_in_bytes (length (digits z))"

lemma capacity_le [simp]:
  "length_to_size_in_bytes l \<le> capacity_in_bytes z \<longleftrightarrow> l \<le> length (digits z)"
  by (simp add: length_to_size_in_bytes_def capacity_in_bytes_def)

lemma live_wf [simp]: "wf_Integer x \<Longrightarrow> live x = ret (take (ilength x) (digits x))"
  by (simp add: live_def digits_upto_def wf_Integer_def)

lemma length_live [simp]:
  "wf_Integer x \<Longrightarrow> min (length (digits x)) (ilength x) = ilength x"
  "wf_Integer x \<Longrightarrow> min (ilength x) (length (digits x)) = ilength x"
  by (simp_all add: wf_Integer_def)

lemma is_valid_wf: "wf_Integer x \<Longrightarrow> is_valid x = ret True"
  by (auto simp: is_valid_def is_zero_def wf_Integer_def digit_at_def ilength_def)

lemma wf_iff_valid:
  "ilength x \<le> length (digits x) \<Longrightarrow> wf_Integer x \<longleftrightarrow> is_valid x = ret True"
  by (auto simp: is_valid_def is_zero_def wf_Integer_def digit_at_def ilength_def)

lemma is_zero_iff: "is_zero x \<longleftrightarrow> ilength x = 0"
  by (auto simp: is_zero_def ilength_def)

lemma uval_less: "uval x < radix ^ ilength x"
proof (cases "ilength x \<le> length (digits x)")
  case True
  then show ?thesis using nval_less [of "take (ilength x) (digits x)"] by (simp add: uval_def)
next
  case False
  then have "nval (digits x) < radix ^ length (digits x)" by (simp add: nval_less)
  also have "\<dots> \<le> radix ^ ilength x"
    using False by (intro power_increasing) auto
  finally show ?thesis using False by (simp add: uval_def)
qed

lemma uval_lower: "wf_Integer x \<Longrightarrow> ilength x \<noteq> 0 \<Longrightarrow> radix ^ (ilength x - 1) \<le> uval x"
  using nval_last_lower [of "take (ilength x) (digits x)"]
  by (cases "digits x = []") (auto simp: uval_def wf_Integer_def last_conv_nth)

lemma uval_eq_0_iff: "wf_Integer x \<Longrightarrow> uval x = 0 \<longleftrightarrow> ilength x = 0"
proof (cases "ilength x = 0")
  case False
  moreover assume "wf_Integer x"
  ultimately have "0 < uval x"
    using uval_lower [of x] less_le_trans [of 0 "radix ^ (ilength x - 1)" "uval x"] by simp
  with False show ?thesis by simp
qed (simp add: uval_def)

lemma uval_mono_length: "wf_Integer y \<Longrightarrow> ilength x < ilength y \<Longrightarrow> uval x < uval y"
proof -
  assume "wf_Integer y" and *: "ilength x < ilength y"
  have "radix ^ ilength x \<le> radix ^ (ilength y - 1)"
    using * by (intro power_increasing) auto
  with uval_less [of x] uval_lower [OF \<open>wf_Integer y\<close>] * show ?thesis by linarith
qed

lemma ival_sign:
  "wf_Integer x \<Longrightarrow> ival x < 0 \<longleftrightarrow> is_negative x"
  "wf_Integer x \<Longrightarrow> ival x = 0 \<longleftrightarrow> is_zero x"
  "wf_Integer x \<Longrightarrow> 0 < ival x \<longleftrightarrow> is_positive x"
  using uval_eq_0_iff [of x]
  by (auto simp: ival_def is_negative_def is_zero_def is_positive_def ilength_def)

lemma abs_ival: "\<bar>ival x\<bar> = int (uval x)"
  by (simp add: ival_def)

text \<open>A stored result: its value, and when it is well formed.\<close>

lemma store_ret [simp]:
  "length ds \<le> length (digits z) \<Longrightarrow>
   store z ds l = ret (z\<lparr>signed_length := l, digits := ds @ drop (length ds) (digits z)\<rparr>)"
  by (simp add: store_def)

lemma uval_store:
  "nat \<bar>l\<bar> \<le> length ds \<Longrightarrow> uval (z\<lparr>signed_length := l, digits := ds @ rest\<rparr>) = nval (take (nat \<bar>l\<bar>) ds)"
  by (simp add: uval_def ilength_def)

lemma wf_store:
  "nat \<bar>l\<bar> \<le> length ds \<Longrightarrow> l = 0 \<or> ds ! (nat \<bar>l\<bar> - 1) \<noteq> 0 \<Longrightarrow>
   wf_Integer (z\<lparr>signed_length := l, digits := ds @ rest\<rparr>)"
  by (auto simp: wf_Integer_def ilength_def nth_append)

section \<open>Unsigned operations\<close>

definition unsigned_add :: "Integer \<Rightarrow> Integer \<Rightarrow> Integer \<Rightarrow> Integer run" where
  "unsigned_add x y z =
     bindR (live x) (\<lambda>xs. bindR (live y) (\<lambda>ys.
       let l = min (length xs) (length ys);
           (ds1, c1) = chain (\<lambda>(x, y). xpy x y) (zip (take l xs) (take l ys)) 0;
           (ds2, c2) = chain (\<lambda>(x, y). xpy x y) (map (\<lambda>x. (x, 0)) (drop l xs)) c1;
           (ds3, c3) = chain (\<lambda>(x, y). xpy x y) (map (\<lambda>y. (0, y)) (drop l ys)) c2;
           ds = ds1 @ ds2 @ ds3 @ (if c3 \<noteq> 0 then [c3] else [])
       in store z ds (int (length ds))))"

definition unsigned_sub :: "Integer \<Rightarrow> Integer \<Rightarrow> Integer \<Rightarrow> Integer run" where
  "unsigned_sub x y z =
     (let xl = ilength x; yl = ilength y in
      bindR (digits_upto x (max xl yl)) (\<lambda>xs. bindR (live y) (\<lambda>ys.
       let (ds1, c1) = chain (\<lambda>(x, y). xmy x y) (zip (take yl xs) ys) 0;
           (ds2, c2) = chain (\<lambda>(x, y). xmy x y) (map (\<lambda>x. (x, 0)) (drop yl xs)) c1;
           ds = ds1 @ ds2
       in bindR (store z ds 0) (\<lambda>z'.
            if c2 \<noteq> 0 then raise (Fatal ''negative result'')
            else ret (set_signed_length z' (int (trim_length ds (length ds))))))))"

text \<open>
  \<^verbatim>\<open>unsigned_mul\<close>: the inner loop adds \<open>d * y\<close> into \<open>z\<close> from index \<open>k\<close> on. The outer loop
  increments \<^verbatim>\<open>i\<close> only inside \<^verbatim>\<open>if ( d not_eq 0 )\<close>: on a zero digit its body does nothing, so
  the recursive call is the same call again.
\<close>

fun mul_inner :: "digit \<Rightarrow> digit list \<Rightarrow> digit list \<Rightarrow> nat \<Rightarrow> digit \<Rightarrow> digit list \<times> nat \<times> digit" where
  "mul_inner d [] z k c = (z, k, c)"
| "mul_inner d (y # ys) z k c =
     (let (r, c') = axpy d y (z ! k) c in mul_inner d ys (z[k := r]) (Suc k) c')"

partial_function (option) mul_outer ::
  "digit list \<Rightarrow> digit list \<Rightarrow> nat \<Rightarrow> nat \<Rightarrow> digit list \<Rightarrow> (digit list \<times> nat) run" where
  "mul_outer xs ys i k z =
     (if i < length xs
      then let d = xs ! i in
           if d \<noteq> 0
           then let (z1, k1, c) = mul_inner d ys z i 0;
                    (z2, k2) = (if c \<noteq> 0 then (z1[k1 := c], Suc k1) else (z1, k1))
                in mul_outer xs ys (Suc i) k2 z2
           else mul_outer xs ys i k z
      else ret (z, k))"

definition unsigned_mul :: "Integer \<Rightarrow> Integer \<Rightarrow> Integer \<Rightarrow> Integer run" where
  "unsigned_mul x y z =
     (let xl = ilength x; yl = ilength y in
      bindR (store z (replicate (xl + yl) 0) (signed_length z)) (\<lambda>z0.
      bindR (live x) (\<lambda>xs. bindR (live y) (\<lambda>ys.
      bindR (mul_outer xs ys 0 0 (take (xl + yl) (digits z0))) (\<lambda>(ds, k).
        store z0 ds (int k))))))"

fun cmp_index :: "digit list \<Rightarrow> digit list \<Rightarrow> nat \<Rightarrow> nat" where
  "cmp_index xs ys 0 = 0"
| "cmp_index xs ys (Suc i) = (if xs ! Suc i = ys ! Suc i then cmp_index xs ys i else Suc i)"

definition unsigned_cmp :: "Integer \<Rightarrow> Integer \<Rightarrow> int run" where
  "unsigned_cmp x y =
     (let xl = ilength x; yl = ilength y in
      if xl = yl \<and> xl > 0
      then bindR (live x) (\<lambda>xs. bindR (live y) (\<lambda>ys.
             let i = cmp_index xs ys (xl - 1) in
             if xs ! i < ys ! i then ret (-1) else ret (if xs ! i \<noteq> ys ! i then 1 else 0)))
      else ret (int xl - int yl))"

definition scale :: "digit list \<Rightarrow> digit \<Rightarrow> digit list \<times> digit" where
  "scale array factor = chain (\<lambda>(x, y). axpy factor x y) (map (\<lambda>d. (d, 0)) array) 0"

text \<open>\<^verbatim>\<open>last_digit\<close> divides \<open>x\<close> in place, from the top digit down.\<close>

fun divide_down :: "digit list \<Rightarrow> digit \<Rightarrow> digit \<Rightarrow> (digit list \<times> digit) run" where
  "divide_down [] b c = ret ([], c)"
| "divide_down (d # ds) b c =
     bindR (xdy d b c) (\<lambda>(q, c1). bindR (divide_down ds b c1) (\<lambda>(qs, c2). ret (q # qs, c2)))"

definition last_digit :: "Integer \<Rightarrow> digit \<Rightarrow> (Integer \<times> digit) run" where
  "last_digit x b =
     bindR (live x) (\<lambda>xs. bindR (divide_down (rev xs) b 0) (\<lambda>(qs, c).
       let xl = length xs; ds = rev qs;
           l = (if xl > 0 \<and> ds ! (xl - 1) = 0 then int (xl - 1) else signed_length x)
       in bindR (store x ds l) (\<lambda>x'. ret (x', c))))"

definition first_digit :: "Integer \<Rightarrow> digit \<Rightarrow> digit \<Rightarrow> Integer run" where
  "first_digit x base carry =
     bindR (live x) (\<lambda>xs.
       let (ds, c) = chain (\<lambda>(x, y). axpy base x y) (map (\<lambda>d. (d, 0)) xs) carry;
           ds' = ds @ (if c \<noteq> 0 then [c] else [])
       in store x ds' (int (length ds')))"

subsection \<open>Result lengths and sizes\<close>

definition unsigned_add_result_length :: "Integer \<Rightarrow> Integer \<Rightarrow> nat" where
  "unsigned_add_result_length x y = max (ilength x) (ilength y) + 1"

definition unsigned_sub_result_length :: "Integer \<Rightarrow> Integer \<Rightarrow> nat" where
  "unsigned_sub_result_length x y = ilength x"

definition unsigned_mul_result_length :: "Integer \<Rightarrow> Integer \<Rightarrow> nat" where
  "unsigned_mul_result_length x y = (if is_zero x \<or> is_zero y then 0 else ilength x + ilength y)"

definition unsigned_quo_result_length :: "Integer \<Rightarrow> Integer \<Rightarrow> nat" where
  "unsigned_quo_result_length x y = nat (max (int (ilength x) - int (ilength y) + 1) 0)"

definition unsigned_rem_result_length :: "Integer \<Rightarrow> Integer \<Rightarrow> nat" where
  "unsigned_rem_result_length x y = ilength y"

definition add_result_size_in_bytes :: "Integer \<Rightarrow> Integer \<Rightarrow> nat run" where
  "add_result_size_in_bytes x y =
     bindR (if is_negative x = is_negative y then ret (unsigned_add_result_length x y)
            else bindR (unsigned_cmp x y) (\<lambda>r.
              ret (if r < 0 then unsigned_sub_result_length y x else unsigned_sub_result_length x y)))
       (\<lambda>l. ret (length_to_size_in_bytes l))"

definition sub_result_size_in_bytes :: "Integer \<Rightarrow> Integer \<Rightarrow> nat run" where
  "sub_result_size_in_bytes x y =
     bindR (if is_negative x \<noteq> is_negative y then ret (unsigned_add_result_length x y)
            else bindR (unsigned_cmp x y) (\<lambda>r.
              ret (if r < 0 then unsigned_sub_result_length y x else unsigned_sub_result_length x y)))
       (\<lambda>l. ret (length_to_size_in_bytes l))"

definition mul_result_size_in_bytes :: "Integer \<Rightarrow> Integer \<Rightarrow> nat" where
  "mul_result_size_in_bytes x y = length_to_size_in_bytes (unsigned_mul_result_length x y)"

definition quo_result_size_in_bytes :: "Integer \<Rightarrow> Integer \<Rightarrow> nat" where
  "quo_result_size_in_bytes x y = length_to_size_in_bytes (unsigned_quo_result_length x y)"

definition rem_result_size_in_bytes :: "Integer \<Rightarrow> Integer \<Rightarrow> nat" where
  "rem_result_size_in_bytes x y = length_to_size_in_bytes (unsigned_rem_result_length x y)"

definition div_result_size_in_bytes :: "Integer \<Rightarrow> Integer \<Rightarrow> nat" where
  "div_result_size_in_bytes x y =
     length_to_size_in_bytes
       (if is_negative x = is_negative y then unsigned_quo_result_length x y
        else unsigned_quo_result_length x y + 1)"

definition mod_result_size_in_bytes :: "Integer \<Rightarrow> Integer \<Rightarrow> nat" where
  "mod_result_size_in_bytes x y = length_to_size_in_bytes (unsigned_rem_result_length x y)"

definition copy_result_size_in_bytes :: "Integer \<Rightarrow> nat" where
  "copy_result_size_in_bytes x = size_in_bytes x"

definition int_to_Integer_result_size_in_bytes :: "32 word \<Rightarrow> nat" where
  "int_to_Integer_result_size_in_bytes i = length_to_size_in_bytes (of_bool (i \<noteq> 0))"

definition unsigned_int_to_Integer_result_size_in_bytes :: "32 word \<Rightarrow> nat" where
  "unsigned_int_to_Integer_result_size_in_bytes i = length_to_size_in_bytes (of_bool (i \<noteq> 0))"

section \<open>Signed operations\<close>

definition neg :: "Integer \<Rightarrow> Integer" where
  "neg x = set_signed_length x (- signed_length x)"

definition abs_Integer :: "Integer \<Rightarrow> Integer" where
  "abs_Integer x = (if is_negative x then neg x else x)"

definition add :: "Integer \<Rightarrow> Integer \<Rightarrow> Integer \<Rightarrow> Integer run" where
  "add x y z =
     bindR (if is_negative x = is_negative y then unsigned_add x y z
            else bindR (unsigned_cmp x y) (\<lambda>r.
              if r < 0 then bindR (unsigned_sub y x z) (\<lambda>z'. ret (neg z'))
              else unsigned_sub x y z))
       (\<lambda>z'. ret (if is_negative x then neg z' else z'))"

definition sub :: "Integer \<Rightarrow> Integer \<Rightarrow> Integer \<Rightarrow> Integer run" where
  "sub x y z =
     bindR (if is_negative x \<noteq> is_negative y then unsigned_add x y z
            else bindR (unsigned_cmp x y) (\<lambda>r.
              if r < 0 then bindR (unsigned_sub y x z) (\<lambda>z'. ret (neg z'))
              else unsigned_sub x y z))
       (\<lambda>z'. ret (if is_negative x then neg z' else z'))"

definition mul :: "Integer \<Rightarrow> Integer \<Rightarrow> Integer \<Rightarrow> Integer run" where
  "mul x y z =
     bindR (if is_zero x \<or> is_zero y then ret (set_signed_length z 0)
            else if ilength x < ilength y then unsigned_mul x y z
            else unsigned_mul y x z)
       (\<lambda>z'. ret (if is_negative x \<noteq> is_negative y then neg z' else z'))"

definition cmp :: "Integer \<Rightarrow> Integer \<Rightarrow> int run" where
  "cmp x y =
     (if is_negative x = is_negative y
      then if is_negative x then unsigned_cmp y x else unsigned_cmp x y
      else ret (if is_zero x then - signed_length y else signed_length x))"

definition copy_Integer :: "Integer \<Rightarrow> Integer \<Rightarrow> Integer run" where
  "copy_Integer x z = bindR (live x) (\<lambda>xs. store z xs (signed_length x))"

definition int_to_Integer :: "32 word \<Rightarrow> Integer \<Rightarrow> Integer run" where
  "int_to_Integer i z =
     (if i <s 0 then store z [- i] (-1)
      else if i = 0 then store z [0] 0
      else store z [i] 1)"

definition unsigned_int_to_Integer :: "32 word \<Rightarrow> Integer \<Rightarrow> Integer run" where
  "unsigned_int_to_Integer i z =
     (if i = 0 then ret (set_signed_length z 0) else store z [i] 1)"

end
