(* ===== verification/IntegerArith.thy ===== *)
theory IntegerArith
  imports Integers
begin

text \<open>
  Correctness of the arithmetic of \<^verbatim>\<open>vm/utility/IntegerOps.cpp\<close>: the unsigned operations compute
  sum, difference, product and order of the magnitudes within the buffer sizes the code's own
  \<^verbatim>\<open>..._result_size_in_bytes\<close> functions announce; the signed operations compute the integers'.
  The multiplication is characterised on all inputs: it returns the product exactly when the
  operand its outer loop walks over has no zero digit, and runs for ever otherwise.
\<close>

section \<open>Stored results\<close>

lemma last_nonzero_if_large:
  assumes "length ds = Suc n" and "radix ^ n \<le> nval ds"
  shows "last ds \<noteq> 0"
proof
  assume "last ds = 0"
  moreover have "ds = butlast ds @ [last ds]" using assms(1) by (cases ds) auto
  ultimately have "nval ds = nval (butlast ds)"
    using nval_append [of "butlast ds" "[last ds]"] by simp
  also have "\<dots> < radix ^ n" using nval_less [of "butlast ds"] assms(1) by simp
  finally show False using assms(2) by simp
qed

text \<open>\<open>holds_nat z' n\<close>: \<open>z'\<close> is a well-formed non-negative integer of value \<open>n\<close>.\<close>

definition holds_nat :: "Integer \<Rightarrow> nat \<Rightarrow> bool" where
  "holds_nat z n \<longleftrightarrow> wf_Integer z \<and> 0 \<le> signed_length z \<and> uval z = n"

lemma holds_nat_ival: "holds_nat z n \<Longrightarrow> ival z = int n"
  by (simp add: holds_nat_def ival_def)

lemma holds_nat_wf: "holds_nat z n \<Longrightarrow> wf_Integer z"
  by (simp add: holds_nat_def)

lemma wf_neg [simp]: "wf_Integer (neg z) \<longleftrightarrow> wf_Integer z"
  by (simp add: neg_def set_signed_length_def wf_Integer_def ilength_def)

lemma uval_neg [simp]: "uval (neg z) = uval z"
  by (simp add: neg_def set_signed_length_def uval_def ilength_def)

lemma ilength_neg [simp]: "ilength (neg z) = ilength z"
  by (simp add: neg_def set_signed_length_def ilength_def)

lemma ival_neg [simp]: "wf_Integer z \<Longrightarrow> ival (neg z) = - ival z"
  using uval_eq_0_iff [of z]
  by (auto simp: ival_def neg_def set_signed_length_def uval_def ilength_def)

lemma holds_nat_store:
  assumes "ds = [] \<or> last ds \<noteq> 0"
  shows "holds_nat (z\<lparr>signed_length := int (length ds), digits := ds @ rest\<rparr>) (nval ds)"
  using assms
  by (cases "ds = []")
    (auto simp: holds_nat_def wf_Integer_def ilength_def uval_def nth_append last_conv_nth)

section \<open>Addition and subtraction\<close>

lemma chain_aligned:
  assumes "l = min (length xs) (length ys)"
    and "chain s (zip (take l xs) (take l ys)) c = (ds1, c1)"
    and "chain s (map (\<lambda>x. (x, 0)) (drop l xs)) c1 = (ds2, c2)"
    and "chain s (map (\<lambda>y. (0, y)) (drop l ys)) c2 = (ds3, c3)"
  shows "chain s (aligned l xs ys) c = (ds1 @ ds2 @ ds3, c3)"
  using assms by (simp add: aligned_def chain_append Let_def)

lemma unsigned_add_ret:
  assumes x: "wf_Integer x" and y: "wf_Integer y"
    and z: "max (ilength x) (ilength y) + 1 \<le> length (digits z)"
  shows "\<exists>z'. unsigned_add x y z = ret z' \<and> holds_nat z' (uval x + uval y)"
proof -
  define xs where "xs = take (ilength x) (digits x)"
  define ys where "ys = take (ilength y) (digits y)"
  define l where "l = min (length xs) (length ys)"
  have lx: "length xs = ilength x" and ly: "length ys = ilength y"
    using x y by (simp_all add: xs_def ys_def)
  obtain ds1 c1 where 1: "chain (\<lambda>(x, y). xpy x y) (zip (take l xs) (take l ys)) 0 = (ds1, c1)"
    by (rule prod.exhaust)
  obtain ds2 c2 where 2: "chain (\<lambda>(x, y). xpy x y) (map (\<lambda>x. (x, 0)) (drop l xs)) c1 = (ds2, c2)"
    by (rule prod.exhaust)
  obtain ds3 c3 where 3: "chain (\<lambda>(x, y). xpy x y) (map (\<lambda>y. (0, y)) (drop l ys)) c2 = (ds3, c3)"
    by (rule prod.exhaust)
  define ds where "ds = ds1 @ ds2 @ ds3 @ (if c3 \<noteq> 0 then [c3] else [])"
  have ch: "chain (\<lambda>(x, y). xpy x y) (aligned l xs ys) 0 = (ds1 @ ds2 @ ds3, c3)"
    by (rule chain_aligned [OF l_def 1 2 3])
  have len: "length (ds1 @ ds2 @ ds3) = max (ilength x) (ilength y)"
    using length_chain [OF ch] l_def by (simp add: lx ly)
  have "nval (ds1 @ ds2 @ ds3) + radix ^ length (ds1 @ ds2 @ ds3) * unat c3 = nval xs + nval ys"
    using xpy_chain.chain_sum [OF ch] len l_def wval_aligned [OF l_def] by (simp add: lx ly)
  moreover have "nval ds = nval (ds1 @ ds2 @ ds3) + radix ^ length (ds1 @ ds2 @ ds3) * unat c3"
    using nval_append [of "ds1 @ ds2 @ ds3" "[c3]"] by (simp add: ds_def)
  ultimately have sum: "nval ds = uval x + uval y"
    by (simp add: uval_def xs_def ys_def)
  have nz: "ds = [] \<or> last ds \<noteq> 0"
  proof (cases "c3 = 0")
    case True
    show ?thesis
    proof (cases "ds = []")
      case False
      then obtain n where n: "length ds = Suc n" by (cases ds) auto
      have "Suc n = max (ilength x) (ilength y)" using n len True by (simp add: ds_def)
      then have "Suc n = ilength x \<or> Suc n = ilength y" by linarith
      then have "radix ^ n \<le> uval x \<or> radix ^ n \<le> uval y"
        using uval_lower [OF x] uval_lower [OF y] by (metis Suc_neq_Zero diff_Suc_1)
      then have "radix ^ n \<le> nval ds" using sum by linarith
      with n show ?thesis by (simp add: last_nonzero_if_large)
    qed simp
  qed (simp add: ds_def)
  have "length ds \<le> length (ds1 @ ds2 @ ds3) + 1"
    by (simp add: ds_def)
  then have "length ds \<le> length (digits z)"
    using len z by linarith
  then have "unsigned_add x y z =
      ret (z\<lparr>signed_length := int (length ds), digits := ds @ drop (length ds) (digits z)\<rparr>)"
    using x y 1 2 3 unfolding l_def
    by (simp add: unsigned_add_def Let_def ds_def xs_def [symmetric] ys_def [symmetric])
  then show ?thesis using holds_nat_store [OF nz, where z = z] unfolding sum by blast
qed

lemma unsigned_sub_ret:
  assumes x: "wf_Integer x" and y: "wf_Integer y" and le: "uval y \<le> uval x"
    and z: "ilength x \<le> length (digits z)"
  shows "\<exists>z'. unsigned_sub x y z = ret z' \<and> holds_nat z' (uval x - uval y)"
proof -
  define xs where "xs = take (ilength x) (digits x)"
  define ys where "ys = take (ilength y) (digits y)"
  define yl where "yl = ilength y"
  have yx: "ilength y \<le> ilength x"
    using uval_mono_length [OF y, of x] le by (meson not_less)
  have lx: "length xs = ilength x" and ly: "length ys = yl"
    using x y by (simp_all add: xs_def ys_def yl_def)
  have yl: "yl = min (length xs) (length ys)"
    using yx by (simp add: lx ly yl_def)
  obtain ds1 c1 where 1: "chain (\<lambda>(x, y). xmy x y) (zip (take yl xs) ys) 0 = (ds1, c1)"
    by (rule prod.exhaust)
  obtain ds2 c2 where 2: "chain (\<lambda>(x, y). xmy x y) (map (\<lambda>x. (x, 0)) (drop yl xs)) c1 = (ds2, c2)"
    by (rule prod.exhaust)
  define ds where "ds = ds1 @ ds2"
  have ch: "chain (\<lambda>(x, y). xmy x y) (aligned yl xs ys) 0 = (ds, c2)"
    using chain_aligned [OF yl, of "\<lambda>(x, y). xmy x y" 0 ds1 c1 ds2 c2 "[]" c2] 1 2
    by (simp add: ly ds_def)
  have len: "length ds = ilength x"
    using length_chain [OF ch] yl yx by (simp add: lx ly yl_def)
  have diff: "nval ds + uval y = uval x + radix ^ ilength x * unat c2 \<and> unat c2 \<le> 1"
    using xmy_chain.chain_diff [OF ch] wval_aligned_fst [OF yl] wval_aligned_snd [OF yl] yl yx
    by (simp add: uval_def xs_def [symmetric] ys_def [symmetric] lx ly yl_def max_def)
  have "unat c2 = 0"
  proof (rule ccontr)
    assume "unat c2 \<noteq> 0"
    then have "unat c2 = 1" using diff by linarith
    then have "nval ds + uval y = uval x + radix ^ ilength x" using diff by simp
    then show False using nval_less [of ds] len le by simp
  qed
  then have c2: "c2 = 0" by (simp add: unat_eq_zero)
  define l where "l = trim_length ds (length ds)"
  define z' where "z' = z\<lparr>signed_length := int l, digits := ds @ drop (length ds) (digits z)\<rparr>"
  have ll: "l \<le> length ds" by (simp add: l_def trim_length_le)
  have "unsigned_sub x y z = ret z'"
    using x y yx z 1 2 len c2
    by (simp add: unsigned_sub_def Let_def digits_upto_def wf_Integer_def live_def z'_def l_def
        set_signed_length_def ds_def xs_def ys_def yl_def max_def)
  moreover have "holds_nat z' (uval x - uval y)"
  proof -
    have "nval (take l ds) = uval x - uval y"
      using diff c2 nval_trim [of "length ds" ds] by (simp add: l_def)
    then have "uval z' = uval x - uval y" using ll by (simp add: z'_def uval_store)
    moreover have "l = 0 \<or> ds ! (l - 1) \<noteq> 0" using trim_length_last [of ds "length ds"] by (auto simp: l_def)
    then have "wf_Integer z'" using ll by (simp add: z'_def wf_store)
    ultimately show ?thesis by (simp add: holds_nat_def z'_def)
  qed
  ultimately show ?thesis by blast
qed

section \<open>Comparison\<close>

lemma cmp_index_le: "cmp_index xs ys i \<le> i"
  by (induction i) auto

lemma nval_snoc_less:
  "nval as < radix ^ length as \<Longrightarrow> nval bs < radix ^ length as \<Longrightarrow> length bs = length as \<Longrightarrow>
   unat a < unat b \<Longrightarrow> nval (as @ [a]) < nval (bs @ [b])"
proof -
  assume "nval as < radix ^ length as" "length bs = length as" "unat a < unat b"
  then have "nval (as @ [a]) < radix ^ length as * (unat a + 1)" by (simp add: nval_append)
  also have "\<dots> \<le> radix ^ length as * unat b" using \<open>unat a < unat b\<close> by (intro mult_le_mono2) simp
  also have "\<dots> \<le> nval (bs @ [b])" using \<open>length bs = length as\<close> by (simp add: nval_append)
  finally show ?thesis .
qed

lemma cmp_index_order:
  assumes "length xs = length ys" and "i < length xs"
  shows "(xs ! cmp_index xs ys i < ys ! cmp_index xs ys i \<longleftrightarrow> nval (take (Suc i) xs) < nval (take (Suc i) ys))
       \<and> (xs ! cmp_index xs ys i = ys ! cmp_index xs ys i \<longleftrightarrow> nval (take (Suc i) xs) = nval (take (Suc i) ys))"
  using assms(2)
proof (induction i)
  case 0
  then show ?case
    using assms(1) by (simp add: take_Suc_conv_app_nth word_less_nat_alt word_unat_eq_iff)
next
  case (Suc i)
  have tk: "take (Suc (Suc i)) xs = take (Suc i) xs @ [xs ! Suc i]"
    "take (Suc (Suc i)) ys = take (Suc i) ys @ [ys ! Suc i]"
    using Suc.prems assms(1) by (simp_all add: take_Suc_conv_app_nth)
  show ?case
  proof (cases "xs ! Suc i = ys ! Suc i")
    case True
    then show ?thesis using Suc assms(1) by (simp add: tk nval_append)
  next
    case False
    have less: "nval (take (Suc i) xs) < radix ^ length (take (Suc i) xs)"
      "nval (take (Suc i) ys) < radix ^ length (take (Suc i) xs)"
      and len: "length (take (Suc i) ys) = length (take (Suc i) xs)"
      using nval_less [of "take (Suc i) xs"] nval_less [of "take (Suc i) ys"] assms(1) by simp_all
    consider (lt) "unat (xs ! Suc i) < unat (ys ! Suc i)" | (gt) "unat (ys ! Suc i) < unat (xs ! Suc i)"
      using False by (metis linorder_neqE_nat word_unat_eq_iff)
    then show ?thesis
    proof cases
      case lt
      with nval_snoc_less [OF less len lt] False show ?thesis
        by (simp only: tk cmp_index.simps if_False word_less_nat_alt) simp
    next
      case gt
      with nval_snoc_less [OF less(2)[unfolded len [symmetric]] less(1)[unfolded len [symmetric]] len [symmetric] gt] False
      show ?thesis by (simp only: tk cmp_index.simps if_False word_less_nat_alt) simp
    qed
  qed
qed

lemma unsigned_cmp_ret:
  assumes x: "wf_Integer x" and y: "wf_Integer y"
  shows "\<exists>r. unsigned_cmp x y = ret r \<and> (r < 0 \<longleftrightarrow> uval x < uval y) \<and> (r = 0 \<longleftrightarrow> uval x = uval y)"
proof (cases "ilength x = ilength y \<and> ilength x > 0")
  case True
  then have i: "ilength x - 1 < length (take (ilength x) (digits x))"
    using x by (simp add: wf_Integer_def)
  have l: "length (take (ilength x) (digits x)) = length (take (ilength y) (digits y))"
    using True x y by (simp add: wf_Integer_def)
  show ?thesis
    using True x y cmp_index_order [OF l i]
    by (auto simp: unsigned_cmp_def Let_def uval_def)
next
  case False
  show ?thesis
  proof (cases "ilength x = ilength y")
    case True
    with False show ?thesis by (simp add: unsigned_cmp_def uval_def)
  next
    case False
    with uval_mono_length [OF y, of x] uval_mono_length [OF x, of y]
    have "ilength x < ilength y \<and> uval x < uval y \<or> ilength y < ilength x \<and> uval y < uval x"
      by linarith
    then show ?thesis by (elim disjE) (auto simp: unsigned_cmp_def Let_def)
  qed
qed

section \<open>Signed addition, subtraction and comparison\<close>

lemma add_ret:
  assumes x: "wf_Integer x" and y: "wf_Integer y"
    and n: "add_result_size_in_bytes x y = ret n" and z: "n \<le> capacity_in_bytes z"
  shows "\<exists>z'. add x y z = ret z' \<and> wf_Integer z' \<and> ival z' = ival x + ival y"
proof (cases "is_negative x = is_negative y")
  case True
  then have "max (ilength x) (ilength y) + 1 \<le> length (digits z)"
    using n z by (auto simp: add_result_size_in_bytes_def unsigned_add_result_length_def)
  then obtain z' where "unsigned_add x y z = ret z'" and h: "holds_nat z' (uval x + uval y)"
    using unsigned_add_ret [OF x y] by blast
  with True show ?thesis
    by (auto simp: add_def holds_nat_wf holds_nat_ival ival_def [of x] ival_def [of y] is_negative_def)
next
  case False
  obtain r where r: "unsigned_cmp x y = ret r" "r < 0 \<longleftrightarrow> uval x < uval y"
    using unsigned_cmp_ret [OF x y] by blast
  show ?thesis
  proof (cases "r < 0")
    case True
    then have "ilength y \<le> length (digits z)"
      using n z False r by (auto simp: add_result_size_in_bytes_def unsigned_sub_result_length_def)
    then obtain z' where "unsigned_sub y x z = ret z'" and h: "holds_nat z' (uval y - uval x)"
      using unsigned_sub_ret [OF y x] r True by fastforce
    with True False r show ?thesis
      by (auto simp: add_def holds_nat_wf holds_nat_ival ival_def [of x] ival_def [of y] is_negative_def)
  next
    case nr: False
    then have "ilength x \<le> length (digits z)"
      using n z False r by (auto simp: add_result_size_in_bytes_def unsigned_sub_result_length_def)
    then obtain z' where "unsigned_sub x y z = ret z'" and h: "holds_nat z' (uval x - uval y)"
      using unsigned_sub_ret [OF x y] r nr by fastforce
    with nr False r show ?thesis
      by (auto simp: add_def holds_nat_wf holds_nat_ival ival_def [of x] ival_def [of y] is_negative_def)
  qed
qed

text \<open>\<^verbatim>\<open>sub\<close> is \<^verbatim>\<open>add\<close> of the negated second operand, as long as that one is not zero.\<close>

lemma sub_ret:
  assumes x: "wf_Integer x" and y: "wf_Integer y"
    and n: "sub_result_size_in_bytes x y = ret n" and z: "n \<le> capacity_in_bytes z"
  shows "\<exists>z'. sub x y z = ret z' \<and> wf_Integer z' \<and> ival z' = ival x - ival y"
proof (cases "is_negative x = is_negative y")
  case False
  then have "max (ilength x) (ilength y) + 1 \<le> length (digits z)"
    using n z by (auto simp: sub_result_size_in_bytes_def unsigned_add_result_length_def)
  then obtain z' where "unsigned_add x y z = ret z'" and h: "holds_nat z' (uval x + uval y)"
    using unsigned_add_ret [OF x y] by blast
  with False show ?thesis
    by (auto simp: sub_def holds_nat_wf holds_nat_ival ival_def [of x] ival_def [of y] is_negative_def)
next
  case True
  obtain r where r: "unsigned_cmp x y = ret r" "r < 0 \<longleftrightarrow> uval x < uval y"
    using unsigned_cmp_ret [OF x y] by blast
  show ?thesis
  proof (cases "r < 0")
    case neg: True
    then have "ilength y \<le> length (digits z)"
      using n z True r by (auto simp: sub_result_size_in_bytes_def unsigned_sub_result_length_def)
    then obtain z' where "unsigned_sub y x z = ret z'" and h: "holds_nat z' (uval y - uval x)"
      using unsigned_sub_ret [OF y x] r neg by fastforce
    with True neg r show ?thesis
      by (auto simp: sub_def holds_nat_wf holds_nat_ival ival_def [of x] ival_def [of y] is_negative_def)
  next
    case nr: False
    then have "ilength x \<le> length (digits z)"
      using n z True r by (auto simp: sub_result_size_in_bytes_def unsigned_sub_result_length_def)
    then obtain z' where "unsigned_sub x y z = ret z'" and h: "holds_nat z' (uval x - uval y)"
      using unsigned_sub_ret [OF x y] r nr by fastforce
    with nr True r show ?thesis
      by (auto simp: sub_def holds_nat_wf holds_nat_ival ival_def [of x] ival_def [of y] is_negative_def)
  qed
qed

lemma add_size_ret: "wf_Integer x \<Longrightarrow> wf_Integer y \<Longrightarrow> \<exists>n. add_result_size_in_bytes x y = ret n"
  using unsigned_cmp_ret [of x y] by (auto simp: add_result_size_in_bytes_def)

lemma sub_size_ret: "wf_Integer x \<Longrightarrow> wf_Integer y \<Longrightarrow> \<exists>n. sub_result_size_in_bytes x y = ret n"
  using unsigned_cmp_ret [of x y] by (auto simp: sub_result_size_in_bytes_def)

lemma cmp_ret:
  assumes x: "wf_Integer x" and y: "wf_Integer y"
  shows "\<exists>r. cmp x y = ret r \<and> (r < 0 \<longleftrightarrow> ival x < ival y) \<and> (r = 0 \<longleftrightarrow> ival x = ival y)"
proof (cases "is_negative x = is_negative y")
  case True
  then show ?thesis
    using unsigned_cmp_ret [OF x y] unsigned_cmp_ret [OF y x]
    by (auto simp: cmp_def ival_def is_negative_def)
next
  case False
  then show ?thesis
    using ival_sign [OF x] ival_sign [OF y]
    by (auto simp: cmp_def is_negative_def is_zero_def is_positive_def)
qed

section \<open>Multiplication\<close>

lemma mul_inner_ret:
  assumes "mul_inner d ys z k c = (z', k', c')" and "k + length ys \<le> length z"
  shows "k' = k + length ys \<and> length z' = length z
    \<and> nval z' + radix ^ k' * unat c' = nval z + radix ^ k * (unat d * nval ys + unat c)
    \<and> (\<forall>j. k' \<le> j \<longrightarrow> z' ! j = z ! j)"
  using assms
proof (induction d ys z k c arbitrary: z' k' c' rule: mul_inner.induct)
  case (1 d z k c)
  then show ?case by simp
next
  case (2 d y ys z k c)
  obtain r c1 where s: "axpy d y (z ! k) c = (r, c1)" by fastforce
  have k: "k < length z" using "2.prems"(2) by simp
  have IH: "k' = Suc k + length ys \<and> length z' = length (z[k := r])
    \<and> nval z' + radix ^ k' * unat c' = nval (z[k := r]) + radix ^ Suc k * (unat d * nval ys + unat c1)
    \<and> (\<forall>j. k' \<le> j \<longrightarrow> z' ! j = z[k := r] ! j)"
  proof (rule "2.IH" [OF s [symmetric] refl])
    show "mul_inner d ys (z[k := r]) (Suc k) c1 = (z', k', c')" using "2.prems"(1) s by simp
    show "Suc k + length ys \<le> length (z[k := r])" using "2.prems"(2) by simp
  qed
  have "radix ^ k * (unat r + radix * unat c1) = radix ^ k * (unat d * unat y + unat (z ! k) + unat c)"
    using axpy_step [OF s] by simp
  moreover have "nval (z[k := r]) + radix ^ k * unat (z ! k) = nval z + radix ^ k * unat r"
    using k by (rule nval_update)
  ultimately have "nval z' + radix ^ k' * unat c' = nval z + radix ^ k * (unat d * nval (y # ys) + unat c)"
    using IH [THEN conjunct2, THEN conjunct2, THEN conjunct1] by (simp add: algebra_simps)
  with IH show ?case by simp
qed

lemma mul_outer_ret:
  assumes "\<forall>j. i \<le> j \<longrightarrow> j < length xs \<longrightarrow> xs ! j \<noteq> 0" and "i \<le> length xs"
    and "length z = length xs + length ys" and "ys \<noteq> []"
    and "\<forall>j. i + length ys \<le> j \<longrightarrow> j < length z \<longrightarrow> z ! j = 0"
    and "i = 0 \<or> (k = i + length ys - 1 \<or> k = i + length ys \<and> z ! (k - 1) \<noteq> 0)"
    and "i = 0 \<or> (\<forall>j. k \<le> j \<longrightarrow> j < length z \<longrightarrow> z ! j = 0)"
  shows "\<exists>z' k'. mul_outer xs ys i k z = ret (z', k') \<and> length z' = length z
    \<and> nval z' = nval z + radix ^ i * nval (drop i xs) * nval ys
    \<and> (xs \<noteq> [] \<longrightarrow> (k' = length z - 1 \<or> k' = length z \<and> z' ! (k' - 1) \<noteq> 0)
        \<and> (\<forall>j. k' \<le> j \<longrightarrow> j < length z \<longrightarrow> z' ! j = 0))"
  using assms
proof (induction "length xs - i" arbitrary: i k z)
  case 0
  then show ?case by (auto simp: mul_outer.simps [of xs ys i])
next
  case (Suc n)
  then have i: "i < length xs" by simp
  have d: "xs ! i \<noteq> 0" using Suc.prems(1) i by blast
  obtain z1 k1 c where mi: "mul_inner (xs ! i) ys z i 0 = (z1, k1, c)" by (cases "mul_inner (xs ! i) ys z i 0") auto
  have "i + length ys \<le> length z" using i Suc.prems(3) by simp
  note mm = mul_inner_ret [OF mi this]
  from mm have m: "k1 = i + length ys" "length z1 = length z" "\<forall>j. k1 \<le> j \<longrightarrow> z1 ! j = z ! j"
    by blast+
  from mm have "nval z1 + radix ^ k1 * unat c = nval z + radix ^ i * (unat (xs ! i) * nval ys + unat (0 :: digit))"
    by blast
  then have m4: "nval z1 + radix ^ k1 * unat c = nval z + radix ^ i * (unat (xs ! i) * nval ys)"
    by simp
  define z2 where "z2 = (if c \<noteq> 0 then z1[k1 := c] else z1)"
  define k2 where "k2 = (if c \<noteq> 0 then Suc k1 else k1)"
  have k1: "k1 < length z1" using m i Suc.prems(3) by simp
  have z1k: "z1 ! k1 = 0" using m k1 Suc.prems(5) by simp
  have v2: "nval z2 = nval z + radix ^ i * (unat (xs ! i) * nval ys)"
    using m4 nval_update [OF k1, of c] z1k by (cases "c = 0") (simp_all add: z2_def)
  have hi: "\<forall>j. Suc i + length ys \<le> j \<longrightarrow> j < length z2 \<longrightarrow> z2 ! j = 0"
    using m Suc.prems(5) by (auto simp: z2_def nth_list_update)
  have top: "\<forall>j. k2 \<le> j \<longrightarrow> j < length z2 \<longrightarrow> z2 ! j = 0"
    using m Suc.prems(5) by (auto simp: z2_def k2_def nth_list_update)
  have l2: "length z2 = length z" using m(2) by (simp add: z2_def)
  have kk: "k2 = Suc i + length ys - 1 \<or> k2 = Suc i + length ys \<and> z2 ! (k2 - 1) \<noteq> 0"
    using m(1) k1 by (auto simp: k2_def z2_def)
  have step: "mul_outer xs ys i k z = mul_outer xs ys (Suc i) k2 z2"
    using i d mi by (simp add: mul_outer.simps [of xs ys i] z2_def k2_def)
  have dr: "nval (drop i xs) = unat (xs ! i) + radix * nval (drop (Suc i) xs)"
    using Cons_nth_drop_Suc [OF i, symmetric] by simp
  have "\<exists>z' k'. mul_outer xs ys (Suc i) k2 z2 = ret (z', k') \<and> length z' = length z2
    \<and> nval z' = nval z2 + radix ^ Suc i * nval (drop (Suc i) xs) * nval ys
    \<and> (xs \<noteq> [] \<longrightarrow> (k' = length z2 - 1 \<or> k' = length z2 \<and> z' ! (k' - 1) \<noteq> 0)
        \<and> (\<forall>j. k' \<le> j \<longrightarrow> j < length z2 \<longrightarrow> z' ! j = 0))"
    using Suc.hyps(2) Suc.prems(1,3,4) i hi top l2 kk by (intro Suc.hyps(1)) auto
  then show ?case
    using v2 by (auto simp: step l2 dr algebra_simps)
qed

text \<open>A zero digit stops the outer loop's progress: it never returns.\<close>

lemma mul_outer_returns:
  assumes "mul_outer xs ys i k z = Some r" and "i \<le> j" and "j < length xs"
  shows "xs ! j \<noteq> 0"
proof -
  have "\<forall>j. i \<le> j \<longrightarrow> j < length xs \<longrightarrow> xs ! j \<noteq> 0"
  proof (rule mul_outer.raw_induct [where P = "\<lambda>xs ys i k z r. \<forall>j. i \<le> j \<longrightarrow> j < length xs \<longrightarrow> xs ! j \<noteq> 0", OF _ assms(1)])
    fix f xs ys i k z r
    assume IH: "\<And>xs ys i k z r. f xs ys i k z = Some r \<Longrightarrow> \<forall>j\<ge>i. j < length xs \<longrightarrow> xs ! j \<noteq> (0 :: digit)"
      and eq: "(if i < length xs
          then let d = xs ! i
               in if d \<noteq> 0
                  then let (z1, k1, c) = mul_inner d ys z i 0;
                           (z2, k2) = if c \<noteq> 0 then (z1[k1 := c], Suc k1) else (z1, k1)
                       in f xs ys (Suc i) k2 z2
                  else f xs ys i k z
          else ret (z, k)) = Some r"
    show "\<forall>j\<ge>i. j < length xs \<longrightarrow> xs ! j \<noteq> 0"
    proof (cases "i < length xs")
      case True
      show ?thesis
      proof (cases "xs ! i = 0")
        case z: True
        with eq True have "f xs ys i k z = Some r" by simp
        from IH [OF this] show ?thesis .
      next
        case False
        with eq True obtain k2 z2 where "f xs ys (Suc i) k2 z2 = Some r"
          by (auto simp: Let_def split: prod.splits if_splits)
        from IH [OF this] False show ?thesis
          by (metis Suc_leI le_neq_implies_less)
      qed
    qed auto
  qed
  with assms(2,3) show ?thesis by blast
qed

definition no_zero_digit :: "Integer \<Rightarrow> bool" where
  "no_zero_digit x \<longleftrightarrow> (0 :: digit) \<notin> set (take (ilength x) (digits x))"

lemma unsigned_mul_ret:
  assumes x: "wf_Integer x" and y: "wf_Integer y"
    and "\<not> is_zero x" and "\<not> is_zero y" and nz: "no_zero_digit x"
    and z: "ilength x + ilength y \<le> length (digits z)"
  shows "\<exists>z'. unsigned_mul x y z = ret z' \<and> holds_nat z' (uval x * uval y)"
proof -
  define xs where "xs = take (ilength x) (digits x)"
  define ys where "ys = take (ilength y) (digits y)"
  define n where "n = ilength x + ilength y"
  have len: "length xs = ilength x" "length ys = ilength y"
    using x y by (simp_all add: xs_def ys_def)
  have pos: "0 < ilength x" "0 < ilength y" using assms(3,4) by (simp_all add: is_zero_iff)
  have xs: "xs \<noteq> []" "ys \<noteq> []" using pos len by auto
  obtain ds k where mo: "mul_outer xs ys 0 0 (replicate n 0) = ret (ds, k)" and ld: "length ds = n"
    and v: "nval ds = nval xs * nval ys"
    and k: "k = n - 1 \<or> k = n \<and> ds ! (k - 1) \<noteq> 0" and hi: "\<forall>j. k \<le> j \<longrightarrow> j < n \<longrightarrow> ds ! j = 0"
    using mul_outer_ret [of 0 xs "replicate n 0" ys 0] nz xs len
    by (auto simp: n_def no_zero_digit_def xs_def [symmetric] in_set_conv_nth)
  define z0 where "z0 = z\<lparr>digits := replicate n 0 @ drop n (digits z)\<rparr>"
  define z' where "z' = z0\<lparr>signed_length := int k, digits := ds @ drop n (digits z)\<rparr>"
  have um: "unsigned_mul x y z = ret z'"
    using x y z mo ld
    by (simp add: unsigned_mul_def Let_def z'_def z0_def n_def xs_def ys_def)
  have kn: "k \<le> n" using k by linarith
  have "drop k ds = replicate (n - k) 0"
    using hi ld by (auto intro!: nth_equalityI)
  then have vk: "nval (take k ds) = nval ds"
    using nval_take_drop [of ds k] by simp
  have "radix ^ (n - 2) \<le> nval ds"
  proof -
    have "radix ^ (ilength x - 1) * radix ^ (ilength y - 1) \<le> uval x * uval y"
      using uval_lower [OF x] uval_lower [OF y] pos by (intro mult_le_mono) simp_all
    moreover have "n - 2 = (ilength x - 1) + (ilength y - 1)" using pos by (simp add: n_def)
    ultimately show ?thesis by (simp add: v uval_def xs_def ys_def power_add)
  qed
  then have "ds ! (k - 1) \<noteq> 0" if "k = n - 1"
  proof -
    have "length (take k ds) = Suc (n - 2)" using that pos ld by (simp add: n_def)
    then have "last (take k ds) \<noteq> 0"
      using last_nonzero_if_large vk \<open>radix ^ (n - 2) \<le> nval ds\<close> by metis
    moreover have "take k ds \<noteq> []" using \<open>length (take k ds) = Suc (n - 2)\<close> by auto
    moreover have "length (take k ds) = k" using kn ld by simp
    ultimately show ?thesis by (metis diff_less last_conv_nth length_greater_0_conv nth_take zero_less_one)
  qed
  with k have "k = 0 \<or> ds ! (k - 1) \<noteq> 0" by blast
  then have "wf_Integer z'" unfolding z'_def using kn ld by (intro wf_store) auto
  moreover have "uval z' = nval (take k ds)" unfolding z'_def using kn ld by (subst uval_store) auto
  ultimately have "holds_nat z' (uval x * uval y)"
    using vk v by (simp add: holds_nat_def z'_def uval_def xs_def ys_def)
  with um show ?thesis by blast
qed

lemma unsigned_mul_forever:
  assumes x: "wf_Integer x" and y: "wf_Integer y" and nz: "\<not> no_zero_digit x"
    and z: "ilength x + ilength y \<le> length (digits z)"
  shows "unsigned_mul x y z = None"
proof -
  let ?xs = "take (ilength x) (digits x)"
  obtain j where "j < length ?xs" "?xs ! j = 0"
    using nz unfolding no_zero_digit_def in_set_conv_nth by blast
  then have "mul_outer ?xs ys 0 0 ds = None" for ys ds
    using mul_outer_returns [of ?xs ys 0 0 ds _ j] by (cases "mul_outer ?xs ys 0 0 ds") auto
  then show ?thesis
    using x y z by (simp add: unsigned_mul_def Let_def)
qed

text \<open>The operand the outer loop of \<^verbatim>\<open>mul\<close> walks over: the shorter one, the second on a tie.\<close>

definition mul_outer_operand :: "Integer \<Rightarrow> Integer \<Rightarrow> Integer" where
  "mul_outer_operand x y = (if ilength x < ilength y then x else y)"

lemma mul_ret:
  assumes x: "wf_Integer x" and y: "wf_Integer y"
    and z: "mul_result_size_in_bytes x y \<le> capacity_in_bytes z"
    and nz: "is_zero x \<or> is_zero y \<or> no_zero_digit (mul_outer_operand x y)"
  shows "\<exists>z'. mul x y z = ret z' \<and> wf_Integer z' \<and> ival z' = ival x * ival y"
proof (cases "is_zero x \<or> is_zero y")
  case True
  then have "ival x * ival y = 0" by (auto simp: is_zero_iff ival_def uval_def)
  with True show ?thesis
    by (auto simp: mul_def set_signed_length_def wf_Integer_def ilength_def neg_def ival_def uval_def)
next
  case False
  then have cap: "ilength x + ilength y \<le> length (digits z)"
    using z by (simp add: mul_result_size_in_bytes_def unsigned_mul_result_length_def)
  obtain z' where u: "(if ilength x < ilength y then unsigned_mul x y z else unsigned_mul y x z) = ret z'"
    and h: "holds_nat z' (uval x * uval y)"
  proof (cases "ilength x < ilength y")
    case True
    with nz False have "no_zero_digit x" by (simp add: mul_outer_operand_def)
    with True that False unsigned_mul_ret [OF x y _ _ _ cap] show ?thesis by auto
  next
    case ge: False
    with nz False have "no_zero_digit y" by (simp add: mul_outer_operand_def)
    with ge that False unsigned_mul_ret [OF y x] cap show ?thesis by (auto simp: mult.commute add.commute)
  qed
  then show ?thesis
    using False by (auto simp: mul_def holds_nat_wf holds_nat_ival ival_def [of x] ival_def [of y] is_negative_def)
qed

lemma mul_forever:
  assumes x: "wf_Integer x" and y: "wf_Integer y"
    and z: "mul_result_size_in_bytes x y \<le> capacity_in_bytes z"
    and "\<not> is_zero x" and "\<not> is_zero y" and "\<not> no_zero_digit (mul_outer_operand x y)"
  shows "mul x y z = None"
proof -
  have cap: "ilength x + ilength y \<le> length (digits z)"
    using assms by (simp add: mul_result_size_in_bytes_def unsigned_mul_result_length_def)
  then show ?thesis
    using assms unsigned_mul_forever [OF x y _ cap] unsigned_mul_forever [OF y x]
    by (auto simp: mul_def mul_outer_operand_def add.commute split: if_splits)
qed

section \<open>Conversion from machine integers, negation and absolute value\<close>

lemma int_to_Integer_ret:
  assumes "0 < length (digits z)"
  shows "\<exists>z'. int_to_Integer i z = ret z' \<and> wf_Integer z' \<and> ival z' = sint i"
proof -
  have cap: "length [d] \<le> length (digits z)" for d :: digit using assms by (simp add: Suc_le_eq)
  consider (neg) "i <s 0" | (zero) "i = 0" | (pos) "\<not> i <s 0" "i \<noteq> 0" by blast
  then show ?thesis
  proof cases
    case neg
    then have n: "sint i < 0" by (simp add: word_sless_alt)
    then have "i \<noteq> 0" by auto
    have u: "int (unat (- i)) = - sint i" using n by (rule unat_uminus_negative)
    then have "- i \<noteq> 0" using n by auto
    then show ?thesis using neg u
      by (simp add: int_to_Integer_def store_ret [OF cap] wf_Integer_def ilength_def ival_def uval_def)
  next
    case zero
    then show ?thesis
      by (simp add: int_to_Integer_def store_ret [OF cap] wf_Integer_def ilength_def ival_def uval_def)
  next
    case pos
    then have "0 \<le> sint i" by (simp add: word_sless_alt not_less)
    then have "int (unat i) = sint i" by (rule sint_nonneg_unat)
    with pos show ?thesis
      by (simp add: int_to_Integer_def store_ret [OF cap] wf_Integer_def ilength_def ival_def uval_def)
  qed
qed

text \<open>
  For \<open>0\<close> the code still writes \<^verbatim>\<open>_first_digit\<close>, although the size it announces
  (\<^verbatim>\<open>int_to_Integer_result_size_in_bytes\<close>) leaves no room for a digit.
\<close>

lemma int_to_Integer_fault:
  "digits z = [] \<Longrightarrow> int_to_Integer i z = raise Out_Of_Bounds"
  by (simp add: int_to_Integer_def store_def)

lemma abs_Integer_ival: "wf_Integer x \<Longrightarrow> ival (abs_Integer x) = \<bar>ival x\<bar> \<and> wf_Integer (abs_Integer x)"
  using ival_sign(1) [of x] by (auto simp: abs_Integer_def)

lemma copy_Integer_ret:
  assumes "wf_Integer x" and "ilength x \<le> length (digits z)"
  shows "\<exists>z'. copy_Integer x z = ret z' \<and> wf_Integer z' \<and> ival z' = ival x \<and> length (digits z') = length (digits z)"
  using assms
  by (auto simp: copy_Integer_def wf_Integer_def ilength_def ival_def uval_def nth_append)

section \<open>Properties\<close>

text \<open>
  C1. Addition and subtraction are exact. On well-formed arguments the size function returns,
  and in any buffer that holds the announced number of bytes the operation returns a
  well-formed integer (no leading zero digit) whose value is the mathematical sum or
  difference: no digit is written past the announced size, no carry is lost, the fatal
  "negative result" is never reached.
\<close>

theorem add_sub_exact:
  assumes "wf_Integer x" and "wf_Integer y"
  shows "(\<exists>n. add_result_size_in_bytes x y = ret n \<and>
            (\<forall>z. n \<le> capacity_in_bytes z \<longrightarrow>
               (\<exists>z'. add x y z = ret z' \<and> wf_Integer z' \<and> ival z' = ival x + ival y)))
       \<and> (\<exists>n. sub_result_size_in_bytes x y = ret n \<and>
            (\<forall>z. n \<le> capacity_in_bytes z \<longrightarrow>
               (\<exists>z'. sub x y z = ret z' \<and> wf_Integer z' \<and> ival z' = ival x - ival y)))"
  using add_size_ret [OF assms] sub_size_ret [OF assms] add_ret [OF assms] sub_ret [OF assms] by blast

text \<open>Two digits minus one, with a borrow through the whole of the larger operand.\<close>

theorem add_sub_exact_witness:
  "let x = \<lparr>signed_length = 2, digits = [0, 1]\<rparr>; y = \<lparr>signed_length = -1, digits = [1, 7]\<rparr> in
   \<exists>n. add_result_size_in_bytes x y = ret n \<and>
     (\<forall>z. n \<le> capacity_in_bytes z \<longrightarrow>
        (\<exists>z'. add x y z = ret z' \<and> wf_Integer z' \<and> ival z' = 2 ^ 32 - 1))"
proof -
  let ?x = "\<lparr>signed_length = 2, digits = [0, 1]\<rparr>" and ?y = "\<lparr>signed_length = -1, digits = [1, 7]\<rparr>"
  have "wf_Integer ?x" "wf_Integer ?y" by (simp_all add: wf_Integer_def ilength_def)
  moreover have "ival ?x + ival ?y = 2 ^ 32 - 1"
    by (simp add: ival_def uval_def ilength_def nval_def radix_def)
  ultimately show ?thesis using add_sub_exact [of ?x ?y] by (simp add: Let_def)
qed

text \<open>
  C2. \<open>mul\<close> returns exactly when an operand is zero or the operand of its outer loop (the
  shorter one, the second when both are equally long) has no zero digit; then the result is the
  well-formed product, within the announced size. On a zero digit in that operand the loop index
  is not advanced and the code runs for ever.
\<close>

theorem mul_exact_or_forever:
  assumes "wf_Integer x" and "wf_Integer y" and "mul_result_size_in_bytes x y \<le> capacity_in_bytes z"
  shows "if is_zero x \<or> is_zero y \<or> no_zero_digit (mul_outer_operand x y)
         then \<exists>z'. mul x y z = ret z' \<and> wf_Integer z' \<and> ival z' = ival x * ival y
         else mul x y z = None"
  using mul_ret [OF assms] mul_forever [OF assms] by simp

theorem mul_exact_or_forever_witness:
  "(\<exists>z'. mul \<lparr>signed_length = 1, digits = [0xFFFFFFFF]\<rparr> \<lparr>signed_length = -2, digits = [0, 1]\<rparr>
        \<lparr>signed_length = 0, digits = [5, 5, 5]\<rparr> = ret z' \<and> ival z' = - (2 ^ 64) + 2 ^ 32)
   \<and> mul \<lparr>signed_length = 2, digits = [0, 1]\<rparr> \<lparr>signed_length = 2, digits = [0, 1]\<rparr>
        \<lparr>signed_length = 0, digits = [5, 5, 5, 5]\<rparr> = None"
proof
  let ?x = "\<lparr>signed_length = 1, digits = [0xFFFFFFFF]\<rparr>" and ?y = "\<lparr>signed_length = -2, digits = [0, 1]\<rparr>"
  let ?z = "\<lparr>signed_length = 0, digits = [5, 5, 5]\<rparr>"
  have "no_zero_digit (mul_outer_operand ?x ?y)"
    by (simp add: mul_outer_operand_def no_zero_digit_def ilength_def)
  moreover have "ival ?x * ival ?y = - (2 ^ 64) + 2 ^ 32"
    by (simp add: ival_def uval_def ilength_def nval_def radix_def)
  ultimately show "\<exists>z'. mul ?x ?y ?z = ret z' \<and> ival z' = - (2 ^ 64) + 2 ^ 32"
    using mul_exact_or_forever [of ?x ?y ?z]
    by (simp add: wf_Integer_def ilength_def mul_result_size_in_bytes_def capacity_in_bytes_def
        unsigned_mul_result_length_def length_to_size_in_bytes_def is_zero_def) blast
next
  let ?x = "\<lparr>signed_length = 2, digits = [0, 1]\<rparr>" and ?z = "\<lparr>signed_length = 0, digits = [5, 5, 5, 5]\<rparr>"
  show "mul ?x ?x ?z = None"
    using mul_exact_or_forever [of ?x ?x ?z]
    by (simp add: wf_Integer_def ilength_def mul_result_size_in_bytes_def capacity_in_bytes_def
        unsigned_mul_result_length_def length_to_size_in_bytes_def is_zero_def
        mul_outer_operand_def no_zero_digit_def)
qed

text \<open>
  C3. \<open>cmp\<close> decides the order of the values: on well-formed arguments it returns, its result is
  negative exactly when \<open>x\<close> is less than \<open>y\<close>, and zero exactly when they are equal.
\<close>

theorem cmp_decides_order:
  assumes "wf_Integer x" and "wf_Integer y"
  shows "\<exists>r. cmp x y = ret r \<and> (r < 0 \<longleftrightarrow> ival x < ival y) \<and> (r = 0 \<longleftrightarrow> ival x = ival y)"
  using assms by (rule cmp_ret)

theorem cmp_decides_order_witness:
  "\<exists>r. cmp \<lparr>signed_length = -2, digits = [3, 1]\<rparr> \<lparr>signed_length = -2, digits = [2, 1]\<rparr> = ret r \<and> r < 0"
  using cmp_decides_order [of "\<lparr>signed_length = -2, digits = [3, 1]\<rparr>" "\<lparr>signed_length = -2, digits = [2, 1]\<rparr>"]
  by (auto simp: wf_Integer_def ilength_def ival_def uval_def nval_def radix_def)

text \<open>\<open>int_to_Integer\<close> gives a well-formed integer of the signed value, \<open>-2^31\<close> included, in a
  buffer of the announced size; but for 0 the announced size holds no digit and the code writes
  one: in a buffer of exactly that size it writes past the end.
\<close>

theorem int_to_Integer_size:
  "if i = 0
   then capacity_in_bytes z = int_to_Integer_result_size_in_bytes i \<longrightarrow> int_to_Integer i z = raise Out_Of_Bounds
   else int_to_Integer_result_size_in_bytes i \<le> capacity_in_bytes z \<longrightarrow>
        (\<exists>z'. int_to_Integer i z = ret z' \<and> wf_Integer z' \<and> ival z' = sint i)"
proof (cases "i = 0")
  case True
  then show ?thesis
    using int_to_Integer_fault [of z i]
    by (simp add: int_to_Integer_result_size_in_bytes_def capacity_in_bytes_def length_to_size_in_bytes_def)
next
  case False
  then show ?thesis
    using int_to_Integer_ret [of z i]
    by (cases "digits z") (auto simp: int_to_Integer_result_size_in_bytes_def capacity_in_bytes_def
        length_to_size_in_bytes_def)
qed

theorem int_to_Integer_size_witness:
  "int_to_Integer 0 \<lparr>signed_length = 0, digits = []\<rparr> = raise Out_Of_Bounds
   \<and> (\<exists>z'. int_to_Integer 0x80000000 \<lparr>signed_length = 0, digits = [0]\<rparr> = ret z' \<and> ival z' = - (2 ^ 31))"
  using int_to_Integer_size [of 0 "\<lparr>signed_length = 0, digits = []\<rparr>"]
    int_to_Integer_size [of "0x80000000" "\<lparr>signed_length = 0, digits = [0]\<rparr>"]
  by (auto simp: int_to_Integer_result_size_in_bytes_def capacity_in_bytes_def length_to_size_in_bytes_def)

end
