(* ===== verification/IntegerText.thy ===== *)
theory IntegerText
  imports IntegerArith
begin

text \<open>
  \<^verbatim>\<open>vm/utility/IntegerOps.cpp\<close>: large integers as text, and the two digit routines below it,
  \<^verbatim>\<open>last_digit\<close> (divide by the base, return the remainder) and \<^verbatim>\<open>first_digit\<close> (multiply by the
  base and add). A \<^verbatim>\<open>const char *\<close> argument is the characters before its NUL; the \<^verbatim>\<open>char *s\<close> that
  \<^verbatim>\<open>Integer_to_string\<close> fills is the list of the bytes of its buffer.
\<close>

section \<open>Characters\<close>

definition as_Digit :: "char \<Rightarrow> digit run" where
  "as_Digit c =
     (let n = of_char c :: nat in
      if 48 \<le> n \<and> n \<le> 57 then ret (of_nat (n - 48))
      else if 65 \<le> n \<and> n \<le> 90 then ret (of_nat (n - 65) + 10)
      else if 97 \<le> n \<and> n \<le> 122 then ret (of_nat (n - 97) + 10)
      else raise (Fatal ''illegal digit''))"

definition as_char :: "digit \<Rightarrow> char run" where
  "as_char i =
     bindR (guard (0 \<le> sint i \<and> sint i < int DIGITS_BASE) ''illegal digit'')
       (\<lambda>_. ret (''0123456789abcdefghijklmnopqrstuvwxyz'' ! unat i))"

section \<open>Conversions\<close>

fun parse_digits :: "string \<Rightarrow> digit \<Rightarrow> Integer \<Rightarrow> Integer run" where
  "parse_digits [] base z = ret z"
| "parse_digits (c # cs) base z =
     bindR (as_Digit c) (\<lambda>d. bindR (first_digit z base d) (\<lambda>z'. parse_digits cs base z'))"

definition string_to_Integer :: "string \<Rightarrow> digit \<Rightarrow> Integer \<Rightarrow> Integer run" where
  "string_to_Integer s base z =
     bindR (int_to_Integer 0 z) (\<lambda>z0.
       let minus = (s \<noteq> [] \<and> hd s = CHR ''-'') in
       bindR (parse_digits (if minus then tl s else s) base z0) (\<lambda>z1.
         ret (if minus then neg z1 else z1)))"

definition string_to_Integer_result_size_in_bytes :: "string \<Rightarrow> int \<Rightarrow> nat run" where
  "string_to_Integer_result_size_in_bytes s base =
     (if base = 10 then ret (length_to_size_in_bytes (length s div 9 + 1))
      else raise (Fatal ''string conversion with base not equal to 10''))"

definition Integer_to_string_result_size_in_bytes :: "Integer \<Rightarrow> int \<Rightarrow> nat run" where
  "Integer_to_string_result_size_in_bytes x base =
     (if base = 10 then ret ((ilength x + 1) * 10)
      else raise (Fatal ''string conversion with base not equal to 10''))"

text \<open>The \<^verbatim>\<open>do ... while ( t.is_not_zero() )\<close> loop; \<open>acc\<close> is what it has written to \<^verbatim>\<open>s\<close>.\<close>

partial_function (option) convert_digits :: "Integer \<Rightarrow> digit \<Rightarrow> string \<Rightarrow> string run" where
  "convert_digits t base acc =
     bindR (last_digit t base) (\<lambda>r. bindR (as_char (snd r)) (\<lambda>c.
       if is_not_zero (fst r) then convert_digits (fst r) base (acc @ [c]) else ret (acc @ [c])))"

function reverse_range :: "'a list \<Rightarrow> nat \<Rightarrow> nat \<Rightarrow> 'a list" where
  "reverse_range s i j = (if i < j then reverse_range (s[i := s ! j, j := s ! i]) (i + 1) (j - 1) else s)"
  by pat_completeness auto
termination
  by (relation "measure (\<lambda>(s, i, j). j - i)") auto

declare reverse_range.simps [simp del]

text \<open>The local \<^verbatim>\<open>Integer t\<close> has room for its one \<^verbatim>\<open>_first_digit\<close>.\<close>

definition local_Integer :: Integer where
  "local_Integer = \<lparr>signed_length = 0, digits = [0]\<rparr>"

definition Integer_to_string :: "Integer \<Rightarrow> digit \<Rightarrow> string \<Rightarrow> string run" where
  "Integer_to_string x base s =
     bindR (guard (2 \<le> sint base \<and> sint base \<le> int DIGITS_BASE) ''illegal base'') (\<lambda>_.
     bindR (guard (size_in_bytes x \<le> 10001 * 4) ''temporary array too small'') (\<lambda>_.
     bindR (copy_Integer x local_Integer) (\<lambda>t.
     bindR (convert_digits t base []) (\<lambda>ds.
       let out = ds @ (if is_negative x then ''-'' else []) @ [CHR 0x00];
           n = length out - 1
       in if length out \<le> length s
          then ret (reverse_range (out @ drop (length out) s) 0 (n - 1))
          else raise Out_Of_Bounds))))"

section \<open>Division by a digit, from the top\<close>

lemma divide_down_ret:
  assumes "unat c < unat b"
  shows "\<exists>qs c'. divide_down ds b c = ret (qs, c') \<and> length qs = length ds \<and> unat c' < unat b
    \<and> nval (rev qs) * unat b + unat c' = radix ^ length ds * unat c + nval (rev ds)"
  using assms
proof (induction ds arbitrary: c)
  case (Cons d ds)
  have "b \<noteq> 0" using Cons.prems by auto
  then obtain q c1 where s: "xdy d b c = ret (q, c1)" by (auto simp: xdy_def Let_def)
  note st = xdy_step [OF s Cons.prems]
  obtain qs c' where t: "divide_down ds b c1 = ret (qs, c')" "length qs = length ds" "unat c' < unat b"
    and v: "nval (rev qs) * unat b + unat c' = radix ^ length ds * unat c1 + nval (rev ds)"
    using Cons.IH [OF st(2)] by blast
  have "radix ^ length ds * (unat q * unat b + unat c1) = radix ^ length ds * (radix * unat c + unat d)"
    using st(1) by simp
  then have "nval (rev (q # qs)) * unat b + unat c' = radix ^ length (d # ds) * unat c + nval (rev (d # ds))"
    using v by (simp add: nval_append t(2) algebra_simps)
  with s t show ?case by auto
qed simp

lemma last_digit_ret:
  assumes x: "wf_Integer x" and b: "2 \<le> unat b"
  shows "\<exists>x' d. last_digit x b = ret (x', d) \<and> wf_Integer x' \<and> uval x' = uval x div unat b
    \<and> unat d = uval x mod unat b \<and> length (digits x') = length (digits x)"
proof -
  define xs where "xs = take (ilength x) (digits x)"
  have lx: "length xs = ilength x" using x by (simp add: xs_def)
  obtain qs c where dd: "divide_down (rev xs) b 0 = ret (qs, c)" and lq: "length qs = length xs"
    and c: "unat c < unat b" and v: "nval (rev qs) * unat b + unat c = nval xs"
    using divide_down_ret [of 0 b "rev xs"] b by auto
  define ds where "ds = rev qs"
  define l where "l = (if length xs > 0 \<and> ds ! (length xs - 1) = 0 then int (length xs - 1) else signed_length x)"
  have q: "nval ds = uval x div unat b" and r: "unat c = uval x mod unat b"
    using v c b by (auto simp: ds_def uval_def xs_def [symmetric] div_nat_eqI mod_nat_eqI
        dest!: sym [of _ "nval xs"])
  have len: "length ds = ilength x" by (simp add: ds_def lq lx)
  have cap: "length ds \<le> length (digits x)" using len x by (simp add: wf_Integer_def)
  define x' where "x' = x\<lparr>signed_length := l, digits := ds @ drop (length ds) (digits x)\<rparr>"
  have ld: "last_digit x b = ret (x', c)"
    using x dd
    by (simp add: last_digit_def Let_def x'_def l_def store_ret [OF cap] flip: xs_def ds_def)
  have ll: "nat \<bar>l\<bar> \<le> length ds" by (auto simp: l_def len lx ilength_def)
  have vl: "nval (take (nat \<bar>l\<bar>) ds) = nval ds"
  proof (cases "length xs > 0 \<and> ds ! (length xs - 1) = 0")
    case True
    then obtain n where n: "length ds = Suc n" "ds ! n = 0" by (metis Suc_pred' diff_Suc_1 len lx)
    have "ds = take n ds @ [ds ! n]"
      using take_Suc_conv_app_nth [of n ds] n(1) by simp
    then have "nval ds = nval (take n ds) + radix ^ length (take n ds) * nval [ds ! n]"
      by (metis nval_append)
    with True n show ?thesis using len lx by (simp add: l_def)
  next
    case False
    then show ?thesis by (auto simp: l_def ilength_def len)
  qed
  have nz: "l = 0 \<or> ds ! (nat \<bar>l\<bar> - 1) \<noteq> 0"
  proof (rule ccontr)
    assume a: "\<not> (l = 0 \<or> ds ! (nat \<bar>l\<bar> - 1) \<noteq> 0)"
    then have pos: "0 < length xs" and z: "ds ! (length xs - 1) = 0" and l: "l = int (length xs - 1)"
      by (auto simp: l_def lx ilength_def split: if_splits)
    define n where "n = length xs - 2"
    have "length xs - 1 \<noteq> 0" using a l by auto
    then have n: "length xs = Suc (Suc n)" by (simp add: n_def)
    have "nat \<bar>l\<bar> = length xs - 1" using l by simp
    then have d2: "ds ! n = 0" using a n by simp
    have "nval ds < radix ^ n"
    proof -
      have e: "ds = take n ds @ [ds ! n, ds ! Suc n]"
        using take_Suc_conv_app_nth [of n ds] take_Suc_conv_app_nth [of "Suc n" ds] len n lx by simp
      have "nval (take n ds @ [ds ! n, ds ! Suc n]) = nval (take n ds)"
        using n z d2 by (simp add: nval_append)
      with e have "nval ds = nval (take n ds)" by simp
      then show ?thesis using nval_less [of "take n ds"] len n lx by simp
    qed
    then have "nval ds * unat b + unat c < radix ^ n * unat b"
      using c mult_le_mono1 [of "Suc (nval ds)" "radix ^ n" "unat b"] by simp
    also have "\<dots> < radix ^ n * radix" by simp
    finally have "nval ds * unat b + unat c < radix ^ Suc n" by (simp add: mult.commute)
    then have "uval x < radix ^ Suc n" using v by (simp only: uval_def xs_def ds_def)
    moreover have "ilength x - 1 = Suc n" "ilength x \<noteq> 0" using n lx by simp_all
    ultimately show False using uval_lower [OF x] by simp
  qed
  have "wf_Integer x'" unfolding x'_def using ll nz by (rule wf_store)
  moreover have "uval x' = uval x div unat b" unfolding x'_def using ll vl q by (simp add: uval_store)
  moreover have "length (digits x') = length (digits x)" using cap by (simp add: x'_def)
  ultimately show ?thesis using ld r by blast
qed

section \<open>Multiplication by a digit\<close>

lemma first_digit_ret:
  assumes x: "wf_Integer x" and b: "0 < unat b" and sl: "0 \<le> signed_length x"
    and small: "unat b * uval x + unat c < radix ^ length (digits x)"
  shows "\<exists>x'. first_digit x b c = ret x' \<and> holds_nat x' (unat b * uval x + unat c)
    \<and> length (digits x') = length (digits x)"
proof -
  define xs where "xs = take (ilength x) (digits x)"
  have lx: "length xs = ilength x" using x by (simp add: xs_def)
  obtain ds c' where ch: "chain (\<lambda>(x, y). axpy b x y) (map (\<lambda>d. (d, 0)) xs) c = (ds, c')"
    by (rule prod.exhaust)
  define ds' where "ds' = ds @ (if c' \<noteq> 0 then [c'] else [])"
  have len: "length ds = ilength x" using length_chain [OF ch] by (simp add: lx)
  have "nval ds + radix ^ length ds * unat c' = unat b * uval x + unat c"
    using axpy_chain.chain_sum [OF ch]
    by (simp add: wval_map wval_scale len lx uval_def xs_def [symmetric])
  then have v: "nval ds' = unat b * uval x + unat c"
    by (cases "c' = 0") (simp_all add: ds'_def nval_append)
  have nz: "ds' = [] \<or> last ds' \<noteq> 0"
  proof (cases "c' = 0 \<and> ds \<noteq> []")
    case True
    then obtain n where n: "length ds = Suc n" by (cases ds) auto
    then have "radix ^ n \<le> uval x" using uval_lower [OF x] len by simp
    also have "\<dots> \<le> unat b * uval x + unat c" using b by (simp add: trans_le_add1)
    finally show ?thesis using last_nonzero_if_large [OF n] v True by (simp add: ds'_def)
  qed (auto simp: ds'_def)
  have cap: "length ds' \<le> length (digits x)"
  proof (rule ccontr)
    assume "\<not> length ds' \<le> length (digits x)"
    then have "ds' \<noteq> []" and "length (digits x) \<le> length ds' - 1" by auto
    then have "radix ^ length (digits x) \<le> radix ^ (length ds' - 1)" by (intro power_increasing) auto
    also have "\<dots> \<le> nval ds'" using nz \<open>ds' \<noteq> []\<close> nval_last_lower by blast
    finally show False using small v by simp
  qed
  then have "first_digit x b c = ret (x\<lparr>signed_length := int (length ds'), digits := ds' @ drop (length ds') (digits x)\<rparr>)"
    unfolding first_digit_def Let_def live_wf [OF x] bindR_ret xs_def [symmetric] ch prod.case ds'_def [symmetric]
    by (rule store_ret)
  moreover have "length (ds' @ drop (length ds') (digits x)) = length (digits x)" using cap by simp
  ultimately show ?thesis using holds_nat_store [OF nz, where z = x] unfolding v by fastforce
qed

section \<open>Reading a number\<close>

text \<open>The number a digit string stands for, and the characters that are digits of a base.\<close>

definition char_digit :: "char \<Rightarrow> nat" where
  "char_digit c = (case as_Digit c of Some (Inr d) \<Rightarrow> unat d | _ \<Rightarrow> 0)"

definition is_digit :: "nat \<Rightarrow> char \<Rightarrow> bool" where
  "is_digit base c \<longleftrightarrow> (\<exists>d. as_Digit c = ret d \<and> unat d < base)"

definition number_of :: "nat \<Rightarrow> string \<Rightarrow> nat" where
  "number_of base cs = foldl (\<lambda>n c. base * n + char_digit c) 0 cs"

lemma number_of_less:
  assumes "list_all (is_digit base) cs" and "0 < base"
  shows "foldl (\<lambda>n c. base * n + char_digit c) n cs < base ^ length cs * (n + 1)"
  using assms(1)
proof (induction cs arbitrary: n)
  case (Cons c cs)
  have "char_digit c < base"
    using Cons.prems by (auto simp: is_digit_def char_digit_def ret_def)
  then have "base * n + char_digit c + 1 \<le> base * (n + 1)" by simp
  then have "base ^ length cs * (base * n + char_digit c + 1) \<le> base ^ length cs * (base * (n + 1))"
    by (rule mult_le_mono2)
  moreover have "foldl (\<lambda>n c. base * n + char_digit c) n (c # cs)
      < base ^ length cs * (base * n + char_digit c + 1)"
    using Cons by simp
  ultimately show ?case by (simp add: algebra_simps)
qed simp

lemma parse_digits_ret:
  assumes "holds_nat z n" and "list_all (is_digit (unat b)) cs" and "0 < unat b"
    and "unat b ^ length cs * (n + 1) \<le> radix ^ length (digits z)"
  shows "\<exists>z'. parse_digits cs b z = ret z'
    \<and> holds_nat z' (foldl (\<lambda>n c. unat b * n + char_digit c) n cs) \<and> length (digits z') = length (digits z)"
  using assms
proof (induction cs arbitrary: z n)
  case (Cons c cs)
  obtain d where d: "as_Digit c = ret d" "unat d < unat b"
    using Cons.prems(2) by (auto simp: is_digit_def)
  have cd: "char_digit c = unat d" using d by (simp add: char_digit_def ret_def)
  have le: "unat b * n + unat d + 1 \<le> unat b * (n + 1)" using d(2) by simp
  have bound: "unat b ^ length cs * (unat b * n + unat d + 1) \<le> radix ^ length (digits z)"
    using mult_le_mono2 [OF le, of "unat b ^ length cs"] Cons.prems(4) by (simp add: algebra_simps)
  have "1 * (unat b * n + unat d + 1) \<le> unat b ^ length cs * (unat b * n + unat d + 1)"
    using Cons.prems(3) by (intro mult_le_mono1) simp
  then have "unat b * uval z + unat d < radix ^ length (digits z)"
    using bound Cons.prems(1) by (simp add: holds_nat_def)
  then obtain z1 where z1: "first_digit z b d = ret z1" "holds_nat z1 (unat b * n + unat d)"
    "length (digits z1) = length (digits z)"
    using first_digit_ret [of z b d] Cons.prems(1,3) by (auto simp: holds_nat_def)
  then show ?case
    using Cons.IH [OF z1(2)] Cons.prems(2,3) bound d cd by auto
qed simp

lemma string_to_Integer_ret:
  assumes digits: "list_all (is_digit (unat b)) (if hd s = CHR ''-'' then tl s else s)" and "s \<noteq> []"
    and b: "0 < unat b"
    and room: "unat b ^ (if hd s = CHR ''-'' then length s - 1 else length s) \<le> radix ^ length (digits z)"
    and z: "0 < length (digits z)"
  shows "\<exists>z'. string_to_Integer s b z = ret z' \<and> wf_Integer z'
    \<and> ival z' = (if hd s = CHR ''-'' then - int (number_of (unat b) (tl s)) else int (number_of (unat b) s))"
proof -
  define cs where "cs = (if hd s = CHR ''-'' then tl s else s)"
  define z0 where "z0 = z\<lparr>signed_length := 0, digits := 0 # drop 1 (digits z)\<rparr>"
  have i0: "int_to_Integer 0 z = ret z0"
    using z by (simp add: int_to_Integer_def store_def z0_def Suc_le_eq)
  have h0: "holds_nat z0 0" by (simp add: z0_def holds_nat_def wf_Integer_def ilength_def uval_def)
  have "length (digits z0) = length (digits z)" using z by (simp add: z0_def)
  moreover have "length cs = (if hd s = CHR ''-'' then length s - 1 else length s)"
    by (simp add: cs_def)
  ultimately obtain z1 where z1: "parse_digits cs b z0 = ret z1" "holds_nat z1 (number_of (unat b) cs)"
    using parse_digits_ret [OF h0, of b cs] digits b room
    unfolding cs_def [symmetric] number_of_def by auto
  then show ?thesis
    using i0 \<open>s \<noteq> []\<close> holds_nat_wf [OF z1(2)] holds_nat_ival [OF z1(2)]
    by (auto simp: string_to_Integer_def Let_def cs_def split: if_splits)
qed

text \<open>The buffer that \<^verbatim>\<open>string_to_Integer_result_size_in_bytes\<close> announces is large enough in base 10.\<close>

lemma decimal_room: "10 ^ n \<le> radix ^ (n div 9 + 1)"
proof -
  have "n \<le> 9 * (n div 9 + 1)" by simp
  then have "(10 :: nat) ^ n \<le> 10 ^ (9 * (n div 9 + 1))" by (rule power_increasing) simp
  also have "\<dots> = (10 ^ 9) ^ (n div 9 + 1)" by (rule power_mult)
  also have "\<dots> \<le> radix ^ (n div 9 + 1)" by (rule power_mono) (simp_all add: radix_def)
  finally show ?thesis .
qed

section \<open>Writing a number\<close>

text \<open>Digits of \<open>n\<close>, least significant first, as the conversion loop emits them.\<close>

lemma as_char_ret:
  assumes "unat d < 36"
  shows "\<exists>c. as_char d = ret c \<and> as_Digit c = ret d"
proof -
  have "sint d = int (unat d)" using assms by (intro sint_small) simp
  then have "as_char d = ret (''0123456789abcdefghijklmnopqrstuvwxyz'' ! unat d)"
  proof -
    assume "sint d = int (unat d)"
    with assms have "0 \<le> sint d \<and> sint d < 36" by linarith
    then show ?thesis by (simp add: as_char_def DIGITS_BASE_def)
  qed
  moreover have "as_Digit (''0123456789abcdefghijklmnopqrstuvwxyz'' ! k) = ret (of_nat k)" if "k < 36" for k
  proof -
    from that have "k \<in> set [0..<36]" by simp
    then show ?thesis
      by (simp add: upt_rec) (elim disjE, simp_all add: as_Digit_def Let_def)
  qed
  ultimately show ?thesis using assms by simp
qed

lemma convert_digits_ret:
  assumes "wf_Integer t" and "2 \<le> unat b" and "unat b \<le> 36"
  shows "\<exists>ds. convert_digits t b acc = ret (acc @ ds) \<and> ds \<noteq> [] \<and> list_all (is_digit (unat b)) ds
    \<and> number_of (unat b) (rev ds) = uval t \<and> (uval t < unat b ^ n \<longrightarrow> 0 < n \<longrightarrow> length ds \<le> n)"
  using assms(1)
proof (induction "uval t" arbitrary: t acc n rule: less_induct)
  case less
  obtain t' d where ld: "last_digit t b = ret (t', d)" and wf: "wf_Integer t'"
    and q: "uval t' = uval t div unat b" and r: "unat d = uval t mod unat b"
    using last_digit_ret [OF less.prems assms(2)] by blast
  have db: "unat d < unat b" using r assms(2) by simp
  obtain c where c: "as_char d = ret c" "as_Digit c = ret d"
    using as_char_ret [of d] db assms(3) by auto
  have dig: "is_digit (unat b) c" and cd: "char_digit c = unat d"
    using c db by (simp_all add: is_digit_def char_digit_def ret_def)
  show ?case
  proof (cases "is_not_zero t'")
    case False
    then have "uval t' = 0" using is_zero_iff [of t'] by (simp add: is_not_zero_def is_zero_def uval_def)
    then have "uval t = unat d" using q r assms(2) by (simp add: div_eq_0_iff)
    with False ld c dig cd show ?thesis
      by (auto simp: convert_digits.simps [of t] number_of_def intro!: exI [of _ "[c]"])
  next
    case True
    then have "ilength t' \<noteq> 0" using is_zero_iff [of t'] by (simp add: is_not_zero_def is_zero_def)
    then have pos: "0 < uval t'" using uval_eq_0_iff [OF wf] by simp
    then have tpos: "0 < uval t" using q by (cases "uval t") auto
    have "uval t' < uval t" using q tpos assms(2) by simp
    from less.hyps [OF this wf, of "acc @ [c]" "n - 1"]
    obtain ds where ds: "convert_digits t' b (acc @ [c]) = ret ((acc @ [c]) @ ds)"
      "list_all (is_digit (unat b)) ds" "number_of (unat b) (rev ds) = uval t'"
      "uval t' < unat b ^ (n - 1) \<longrightarrow> 0 < n - 1 \<longrightarrow> length ds \<le> n - 1"
      by auto
    have len: "length (c # ds) \<le> n" if small: "uval t < unat b ^ n" and npos: "0 < n"
    proof -
      obtain m where m: "n = Suc m" using npos by (cases n) auto
      have "uval t' < unat b ^ m" using small q m by (simp add: less_mult_imp_div_less mult.commute)
      moreover have "0 < m" using calculation pos by (cases m) auto
      ultimately show ?thesis using ds(4) m by simp
    qed
    have "number_of (unat b) (rev (c # ds)) = unat b * uval t' + unat d"
      using ds(3) cd by (simp add: number_of_def)
    then have "number_of (unat b) (rev (c # ds)) = uval t" using q r by simp
    moreover have "convert_digits t b acc = ret (acc @ c # ds)"
      using ld c True ds(1) by (simp add: convert_digits.simps [of t])
    ultimately show ?thesis using dig ds(2) len by (intro exI [of _ "c # ds"]) auto
  qed
qed

text \<open>The final loop reverses the characters in place.\<close>

lemma reverse_range_rev:
  "j < length s \<Longrightarrow> i \<le> Suc j \<Longrightarrow>
   reverse_range s i j = take i s @ rev (take (Suc j - i) (drop i s)) @ drop (Suc j) s"
proof (induction s i j rule: reverse_range.induct)
  case (1 s i j)
  show ?case
  proof (cases "i < j")
    case True
    let ?s = "s[i := s ! j, j := s ! i]"
    define m where "m = take (j - Suc i) (drop (Suc i) s)"
    have split: "s = take i s @ [s ! i] @ m @ [s ! j] @ drop (Suc j) s"
    proof -
      have "s = take i s @ s ! i # drop (Suc i) s" using True 1(2) by (simp add: id_take_nth_drop)
      moreover have "drop (Suc i) s = m @ drop j s"
        using append_take_drop_id [of "j - Suc i" "drop (Suc i) s"] True by (simp add: m_def)
      moreover have "drop j s = s ! j # drop (Suc j) s" using 1(2) by (simp add: Cons_nth_drop_Suc)
      ultimately show ?thesis by simp
    qed
    have li: "length (take i s) = i" and lm: "length m = j - Suc i" using True 1(2) by (simp_all add: m_def)
    have jm: "j - i = Suc (length m)" using lm True by simp
    have s': "?s = take i s @ [s ! j] @ m @ [s ! i] @ drop (Suc j) s"
    proof -
      have "(take i s @ [a] @ m @ [b] @ r)[i := b', j := a'] = take i s @ [b'] @ m @ [a'] @ r" for a b a' b' r
        using li lm True by (simp add: list_update_append jm)
      then show ?thesis by (subst (1) split) simp
    qed
    have "reverse_range ?s (i + 1) (j - 1)
        = take (i + 1) ?s @ rev (take (Suc (j - 1) - (i + 1)) (drop (i + 1) ?s)) @ drop (Suc (j - 1)) ?s"
      using 1 True by (intro "1.IH") auto
    also have "\<dots> = take i s @ [s ! j] @ rev m @ [s ! i] @ drop (Suc j) s"
      using li lm [symmetric] True jm by (simp add: s')
    finally have r: "reverse_range ?s (i + 1) (j - 1) = take i s @ ([s ! j] @ rev m @ [s ! i]) @ drop (Suc j) s"
      by simp
    have e: "rev (take (Suc j - i) (drop i s)) = [s ! j] @ rev m @ [s ! i]"
    proof -
      have "drop i s = [s ! i] @ m @ [s ! j] @ drop (Suc j) s" using li by (subst split) simp
      moreover have "Suc j - i = Suc (Suc (length m))" using jm True by simp
      ultimately have "take (Suc j - i) (drop i s) = [s ! i] @ m @ [s ! j]" by simp
      then show ?thesis by simp
    qed
    show ?thesis using True unfolding e by (simp only: reverse_range.simps [of s i j] r if_True Let_def)
  next
    case False
    then have "i = j \<or> i = Suc j" using 1(3) by linarith
    then show ?thesis
      using False 1(2) by (auto simp: reverse_range.simps [of s i j] take_Suc hd_drop_conv_nth
          id_take_nth_drop [symmetric])
  qed
qed

lemma Integer_to_string_ret:
  assumes x: "wf_Integer x" and one: "ilength x \<le> 1"
    and b: "2 \<le> unat b" "unat b \<le> 36"
    and room: "34 \<le> length s"
  shows "\<exists>cs rest. Integer_to_string x b s = ret ((if is_negative x then ''-'' else []) @ cs @ CHR 0x00 # rest)
    \<and> cs \<noteq> [] \<and> list_all (is_digit (unat b)) cs \<and> number_of (unat b) cs = uval x
    \<and> length cs \<le> 32"
proof -
  obtain t where t: "copy_Integer x local_Integer = ret t" "wf_Integer t" "ival t = ival x"
    using copy_Integer_ret [OF x, of local_Integer] one by (auto simp: local_Integer_def)
  have ut: "uval t = uval x" using t(3) abs_ival [of t] abs_ival [of x] by simp
  have "sint b = int (unat b)" using b by (intro sint_small) simp
  then have sb: "2 \<le> sint b \<and> sint b \<le> 36" using b by linarith
  have "uval x < radix" using uval_less [of x] one power_increasing [of "ilength x" 1 radix] by simp
  then have "uval t < 2 ^ 32" by (simp add: ut radix_def)
  also have "(2::nat) ^ 32 \<le> unat b ^ 32" using b by (intro power_mono) auto
  finally have small: "uval t < unat b ^ 32" .
  obtain ds where ds: "convert_digits t b [] = ret ds" "ds \<noteq> []" "list_all (is_digit (unat b)) ds"
    "number_of (unat b) (rev ds) = uval t" "length ds \<le> 32"
    using convert_digits_ret [OF t(2) b, of "[]" 32] small by auto
  define cs where "cs = rev ds"
  define sign where "sign = (if is_negative x then ''-'' else [])"
  define out where "out = ds @ sign @ [CHR 0x00]"
  define m where "m = ds @ sign"
  have lo: "length out \<le> length s" using ds(5) room by (simp add: out_def sign_def)
  have om: "out = m @ [CHR 0x00]" by (simp add: out_def m_def)
  have "m \<noteq> []" using ds(2) by (simp add: m_def)
  then have "reverse_range (out @ drop (length out) s) 0 (length out - 1 - 1)
      = rev m @ [CHR 0x00] @ drop (length out) s"
    by (subst reverse_range_rev) (auto simp: om Suc_leI)
  moreover have "rev m = sign @ cs" by (simp add: m_def cs_def sign_def)
  moreover have "Integer_to_string x b s = ret (reverse_range (out @ drop (length out) s) 0 (length out - 1 - 1))"
    using t(1) ds(1) sb one lo unfolding out_def sign_def
    by (simp add: Integer_to_string_def DIGITS_BASE_def size_in_bytes_def length_to_size_in_bytes_def Let_def)
  ultimately have "Integer_to_string x b s = ret (sign @ cs @ CHR 0x00 # drop (length out) s)" by simp
  moreover have "cs \<noteq> []" "list_all (is_digit (unat b)) cs" "number_of (unat b) cs = uval x" "length cs \<le> 32"
    using ds(2-5) ut by (simp_all add: cs_def)
  ultimately show ?thesis unfolding sign_def by blast
qed

text \<open>With two digits or more the copy into the local variable overruns it.\<close>

lemma Integer_to_string_fault:
  assumes "wf_Integer x" and "2 \<le> ilength x" and "ilength x \<le> 10000" and "2 \<le> sint b" and "sint b \<le> 36"
  shows "Integer_to_string x b s = raise Out_Of_Bounds"
  using assms
  by (simp add: Integer_to_string_def DIGITS_BASE_def size_in_bytes_def length_to_size_in_bytes_def
      copy_Integer_def store_def local_Integer_def wf_Integer_def)

section \<open>Properties\<close>

text \<open>
  C4. Reading a decimal literal is exact: for a string of decimal digits, with or without a
  leading minus, the announced size is enough, the conversion returns a well-formed integer, and
  its value is the number the literal denotes.
\<close>

theorem string_to_Integer_decimal:
  assumes "s \<noteq> []" and "list_all (is_digit 10) (if hd s = CHR ''-'' then tl s else s)"
  shows "\<exists>n. string_to_Integer_result_size_in_bytes s 10 = ret n \<and>
    (\<forall>z. n \<le> capacity_in_bytes z \<longrightarrow>
      (\<exists>z'. string_to_Integer s 10 z = ret z' \<and> wf_Integer z' \<and>
         ival z' = (if hd s = CHR ''-'' then - int (number_of 10 (tl s)) else int (number_of 10 s))))"
proof -
  have "\<exists>z'. string_to_Integer s 10 z = ret z' \<and> wf_Integer z' \<and>
         ival z' = (if hd s = CHR ''-'' then - int (number_of 10 (tl s)) else int (number_of 10 s))"
    if room: "length s div 9 + 1 \<le> length (digits z)" for z
  proof -
    have "(10::nat) ^ length s \<le> radix ^ (length s div 9 + 1)" by (rule decimal_room)
    also have "\<dots> \<le> radix ^ length (digits z)" using room by (intro power_increasing) simp_all
    finally have "(10::nat) ^ length s \<le> radix ^ length (digits z)" .
    moreover have "(10::nat) ^ (if hd s = CHR ''-'' then length s - 1 else length s) \<le> 10 ^ length s"
      by (intro power_increasing) simp_all
    ultimately have "10 ^ (if hd s = CHR ''-'' then length s - 1 else length s) \<le> radix ^ length (digits z)"
      by (rule order_trans [rotated])
    moreover have "0 < length (digits z)" using room by linarith
    moreover have u: "unat (10 :: digit) = 10" and "(0::nat) < 10" by simp_all
    ultimately show ?thesis
      using string_to_Integer_ret [of "10" s z] assms unfolding u by blast
  qed
  then show ?thesis by (simp add: string_to_Integer_result_size_in_bytes_def)
qed

theorem string_to_Integer_decimal_witness:
  "\<exists>z'. string_to_Integer ''-4294967296'' 10 \<lparr>signed_length = 0, digits = [9, 9]\<rparr> = ret z'
     \<and> ival z' = - (2 ^ 32)"
proof -
  have "number_of 10 ''4294967296'' = 2 ^ 32" "list_all (is_digit 10) ''4294967296''"
    by (simp_all add: number_of_def char_digit_def is_digit_def as_Digit_def ret_def)
  then have "\<forall>z. 2 \<le> length (digits z) \<longrightarrow>
      (\<exists>z'. string_to_Integer ''-4294967296'' 10 z = ret z' \<and> wf_Integer z' \<and> ival z' = - (2 ^ 32))"
    using string_to_Integer_decimal [of "''-4294967296''"]
    by (simp add: string_to_Integer_result_size_in_bytes_def capacity_in_bytes_def length_to_size_in_bytes_def)
  then show ?thesis by (auto dest: spec [of _ "\<lparr>signed_length = 0, digits = [9, 9]\<rparr>"])
qed

text \<open>
  C5. Writing a number. With at most one digit in use, \<open>Integer_to_string\<close> returns in every base
  from 2 to 36, the string it leaves before the NUL reads back through \<open>string_to_Integer\<close> as the
  same value; with two digits or more the copy into its local variable, which has room for one
  digit, runs past the variable.
\<close>

theorem Integer_to_string_roundtrip:
  assumes "wf_Integer x" and "2 \<le> unat b" and "unat b \<le> 36" and "34 \<le> length s"
    and "ilength x \<le> 10000" and "6 \<le> length (digits z)"
  shows "if ilength x \<le> 1
         then \<exists>cs rest. Integer_to_string x b s = ret (cs @ CHR 0x00 # rest) \<and> CHR 0x00 \<notin> set cs \<and>
                (\<exists>z'. string_to_Integer cs b z = ret z' \<and> wf_Integer z' \<and> ival z' = ival x)
         else Integer_to_string x b s = raise Out_Of_Bounds"
proof (cases "ilength x \<le> 1")
  case True
  obtain ds rest where
    w: "Integer_to_string x b s = ret ((if is_negative x then ''-'' else []) @ ds @ CHR 0x00 # rest)"
    and ds: "ds \<noteq> []" "list_all (is_digit (unat b)) ds" "number_of (unat b) ds = uval x" "length ds \<le> 32"
    using Integer_to_string_ret [OF assms(1) True assms(2-4)] by blast
  define cs where "cs = (if is_negative x then ''-'' else []) @ ds"
  have no: "\<not> is_digit (unat b) (CHR ''-'')" "\<not> is_digit (unat b) (CHR 0x00)"
    by (simp_all add: is_digit_def as_Digit_def)
  have hd: "hd ds \<noteq> CHR ''-''" and nul: "CHR 0x00 \<notin> set ds"
    using ds(1,2) no by (cases ds; auto simp: list_all_iff)+
  have "unat b ^ length ds \<le> 36 ^ length ds" using assms(3) by (rule power_mono) simp
  also have "(36::nat) ^ length ds \<le> 36 ^ 32" using ds(4) by (rule power_increasing) simp
  also have "(36::nat) ^ 32 \<le> radix ^ 6" by (simp add: radix_def)
  also have "\<dots> \<le> radix ^ length (digits z)" using assms(6) by (rule power_increasing) simp
  finally have room: "unat b ^ length ds \<le> radix ^ length (digits z)" .
  have "(if hd cs = CHR ''-'' then tl cs else cs) = ds" using hd by (simp add: cs_def)
  moreover have "(if hd cs = CHR ''-'' then length cs - 1 else length cs) = length ds"
    using hd by (simp add: cs_def)
  ultimately have "\<exists>z'. string_to_Integer cs b z = ret z' \<and> wf_Integer z'
      \<and> ival z' = (if hd cs = CHR ''-'' then - int (number_of (unat b) (tl cs)) else int (number_of (unat b) cs))"
    using ds assms(2) room assms(6) [THEN less_le_trans [rotated], of 0]
    by (intro string_to_Integer_ret) (simp_all add: cs_def del: length_greater_0_conv)
  moreover have "ival x = (if hd cs = CHR ''-'' then - int (number_of (unat b) (tl cs)) else int (number_of (unat b) cs))"
    using ds(1,3) hd by (auto simp: cs_def ival_def is_negative_def)
  ultimately have "\<exists>z'. string_to_Integer cs b z = ret z' \<and> wf_Integer z' \<and> ival z' = ival x" by simp
  moreover have "CHR 0x00 \<notin> set cs" using nul by (simp add: cs_def)
  moreover have "Integer_to_string x b s = ret (cs @ CHR 0x00 # rest)" using w by (simp add: cs_def)
  ultimately show ?thesis using True by auto
next
  case False
  have "sint b = int (unat b)" using assms(2,3) by (intro sint_small) simp
  then have "2 \<le> sint b" "sint b \<le> 36" using assms(2,3) by linarith+
  then show ?thesis
    using False assms(1,5) by (simp add: Integer_to_string_fault)
qed

theorem Integer_to_string_roundtrip_witness:
  "(\<exists>cs rest. Integer_to_string \<lparr>signed_length = -1, digits = [255]\<rparr> 16 (replicate 40 CHR ''x'') = ret (cs @ CHR 0x00 # rest)
      \<and> (\<exists>z'. string_to_Integer cs 16 \<lparr>signed_length = 0, digits = replicate 6 0\<rparr> = ret z' \<and> ival z' = - 255))
   \<and> Integer_to_string \<lparr>signed_length = 2, digits = [0, 1]\<rparr> 16 (replicate 40 CHR ''x'') = raise Out_Of_Bounds"
proof -
  let ?x = "\<lparr>signed_length = -1, digits = [255]\<rparr>" and ?y = "\<lparr>signed_length = 2, digits = [0, 1]\<rparr>"
  let ?z = "\<lparr>signed_length = 0, digits = replicate 6 0\<rparr>"
  have x: "wf_Integer ?x" "ilength ?x = 1" "ival ?x = - 255"
    and y: "wf_Integer ?y" "ilength ?y = 2"
    by (simp_all add: wf_Integer_def ilength_def ival_def uval_def nval_def)
  show ?thesis
    using Integer_to_string_roundtrip [of ?x "16" "replicate 40 CHR ''x''" ?z, unfolded x(3)]
      Integer_to_string_roundtrip [of ?y "16" "replicate 40 CHR ''x''" ?z] x(1,2) y
    by simp blast
qed

end
