(* ===== verification/Bits.thy ===== *)
theory Bits
  imports Prelude
begin

text \<open>
  \<^verbatim>\<open>vm/system/bits.hpp\<close>: masks, rounding and bit fields of machine words. The templates
  (\<^verbatim>\<open>auto\<close>) are used on 32-bit values; a signed \<^verbatim>\<open>std::int32_t\<close> is its 32-bit pattern.
\<close>

section \<open>Masks\<close>

definition BITS_PER_WORD :: nat where
  "BITS_PER_WORD = 32"

definition nthBit :: "nat \<Rightarrow> 32 word" where
  "nthBit n = push_bit n 1"

definition maskBits :: "32 word \<Rightarrow> 32 word \<Rightarrow> 32 word" where
  "maskBits x m = x AND m"

definition addBits :: "32 word \<Rightarrow> 32 word \<Rightarrow> 32 word" where
  "addBits x m = x OR m"

definition subBits :: "32 word \<Rightarrow> 32 word \<Rightarrow> 32 word" where
  "subBits x m = x AND NOT m"

definition addNthBit :: "32 word \<Rightarrow> nat \<Rightarrow> 32 word" where
  "addNthBit x n = addBits x (nthBit n)"

definition subNthBit :: "32 word \<Rightarrow> nat \<Rightarrow> 32 word" where
  "subNthBit x n = subBits x (nthBit n)"

definition anyBitSet :: "32 word \<Rightarrow> 32 word \<Rightarrow> bool" where
  "anyBitSet x m \<longleftrightarrow> maskBits x m \<noteq> 0"

definition isBitSet :: "32 word \<Rightarrow> nat \<Rightarrow> bool" where
  "isBitSet x n \<longleftrightarrow> anyBitSet x (nthBit n)"

definition nthMask :: "nat \<Rightarrow> 32 word" where
  "nthMask n = (if n = BITS_PER_WORD then -1 else nthBit n - 1)"

definition lowerBits :: "32 word \<Rightarrow> nat \<Rightarrow> 32 word" where
  "lowerBits x n = maskBits x (nthMask n)"

definition roundMask :: "32 word \<Rightarrow> 32 word \<Rightarrow> 32 word" where
  "roundMask x m = (x + m) AND NOT m"

definition roundTo :: "32 word \<Rightarrow> 32 word \<Rightarrow> 32 word" where
  "roundTo x v = roundMask x (v - 1)"

definition roundBits :: "32 word \<Rightarrow> nat \<Rightarrow> 32 word" where
  "roundBits x n = roundMask x (nthMask n)"

lemma nthMask_mask: "n \<le> 32 \<Longrightarrow> nthMask n = mask n"
  by (auto simp: nthMask_def BITS_PER_WORD_def nthBit_def mask_eq_exp_minus_1 push_bit_eq_mult
      mask_full [where 'a = 32, simplified, symmetric])

lemma lowerBits_take_bit: "n \<le> 32 \<Longrightarrow> lowerBits x n = take_bit n x"
  by (simp add: lowerBits_def maskBits_def nthMask_mask take_bit_eq_mask)

lemma isBitSet_bit: "n < 32 \<Longrightarrow> isBitSet x n \<longleftrightarrow> bit x n"
  by (simp add: isBitSet_def anyBitSet_def maskBits_def nthBit_def bit_iff_and_push_bit_not_eq_0)

lemma addNthBit_set_bit: "addNthBit x n = set_bit n x"
  by (simp add: addNthBit_def addBits_def nthBit_def set_bit_eq_or push_bit_eq_mult)

lemma subNthBit_unset_bit: "subNthBit x n = unset_bit n x"
  by (simp add: subNthBit_def subBits_def nthBit_def unset_bit_eq_and_not push_bit_eq_mult)

text \<open>\<^verbatim>\<open>roundBits\<close> rounds up to a multiple of \<open>2^n\<close> when the sum does not wrap.\<close>

lemma unat_lt_32: "take_bit 32 (unat (x :: 32 word)) = unat x"
  using unsigned_less [of x] by (simp add: take_bit_nat_eq_self_iff)

lemma and_not_mask_unat: "unat (x AND NOT (mask n) :: 32 word) = unat x div 2 ^ n * 2 ^ n"
proof -
  have "x AND NOT (mask n) = push_bit n (drop_bit n x)"
    by (rule bit_word_eqI) (auto simp: bit_simps)
  then have "unat (x AND NOT (mask n)) = take_bit 32 (push_bit n (drop_bit n (unat x)))"
    by (simp add: unsigned_push_bit_eq unsigned_drop_bit_eq unat_lt_32)
  moreover have "push_bit n (drop_bit n (unat x)) \<le> unat x"
    by (simp add: push_bit_eq_mult drop_bit_eq_div)
  moreover have "unat x < 2 ^ 32" using unsigned_less [of x] by simp
  ultimately have "unat (x AND NOT (mask n)) = push_bit n (drop_bit n (unat x))"
    by (simp add: take_bit_nat_eq_self_iff)
  then show ?thesis by (simp add: push_bit_eq_mult drop_bit_eq_div)
qed

lemma roundBits_unat:
  assumes "n < 32" and "unat x + 2 ^ n - 1 < 2 ^ 32"
  shows "unat (roundBits x n) = (unat x + 2 ^ n - 1) div 2 ^ n * 2 ^ n"
proof -
  have "unat (mask n :: 32 word) = 2 ^ n - 1"
  proof -
    have "unat (mask n :: 32 word) = take_bit 32 (mask n)"
      by (rule bit_eqI) (auto simp: bit_simps)
    also have "\<dots> = mask n" using assms(1) by (simp add: take_bit_of_mask min_def)
    finally show ?thesis by (simp only: mask_eq_exp_minus_1)
  qed
  moreover have "(1::nat) \<le> 2 ^ n" by simp
  ultimately have "unat (x + mask n :: 32 word) = unat x + 2 ^ n - 1"
    using assms(2) by (simp add: unat_word_ariths)
  then show ?thesis
    using assms(1) by (simp add: roundBits_def roundMask_def nthMask_mask and_not_mask_unat)
qed

section \<open>Bit fields\<close>

definition arithmetic_shift_right :: "32 word \<Rightarrow> nat \<Rightarrow> 32 word" where
  "arithmetic_shift_right value shift = signed_drop_bit shift value"

definition logic_shift_right :: "32 word \<Rightarrow> nat \<Rightarrow> 32 word" where
  "logic_shift_right value shift = push_bit shift value"

definition get_unsigned_bitfield :: "32 word \<Rightarrow> nat \<Rightarrow> nat \<Rightarrow> 32 word" where
  "get_unsigned_bitfield value start_bit_no field_length =
     lowerBits (signed_drop_bit start_bit_no value) field_length"

definition get_signed_bitfield :: "32 word \<Rightarrow> nat \<Rightarrow> nat \<Rightarrow> 32 word" where
  "get_signed_bitfield value start_bit_no field_length =
     (let result = get_unsigned_bitfield value start_bit_no field_length in
      if isBitSet result (start_bit_no + field_length - 1)
      then addBits result (NOT (nthMask field_length)) else result)"

definition set_unsigned_bitfield :: "32 word \<Rightarrow> nat \<Rightarrow> nat \<Rightarrow> 32 word \<Rightarrow> 32 word run" where
  "set_unsigned_bitfield value start_bit_no field_length new_field_value =
     bindR (guard (addBits new_field_value (NOT (nthMask field_length)) = 0) ''range check'') (\<lambda>_.
       let m = push_bit start_bit_no (nthMask field_length) in
       ret (addBits (subBits value m) (maskBits (push_bit start_bit_no new_field_value) m)))"

lemma get_unsigned_bitfield_take:
  assumes "start + len \<le> 32"
  shows "get_unsigned_bitfield v start len = take_bit len (drop_bit start v)"
proof -
  have "take_bit len (signed_drop_bit start v) = take_bit len (drop_bit start v)"
    using assms by (intro bit_word_eqI) (auto simp: bit_simps)
  then show ?thesis using assms by (simp add: get_unsigned_bitfield_def lowerBits_take_bit)
qed

text \<open>
  The sign of a field is looked for at the field's position in the whole word, in the value
  that was already shifted down: only a field at bit 0 is sign-extended.
\<close>

lemma get_signed_bitfield_cases:
  assumes "start + len \<le> 32" and "0 < len"
  shows "get_signed_bitfield v start len =
    (if start = 0 then signed_take_bit (len - 1) v else take_bit len (drop_bit start v))"
proof (cases "start = 0")
  case True
  have "get_signed_bitfield v 0 len = (if bit v (len - 1) then take_bit len v OR NOT (mask len) else take_bit len v)"
    using assms True by (simp add: get_signed_bitfield_def Let_def get_unsigned_bitfield_take isBitSet_bit
        addBits_def nthMask_mask bit_take_bit_iff)
  moreover have "signed_take_bit (len - 1) v = (if bit v (len - 1) then take_bit len v OR NOT (mask len) else take_bit len v)"
  proof (rule bit_word_eqI)
    fix n assume n: "n < LENGTH(32)"
    consider "n < len - 1" | "n = len - 1" | "len \<le> n" by linarith
    then show "bit (signed_take_bit (len - 1) v) n =
        bit (if bit v (len - 1) then take_bit len v OR NOT (mask len) else take_bit len v) n"
      using n assms(2) by cases (auto simp: bit_simps min_def)
  qed
  ultimately show ?thesis using True by simp
next
  case False
  then have "\<not> start + len - 1 < len" by linarith
  then show ?thesis
    using assms False by (simp add: get_signed_bitfield_def Let_def get_unsigned_bitfield_take isBitSet_bit
        bit_take_bit_iff)
qed

text \<open>The range check of \<^verbatim>\<open>set_unsigned_bitfield\<close> cannot succeed on a proper field.\<close>

lemma set_unsigned_bitfield_fault:
  assumes "len < 32"
  shows "set_unsigned_bitfield v start len f = raise (Assertion ''range check'')"
proof -
  have "bit (addBits f (NOT (nthMask len))) 31"
    using assms by (simp add: addBits_def nthMask_mask bit_simps)
  then have "addBits f (NOT (nthMask len)) \<noteq> 0" by force
  then show ?thesis by (simp add: set_unsigned_bitfield_def)
qed

end
