(* ===== verification/IntegerBits.thy ===== *)
theory IntegerBits
  imports IntegerArith Bits
begin

text \<open>
  \<^verbatim>\<open>vm/utility/IntegerOps.cpp\<close>: the bitwise operations and shifts of large integers, which
  behave as if the integers were in two's complement, and \<^verbatim>\<open>Integer::length_in_bits\<close>. A loop
  that threads several carries is a \<open>scan\<close>: its state is the tuple of the carries. A negative
  operand is complemented and incremented on the fly; \<open>dec\<close> and \<open>inc\<close> name the digit chains
  that this amounts to.
\<close>

section \<open>Operations\<close>

fun scan :: "('a \<Rightarrow> 's \<Rightarrow> digit \<times> 's) \<Rightarrow> 'a list \<Rightarrow> 's \<Rightarrow> digit list \<times> 's" where
  "scan step [] s = ([], s)"
| "scan step (a # as) s =
     (let (r, s') = step a s; (rs, s'') = scan step as s' in (r # rs, s''))"

definition and_both_negative :: "Integer \<Rightarrow> Integer \<Rightarrow> Integer \<Rightarrow> Integer run" where
  "and_both_negative x y z =
     bindR (live x) (\<lambda>xs. bindR (live y) (\<lambda>ys.
       let digitLength = max (length xs) (length ys);
           l = min (length xs) (length ys);
           step = (\<lambda>(x, y) (xcarry, ycarry, zcarry).
             let (x', xcarry') = xpy (x XOR 0xffffffff) 0 xcarry;
                 (y', ycarry') = xpy (y XOR 0xffffffff) 0 ycarry;
                 (r, zcarry') = xpy ((x' AND y') XOR 0xffffffff) 0 zcarry
             in (r, (xcarry', ycarry', zcarry')));
           (ds, _) = scan step (zip (take l xs) (take l ys)) (1, 1, 1)
       in store z (ds @ drop l xs @ drop l ys) (- int digitLength)))"

definition and_one_positive :: "Integer \<Rightarrow> Integer \<Rightarrow> Integer \<Rightarrow> Integer run" where
  "and_one_positive positive negative z =
     bindR (live positive) (\<lambda>ps. bindR (live negative) (\<lambda>ns.
       let digitLength = length ps;
           l = min (length ps) (length ns);
           step = (\<lambda>(p, n) carry. let (n', carry') = xpy (n XOR oneB) 0 carry in (p AND n', carry'));
           (ds, _) = scan step (zip (take l ps) (take l ns)) 1
       in store z (ds @ drop l ps) (int digitLength)))"

definition And :: "Integer \<Rightarrow> Integer \<Rightarrow> Integer \<Rightarrow> Integer run" where
  "And x y z =
     (if is_zero x \<or> is_zero y then ret (set_signed_length z 0)
      else if is_positive x \<and> is_positive y
      then bindR (live x) (\<lambda>xs. bindR (live y) (\<lambda>ys.
             let l = min (length xs) (length ys);
                 ds = map2 (AND) (take l xs) (take l ys)
             in store z ds (int l)))
      else if is_positive x then and_one_positive x y z
      else if is_positive y then and_one_positive y x z
      else and_both_negative x y z)"

text \<open>The common end of \<^verbatim>\<open>Or\<close> and \<^verbatim>\<open>Xor\<close>: scan leading zero digits off, set the length.\<close>

definition store_trimmed :: "Integer \<Rightarrow> digit list \<Rightarrow> bool \<Rightarrow> Integer run" where
  "store_trimmed z ds negate =
     (let l = int (trim_length ds (length ds)) in store z ds (if negate then - l else l))"

text \<open>One step of the loops of \<^verbatim>\<open>Or\<close> on a digit \<open>p\<close> of a non-negative and \<open>n\<close> of a negative operand.\<close>

definition or_step :: "digit \<times> digit \<Rightarrow> digit \<times> digit \<Rightarrow> digit \<times> (digit \<times> digit)" where
  "or_step = (\<lambda>(p, n) (ncarry, zcarry).
     let (n', ncarry') = xpy (n XOR oneB) 0 ncarry;
         (r, zcarry') = xpy ((p OR n') XOR oneB) 0 zcarry
     in (r, (ncarry', zcarry')))"

definition Or :: "Integer \<Rightarrow> Integer \<Rightarrow> Integer \<Rightarrow> Integer run" where
  "Or x y z =
     bindR (live x) (\<lambda>xs. bindR (live y) (\<lambda>ys.
       let l = min (length xs) (length ys) in
       if \<not> is_negative x \<and> \<not> is_negative y
       then let ds = map2 (OR) (take l xs) (take l ys) @ drop l xs @ drop l ys
            in store z ds (int (length ds))
       else if \<not> is_negative x
       then let (ds, _) = scan or_step (zip (take l xs) (take l ys)) (1, 1)
            in store_trimmed z (ds @ drop l ys) True
       else if \<not> is_negative y
       then let (ds, _) = scan or_step (zip (take l ys) (take l xs)) (1, 1)
            in store_trimmed z (ds @ drop l xs) True
       else let step = (\<lambda>(x, y) (xcarry, ycarry, zcarry).
                  let (y', ycarry') = xpy (y XOR oneB) 0 ycarry;
                      (x', xcarry') = xpy (x XOR oneB) 0 xcarry;
                      (r, zcarry') = xpy ((y' OR x') XOR oneB) 0 zcarry
                  in (r, (xcarry', ycarry', zcarry')));
                (ds, _) = scan step (zip (take l xs) (take l ys)) (1, 1, 1)
            in store_trimmed z ds True))"

definition xor_one_positive :: "Integer \<Rightarrow> Integer \<Rightarrow> Integer \<Rightarrow> Integer run" where
  "xor_one_positive positive negative z =
     bindR (live positive) (\<lambda>ps. bindR (live negative) (\<lambda>ns.
       let l = min (length ps) (length ns);
           step1 = (\<lambda>(p, n) (ncarry, zcarry).
             let (n', ncarry') = xmy n 0 ncarry; (r, zcarry') = xpy (p XOR n') 0 zcarry
             in (r, (ncarry', zcarry')));
           step2 = (\<lambda>n (ncarry, zcarry).
             let (n', ncarry') = xmy n 0 ncarry; (r, zcarry') = xpy n' 0 zcarry
             in (r, (ncarry', zcarry')));
           (ds1, (nc1, zc1)) = scan step1 (zip (take l ps) (take l ns)) (1, 1);
           (ds2, (nc2, zc2)) = scan step2 (drop l ns) (nc1, zc1);
           (ds3, zc3) = scan (\<lambda>p zcarry. xpy p 0 zcarry) (drop l ps) zc2;
           ds = ds1 @ ds2 @ ds3 @ (if zc3 \<noteq> 0 then [1] else [])
       in store z ds (- int (length ds))))"

definition Xor :: "Integer \<Rightarrow> Integer \<Rightarrow> Integer \<Rightarrow> Integer run" where
  "Xor x y z =
     bindR (live x) (\<lambda>xs. bindR (live y) (\<lambda>ys.
       let l = min (length xs) (length ys) in
       if \<not> is_negative x \<and> \<not> is_negative y
       then store_trimmed z (map2 (XOR) (take l xs) (take l ys) @ drop l xs @ drop l ys) False
       else if \<not> is_negative y then xor_one_positive y x z
       else if \<not> is_negative x then xor_one_positive x y z
       else let step = (\<lambda>(x, y) (xcarry, ycarry).
                  let (x', xcarry') = xmy x 0 xcarry; (y', ycarry') = xmy y 0 ycarry
                  in (x' XOR y', (xcarry', ycarry')));
                (ds1, (xc, yc)) = scan step (zip (take l xs) (take l ys)) (1, 1);
                (ds2, _) = scan (\<lambda>x xcarry. xmy x 0 xcarry) (drop l xs) xc;
                (ds3, _) = scan (\<lambda>y ycarry. xmy y 0 ycarry) (drop l ys) yc
            in store_trimmed z (ds1 @ ds2 @ ds3) False))"

text \<open>
  \<^verbatim>\<open>ash\<close>: \<open>n\<close> is the value of a SmallInteger, so \<^verbatim>\<open>-n\<close> does not overflow. The right shift walks
  down from the top digit.
\<close>

definition ash_left_step :: "nat \<Rightarrow> digit \<Rightarrow> digit \<Rightarrow> digit \<times> digit" where
  "ash_left_step bitShift x carry =
     (push_bit bitShift x + carry, if bitShift \<noteq> 0 then drop_bit (logB - bitShift) x else 0)"

definition ash_right_step :: "nat \<Rightarrow> digit \<Rightarrow> digit \<Rightarrow> digit \<times> digit" where
  "ash_right_step bitShift x carry =
     (drop_bit bitShift x + carry,
      if bitShift \<noteq> 0 then push_bit (logB - bitShift) (x AND nthMask bitShift) else 0)"

definition ash :: "Integer \<Rightarrow> int \<Rightarrow> Integer \<Rightarrow> Integer run" where
  "ash x n z =
     bindR (live x) (\<lambda>xs.
       if n > 0
       then let bitShift = nat n mod logB; digitShift = nat n div logB;
                (ds, carry) = scan (ash_left_step bitShift) xs 0;
                ds' = replicate digitShift 0 @ ds @ (if carry \<noteq> 0 then [carry] else [])
            in bindR (store z ds' (int (length ds'))) (\<lambda>z'.
                 ret (if is_negative x then neg z' else z'))
       else let digitShift = nat (- n) div logB; bitShift = nat (- n) mod logB;
                (rs, _) = scan (ash_right_step bitShift) (rev (drop digitShift xs)) 0;
                ds = rev rs
            in bindR (store z ds (int (trim_length ds (length ds)))) (\<lambda>z1.
                 let z2 = (if is_negative x then neg z1 else z1) in
                 if is_negative x \<and> is_zero z2 then store z2 [1] (-1) else ret z2))"

function length_in_bits_digit :: "digit \<Rightarrow> nat" where
  "length_in_bits_digit x = (if x \<noteq> 0 then Suc (length_in_bits_digit (drop_bit 1 x)) else 0)"
  by pat_completeness auto
termination
proof (relation "measure unat")
  fix x :: digit assume "x \<noteq> 0"
  then have "0 < unat x" by (simp add: unat_gt_0)
  then have "unat (drop_bit 1 x) < unat x" by (simp add: drop_bit_eq_div unat_div)
  then show "(drop_bit 1 x, x) \<in> measure unat" by simp
qed simp

declare length_in_bits_digit.simps [simp del]

definition length_in_bits :: "Integer \<Rightarrow> nat run" where
  "length_in_bits x =
     (if is_zero x then ret 0
      else let i = ilength x - 1 in
           bindR (digit_at x i) (\<lambda>d. ret (i * logB + length_in_bits_digit d)))"

subsection \<open>Announced sizes\<close>

definition and_result_size_in_bytes :: "Integer \<Rightarrow> Integer \<Rightarrow> nat" where
  "and_result_size_in_bytes x y =
     length_to_size_in_bytes
       (if is_zero x \<or> is_zero y then 0
        else if is_positive x \<and> is_positive y then min (ilength x) (ilength y)
        else if is_positive x then ilength x
        else if is_positive y then ilength y
        else max (ilength x) (ilength y))"

definition or_result_size_in_bytes :: "Integer \<Rightarrow> Integer \<Rightarrow> nat" where
  "or_result_size_in_bytes x y =
     length_to_size_in_bytes
       (if \<not> is_negative x \<and> \<not> is_negative y then max (ilength x) (ilength y)
        else if is_positive y then ilength x
        else if is_positive x then ilength y
        else min (ilength x) (ilength y))"

definition xor_result_size_in_bytes :: "Integer \<Rightarrow> Integer \<Rightarrow> nat" where
  "xor_result_size_in_bytes x y =
     length_to_size_in_bytes
       (if is_negative x \<noteq> is_negative y then max (ilength x) (ilength y) + 1
        else max (ilength x) (ilength y))"

definition ash_result_size_in_bytes :: "Integer \<Rightarrow> int \<Rightarrow> nat run" where
  "ash_result_size_in_bytes x n =
     (if is_zero x \<or> n = 0 then ret (length_to_size_in_bytes (ilength x))
      else if n > 0
      then let r = nat n mod logB; m = nthMask (logB - r) XOR oneB in
           bindR (digit_at x (ilength x - 1)) (\<lambda>d.
             ret (length_to_size_in_bytes (ilength x + nat n div logB + of_bool (m AND d \<noteq> 0))))
      else ret (length_to_size_in_bytes (max (ilength x - nat (- n) div logB) 1)))"

section \<open>Scans as digit chains\<close>

lemma scan_chain: "scan step as (c :: digit) = chain step as c"
  by (induction as arbitrary: c) (simp_all add: Let_def split: prod.split)

lemma scan_single:
  "length ps = length ns \<Longrightarrow>
   scan (\<lambda>(p, n) b. let (n', b') = t n b in (f p n', b')) (zip ps ns) b =
     (let (ns', b') = scan t ns b in (map2 f ps ns', b'))"
  by (induction ps ns arbitrary: b rule: list_induct2) (auto simp: Let_def split: prod.splits)

lemma scan_double:
  "length ps = length ns \<Longrightarrow>
   scan (\<lambda>(p, n) (b, c). let (n', b') = t n b; (r, c') = u (f p n') c in (r, (b', c'))) (zip ps ns) (b, c) =
     (let (ns', b') = scan t ns b; (rs, c') = scan u (map2 f ps ns') c in (rs, (b', c')))"
  by (induction ps ns arbitrary: b c rule: list_induct2) (auto simp: Let_def split: prod.splits)

lemma scan_pair:
  "length xs = length ys \<Longrightarrow>
   scan (\<lambda>(x, y) (a, b). let (x', a') = s x a; (y', b') = t y b in (f x' y', (a', b'))) (zip xs ys) (a, b) =
     (let (xs', a') = scan s xs a; (ys', b') = scan t ys b in (map2 f xs' ys', (a', b')))"
  by (induction xs ys arbitrary: a b rule: list_induct2) (auto simp: Let_def split: prod.splits)

lemma scan_triple:
  "length xs = length ys \<Longrightarrow>
   scan (\<lambda>(x, y) (a, b, c). let (x', a') = s x a; (y', b') = t y b; (r, c') = u (f x' y') c in (r, (a', b', c')))
     (zip xs ys) (a, b, c) =
     (let (xs', a') = scan s xs a; (ys', b') = scan t ys b; (rs, c') = scan u (map2 f xs' ys') c
      in (rs, (a', b', c')))"
  by (induction xs ys arbitrary: a b c rule: list_induct2) (auto simp: Let_def split: prod.splits)

lemma scan_then:
  "scan (\<lambda>n (b, c). let (n', b') = t n b; (r, c') = u n' c in (r, (b', c'))) ns (b, c) =
     (let (ns', b') = scan t ns b; (rs, c') = scan u ns' c in (rs, (b', c')))"
  by (induction ns arbitrary: b c) (auto simp: Let_def split: prod.splits)

text \<open>Subtracting and adding a carry along a sequence.\<close>

definition dec :: "digit list \<Rightarrow> digit \<Rightarrow> digit list \<times> digit" where
  "dec xs c = chain (\<lambda>x c. xmy x 0 c) xs c"

definition inc :: "digit list \<Rightarrow> digit \<Rightarrow> digit list \<times> digit" where
  "inc xs c = chain (\<lambda>x c. xpy x 0 c) xs c"

interpretation inc_chain: carry_chain "\<lambda>x. xpy x 0" unat
  by unfold_locales (auto dest: xpy_step)

lemma xmy_0_step:
  assumes "xmy x 0 c = (r, c')" and "unat c \<le> 1"
  shows "unat r + unat c = unat x + radix * unat c'" and "unat c' \<le> 1"
proof -
  have "unat (0 :: digit) = 0" by simp
  then have "unat (0 :: digit) + unat c \<le> radix" using assms(2) radix_pos(1) by linarith
  from xmy_step [OF assms(1) this]
  show "unat r + unat c = unat x + radix * unat c'" and "unat c' \<le> 1" by simp_all
qed

interpretation dec_chain: borrow_chain "\<lambda>x. xmy x 0" unat "\<lambda>_. 0"
  by unfold_locales (use xmy_0_step in auto)

lemma dec_spec:
  assumes "dec xs c = (ds, b)" and "unat c \<le> 1"
  shows "nval ds + unat c = nval xs + radix ^ length xs * unat b" and "unat b \<le> 1" and "length ds = length xs"
  using dec_chain.chain_diff [of xs c ds b] assms length_chain [of _ xs c ds b] by (auto simp: dec_def)

lemma inc_spec:
  assumes "inc xs c = (rs, b)"
  shows "nval rs + radix ^ length xs * unat b = nval xs + unat c" and "length rs = length xs"
  using inc_chain.chain_sum [of xs c rs b] assms length_chain [of _ xs c rs b] by (auto simp: inc_def)

lemma digit_le_1: "unat (c :: digit) \<le> 1 \<longleftrightarrow> c = 0 \<or> c = 1"
proof
  assume "unat c \<le> 1"
  then have "unat c = unat (0 :: digit) \<or> unat c = unat (1 :: digit)" by auto
  then show "c = 0 \<or> c = 1" unfolding word_unat_eq_iff by blast
qed auto

lemma inc_carry_le: "inc xs c = (rs, b) \<Longrightarrow> unat c \<le> 1 \<Longrightarrow> unat b \<le> 1"
proof (rule ccontr)
  assume a: "inc xs c = (rs, b)" "unat c \<le> 1" "\<not> unat b \<le> 1"
  then have "radix ^ length xs * 2 \<le> radix ^ length xs * unat b" by (intro mult_le_mono2) simp
  then show False using inc_spec(1) [OF a(1)] a(2) nval_less [of xs] by linarith
qed

lemma unat_NOT_digit: "unat (NOT d :: digit) = radix - 1 - unat d"
proof -
  have "NOT d = - d - 1" by (simp add: not_eq_complement)
  then have "NOT d + d = - 1" by simp
  moreover have "unat (- 1 :: digit) = radix - 1"
    by (simp add: radix_def unsigned_minus_1_eq_mask mask_eq_exp_minus_1)
  ultimately have "unat (NOT d + d) = radix - 1" by simp
  then have m: "(unat (NOT d) + unat d) mod radix = radix - 1"
    by (simp add: unat_word_ariths radix_def)
  have lt: "unat (NOT d) + unat d < 2 * radix - 1"
    using unat_less_radix [of d] unat_less_radix [of "NOT d"] by linarith
  have "unat (NOT d) + unat d = radix - 1"
  proof (cases "unat (NOT d) + unat d < radix")
    case False
    then have "(unat (NOT d) + unat d) mod radix = (unat (NOT d) + unat d - radix) mod radix"
      by (simp add: le_mod_geq)
    also have "\<dots> = unat (NOT d) + unat d - radix" using lt by (intro mod_less) linarith
    finally show ?thesis using m lt False by linarith
  qed (use m in simp)
  then show ?thesis by simp
qed

lemma complement_step:
  assumes "unat c \<le> 1" and "xmy x 0 c = (r, c')"
  shows "xpy (x XOR 0xffffffff) 0 c = (NOT r, c')"
proof -
  obtain q k where q: "xpy (x XOR 0xffffffff) 0 c = (q, k)" by fastforce
  have x: "x XOR 0xffffffff = NOT x"
  proof -
    have "(0xffffffff :: digit) = - 1" by simp
    then show ?thesis by (simp only: bit.xor_one_right)
  qed
  have "unat q + radix * unat k = unat (NOT x) + unat c"
    using xpy_step [OF q] unfolding x by simp
  then have "unat q + radix * unat k + unat x + 1 = radix + unat c"
    using unat_NOT_digit [of x] unat_less_radix [of x] by linarith
  moreover have "unat r + unat c = unat x + radix * unat c'" and c': "unat c' \<le> 1"
    using xmy_0_step [OF assms(2,1)] by simp_all
  ultimately have e: "unat q + radix * unat k = (radix - 1 - unat r) + radix * unat c'"
    using unat_less_radix [of r] by linarith
  have "unat q = (unat q + radix * unat k) mod radix" by simp
  also have "\<dots> = radix - 1 - unat r" unfolding e by simp
  finally have "unat q = unat (NOT r)" by (simp add: unat_NOT_digit)
  moreover have "unat k = (unat q + radix * unat k) div radix" by simp
  then have "unat k = unat c'" unfolding e by simp
  ultimately show ?thesis using q by (simp add: word_unat_eq_iff)
qed

lemma scan_complement:
  "dec xs c = (ds, b) \<Longrightarrow> unat c \<le> 1 \<Longrightarrow>
   scan (\<lambda>x c. xpy (x XOR 0xffffffff) 0 c) xs c = (map NOT ds, b)"
proof (induction xs arbitrary: c ds)
  case (Cons x xs)
  obtain r c1 ds1 where s: "xmy x 0 c = (r, c1)" and t: "dec xs c1 = (ds1, b)" and ds: "ds = r # ds1"
    using Cons.prems(1) by (auto simp: dec_def Let_def split: prod.splits)
  have "unat c1 \<le> 1" using xmy_0_step [OF s] Cons.prems(2) by simp
  then show ?case
    using Cons.IH [OF t] complement_step [OF Cons.prems(2) s] by (simp add: ds Let_def)
qed (simp add: dec_def)

section \<open>Digit sequences as bit strings\<close>

lemma int_split_at: "(n :: int) = m \<longleftrightarrow> take_bit k n = take_bit k m \<and> drop_bit k n = drop_bit k m"
  by (metis bits_ident)

lemma int_nval_Cons: "int (nval (d # ds)) = uint d + 2 ^ 32 * int (nval ds)"
  by (simp add: radix_def)

lemma uint_digit: "0 \<le> uint (d :: digit)" "uint (d :: digit) < 2 ^ 32"
  using uint_lt2p [of d] by simp_all

lemma nval_take_bit_32: "take_bit 32 (int (nval (d # ds))) = uint d"
  unfolding int_nval_Cons take_bit_eq_mod using uint_digit [of d] by simp

lemma nval_drop_bit_32: "drop_bit 32 (int (nval (d # ds))) = int (nval ds)"
  unfolding int_nval_Cons drop_bit_eq_div using uint_digit [of d] by simp

lemma nval_map2:
  assumes "\<And>x y. uint (f x y) = take_bit 32 (g (uint x) (uint y))"
    and "\<And>a b. take_bit 32 (g (take_bit 32 a) (take_bit 32 b)) = take_bit 32 (g a b)"
    and "\<And>a b. drop_bit 32 (g a b) = g (drop_bit 32 a) (drop_bit 32 b)"
    and "g 0 0 = 0" and "length xs = length ys"
  shows "int (nval (map2 f xs ys)) = g (int (nval xs)) (int (nval ys))"
  using assms(5)
proof (induction xs ys rule: list_induct2)
  case (Cons x xs y ys)
  have "take_bit 32 (g (int (nval (x # xs))) (int (nval (y # ys)))) = take_bit 32 (g (uint x) (uint y))"
    by (metis assms(2) nval_take_bit_32)
  then have "take_bit 32 (int (nval (f x y # map2 f xs ys)))
      = take_bit 32 (g (int (nval (x # xs))) (int (nval (y # ys))))"
    by (simp only: nval_take_bit_32 assms(1))
  moreover have "drop_bit 32 (int (nval (f x y # map2 f xs ys)))
      = drop_bit 32 (g (int (nval (x # xs))) (int (nval (y # ys))))"
    by (simp only: nval_drop_bit_32 assms(3) Cons.IH)
  ultimately have "int (nval (f x y # map2 f xs ys)) = g (int (nval (x # xs))) (int (nval (y # ys)))"
    using int_split_at by blast
  then show ?case by simp
qed (simp add: assms(4))

lemma take_bit_uint: "take_bit 32 (uint (x :: digit)) = uint x"
  using nval_take_bit_32 [of x "[]"] by simp

lemma uint_andnot: "uint (NOT p AND d :: digit) = NOT (uint p) AND uint d"
proof -
  have "uint (NOT p AND d) = uint (NOT p) AND uint d" by (simp add: unsigned_and_eq)
  also have "\<dots> = NOT (uint p) AND uint d"
    by (rule bit_eqI) (auto simp: bit_simps unsigned_not_eq dest: bit_imp_le_length)
  finally show ?thesis .
qed

lemma nval_and: "length xs = length ys \<Longrightarrow> int (nval (map2 (AND) xs ys)) = int (nval xs) AND int (nval ys)"
  by (rule nval_map2) (simp_all add: unsigned_and_eq take_bit_uint)

lemma nval_or: "length xs = length ys \<Longrightarrow> int (nval (map2 (OR) xs ys)) = int (nval xs) OR int (nval ys)"
  by (rule nval_map2) (simp_all add: unsigned_or_eq take_bit_uint)

lemma nval_xor: "length xs = length ys \<Longrightarrow> int (nval (map2 (XOR) xs ys)) = int (nval xs) XOR int (nval ys)"
  by (rule nval_map2) (simp_all add: unsigned_xor_eq take_bit_uint)

lemma nval_andnot:
  "length xs = length ys \<Longrightarrow>
   int (nval (map2 (\<lambda>p d. NOT p AND d) xs ys)) = NOT (int (nval xs)) AND int (nval ys)"
proof (rule nval_map2)
  show "uint (NOT x AND y) = take_bit 32 (NOT (uint x) AND uint y)" for x y :: digit
    by (simp only: uint_andnot take_bit_and [of 32 "NOT (uint x)"] take_bit_uint) (metis take_bit_and take_bit_uint uint_andnot)
  show "take_bit 32 (NOT (take_bit 32 a) AND take_bit 32 b) = take_bit 32 (NOT a AND b)" for a b :: int
    by (rule bit_eqI) (auto simp: bit_simps)
  show "drop_bit 32 (NOT a AND b) = NOT (drop_bit 32 a) AND drop_bit 32 b" for a b :: int
    by (rule bit_eqI) (auto simp: bit_simps)
qed simp_all

text \<open>The first \<open>l\<close> digits are the first \<open>32 l\<close> bits.\<close>

lemma radix_power: "int (radix ^ l) = 2 ^ (32 * l)"
  by (simp add: radix_def power_mult)

lemma int_radix_power: "int radix ^ l = 2 ^ (32 * l)"
  using radix_power [of l] by simp

lemma nval_take: "l \<le> length xs \<Longrightarrow> int (nval (take l xs)) = take_bit (32 * l) (int (nval xs))"
proof -
  assume l: "l \<le> length xs"
  have "nval xs mod radix ^ l = nval (take l xs)"
    using nval_take_drop [of xs l] nval_less [of "take l xs"] l by simp
  then have "int (nval (take l xs)) = int (nval xs) mod int (radix ^ l)" by (metis of_nat_mod)
  then show ?thesis unfolding radix_power by (simp only: take_bit_eq_mod)
qed

lemma nval_drop: "l \<le> length xs \<Longrightarrow> int (nval (drop l xs)) = drop_bit (32 * l) (int (nval xs))"
proof -
  assume l: "l \<le> length xs"
  have "nval xs div radix ^ l = nval (drop l xs)"
    using nval_take_drop [of xs l] nval_less [of "take l xs"] l by (simp add: min_absorb1 min_absorb2)
  then have "int (nval (drop l xs)) = int (nval xs) div int (radix ^ l)" by (metis of_nat_div)
  then show ?thesis unfolding radix_power by (simp only: drop_bit_eq_div)
qed

lemma take_bit_nval: "take_bit (32 * length xs) (int (nval xs)) = int (nval xs)"
  using nval_take [of "length xs" xs] by simp

lemma drop_bit_nval: "length xs \<le> l \<Longrightarrow> drop_bit (32 * l) (int (nval xs)) = 0"
proof -
  assume l: "length xs \<le> l"
  have "nval xs < radix ^ length xs" by (rule nval_less)
  also have "\<dots> \<le> radix ^ l" using l by (rule power_increasing) simp
  finally have "int (nval xs) < 2 ^ (32 * l)" by (metis radix_power of_nat_less_iff)
  then show ?thesis by (simp add: drop_bit_eq_div)
qed

lemma nval_append_bits:
  "int (nval (xs @ ys)) = take_bit (32 * length xs) (int (nval xs)) + 2 ^ (32 * length xs) * int (nval ys)"
  by (simp add: take_bit_nval nval_append flip: radix_power)

text \<open>The borrow chain computes the low bits of the predecessor.\<close>

lemma dec_take:
  assumes "dec (take l xs) 1 = (ds, b)" and "l \<le> length xs"
  shows "int (nval ds) = take_bit (32 * l) (int (nval xs) - 1)" and "length ds = l"
    and "drop_bit (32 * l) (int (nval xs) - 1) = drop_bit (32 * l) (int (nval xs)) - int (unat b)"
    and "unat b \<le> 1" and "unat b = 1 \<longleftrightarrow> radix ^ l dvd nval xs"
proof -
  have len: "length (take l xs) = l" using assms(2) by simp
  show ld: "length ds = l" and b: "unat b \<le> 1" using dec_spec [OF assms(1)] len by simp_all
  have s: "nval ds + 1 = nval (take l xs) + radix ^ l * unat b"
    using dec_spec(1) [OF assms(1)] len by simp
  have x: "nval xs = nval (take l xs) + radix ^ l * nval (drop l xs)"
    using nval_take_drop [of xs l] assms(2) by (simp add: min_def)
  have e: "int (nval xs) - 1 = int (nval ds) + 2 ^ (32 * l) * (int (nval (drop l xs)) - int (unat b))"
    using arg_cong [OF s, of int] arg_cong [OF x, of int]
    by (simp add: int_radix_power distrib_left right_diff_distrib)
  have r: "0 \<le> int (nval ds)" "int (nval ds) < 2 ^ (32 * l)"
    using nval_less [of ds] ld by (simp, metis radix_power of_nat_less_iff)
  show "int (nval ds) = take_bit (32 * l) (int (nval xs) - 1)"
    unfolding e take_bit_eq_mod using r by simp
  show "drop_bit (32 * l) (int (nval xs) - 1) = drop_bit (32 * l) (int (nval xs)) - int (unat b)"
    unfolding e drop_bit_eq_div nval_drop [OF assms(2), unfolded drop_bit_eq_div, symmetric] using r by simp
  show "unat b = 1 \<longleftrightarrow> radix ^ l dvd nval xs"
  proof
    assume "unat b = 1"
    then have "nval (take l xs) = 0"
      using s nval_less [of ds] ld by simp
    then show "radix ^ l dvd nval xs" using x by simp
  next
    assume "radix ^ l dvd nval xs"
    then have "radix ^ l dvd nval (take l xs)" using x by (metis dvd_add_left_iff dvd_triv_left)
    then have "nval (take l xs) = 0"
      using nval_less [of "take l xs"] len by (metis nat_dvd_not_less not_gr_zero)
    then show "unat b = 1" using s b by (cases "unat b = 0") auto
  qed
qed

lemma nval_and_not:
  assumes "length xs = length ys"
  shows "int (nval (map2 (\<lambda>p d. p AND NOT d) xs ys)) = int (nval xs) AND NOT (int (nval ys))"
proof -
  have "map2 (\<lambda>p d. p AND NOT d) xs ys = map2 (\<lambda>p d. NOT p AND d) ys xs"
    using assms by (intro nth_equalityI) (simp_all add: ac_simps)
  then show ?thesis using nval_andnot [of ys xs] assms by (simp add: ac_simps)
qed

section \<open>The operations on digit sequences\<close>

lemma take_and_drop_eqI:
  assumes "take_bit k (a :: int) = take_bit k b" and "drop_bit k a = drop_bit k b"
  shows "a = b"
  using assms int_split_at by blast

lemma drop_bit_NOT: "drop_bit n (NOT (a :: int)) = NOT (drop_bit n a)"
  by (rule bit_eqI) (auto simp: bit_simps)

lemma take_bit_append: "length xs = l \<Longrightarrow> take_bit (32 * l) (int (nval (xs @ ys))) = int (nval xs)"
  using nval_take [of l "xs @ ys"] by simp

lemma drop_bit_append: "length xs = l \<Longrightarrow> drop_bit (32 * l) (int (nval (xs @ ys))) = int (nval ys)"
  using nval_drop [of l "xs @ ys"] by simp

lemma bitop_aligned:
  assumes "l = min (length xs) (length ys)"
  shows "int (nval (map2 (OR) (take l xs) (take l ys) @ drop l xs @ drop l ys)) = int (nval xs) OR int (nval ys)"
    and "int (nval (map2 (XOR) (take l xs) (take l ys) @ drop l xs @ drop l ys)) = int (nval xs) XOR int (nval ys)"
    and "int (nval (map2 (AND) (take l xs) (take l ys))) = int (nval xs) AND int (nval ys)"
proof -
  have l: "l \<le> length xs" "l \<le> length ys" using assms by simp_all
  have e: "drop l xs = [] \<or> drop l ys = []" using assms by auto
  have d: "drop_bit (32 * l) (int (nval xs)) = 0 \<or> drop_bit (32 * l) (int (nval ys)) = 0"
    using e nval_drop [OF l(1)] nval_drop [OF l(2)] by auto
  have h: "int (nval (drop l xs @ drop l ys)) = drop_bit (32 * l) (int (nval xs)) OR drop_bit (32 * l) (int (nval ys))"
    "int (nval (drop l xs @ drop l ys)) = drop_bit (32 * l) (int (nval xs)) XOR drop_bit (32 * l) (int (nval ys))"
    using e nval_drop [OF l(1)] nval_drop [OF l(2)] by (elim disjE; simp)+
  show "int (nval (map2 (OR) (take l xs) (take l ys) @ drop l xs @ drop l ys)) = int (nval xs) OR int (nval ys)"
    by (rule take_and_drop_eqI [of "32 * l"])
      (simp_all add: take_bit_append drop_bit_append l nval_or h(1) nval_take take_bit_or drop_bit_or)
  show "int (nval (map2 (XOR) (take l xs) (take l ys) @ drop l xs @ drop l ys)) = int (nval xs) XOR int (nval ys)"
    by (rule take_and_drop_eqI [of "32 * l"])
      (simp_all add: take_bit_append drop_bit_append l nval_xor h(2) nval_take take_bit_xor drop_bit_xor)
  have "drop_bit (32 * l) (int (nval xs) AND int (nval ys)) = 0" using d by (auto simp: drop_bit_and)
  moreover have "drop_bit (32 * l) (int (nval (map2 (AND) (take l xs) (take l ys)))) = 0"
    using l by (intro drop_bit_nval) simp
  moreover have "take_bit (32 * l) (int (nval (map2 (AND) (take l xs) (take l ys))))
      = take_bit (32 * l) (int (nval xs) AND int (nval ys))"
    using l by (simp add: nval_and nval_take take_bit_and)
  ultimately show "int (nval (map2 (AND) (take l xs) (take l ys))) = int (nval xs) AND int (nval ys)"
    by (intro take_and_drop_eqI [of "32 * l" "int (nval (map2 (AND) (take l xs) (take l ys)))"]) simp_all
qed

text \<open>A sequence against the two's complement of a second, non-zero one.\<close>

lemma drop_pred:
  assumes "dec (take l ns) 1 = (ds, b)" and "length ns = l" and "nval ns \<noteq> 0"
  shows "drop_bit (32 * l) (int (nval ns) - 1) = 0" and "b = 0"
proof -
  have "\<not> radix ^ l dvd nval ns"
    using nval_less [of ns] assms(2,3) by (auto dest: nat_dvd_not_less)
  then show b: "b = 0"
    using dec_take(4,5) [OF assms(1)] assms(2) digit_le_1 [of b] by auto
  show "drop_bit (32 * l) (int (nval ns) - 1) = 0"
    using dec_take(3) [OF assms(1)] assms(2) drop_bit_nval [of ns l] by (simp add: b)
qed

lemma and_twos:
  assumes l: "l = min (length ps) (length ns)" and n: "nval ns \<noteq> 0" and d: "dec (take l ns) 1 = (ds, b)"
  shows "int (nval (map2 (AND) (take l ps) (map NOT ds) @ drop l ps)) = int (nval ps) AND NOT (int (nval ns) - 1)"
proof (rule take_and_drop_eqI [of "32 * l"])
  have l': "l \<le> length ps" "l \<le> length ns" using l by simp_all
  have ds: "length ds = l" and v: "int (nval ds) = take_bit (32 * l) (int (nval ns) - 1)"
    using dec_take [OF d l'(2)] by simp_all
  have "map2 (AND) (take l ps) (map NOT ds) = map2 (\<lambda>p d. p AND NOT d) (take l ps) ds"
    by (simp add: zip_map2 split_beta)
  then show "take_bit (32 * l) (int (nval (map2 (AND) (take l ps) (map NOT ds) @ drop l ps)))
      = take_bit (32 * l) (int (nval ps) AND NOT (int (nval ns) - 1))"
    using ds l' v by (simp add: take_bit_append nval_and_not nval_take)
      (rule bit_eqI, auto simp: bit_simps)
  have "drop_bit (32 * l) (int (nval ps)) = drop_bit (32 * l) (int (nval ps) AND NOT (int (nval ns) - 1))"
  proof (cases "length ps \<le> l")
    case True
    then show ?thesis by (simp add: drop_bit_nval drop_bit_and)
  next
    case False
    then have "length ns = l" using l by simp
    then have "drop_bit (32 * l) (int (nval ns) - 1) = 0" using drop_pred(1) [OF d _ n] by simp
    then have "drop_bit (32 * l) (NOT (int (nval ns) - 1)) = - 1"
      by (simp add: drop_bit_NOT)
    then show ?thesis by (simp add: drop_bit_and)
  qed
  then show "drop_bit (32 * l) (int (nval (map2 (AND) (take l ps) (map NOT ds) @ drop l ps)))
      = drop_bit (32 * l) (int (nval ps) AND NOT (int (nval ns) - 1))"
    using ds l' by (simp add: drop_bit_append nval_drop)
qed

section \<open>Conjunction\<close>

text \<open>\<open>represents z v\<close>: the digits in use lie in the buffer and stand for \<open>v\<close>.\<close>

definition represents :: "Integer \<Rightarrow> int \<Rightarrow> bool" where
  "represents z v \<longleftrightarrow> ilength z \<le> length (digits z) \<and> ival z = v"

lemma store_represents:
  assumes "length ds \<le> length (digits z)" and "\<bar>l\<bar> = int (length ds)"
    and "v = (if l < 0 then - int (nval ds) else int (nval ds))"
  shows "\<exists>z'. store z ds l = ret z' \<and> represents z' v"
  using assms by (simp add: represents_def ilength_def ival_def uval_def)

lemma wf_uval_nonzero: "wf_Integer x \<Longrightarrow> ilength x \<noteq> 0 \<Longrightarrow> uval x \<noteq> 0"
  using uval_eq_0_iff by simp

lemma ival_twos: "is_negative x \<Longrightarrow> ival x = NOT (int (uval x) - 1)"
  by (simp add: ival_def is_negative_def not_eq_complement)

lemma ival_nonneg: "\<not> is_negative x \<Longrightarrow> ival x = int (uval x)"
  by (simp add: ival_def is_negative_def)

lemma is_negative_nonzero: "is_negative x \<Longrightarrow> ilength x \<noteq> 0" "is_positive x \<Longrightarrow> ilength x \<noteq> 0"
  by (simp_all add: is_negative_def is_positive_def ilength_def)

lemma and_one_positive_ret:
  assumes p: "wf_Integer p" "\<not> is_negative p" and n: "wf_Integer n" "is_negative n"
    and z: "ilength p \<le> length (digits z)"
  shows "\<exists>z'. and_one_positive p n z = ret z' \<and> represents z' (ival p AND ival n)"
proof -
  define ps ns where "ps = take (ilength p) (digits p)" and "ns = take (ilength n) (digits n)"
  define l where "l = min (length ps) (length ns)"
  obtain ds b where d: "dec (take l ns) 1 = (ds, b)" by fastforce
  have n0: "nval ns \<noteq> 0"
    using wf_uval_nonzero [OF n(1) is_negative_nonzero(1) [OF n(2)]] by (simp add: uval_def ns_def)
  have ln: "length ds = l" using dec_take(2) [OF d] by (simp add: l_def)
  have "scan (\<lambda>x c. xpy (x XOR oneB) 0 c) (take l ns) 1 = (map NOT ds, b)"
    using scan_complement [OF d] by (simp add: oneB_def)
  then have sc: "scan (\<lambda>(p, n) carry. let (n', carry') = xpy (n XOR oneB) 0 carry in (p AND n', carry'))
      (zip (take l ps) (take l ns)) 1 = (map2 (AND) (take l ps) (map NOT ds), b)"
    by (subst scan_single) (simp_all add: l_def)
  have v: "int (nval (map2 (AND) (take l ps) (map NOT ds) @ drop l ps)) = ival p AND ival n"
    using and_twos [OF l_def n0 d] ival_nonneg [OF p(2)] ival_twos [OF n(2)] by (simp add: uval_def ps_def ns_def)
  have len: "length (map2 (AND) (take l ps) (map NOT ds) @ drop l ps) = length ps"
    using ln by (simp add: l_def)
  have "length ps = ilength p" using p(1) by (simp add: ps_def wf_Integer_def)
  then have "\<exists>z'. store z (map2 (AND) (take l ps) (map NOT ds) @ drop l ps) (int (length ps)) = ret z'
      \<and> represents z' (ival p AND ival n)"
    using z len v by (intro store_represents) simp_all
  then show ?thesis
    unfolding and_one_positive_def live_wf [OF p(1)] live_wf [OF n(1)] bindR_ret ps_def [symmetric] ns_def [symmetric]
      Let_def l_def [symmetric] sc [unfolded Let_def] prod.case .
qed

text \<open>
  Both negative: the low digits are right, but the digits above the shorter operand are copied
  from the longer one and the carry into them is dropped.
\<close>

definition low_pred :: "nat \<Rightarrow> nat \<Rightarrow> int" where
  "low_pred l v = take_bit (32 * l) (int v - 1)"

lemma nval_bound: "int (nval rs) < 2 ^ (32 * length rs)"
  using nval_less [of rs] by (metis radix_power of_nat_less_iff)

lemma low_pred_mask: "radix ^ l dvd v \<Longrightarrow> low_pred l v = mask (32 * l)"
proof -
  assume "radix ^ l dvd v"
  then have "(2 :: int) ^ (32 * l) dvd int v" by (metis radix_power of_nat_dvd_iff)
  then have "(int v - 1) mod 2 ^ (32 * l) = (- 1) mod 2 ^ (32 * l)"
    by (metis diff_0 dvd_imp_mod_0 mod_diff_left_eq)
  then show ?thesis
    by (simp add: low_pred_def take_bit_eq_mod [symmetric])
qed

lemma low_pred_or_mask: "mask (32 * l) OR low_pred l v = mask (32 * l)" "low_pred l v OR mask (32 * l) = mask (32 * l)"
  by (rule bit_eqI, auto simp: low_pred_def bit_simps)+

lemma NOT_and_NOT: "NOT a AND NOT b = - ((a OR b) + 1)" for a b :: int
  using not_eq_complement [of "a OR b"] by simp

lemma or_carry_core:
  fixes P Q :: int
  assumes "drop_bit k P = H - b" and "drop_bit k Q = 0" and "r + 2 ^ k * c = (take_bit k P OR take_bit k Q) + 1"
  shows "r + 2 ^ k * H = (P OR Q) + 1 \<longleftrightarrow> c = b"
proof -
  have "P OR Q = take_bit k (P OR Q) + 2 ^ k * drop_bit k (P OR Q)"
    by (metis bits_ident push_bit_eq_mult mult.commute add.commute)
  also have "\<dots> = (take_bit k P OR take_bit k Q) + 2 ^ k * (H - b)"
    using assms(1,2) by (simp add: take_bit_or drop_bit_or)
  finally have e: "P OR Q = (take_bit k P OR take_bit k Q) + 2 ^ k * H - 2 ^ k * b"
    by (simp add: right_diff_distrib)
  have "r + 2 ^ k * H = (P OR Q) + 1 \<longleftrightarrow> 2 ^ k * b = 2 ^ k * c"
  proof
    assume "r + 2 ^ k * H = (P OR Q) + 1"
    with e assms(3) show "2 ^ k * b = 2 ^ k * c" by linarith
  next
    assume "2 ^ k * b = 2 ^ k * c"
    with e assms(3) show "r + 2 ^ k * H = (P OR Q) + 1" by linarith
  qed
  then show ?thesis by auto
qed

lemma and_both_negative_ret:
  assumes x: "wf_Integer x" "is_negative x" and y: "wf_Integer y" "is_negative y"
    and z: "max (ilength x) (ilength y) \<le> length (digits z)"
  defines "l \<equiv> min (ilength x) (ilength y)"
  shows "\<exists>z' v. and_both_negative x y z = ret z' \<and> represents z' v \<and>
    (v = ival x AND ival y \<longleftrightarrow>
       low_pred l (uval x) OR low_pred l (uval y) \<noteq> mask (32 * l)
       \<or> radix ^ l dvd uval x \<or> radix ^ l dvd uval y)"
proof -
  define xs ys where "xs = take (ilength x) (digits x)" and "ys = take (ilength y) (digits y)"
  have len: "length xs = ilength x" "length ys = ilength y"
    using x(1) y(1) by (simp_all add: xs_def ys_def wf_Integer_def)
  have lx: "l \<le> length xs" and ly: "l \<le> length ys" and l: "l = min (length xs) (length ys)"
    by (simp_all add: l_def len)
  obtain dx bx where dx: "dec (take l xs) 1 = (dx, bx)" by fastforce
  obtain dy by' where dy: "dec (take l ys) 1 = (dy, by')" by fastforce
  obtain rs c where rs: "inc (map2 (OR) dx dy) 1 = (rs, c)" by fastforce
  note X = dec_take [OF dx lx] and Y = dec_take [OF dy ly]
  have "map2 (\<lambda>x y. (x AND y) XOR 0xffffffff) (map NOT dx) (map NOT dy) = map2 (OR) dx dy"
  proof -
    have "(NOT a AND NOT b) XOR (0xffffffff :: digit) = a OR b" for a b
    proof -
      have "(0xffffffff :: digit) = - 1" by simp
      then show ?thesis by (simp only: bit.xor_one_right) simp
    qed
    then show ?thesis by (simp add: zip_map1 zip_map2 split_beta)
  qed
  then have sc: "scan (\<lambda>(x, y) (xcarry, ycarry, zcarry).
      let (x', xcarry') = xpy (x XOR 0xffffffff) 0 xcarry;
          (y', ycarry') = xpy (y XOR 0xffffffff) 0 ycarry;
          (r, zcarry') = xpy ((x' AND y') XOR 0xffffffff) 0 zcarry
      in (r, (xcarry', ycarry', zcarry'))) (zip (take l xs) (take l ys)) (1, 1, 1) = (rs, (bx, by', c))"
    using scan_complement [OF dx] scan_complement [OF dy] rs
    by (subst scan_triple [where f = "\<lambda>x y. (x AND y) XOR 0xffffffff"])
      (simp_all add: l scan_chain inc_def)
  define H where "H = nval (drop l xs @ drop l ys)"
  define out where "out = rs @ drop l xs @ drop l ys"
  have lrs: "length rs = l" using inc_spec(2) [OF rs] X(2) Y(2) by simp
  have lout: "length out = max (length xs) (length ys)" using lrs l by (simp add: out_def)
  define lo where "lo = low_pred l (uval x) OR low_pred l (uval y)"
  have lo: "int (nval (map2 (OR) dx dy)) = lo"
    using X(1,2) Y(1,2) by (simp add: nval_or lo_def low_pred_def uval_def xs_def ys_def)
  have c1: "unat c \<le> 1" using inc_carry_le [OF rs] by simp
  have rsv: "int (nval rs) + 2 ^ (32 * l) * int (unat c) = lo + 1"
    using arg_cong [OF inc_spec(1) [OF rs], of int] lo X(2) Y(2) by (simp add: int_radix_power)
  have "lo < 2 ^ (32 * l)" "0 \<le> lo"
    using nval_less [of "map2 (OR) dx dy"] X(2) Y(2) lo by (simp_all flip: lo radix_power)
  then have cc: "unat c = 1 \<longleftrightarrow> lo = mask (32 * l)"
    using rsv c1 [unfolded digit_le_1] nval_bound [of rs] lrs by (auto simp: mask_eq_exp_minus_1)
  have out: "int (nval out) = int (nval rs) + 2 ^ (32 * l) * int H"
    using lrs by (simp add: out_def H_def nval_append int_radix_power)
  have dvd: "unat bx = 1 \<longleftrightarrow> radix ^ l dvd uval x" "unat by' = 1 \<longleftrightarrow> radix ^ l dvd uval y"
    using X(5) Y(5) by (simp_all add: uval_def xs_def ys_def)
  have full: "unat c = 1" if "radix ^ l dvd uval x \<or> radix ^ l dvd uval y"
    using that unfolding cc lo_def by (elim disjE) (simp_all only: low_pred_mask low_pred_or_mask)
  have n0: "nval xs \<noteq> 0" "nval ys \<noteq> 0"
    using wf_uval_nonzero [OF x(1) is_negative_nonzero(1) [OF x(2)]]
      wf_uval_nonzero [OF y(1) is_negative_nonzero(1) [OF y(2)]] by (simp_all add: uval_def xs_def ys_def)
  have T: "ival x AND ival y = - (((int (nval xs) - 1) OR (int (nval ys) - 1)) + 1)"
    using ival_twos [OF x(2)] ival_twos [OF y(2)] unfolding uval_def xs_def ys_def
    by (simp only: NOT_and_NOT)
  have core: "int (nval out) = ((int (nval xs) - 1) OR (int (nval ys) - 1)) + 1 \<longleftrightarrow> uint c = uint bx + uint by'"
  proof (cases "length ys \<le> length xs")
    case True
    then have ly: "length ys = l" by (simp add: l)
    note dy0 = drop_pred [OF dy ly n0(2)]
    have "int H = drop_bit (32 * l) (int (nval xs))" using ly lx by (simp add: H_def nval_drop)
    then have "drop_bit (32 * l) (int (nval xs) - 1) = int H - int (unat bx)" using X(3) by simp
    from or_carry_core [OF this dy0(1), of "int (nval rs)" "int (unat c)"] show ?thesis
      using rsv dy0(2) by (simp add: out lo_def low_pred_def uval_def xs_def ys_def)
  next
    case False
    then have lx': "length xs = l" by (simp add: l)
    note dx0 = drop_pred [OF dx lx' n0(1)]
    have "int H = drop_bit (32 * l) (int (nval ys))" using lx' ly by (simp add: H_def nval_drop)
    then have "drop_bit (32 * l) (int (nval ys) - 1) = int H - int (unat by')" using Y(3) by simp
    from or_carry_core [OF this dx0(1), of "int (nval rs)" "int (unat c)"] show ?thesis
      using rsv dx0(2) by (simp add: out lo_def low_pred_def uval_def xs_def ys_def or.commute)
  qed
  have excl: "unat bx = 0 \<or> unat by' = 0"
    using drop_pred(2) [OF dx _ n0(1)] drop_pred(2) [OF dy _ n0(2)] l
    by (cases "length ys \<le> length xs") (auto simp: min_def)
  have "- int (nval out) = ival x AND ival y \<longleftrightarrow>
      lo \<noteq> mask (32 * l) \<or> radix ^ l dvd uval x \<or> radix ^ l dvd uval y"
    using core full excl c1 X(4) Y(4) unfolding T dvd [symmetric] cc [symmetric] digit_le_1 by auto
  moreover have "\<exists>z'. store z out (- int (max (length xs) (length ys))) = ret z' \<and> represents z' (- int (nval out))"
    using z lout by (intro store_represents) (auto simp: len)
  ultimately show ?thesis
    unfolding and_both_negative_def live_wf [OF x(1)] live_wf [OF y(1)] bindR_ret xs_def [symmetric] ys_def [symmetric]
      Let_def l [symmetric] sc [unfolded Let_def] prod.case out_def [symmetric] lo_def [symmetric] by blast
qed

lemma And_ret:
  assumes x: "wf_Integer x" and y: "wf_Integer y" and z: "and_result_size_in_bytes x y \<le> capacity_in_bytes z"
  shows "\<exists>z' v. And x y z = ret z' \<and> represents z' v \<and>
    (v = ival x AND ival y \<longleftrightarrow>
       \<not> (is_negative x \<and> is_negative y) \<or>
       (let l = min (ilength x) (ilength y) in
        low_pred l (uval x) OR low_pred l (uval y) \<noteq> mask (32 * l)
        \<or> radix ^ l dvd uval x \<or> radix ^ l dvd uval y))"
proof -
  consider (zero) "is_zero x \<or> is_zero y"
    | (pos) "is_positive x" "is_positive y"
    | (left) "is_positive x" "is_negative y"
    | (right) "is_negative x" "is_positive y"
    | (neg) "is_negative x" "is_negative y"
    unfolding is_zero_def is_positive_def is_negative_def by linarith
  then show ?thesis
  proof cases
    case zero
    then have "ival x AND ival y = 0" and "\<not> (is_negative x \<and> is_negative y)"
      using x y by (auto simp: ival_sign(2) [symmetric] ival_sign(1) [symmetric])
    then show ?thesis
      using zero by (auto simp: And_def set_signed_length_def represents_def ilength_def ival_def uval_def)
  next
    case pos
    then have nn: "\<not> is_negative x" "\<not> is_negative y" "\<not> is_zero x" "\<not> is_zero y"
      by (auto simp: is_zero_def is_positive_def is_negative_def)
    define xs ys where "xs = take (ilength x) (digits x)" and "ys = take (ilength y) (digits y)"
    define l where "l = min (length xs) (length ys)"
    have "l \<le> length (digits z)"
      using z pos nn x y by (simp add: and_result_size_in_bytes_def l_def xs_def ys_def)
    moreover have "int (nval (map2 (AND) (take l xs) (take l ys))) = ival x AND ival y"
      using bitop_aligned(3) [OF l_def] by (simp add: ival_nonneg nn uval_def xs_def ys_def)
    ultimately have "\<exists>z'. store z (map2 (AND) (take l xs) (take l ys)) (int l) = ret z' \<and> represents z' (ival x AND ival y)"
      by (intro store_represents) (simp_all add: l_def)
    moreover have "And x y z = store z (map2 (AND) (take l xs) (take l ys)) (int l)"
      unfolding And_def live_wf [OF x] live_wf [OF y] bindR_ret xs_def [symmetric] ys_def [symmetric] Let_def l_def
      using pos nn by simp
    ultimately show ?thesis using nn by auto
  next
    case left
    then show ?thesis
      using and_one_positive_ret [of x y z] x y z
      by (auto simp: And_def and_result_size_in_bytes_def is_zero_def is_positive_def is_negative_def)
  next
    case right
    then show ?thesis
      using and_one_positive_ret [of y x z] x y z
      by (auto simp: And_def and_result_size_in_bytes_def is_zero_def is_positive_def is_negative_def and.commute)
  next
    case neg
    then have e: "And x y z = and_both_negative x y z"
      by (auto simp: And_def is_zero_def is_positive_def is_negative_def)
    have "max (ilength x) (ilength y) \<le> length (digits z)"
      using neg z by (auto simp: and_result_size_in_bytes_def is_zero_def is_positive_def is_negative_def)
    from and_both_negative_ret [OF x neg(1) y neg(2) this] show ?thesis
      using neg by (simp add: e Let_def)
  qed
qed

section \<open>Disjunction and exclusive or\<close>

lemma store_trimmed_ret:
  assumes "length ds \<le> length (digits z)"
  shows "\<exists>z'. store_trimmed z ds negate = ret z' \<and> wf_Integer z'
    \<and> ival z' = (if negate then - int (nval ds) else int (nval ds))"
proof -
  define t where "t = trim_length ds (length ds)"
  have t: "t \<le> length ds" by (simp add: t_def trim_length_le)
  have v: "nval (take t ds) = nval ds" using nval_trim [of "length ds" ds] by (simp add: t_def)
  have last: "t = 0 \<or> ds ! (t - 1) \<noteq> 0" using trim_length_last [of ds "length ds"] by (auto simp: t_def)
  have "wf_Integer (z\<lparr>signed_length := l, digits := ds @ drop (length ds) (digits z)\<rparr>)" if "nat \<bar>l\<bar> = t" for l
    using that t last by (intro wf_store) auto
  moreover have "uval (z\<lparr>signed_length := l, digits := ds @ drop (length ds) (digits z)\<rparr>) = nval ds"
    if "nat \<bar>l\<bar> = t" for l
    using that t v by (simp add: uval_store)
  moreover have "t = 0 \<Longrightarrow> nval ds = 0" using v by simp
  ultimately show ?thesis
    using assms by (cases negate) (auto simp: store_trimmed_def ival_def t_def [symmetric])
qed

lemma carry_core:
  fixes T :: int
  assumes "drop_bit k T = H - b" and "r + 2 ^ k * c = take_bit k T + 1"
  shows "r + 2 ^ k * H = T + 1 \<longleftrightarrow> c = b"
proof -
  have "T = take_bit k T + 2 ^ k * (H - b)"
    using bits_ident [of k T] assms(1) by (simp add: push_bit_eq_mult ac_simps)
  then have e: "T = take_bit k T + 2 ^ k * H - 2 ^ k * b" by (simp add: right_diff_distrib)
  have "r + 2 ^ k * H = T + 1 \<longleftrightarrow> 2 ^ k * b = 2 ^ k * c"
    using e assms(2) by (intro iffI) linarith+
  then show ?thesis by auto
qed

lemma full_pred:
  assumes "dec (take l ns) 1 = (ds, b)" and "l \<le> length ns" and "int (nval ds) = mask (32 * l)"
  shows "b = 1"
proof -
  have "int (nval ds) + 1 = int (nval (take l ns)) + 2 ^ (32 * l) * int (unat b)"
    using arg_cong [OF dec_spec(1) [OF assms(1)], of int] assms(2) by (simp add: int_radix_power)
  then have "2 ^ (32 * l) = int (nval (take l ns)) + 2 ^ (32 * l) * int (unat b)"
    using assms(3) by (simp add: mask_eq_exp_minus_1)
  then show ?thesis
    using nval_bound [of "take l ns"] assms(2) dec_take(4) [OF assms(1,2)]
    unfolding digit_le_1 by auto
qed

lemma mask_andD:
  fixes a b :: int
  assumes "take_bit k (NOT a AND b) = mask k"
  shows "take_bit k a = 0" and "take_bit k b = mask k"
proof -
  have h: "\<not> bit a i \<and> bit b i" if "i < k" for i
    using arg_cong [OF assms, of "\<lambda>v. bit v i"] that by (simp add: bit_simps)
  show "take_bit k a = 0" "take_bit k b = mask k"
    using h by (auto intro!: bit_eqI simp: bit_simps)
qed

text \<open>The value the loops of \<^verbatim>\<open>Or\<close> compute with one negative operand.\<close>

lemma or_twos:
  assumes n: "nval ns \<noteq> 0" and p: "nval ps = 0 \<Longrightarrow> ps = []"
    and l: "l = min (length ps) (length ns)" and sc: "scan or_step (zip (take l ps) (take l ns)) (1, 1) = (rs, s)"
  shows "length (rs @ drop l ns) = length ns" and
    "int (nval (rs @ drop l ns)) = (NOT (int (nval ps)) AND (int (nval ns) - 1)) + 1 \<longleftrightarrow>
     \<not> (0 < length ps \<and> length ps < length ns \<and> radix ^ length ps dvd nval ns)"
proof -
  have l': "l \<le> length ps" "l \<le> length ns" using l by simp_all
  obtain ds b where d: "dec (take l ns) 1 = (ds, b)" by fastforce
  obtain rs' c where r: "inc (map2 (\<lambda>p d. NOT p AND d) (take l ps) ds) 1 = (rs', c)" by fastforce
  note D = dec_take [OF d l'(2)]
  have m: "map2 (\<lambda>p d. (p OR d) XOR oneB) (take l ps) (map NOT ds) = map2 (\<lambda>p d. NOT p AND d) (take l ps) ds"
  proof -
    have "(a OR NOT e) XOR oneB = NOT a AND e" for a e
    proof -
      have "(0xffffffff :: digit) = - 1" by simp
      then show ?thesis unfolding oneB_def by (simp only: bit.xor_one_right) simp
    qed
    then show ?thesis by (simp add: zip_map2 split_beta)
  qed
  have "scan (\<lambda>x c. xpy (x XOR oneB) 0 c) (take l ns) 1 = (map NOT ds, b)"
    using scan_complement [OF d] by (simp add: oneB_def)
  then have "scan or_step (zip (take l ps) (take l ns)) (1, 1) = (rs', (b, c))"
    unfolding or_step_def using r m l'
    by (subst scan_double [where f = "\<lambda>p d. (p OR d) XOR oneB"]) (simp_all add: scan_chain inc_def)
  with sc have rs: "rs = rs'" by simp
  have lrs: "length rs = l" using inc_spec(2) [OF r] D(2) l' by (simp add: rs)
  then show "length (rs @ drop l ns) = length ns" using l' by simp
  define T where "T = NOT (int (nval ps)) AND (int (nval ns) - 1)"
  define H where "H = drop_bit (32 * l) (int (nval ns))"
  have low: "int (nval (map2 (\<lambda>p d. NOT p AND d) (take l ps) ds)) = take_bit (32 * l) T"
    using D(1,2) l' by (simp add: nval_andnot nval_take T_def) (rule bit_eqI, auto simp: bit_simps)
  have c1: "c = 0 \<or> c = 1" using inc_carry_le [OF r] by (simp flip: digit_le_1)
  have rc: "int (nval rs) + 2 ^ (32 * l) * uint c = take_bit (32 * l) T + 1"
    using arg_cong [OF inc_spec(1) [OF r], of int] low D(2) l' by (simp add: int_radix_power rs)
  have hi: "drop_bit (32 * l) T = H - uint b"
  proof (cases "length ps \<le> l")
    case True
    then show ?thesis using D(3) by (simp add: T_def H_def drop_bit_and drop_bit_NOT drop_bit_nval)
  next
    case False
    then have "length ns = l" using l by simp
    with drop_pred [OF d this n] show ?thesis by (simp add: T_def H_def drop_bit_and drop_bit_nval)
  qed
  have out: "int (nval (rs @ drop l ns)) = int (nval rs) + 2 ^ (32 * l) * H"
    using lrs l' by (simp add: nval_append int_radix_power H_def nval_drop)
  have b: "b = 1 \<longleftrightarrow> radix ^ l dvd nval ns"
    using D(4,5) unfolding digit_le_1 by auto
  have c0: "c = 0" if "0 < l"
  proof (rule ccontr)
    assume "c \<noteq> 0"
    then have "int (nval rs) + 2 ^ (32 * l) = take_bit (32 * l) T + 1" using rc c1 by simp
    then have "take_bit (32 * l) T = mask (32 * l)"
      using take_bit_int_less_exp [of "32 * l" T] unfolding mask_eq_exp_minus_1 by linarith
    from mask_andD [OF this [unfolded T_def]]
    have "take_bit (32 * l) (int (nval ps)) = 0" and "int (nval ds) = mask (32 * l)"
      using D(1) by simp_all
    then have "nval (take l ps) = 0" and "b = 1"
      using full_pred [OF d l'(2)] nval_take [OF l'(1)] by simp_all
    moreover have "length ns = l \<Longrightarrow> b = 0" using drop_pred(2) [OF d _ n] .
    ultimately show False using p that l by (cases "length ps \<le> length ns") auto
  qed
  have "int (nval (rs @ drop l ns)) = T + 1 \<longleftrightarrow> uint c = uint b"
    unfolding out by (rule carry_core [OF hi rc])
  also have "\<dots> \<longleftrightarrow> \<not> (0 < length ps \<and> length ps < length ns \<and> radix ^ length ps dvd nval ns)"
  proof (cases "l = 0")
    case True
    moreover have "ns \<noteq> []" using n by auto
    ultimately have "length ps = 0" using l by (auto simp: min_def split: if_splits)
    moreover have "c = 1" using r True by (simp add: inc_def)
    moreover have "b = 1" using b True by simp
    ultimately show ?thesis by simp
  next
    case False
    moreover have "length ns = l \<Longrightarrow> b = 0" using drop_pred(2) [OF d _ n] .
    moreover have "b = 0 \<or> b = 1" using D(4) unfolding digit_le_1 .
    ultimately show ?thesis using c0 b l by (cases "length ps < length ns") auto
  qed
  finally show "int (nval (rs @ drop l ns)) = (NOT (int (nval ps)) AND (int (nval ns) - 1)) + 1 \<longleftrightarrow>
     \<not> (0 < length ps \<and> length ps < length ns \<and> radix ^ length ps dvd nval ns)"
    by (simp add: T_def)
qed

text \<open>\<^verbatim>\<open>Or\<close> is exact but for one case: a non-zero operand shorter than a negative one whose low digits
  are all zero (the carry out of the common digits is dropped).\<close>

definition or_drops_carry :: "Integer \<Rightarrow> Integer \<Rightarrow> bool" where
  "or_drops_carry p n \<longleftrightarrow> \<not> is_negative p \<and> is_negative n \<and>
     0 < ilength p \<and> ilength p < ilength n \<and> radix ^ ilength p dvd uval n"

lemma or_both_negative:
  assumes x0: "nval xs \<noteq> 0" and y0: "nval ys \<noteq> 0" and l: "l = min (length xs) (length ys)"
    and dx: "dec (take l xs) 1 = (dx, bx)" and dy: "dec (take l ys) 1 = (dy, by')"
    and r: "inc (map2 (AND) dx dy) 1 = (rs, c)"
  shows "int (nval rs) = ((int (nval xs) - 1) AND (int (nval ys) - 1)) + 1"
proof -
  have l': "l \<le> length xs" "l \<le> length ys" using l by simp_all
  note X = dec_take [OF dx l'(1)] and Y = dec_take [OF dy l'(2)]
  define T where "T = (int (nval xs) - 1) AND (int (nval ys) - 1)"
  have low: "int (nval (map2 (AND) dx dy)) = take_bit (32 * l) T"
    using X(1,2) Y(1,2) by (simp add: nval_and T_def take_bit_and)
  have s: "(length xs = l \<and> bx = 0 \<and> drop_bit (32 * l) (int (nval xs) - 1) = 0)
    \<or> (length ys = l \<and> by' = 0 \<and> drop_bit (32 * l) (int (nval ys) - 1) = 0)"
    using drop_pred [OF dx _ x0] drop_pred [OF dy _ y0] l by (cases "length xs \<le> length ys") auto
  then have hi: "drop_bit (32 * l) T = 0" by (auto simp: T_def drop_bit_and)
  have c1: "c = 0 \<or> c = 1" using inc_carry_le [OF r] by (simp flip: digit_le_1)
  have rc: "int (nval rs) + 2 ^ (32 * l) * uint c = take_bit (32 * l) T + 1"
    using arg_cong [OF inc_spec(1) [OF r], of int] low X(2) Y(2) by (simp add: int_radix_power)
  have "c = 0"
  proof (rule ccontr)
    assume "c \<noteq> 0"
    then have "int (nval rs) + 2 ^ (32 * l) = take_bit (32 * l) T + 1" using rc c1 by simp
    then have m: "take_bit (32 * l) T = mask (32 * l)"
      using take_bit_int_less_exp [of "32 * l" T] unfolding mask_eq_exp_minus_1 by linarith
    then have "take_bit (32 * l) (NOT (NOT (int (nval xs) - 1)) AND (int (nval ys) - 1)) = mask (32 * l)"
      "take_bit (32 * l) (NOT (NOT (int (nval ys) - 1)) AND (int (nval xs) - 1)) = mask (32 * l)"
      by (simp_all add: T_def and.commute)
    from this [THEN mask_andD(2)] have "bx = 1" "by' = 1"
      using full_pred [OF dx l'(1)] full_pred [OF dy l'(2)] X(1) Y(1) by simp_all
    with s show False by auto
  qed
  then show ?thesis
    using rc hi bits_ident [of "32 * l" T] by (simp add: T_def)
qed

lemma or_one_negative:
  assumes p: "wf_Integer p" "\<not> is_negative p" and n: "wf_Integer n" "is_negative n"
    and ps: "ps = take (ilength p) (digits p)" and ns: "ns = take (ilength n) (digits n)"
    and l: "l = min (length ps) (length ns)" and z: "ilength n \<le> length (digits z)"
    and sc: "scan or_step (zip (take l ps) (take l ns)) (1, 1) = (rs, s)"
  shows "\<exists>z'. store_trimmed z (rs @ drop l ns) True = ret z' \<and> wf_Integer z' \<and>
    (ival z' = ival p OR ival n \<longleftrightarrow> \<not> or_drops_carry p n)"
proof -
  have len: "length ps = ilength p" "length ns = ilength n"
    using p(1) n(1) by (simp_all add: ps ns wf_Integer_def)
  have uv: "uval p = nval ps" "uval n = nval ns" by (simp_all add: uval_def ps ns)
  have p0: "nval ps = 0 \<Longrightarrow> ps = []"
    using uval_eq_0_iff [OF p(1)] by (simp add: uv len flip: length_0_conv)
  have n0: "nval ns \<noteq> 0" using wf_uval_nonzero [OF n(1) is_negative_nonzero(1) [OF n(2)]] uv by simp
  note T = or_twos [OF n0 p0 l sc]
  have "length (rs @ drop l ns) \<le> length (digits z)" using T(1) z len by simp
  then obtain z' where z': "store_trimmed z (rs @ drop l ns) True = ret z'" "wf_Integer z'"
    "ival z' = - int (nval (rs @ drop l ns))"
    using store_trimmed_ret [of "rs @ drop l ns" z True] by auto
  have "ival p OR ival n = NOT (NOT (int (nval ps)) AND (int (nval ns) - 1))"
    using p(2) n(2) by (simp add: ival_nonneg ival_twos uv)
  also have "\<dots> = - ((NOT (int (nval ps)) AND (int (nval ns) - 1)) + 1)"
    using not_eq_complement [of "NOT (int (nval ps)) AND (int (nval ns) - 1)"] by simp
  finally have e: "ival p OR ival n = - ((NOT (int (nval ps)) AND (int (nval ns) - 1)) + 1)" .
  have "ival z' = ival p OR ival n \<longleftrightarrow> \<not> or_drops_carry p n"
    unfolding z'(3) e neg_equal_iff_equal using T(2) p(2) n(2) by (simp add: or_drops_carry_def uv len)
  with z' show ?thesis by blast
qed

lemma or_top_nonzero:
  assumes x: "wf_Integer x" and y: "wf_Integer y" and v: "int (nval ds) = int (uval x) OR int (uval y)"
    and l: "length ds = max (ilength x) (ilength y)"
  shows "ds = [] \<or> last ds \<noteq> 0"
proof (cases ds)
  case (Cons d ds')
  then obtain n where n: "length ds = Suc n" by simp
  have "int (uval x) \<le> int (nval ds)" unfolding v by (rule or_greater_eq) simp
  moreover have "int (uval y) \<le> int (nval ds)" unfolding v or.commute [of "int (uval x)"] by (rule or_greater_eq) simp
  ultimately have "uval x \<le> nval ds" "uval y \<le> nval ds" by simp_all
  moreover have "radix ^ n \<le> uval x \<or> radix ^ n \<le> uval y"
  proof -
    have "ilength x = Suc n \<or> ilength y = Suc n" using l n by (auto simp: max_def split: if_splits)
    then show ?thesis using uval_lower [OF x] uval_lower [OF y] by auto
  qed
  ultimately have "radix ^ n \<le> nval ds" by auto
  from last_nonzero_if_large [OF n this] show ?thesis by simp
qed simp

lemma Or_ret:
  assumes x: "wf_Integer x" and y: "wf_Integer y" and z: "or_result_size_in_bytes x y \<le> capacity_in_bytes z"
    and nz: "\<not> (is_zero x \<and> is_negative y)" "\<not> (is_negative x \<and> is_zero y)"
  shows "\<exists>z'. Or x y z = ret z' \<and> wf_Integer z' \<and>
    (ival z' = ival x OR ival y \<longleftrightarrow> \<not> or_drops_carry x y \<and> \<not> or_drops_carry y x)"
proof -
  define xs ys where xs: "xs = take (ilength x) (digits x)" and ys: "ys = take (ilength y) (digits y)"
  define l where "l = min (length xs) (length ys)"
  have l': "l = min (length ys) (length xs)" by (simp add: l_def)
  have len: "length xs = ilength x" "length ys = ilength y"
    using x y by (simp_all add: xs ys wf_Integer_def)
  have uv: "uval x = nval xs" "uval y = nval ys" by (simp_all add: uval_def xs ys)
  note Or = Or_def [of x y z, unfolded live_wf [OF x] live_wf [OF y] bindR_ret xs [symmetric] ys [symmetric]
      Let_def, unfolded l_def [symmetric]]
  consider (pos) "\<not> is_negative x" "\<not> is_negative y" | (right) "\<not> is_negative x" "is_negative y"
    | (left) "is_negative x" "\<not> is_negative y" | (neg) "is_negative x" "is_negative y" by blast
  then show ?thesis
  proof cases
    case pos
    let ?ds = "map2 (OR) (take l xs) (take l ys) @ drop l xs @ drop l ys"
    have v: "int (nval ?ds) = int (uval x) OR int (uval y)"
      using bitop_aligned(1) [OF l_def] by (simp add: uv)
    have ld: "length ?ds = max (ilength x) (ilength y)" by (simp add: l_def len)
    have cap: "length ?ds \<le> length (digits z)"
      using z pos unfolding ld by (simp add: or_result_size_in_bytes_def)
    have "Or x y z = store z ?ds (int (length ?ds))" unfolding Or using pos by simp
    then obtain z' where "Or x y z = ret z'" "holds_nat z' (nval ?ds)"
      using cap holds_nat_store [OF or_top_nonzero [OF x y v ld], where z = z and rest = "drop (length ?ds) (digits z)"] by simp
    then show ?thesis
      using v pos holds_nat_ival holds_nat_wf by (auto simp: or_drops_carry_def ival_nonneg)
  next
    case right
    obtain rs s where sc: "scan or_step (zip (take l xs) (take l ys)) (1, 1) = (rs, s)" by (rule prod.exhaust)
    have "ilength y \<le> length (digits z)"
      using z right nz(1) by (auto simp: or_result_size_in_bytes_def is_zero_def is_negative_def is_positive_def)
    from or_one_negative [OF x right(1) y right(2) xs ys l_def this sc] show ?thesis
      unfolding Or using right sc by (simp add: or_drops_carry_def)
  next
    case left
    obtain rs s where sc: "scan or_step (zip (take l ys) (take l xs)) (1, 1) = (rs, s)" by (rule prod.exhaust)
    have "ilength x \<le> length (digits z)"
      using z left nz(2) by (auto simp: or_result_size_in_bytes_def is_zero_def is_negative_def is_positive_def)
    from or_one_negative [OF y left(2) x left(1) ys xs l' this sc] show ?thesis
      unfolding Or using left sc by (simp add: or_drops_carry_def or.commute)
  next
    case neg
    have n0: "nval xs \<noteq> 0" "nval ys \<noteq> 0"
      using wf_uval_nonzero [OF x is_negative_nonzero(1) [OF neg(1)]]
        wf_uval_nonzero [OF y is_negative_nonzero(1) [OF neg(2)]] uv by simp_all
    obtain dx bx where dx: "dec (take l xs) 1 = (dx, bx)" by fastforce
    obtain dy by' where dy: "dec (take l ys) 1 = (dy, by')" by fastforce
    obtain rs c where rs: "inc (map2 (AND) dx dy) 1 = (rs, c)" by fastforce
    have lx: "l \<le> length xs" "l \<le> length ys" by (simp_all add: l_def)
    have "map2 (\<lambda>x y. (y OR x) XOR oneB) (map NOT dx) (map NOT dy) = map2 (AND) dx dy"
    proof -
      have "(NOT b OR NOT a) XOR oneB = a AND b" for a b
      proof -
        have "(0xffffffff :: digit) = - 1" by simp
        then show ?thesis unfolding oneB_def by (simp only: bit.xor_one_right) (simp add: ac_simps)
      qed
      then show ?thesis by (simp add: zip_map1 zip_map2 split_beta)
    qed
    then have sc: "scan (\<lambda>(x, y) (xcarry, ycarry, zcarry).
        let (x', xcarry') = xpy (x XOR oneB) 0 xcarry;
            (y', ycarry') = xpy (y XOR oneB) 0 ycarry;
            (r, zcarry') = xpy ((y' OR x') XOR oneB) 0 zcarry
        in (r, (xcarry', ycarry', zcarry'))) (zip (take l xs) (take l ys)) (1, 1, 1) = (rs, (bx, by', c))"
      using scan_complement [OF dx, folded oneB_def] scan_complement [OF dy, folded oneB_def] rs
      by (subst scan_triple [where f = "\<lambda>x y. (y OR x) XOR oneB"]) (simp_all add: l_def scan_chain inc_def)
    have "length rs = l" using inc_spec(2) [OF rs] dec_take(2) [OF dx lx(1)] dec_take(2) [OF dy lx(2)] by simp
    then have "length rs \<le> length (digits z)"
      using z neg by (auto simp: or_result_size_in_bytes_def is_positive_def is_negative_def l_def len)
    then obtain z' where "store_trimmed z rs True = ret z'" "wf_Integer z'" "ival z' = - int (nval rs)"
      using store_trimmed_ret [of rs z True] by auto
    moreover have "Or x y z = store_trimmed z rs True"
      unfolding Or using neg sc by (simp add: Let_def case_prod_unfold)
    moreover have "ival x OR ival y = NOT ((int (nval xs) - 1) AND (int (nval ys) - 1))"
      using neg by (simp add: ival_twos uv)
    then have "ival x OR ival y = - int (nval rs)"
      using or_both_negative [OF n0 l_def dx dy rs] not_eq_complement [of "(int (nval xs) - 1) AND (int (nval ys) - 1)"]
      by simp
    ultimately show ?thesis using neg by (auto simp: or_drops_carry_def)
  qed
qed

lemma dec_append:
  assumes "dec (take l xs) 1 = (d1, b1)" and "dec (drop l xs) b1 = (d2, b2)"
  shows "dec xs 1 = (d1 @ d2, b2)"
proof -
  have "dec (take l xs @ drop l xs) 1 = (d1 @ d2, b2)"
    using assms unfolding dec_def chain_append by simp
  then show ?thesis by simp
qed

lemma dec_all:
  assumes "dec xs 1 = (ds, b)" and "nval xs \<noteq> 0"
  shows "int (nval ds) = int (nval xs) - 1" and "length ds = length xs"
proof -
  have d: "dec (take (length xs) xs) 1 = (ds, b)" using assms(1) by simp
  have "drop_bit (32 * length xs) (int (nval xs) - 1) = 0" by (rule drop_pred(1) [OF d refl assms(2)])
  then show "int (nval ds) = int (nval xs) - 1"
    using dec_take(1) [OF d] bits_ident [of "32 * length xs" "int (nval xs) - 1"] by simp
  show "length ds = length xs" using dec_take(2) [OF d] by simp
qed

lemma inc_append:
  "inc (as @ bs) c = (let (rs, c1) = inc as c; (ts, c2) = inc bs c1 in (rs @ ts, c2))"
  unfolding inc_def by (rule chain_append)

lemma xor_one_positive_ret:
  assumes p: "wf_Integer p" "\<not> is_negative p" and n: "wf_Integer n" "is_negative n"
    and z: "max (ilength p) (ilength n) + 1 \<le> length (digits z)"
  shows "\<exists>z'. xor_one_positive p n z = ret z' \<and> represents z' (ival p XOR ival n)"
proof -
  define ps ns where ps: "ps = take (ilength p) (digits p)" and ns: "ns = take (ilength n) (digits n)"
  define l where "l = min (length ps) (length ns)"
  have len: "length ps = ilength p" "length ns = ilength n"
    using p(1) n(1) by (simp_all add: ps ns wf_Integer_def)
  have uv: "uval p = nval ps" "uval n = nval ns" by (simp_all add: uval_def ps ns)
  have n0: "nval ns \<noteq> 0" using wf_uval_nonzero [OF n(1) is_negative_nonzero(1) [OF n(2)]] uv by simp
  have l': "l \<le> length ps" "l \<le> length ns" by (simp_all add: l_def)
  obtain d1 b1 where d1: "dec (take l ns) 1 = (d1, b1)" by (rule prod.exhaust)
  obtain d2 b2 where d2: "dec (drop l ns) b1 = (d2, b2)" by (rule prod.exhaust)
  have d: "dec ns 1 = (d1 @ d2, b2)" by (rule dec_append [OF d1 d2])
  have ld: "length d1 = l" using dec_take(2) [OF d1] l' by simp
  obtain r1 c1 where r1: "inc (map2 (XOR) (take l ps) d1) 1 = (r1, c1)" by (rule prod.exhaust)
  obtain r2 c2 where r2: "inc d2 c1 = (r2, c2)" by (rule prod.exhaust)
  obtain r3 c3 where r3: "inc (drop l ps) c2 = (r3, c3)" by (rule prod.exhaust)
  define ms where "ms = map2 (XOR) (take l ps) d1 @ d2 @ drop l ps"
  have inc: "inc ms 1 = (r1 @ r2 @ r3, c3)"
    unfolding ms_def inc_append using r1 r2 r3 by simp
  have c3: "c3 = 0 \<or> c3 = 1" using inc_carry_le [OF inc] by (simp flip: digit_le_1)
  have lm: "length ms = max (length ps) (length ns)"
    using ld dec_all(2) [OF d n0] by (auto simp: ms_def l_def)
  have ll: "l = min (length ps) (length (d1 @ d2))" using dec_all(2) [OF d n0] by (simp add: l_def)
  have "int (nval ms) = int (nval ps) XOR int (nval (d1 @ d2))"
  proof -
    have "drop l ps = [] \<or> d2 = []" using ll ld by (auto simp: min_def split: if_splits)
    then have "ms = map2 (XOR) (take l ps) (take l (d1 @ d2)) @ drop l ps @ drop l (d1 @ d2)"
      using ld by (auto simp: ms_def)
    then show ?thesis using bitop_aligned(2) [OF ll] by simp
  qed
  then have v: "int (nval ms) = int (nval ps) XOR (int (nval ns) - 1)" using dec_all(1) [OF d n0] by simp
  define out where "out = r1 @ r2 @ r3 @ (if c3 \<noteq> 0 then [1] else [])"
  have "int (nval out) = int (nval ms) + 1"
    using arg_cong [OF inc_spec(1) [OF inc], of int] inc_spec(2) [OF inc] c3
    by (auto simp: out_def nval_append simp flip: append_assoc)
  then have ov: "- int (nval out) = ival p XOR ival n"
    using v p(2) n(2) not_eq_complement [of "int (nval ps) XOR (int (nval ns) - 1)"]
    by (simp add: ival_nonneg ival_twos uv)
  have lo: "length out \<le> length (digits z)"
    using inc_spec(2) [OF inc] lm z len by (auto simp: out_def)
  have "out \<noteq> []"
  proof
    assume "out = []"
    then have "int (nval ms) + 1 = 0" using \<open>int (nval out) = int (nval ms) + 1\<close> by simp
    then show False by simp
  qed
  then have "\<exists>z'. store z out (- int (length out)) = ret z' \<and> represents z' (ival p XOR ival n)"
    using lo ov by (intro store_represents) auto
  moreover have "scan (\<lambda>(p, n) (ncarry, zcarry). let (n', ncarry') = xmy n 0 ncarry; (r, zcarry') = xpy (p XOR n') 0 zcarry
      in (r, (ncarry', zcarry'))) (zip (take l ps) (take l ns)) (1, 1) = (r1, (b1, c1))"
    using d1 r1 l' by (subst scan_double) (simp_all add: scan_chain dec_def inc_def)
  moreover have "scan (\<lambda>n (ncarry, zcarry). let (n', ncarry') = xmy n 0 ncarry; (r, zcarry') = xpy n' 0 zcarry
      in (r, (ncarry', zcarry'))) (drop l ns) (b1, c1) = (r2, (b2, c2))"
    using d2 r2 by (subst scan_then) (simp add: scan_chain dec_def inc_def)
  moreover have "scan (\<lambda>p zcarry. xpy p 0 zcarry) (drop l ps) c2 = (r3, c3)"
    using r3 by (simp add: scan_chain inc_def)
  ultimately show ?thesis
    unfolding xor_one_positive_def live_wf [OF p(1)] live_wf [OF n(1)] bindR_ret ps [symmetric] ns [symmetric] Let_def
      l_def [symmetric] by (simp add: out_def)
qed

lemma Xor_ret:
  assumes x: "wf_Integer x" and y: "wf_Integer y" and z: "xor_result_size_in_bytes x y \<le> capacity_in_bytes z"
  shows "\<exists>z'. Xor x y z = ret z' \<and> represents z' (ival x XOR ival y)
    \<and> (is_negative x = is_negative y \<longrightarrow> wf_Integer z')"
proof -
  define xs ys where xs: "xs = take (ilength x) (digits x)" and ys: "ys = take (ilength y) (digits y)"
  define l where "l = min (length xs) (length ys)"
  have len: "length xs = ilength x" "length ys = ilength y"
    using x y by (simp_all add: xs ys wf_Integer_def)
  have uv: "uval x = nval xs" "uval y = nval ys" by (simp_all add: uval_def xs ys)
  note Xor = Xor_def [of x y z, unfolded live_wf [OF x] live_wf [OF y] bindR_ret xs [symmetric] ys [symmetric]
      Let_def, unfolded l_def [symmetric]]
  have trimmed: "\<exists>z'. store_trimmed z ds False = ret z' \<and> represents z' v \<and> wf_Integer z'"
    if "length ds \<le> length (digits z)" "int (nval ds) = v" for ds v
    using store_trimmed_ret [OF that(1), of False] that(2) by (auto simp: represents_def wf_Integer_def)
  consider (pos) "\<not> is_negative x" "\<not> is_negative y" | (right) "\<not> is_negative x" "is_negative y"
    | (left) "is_negative x" "\<not> is_negative y" | (neg) "is_negative x" "is_negative y" by blast
  then show ?thesis
  proof cases
    case pos
    let ?ds = "map2 (XOR) (take l xs) (take l ys) @ drop l xs @ drop l ys"
    have "length ?ds = max (ilength x) (ilength y)" by (simp add: l_def len)
    then have "length ?ds \<le> length (digits z)" using z pos by (simp add: xor_result_size_in_bytes_def)
    moreover have "int (nval ?ds) = ival x XOR ival y"
      using bitop_aligned(2) [OF l_def] pos by (simp add: uv ival_nonneg)
    ultimately show ?thesis unfolding Xor using trimmed pos by simp
  next
    case right
    then show ?thesis
      using xor_one_positive_ret [OF x _ y, of z] z by (simp add: Xor xor_result_size_in_bytes_def)
  next
    case left
    then show ?thesis
      using xor_one_positive_ret [OF y _ x, of z] z
      by (simp add: Xor xor_result_size_in_bytes_def max.commute xor.commute)
  next
    case neg
    have n0: "nval xs \<noteq> 0" "nval ys \<noteq> 0"
      using wf_uval_nonzero [OF x is_negative_nonzero(1) [OF neg(1)]]
        wf_uval_nonzero [OF y is_negative_nonzero(1) [OF neg(2)]] uv by simp_all
    have l': "l \<le> length xs" "l \<le> length ys" by (simp_all add: l_def)
    obtain d1 b1 where d1: "dec (take l xs) 1 = (d1, b1)" by (rule prod.exhaust)
    obtain d2 b2 where d2: "dec (drop l xs) b1 = (d2, b2)" by (rule prod.exhaust)
    obtain e1 a1 where e1: "dec (take l ys) 1 = (e1, a1)" by (rule prod.exhaust)
    obtain e2 a2 where e2: "dec (drop l ys) a1 = (e2, a2)" by (rule prod.exhaust)
    note dx = dec_append [OF d1 d2] and dy = dec_append [OF e1 e2]
    have ld: "length d1 = l" "length e1 = l" using dec_take(2) [OF d1] dec_take(2) [OF e1] l' by simp_all
    have lx: "length (d1 @ d2) = length xs" and ly: "length (e1 @ e2) = length ys"
      using dec_all(2) [OF dx n0(1)] dec_all(2) [OF dy n0(2)] by simp_all
    have ll: "l = min (length (d1 @ d2)) (length (e1 @ e2))" unfolding lx ly by (rule l_def)
    let ?ds = "map2 (XOR) d1 e1 @ d2 @ e2"
    have "?ds = map2 (XOR) (take l (d1 @ d2)) (take l (e1 @ e2)) @ drop l (d1 @ d2) @ drop l (e1 @ e2)"
      using ld by simp
    then have "int (nval ?ds) = (int (nval xs) - 1) XOR (int (nval ys) - 1)"
      using bitop_aligned(2) [OF ll] dec_all(1) [OF dx n0(1)] dec_all(1) [OF dy n0(2)] by simp
    then have v: "int (nval ?ds) = ival x XOR ival y" using neg by (simp add: ival_twos uv)
    have "length ?ds = max (ilength x) (ilength y)" using lx ly ld len l_def by auto
    then have cap: "length ?ds \<le> length (digits z)" using z neg by (simp add: xor_result_size_in_bytes_def)
    have "scan (\<lambda>(x, y) (xcarry, ycarry). let (x', xcarry') = xmy x 0 xcarry; (y', ycarry') = xmy y 0 ycarry
        in (x' XOR y', (xcarry', ycarry'))) (zip (take l xs) (take l ys)) (1, 1) = (map2 (XOR) d1 e1, (b1, a1))"
      using d1 e1 l' by (subst scan_pair) (simp_all add: scan_chain dec_def)
    moreover have "scan (\<lambda>x xcarry. xmy x 0 xcarry) (drop l xs) b1 = (d2, b2)"
      "scan (\<lambda>y ycarry. xmy y 0 ycarry) (drop l ys) a1 = (e2, a2)"
      using d2 e2 by (simp_all add: scan_chain dec_def)
    ultimately have "Xor x y z = store_trimmed z ?ds False"
      unfolding Xor using neg by (simp add: Let_def)
    then show ?thesis using trimmed [OF cap v] neg by simp
  qed
qed

section \<open>Arithmetic shift\<close>

lemma ash_left_step_sum:
  assumes "ash_left_step bs x c = (r, c')" and "bs < 32" and "unat c < 2 ^ bs"
  shows "unat r + radix * unat c' = unat x * 2 ^ bs + unat c" and "unat c' < 2 ^ bs"
proof -
  define p q where "p = (2 :: nat) ^ (32 - bs)" and "q = (2 :: nat) ^ bs"
  have pq: "p * q = radix" using assms(2) by (simp add: p_def q_def radix_def flip: power_add)
  have pos: "0 < p" "0 < q" by (simp_all add: p_def q_def)
  have sh: "unat (push_bit bs x) = unat x mod p * q"
  proof -
    have "unat (push_bit bs x) = take_bit 32 (push_bit bs (unat x))"
      by (simp add: unsigned_push_bit_eq)
    also have "\<dots> = unat x * q mod (p * q)"
      unfolding take_bit_eq_mod push_bit_eq_mult pq unfolding q_def radix_def ..
    finally have "unat (push_bit bs x) = unat x * q mod (p * q)" .
    then show ?thesis by (simp only: mult_mod_left)
  qed
  have c': "unat c' = unat x div p"
  proof (cases "bs = 0")
    case True
    then show ?thesis using assms(1) unat_less_radix [of x] by (simp add: ash_left_step_def p_def radix_def)
  next
    case False
    then have "c' = drop_bit (32 - bs) x" using assms(1) by (simp add: ash_left_step_def logB_def)
    then have "unat c' = drop_bit (32 - bs) (unat x)" by (simp only: unat_drop_bit_eq)
    then show ?thesis by (simp add: drop_bit_eq_div p_def)
  qed
  have "unat x mod p * q + unat c < (unat x mod p + 1) * q" using assms(3) by (simp add: q_def)
  also have "\<dots> \<le> p * q" using pos by (intro mult_le_mono1) (simp add: Suc_le_eq)
  finally have lt: "unat x mod p * q + unat c < radix" by (simp add: pq)
  have "r = push_bit bs x + c" using assms(1) by (simp add: ash_left_step_def)
  then have "unat r = (unat (push_bit bs x) + unat c) mod radix"
    by (simp add: unat_word_ariths radix_def)
  also have "\<dots> = unat x mod p * q + unat c" using lt unfolding sh by (rule mod_less)
  finally have r: "unat r = unat x mod p * q + unat c" .
  have "unat x * q = (unat x div p * p + unat x mod p) * q" by simp
  also have "\<dots> = (unat x div p) * (p * q) + unat x mod p * q" by (simp only: distrib_right mult.assoc)
  finally show "unat r + radix * unat c' = unat x * 2 ^ bs + unat c" by (simp add: r c' q_def pq [unfolded q_def] mult.commute)
  have "unat x < q * p" using unat_less_radix [of x] by (simp add: pq mult.commute)
  then show "unat c' < 2 ^ bs" unfolding c' q_def [symmetric] by (rule less_mult_imp_div_less)
qed

lemma ash_left_chain:
  assumes "chain (ash_left_step bs) xs c = (ds, c')" and "bs < 32" and "unat c < 2 ^ bs"
  shows "nval ds + radix ^ length xs * unat c' = nval xs * 2 ^ bs + unat c"
  using assms(1,3)
proof (induction xs arbitrary: c ds)
  case (Cons x xs)
  obtain r c1 ds1 where s: "ash_left_step bs x c = (r, c1)" and t: "chain (ash_left_step bs) xs c1 = (ds1, c')"
    and ds: "ds = r # ds1"
    using Cons.prems(1) by (auto split: prod.splits)
  note S = ash_left_step_sum [OF s assms(2) Cons.prems(2)]
  have "radix * (nval ds1 + radix ^ length xs * unat c') = radix * (nval xs * 2 ^ bs + unat c1)"
    using Cons.IH [OF t S(2)] by simp
  then show ?case using S(1) by (simp add: ds algebra_simps)
qed simp

lemma ash_left_carry:
  "xs \<noteq> [] \<Longrightarrow> chain (ash_left_step bs) xs c = (ds, c') \<Longrightarrow>
   c' = (if bs \<noteq> 0 then drop_bit (logB - bs) (last xs) else 0)"
proof (induction xs arbitrary: c ds)
  case (Cons x xs)
  then show ?case
    by (cases xs) (auto simp: ash_left_step_def Let_def split: prod.splits)
qed simp

lemma overflow_mask:
  assumes "r < 32"
  shows "(nthMask (logB - r) XOR oneB) AND d \<noteq> 0 \<longleftrightarrow> (if r \<noteq> 0 then drop_bit (logB - r) d else 0) \<noteq> 0"
proof -
  have "(0xffffffff :: digit) = - 1" by simp
  then have "(nthMask (logB - r) XOR oneB) AND d = NOT (mask (32 - r)) AND d"
    unfolding oneB_def logB_def nthMask_mask [of "32 - r", simplified] by (simp only: bit.xor_one_right)
  moreover have "NOT (mask (32 - r)) AND d = push_bit (32 - r) (drop_bit (32 - r) d)"
    by (rule bit_word_eqI) (auto simp: bit_simps)
  moreover have "push_bit (32 - r) (drop_bit (32 - r) d) = 0 \<longleftrightarrow> (if r \<noteq> 0 then drop_bit (32 - r) d else 0) = 0"
  proof (cases "r = 0")
    case True
    have "push_bit 32 w = 0" for w :: digit by (rule bit_word_eqI) (auto simp: bit_simps)
    then show ?thesis using True by simp
  next
    case False
    have "drop_bit (32 - r) d = 0" if "push_bit (32 - r) (drop_bit (32 - r) d) = 0"
    proof (rule bit_word_eqI)
      fix n
      have "\<not> bit (push_bit (32 - r) (drop_bit (32 - r) d)) (n + (32 - r))" using that by simp
      then show "bit (drop_bit (32 - r) d) n = bit 0 n"
        using bit_imp_le_length [of d "n + (32 - r)"] by (auto simp: bit_simps ac_simps)
    qed
    then show ?thesis using False by auto
  qed
  ultimately show ?thesis by (simp add: logB_def)
qed

lemma ash_left_ret:
  assumes x: "wf_Integer x" "\<not> is_zero x" and n: "0 < n"
    and s: "ash_result_size_in_bytes x n = ret k" "k \<le> capacity_in_bytes z"
  shows "\<exists>z'. ash x n z = ret z' \<and> wf_Integer z' \<and> ival z' = ival x * 2 ^ nat n"
proof -
  define xs where "xs = take (ilength x) (digits x)"
  define bs where "bs = nat n mod logB"
  define dsh where "dsh = nat n div logB"
  have l: "length xs = ilength x" using x(1) by (simp add: xs_def wf_Integer_def)
  have l0: "0 < ilength x" using x(2) by (simp add: is_zero_iff)
  have bs: "bs < 32" by (simp add: bs_def logB_def)
  obtain ds c where ch: "chain (ash_left_step bs) xs 0 = (ds, c)" by (rule prod.exhaust)
  have ld: "length ds = length xs" using length_chain [OF ch] .
  define out where "out = replicate dsh 0 @ ds @ (if c \<noteq> 0 then [c] else [])"
  have "nval ds + radix ^ length xs * unat c = nval xs * 2 ^ bs"
    using ash_left_chain [OF ch bs] by simp
  then have "nval out = radix ^ dsh * (nval xs * 2 ^ bs)"
    by (auto simp: out_def nval_append ld)
  also have "\<dots> = uval x * 2 ^ nat n"
  proof -
    have "nat n = 32 * dsh + bs" by (simp add: dsh_def bs_def logB_def)
    then show ?thesis by (simp add: power_add power_mult radix_def uval_def xs_def)
  qed
  finally have v: "nval out = uval x * 2 ^ nat n" .
  have lo: "length out = dsh + ilength x + of_bool (c \<noteq> 0)" by (simp add: out_def ld l)
  have top: "last xs = digits x ! (ilength x - 1)"
    using l0 l x(1) by (subst last_conv_nth) (auto simp: xs_def wf_Integer_def)
  have "xs \<noteq> []" using l l0 by auto
  then have c: "c \<noteq> 0 \<longleftrightarrow> (nthMask (logB - bs) XOR oneB) AND (digits x ! (ilength x - 1)) \<noteq> 0"
    using ash_left_carry [OF _ ch] overflow_mask [OF bs, of "digits x ! (ilength x - 1)"] top by simp
  have "ilength x - 1 < length (digits x)" using x(1) l0 unfolding wf_Integer_def by linarith
  then have "digit_at x (ilength x - 1) = ret (digits x ! (ilength x - 1))" by (simp add: digit_at_def)
  then have "k = length_to_size_in_bytes (length out)"
    using s(1) x(2) n c by (simp add: ash_result_size_in_bytes_def Let_def lo bs_def [symmetric] dsh_def [symmetric] ac_simps)
  then have cap: "length out \<le> length (digits z)" using s(2) by simp
  have "out = [] \<or> last out \<noteq> 0"
  proof (cases "c = 0")
    case True
    then obtain m where m: "length out = Suc m" "m = dsh + (ilength x - 1)" using lo l0 by auto
    have "radix ^ m = radix ^ dsh * radix ^ (ilength x - 1)" by (simp add: m(2) power_add)
    also have "\<dots> \<le> radix ^ dsh * uval x" using uval_lower [OF x(1)] l0 by (intro mult_le_mono2) simp
    also have "\<dots> \<le> uval x * 2 ^ nat n"
    proof -
      have "radix ^ dsh = 2 ^ (32 * dsh)" by (simp add: radix_def power_mult)
      also have "\<dots> \<le> (2::nat) ^ nat n" by (intro power_increasing) (simp_all add: dsh_def logB_def)
      finally show ?thesis by (simp add: mult.commute)
    qed
    finally have "radix ^ m \<le> nval out" by (simp add: v)
    from last_nonzero_if_large [OF m(1) this] show ?thesis by simp
  qed (simp add: out_def)
  then have h: "holds_nat (z\<lparr>signed_length := int (length out), digits := out @ drop (length out) (digits z)\<rparr>) (nval out)"
    by (rule holds_nat_store)
  let ?z = "z\<lparr>signed_length := int (length out), digits := out @ drop (length out) (digits z)\<rparr>"
  have "ash x n z = bindR (store z out (int (length out))) (\<lambda>z'. ret (if is_negative x then neg z' else z'))"
    unfolding ash_def live_wf [OF x(1)] bindR_ret xs_def [symmetric] Let_def scan_chain bs_def [symmetric]
      dsh_def [symmetric] ch out_def using n by simp
  then have "ash x n z = ret (if is_negative x then neg ?z else ?z)"
    unfolding store_ret [OF cap] bindR_ret .
  then show ?thesis
    using holds_nat_wf [OF h] holds_nat_ival [OF h] v by (auto simp: ival_def [of x] is_negative_def)
qed

text \<open>The right shift divides from the top digit down; its carry is the remainder, left-aligned.\<close>

lemma ash_right_step_div:
  assumes "ash_right_step bs d c = (r, c')" and bs: "bs < 32" and c: "unat c = m * 2 ^ (32 - bs)" "m < 2 ^ bs"
  shows "unat r = (m * radix + unat d) div 2 ^ bs"
    and "unat c' = (m * radix + unat d) mod 2 ^ bs * 2 ^ (32 - bs)"
proof -
  define p q where "p = (2 :: nat) ^ (32 - bs)" and "q = (2 :: nat) ^ bs"
  have pq: "p * q = radix" using bs by (simp add: p_def q_def radix_def flip: power_add)
  have pos: "0 < p" "0 < q" by (simp_all add: p_def q_def)
  have T: "m * radix + unat d = m * p * q + unat d" by (simp add: pq)
  have "unat d < p * q" using unat_less_radix [of d] by (simp add: pq)
  then have dq: "unat d div q < p" by (simp add: less_mult_imp_div_less)
  have "unat (drop_bit bs d) = drop_bit bs (unat d)" by (simp only: unat_drop_bit_eq)
  then have "unat (drop_bit bs d) = unat d div q" unfolding q_def drop_bit_eq_div [of bs "unat d"] .
  moreover have "r = drop_bit bs d + c" using assms(1) by (simp add: ash_right_step_def)
  ultimately have "unat r = (unat d div q + m * p) mod radix"
    using c(1) by (simp add: unat_word_ariths radix_def p_def)
  also have "\<dots> = unat d div q + m * p"
  proof (rule mod_less)
    have "unat d div q + m * p < (m + 1) * p" using dq by simp
    also have "\<dots> \<le> q * p" using c(2) by (intro mult_le_mono1) (simp add: q_def Suc_le_eq)
    finally show "unat d div q + m * p < radix" using pq by (simp add: mult.commute)
  qed
  also have "\<dots> = (m * radix + unat d) div q" unfolding T using pos by simp
  finally show "unat r = (m * radix + unat d) div 2 ^ bs" by (simp add: q_def)
  have "unat c' = unat d mod q * p"
  proof (cases "bs = 0")
    case True
    then show ?thesis using assms(1) by (simp add: ash_right_step_def q_def)
  next
    case False
    then have "c' = push_bit (32 - bs) (take_bit bs d)"
      using assms(1) bs by (simp add: ash_right_step_def logB_def nthMask_mask take_bit_eq_mask)
    then have "unat c' = take_bit 32 (push_bit (32 - bs) (take_bit bs (unat d)))"
      by (simp add: unsigned_push_bit_eq unsigned_take_bit_eq)
    also have "\<dots> = unat d mod q * p mod radix"
      by (simp only: take_bit_eq_mod push_bit_eq_mult p_def q_def radix_def)
    also have "\<dots> = unat d mod q * p"
    proof (rule mod_less)
      have "unat d mod q * p < q * p" using pos by simp
      then show "unat d mod q * p < radix" using pq by (simp add: mult.commute)
    qed
    finally show ?thesis .
  qed
  moreover have "(m * radix + unat d) mod q = unat d mod q" unfolding T by simp
  ultimately show "unat c' = (m * radix + unat d) mod 2 ^ bs * 2 ^ (32 - bs)" by (simp add: p_def q_def)
qed

lemma ash_right_chain:
  assumes "chain (ash_right_step bs) (rev xs) c = (rs, c')" and bs: "bs < 32"
    and "unat c = m * 2 ^ (32 - bs)" and "m < 2 ^ bs"
  shows "nval (rev rs) = (m * radix ^ length xs + nval xs) div 2 ^ bs"
  using assms(1,3,4)
proof (induction xs arbitrary: c rs m rule: rev_induct)
  case (snoc d xs)
  define q where "q = (2 :: nat) ^ bs"
  obtain r c1 rs1 where s: "ash_right_step bs d c = (r, c1)" and t: "chain (ash_right_step bs) (rev xs) c1 = (rs1, c')"
    and rs: "rs = r # rs1"
    using snoc.prems(1) by (auto split: prod.splits)
  define T where "T = m * radix + unat d"
  note S = ash_right_step_div [OF s bs snoc.prems(2,3), folded T_def q_def]
  have "nval (rev rs1) = (T mod q * radix ^ length xs + nval xs) div q"
    unfolding q_def by (rule snoc.IH [OF t]) (use S(2) in \<open>simp_all add: q_def\<close>)
  moreover have "length rs1 = length xs" using length_chain [OF t] by simp
  ultimately have "nval (rev rs) = (T mod q * radix ^ length xs + nval xs) div q + radix ^ length xs * (T div q)"
    by (simp add: rs nval_append S(1))
  also have "\<dots> = (T mod q * radix ^ length xs + nval xs + (radix ^ length xs * (T div q)) * q) div q"
    by (simp add: q_def)
  also have "T mod q * radix ^ length xs + nval xs + (radix ^ length xs * (T div q)) * q
      = (T div q * q + T mod q) * radix ^ length xs + nval xs"
    unfolding distrib_right by (simp only: ac_simps)
  also have "\<dots> = m * radix ^ length (xs @ [d]) + nval (xs @ [d])"
    by (simp add: T_def nval_append algebra_simps)
  finally show ?case by (simp add: q_def)
qed (auto simp: power_strict_increasing)

lemma ash_right_ret:
  assumes x: "wf_Integer x" and n: "n \<le> 0"
    and s: "ash_result_size_in_bytes x n = ret k" "k \<le> capacity_in_bytes z"
  shows "\<exists>z'. ash x n z = ret z' \<and> wf_Integer z' \<and>
    ival z' = (if is_negative x \<and> uval x div 2 ^ nat (- n) = 0 then - 1
               else sgn (ival x) * int (uval x div 2 ^ nat (- n)))"
proof -
  define xs where "xs = take (ilength x) (digits x)"
  define bs where "bs = nat (- n) mod logB"
  define dsh where "dsh = nat (- n) div logB"
  have l: "length xs = ilength x" using x by (simp add: xs_def wf_Integer_def)
  have bs: "bs < 32" by (simp add: bs_def logB_def)
  obtain rs c where ch: "chain (ash_right_step bs) (rev (drop dsh xs)) 0 = (rs, c)" by (rule prod.exhaust)
  define ds where "ds = rev rs"
  have ld: "length ds = ilength x - dsh" using length_chain [OF ch] by (simp add: ds_def l)
  have "nval ds = nval (drop dsh xs) div 2 ^ bs"
    using ash_right_chain [OF ch bs, of 0] by (simp add: ds_def)
  also have "nval (drop dsh xs) = nval xs div radix ^ dsh"
  proof (cases "dsh \<le> length xs")
    case True
    then show ?thesis
      using nval_take_drop [of xs dsh] nval_less [of "take dsh xs"] by (simp add: min_absorb1 min_absorb2)
  next
    case False
    have "nval xs < radix ^ length xs" by (rule nval_less)
    also have "\<dots> \<le> radix ^ dsh" using False by (intro power_increasing) simp_all
    finally show ?thesis using False by simp
  qed
  also have "nval xs div radix ^ dsh div 2 ^ bs = uval x div 2 ^ nat (- n)"
  proof -
    have "nat (- n) = 32 * dsh + bs" by (simp add: dsh_def bs_def logB_def)
    then show ?thesis by (simp add: power_add power_mult radix_def uval_def xs_def div_mult2_eq)
  qed
  finally have v: "nval ds = uval x div 2 ^ nat (- n)" .
  have room: "max (length ds) (of_bool (is_negative x)) \<le> length (digits z)"
  proof (cases "is_zero x \<or> n = 0")
    case True
    then have "k = length_to_size_in_bytes (ilength x)" using s(1) by (simp add: ash_result_size_in_bytes_def)
    then show ?thesis
      using s(2) ld is_negative_nonzero(1) [of x] by (cases "is_negative x") auto
  next
    case False
    then have "k = length_to_size_in_bytes (max (ilength x - dsh) 1)"
      using s(1) n by (simp add: ash_result_size_in_bytes_def dsh_def)
    then show ?thesis using s(2) ld by auto
  qed
  then obtain z1 where z1: "store_trimmed z ds False = ret z1" "wf_Integer z1" "ival z1 = int (nval ds)"
    using store_trimmed_ret [of ds z False] by auto
  have cap1: "length (digits z1) = length (digits z)"
    using z1(1) room by (auto simp: store_trimmed_def)
  define z2 where "z2 = (if is_negative x then neg z1 else z1)"
  have z2: "wf_Integer z2" "ival z2 = (if is_negative x then - int (nval ds) else int (nval ds))"
    "length (digits z2) = length (digits z)"
    using z1(2,3) cap1 by (auto simp: z2_def) (simp add: neg_def set_signed_length_def)
  have z20: "is_zero z2 \<longleftrightarrow> nval ds = 0"
    using ival_sign(2) [OF z2(1)] unfolding z2(2) by (simp split: if_splits)
  have e: "ash x n z = (if is_negative x \<and> is_zero z2 then store z2 [1] (-1) else ret z2)"
  proof -
    have st: "store z ds (int (trim_length ds (length ds))) = ret z1"
      using z1(1) by (simp add: store_trimmed_def)
    have "\<not> 0 < n" using n by simp
    then show ?thesis
      unfolding ash_def live_wf [OF x] bindR_ret xs_def [symmetric] Let_def scan_chain bs_def [symmetric]
        dsh_def [symmetric] ch prod.case ds_def [symmetric] st z2_def by simp
  qed
  have sg: "ival x = (if is_negative x then - int (uval x) else int (uval x))" by (simp add: ival_def is_negative_def)
  show ?thesis
  proof (cases "is_negative x \<and> nval ds = 0")
    case True
    then have "1 \<le> length (digits z2)" using room z2(3) by auto
    then have "ash x n z = ret (z2\<lparr>signed_length := -1, digits := [1] @ drop 1 (digits z2)\<rparr>)"
      using True z20 by (simp add: e)
    moreover have "wf_Integer (z2\<lparr>signed_length := -1, digits := [1] @ drop 1 (digits z2)\<rparr>)"
      by (rule wf_store) simp_all
    moreover have "ival (z2\<lparr>signed_length := -1, digits := [1] @ drop 1 (digits z2)\<rparr>) = -1"
      by (simp add: ival_def uval_def ilength_def)
    ultimately show ?thesis using True v by auto
  next
    case False
    moreover have "sgn (ival x) * int (nval ds) = ival z2"
    proof (cases "nval ds = 0")
      case True
      then show ?thesis using False z2(2) by simp
    next
      case pos: False
      then have "uval x \<noteq> 0" using v by (cases "uval x = 0") auto
      then show ?thesis using z2(2) unfolding sg by (auto simp: sgn_if)
    qed
    ultimately show ?thesis using z2(1) z20 v by (auto simp: e)
  qed
qed

lemma Or_zero_overrun:
  assumes x: "wf_Integer x" and y: "wf_Integer y" and z: "or_result_size_in_bytes x y = capacity_in_bytes z"
    and "is_zero x \<and> is_negative y \<or> is_negative x \<and> is_zero y"
  shows "Or x y z = raise Out_Of_Bounds"
proof -
  have "length (digits z) = 0"
    using z assms(4)
    by (auto simp: or_result_size_in_bytes_def capacity_in_bytes_def length_to_size_in_bytes_def is_zero_def
        is_negative_def is_positive_def ilength_def)
  then have empty: "digits z = []" by simp
  have zero: "live v = ret []" if "is_zero v" "wf_Integer v" for v using that by (simp add: is_zero_iff)
  have neg: "take (ilength v) (digits v) \<noteq> []" if "is_negative v" "wf_Integer v" for v
    using that is_negative_nonzero(1) [OF that(1)] by (auto simp: wf_Integer_def)
  have st: "store_trimmed z ds b = raise Out_Of_Bounds" if "ds \<noteq> []" for ds b
    using that by (simp add: store_trimmed_def store_def empty)
  from assms(4) show ?thesis
  proof
    assume a: "is_zero x \<and> is_negative y"
    then have "\<not> is_negative x" by (simp add: is_zero_def is_negative_def)
    then show ?thesis
      using a zero [OF _ x] neg [OF _ y] y by (simp add: Or_def st)
  next
    assume a: "is_negative x \<and> is_zero y"
    then have "\<not> is_negative y" by (simp add: is_zero_def is_negative_def)
    then show ?thesis
      using a zero [OF _ y] neg [OF _ x] x by (simp add: Or_def st)
  qed
qed

section \<open>Properties\<close>



text \<open>
  C7. Conjunction is two's complement conjunction unless both operands are negative. With both
  negative it is exact exactly when the low digits of the two predecessors do not combine to all
  ones, or one operand is a multiple of the radix power of the shorter length: otherwise the carry
  into the digits above the shorter operand is dropped.
\<close>

theorem And_exact_iff:
  assumes "wf_Integer x" and "wf_Integer y" and "and_result_size_in_bytes x y \<le> capacity_in_bytes z"
  shows "\<exists>z' v. And x y z = ret z' \<and> ilength z' \<le> length (digits z') \<and> ival z' = v \<and>
    (v = ival x AND ival y \<longleftrightarrow>
       \<not> (is_negative x \<and> is_negative y) \<or>
       (let l = min (ilength x) (ilength y) in
        low_pred l (uval x) OR low_pred l (uval y) \<noteq> mask (32 * l)
        \<or> radix ^ l dvd uval x \<or> radix ^ l dvd uval y))"
  using And_ret [OF assms] unfolding represents_def by blast

theorem And_exact_iff_witness:
  "\<exists>z'. And \<lparr>signed_length = -1, digits = [0x80000001]\<rparr> \<lparr>signed_length = -1, digits = [0x80000000]\<rparr>
      \<lparr>signed_length = 0, digits = [0]\<rparr> = ret z' \<and> ival z' \<noteq> - 0x80000001 AND - 0x80000000"
proof -
  let ?x = "\<lparr>signed_length = -1, digits = [0x80000001]\<rparr>" and ?y = "\<lparr>signed_length = -1, digits = [0x80000000]\<rparr>"
  have v: "uval ?x = 0x80000001" "uval ?y = 0x80000000" by (simp_all add: uval_def ilength_def nval_def)
  have "wf_Integer ?x" "wf_Integer ?y" "ival ?x = - 0x80000001" "ival ?y = - 0x80000000"
    "is_negative ?x" "is_negative ?y" "ilength ?x = 1" "ilength ?y = 1"
    "and_result_size_in_bytes ?x ?y \<le> capacity_in_bytes \<lparr>signed_length = 0, digits = [0]\<rparr>"
    by (simp_all add: wf_Integer_def ilength_def ival_def v and_result_size_in_bytes_def is_negative_def
        is_zero_def is_positive_def)
  moreover have "low_pred 1 (uval ?x) OR low_pred 1 (uval ?y) = mask (32 * 1)"
    by (simp add: v low_pred_def mask_eq_exp_minus_1 take_bit_eq_mod)
  moreover have "\<not> radix ^ 1 dvd uval ?x" "\<not> radix ^ 1 dvd uval ?y"
    by (simp_all add: v radix_def)
  ultimately show ?thesis
    using And_exact_iff [of ?x ?y "\<lparr>signed_length = 0, digits = [0]\<rparr>"] by (simp add: Let_def) blast
qed

text \<open>
  C8. Disjunction, in a buffer of the announced size: with one operand zero and the other negative
  the announced size holds no digit and the code writes past it; otherwise the result is
  well formed and is two's complement disjunction, except when a non-zero non-negative operand is
  shorter than a negative one whose low digits are all zero.
\<close>

theorem Or_exact_iff:
  assumes "wf_Integer x" and "wf_Integer y" and "or_result_size_in_bytes x y = capacity_in_bytes z"
  shows "if is_zero x \<and> is_negative y \<or> is_negative x \<and> is_zero y
    then Or x y z = raise Out_Of_Bounds
    else \<exists>z'. Or x y z = ret z' \<and> wf_Integer z' \<and>
      (ival z' = ival x OR ival y \<longleftrightarrow> \<not> or_drops_carry x y \<and> \<not> or_drops_carry y x)"
  using Or_ret [of x y z] Or_zero_overrun [OF assms] assms by simp

theorem Or_exact_iff_witness:
  "Or \<lparr>signed_length = 0, digits = []\<rparr> \<lparr>signed_length = -1, digits = [5]\<rparr> \<lparr>signed_length = 0, digits = []\<rparr>
     = raise Out_Of_Bounds
   \<and> (\<exists>z'. Or \<lparr>signed_length = 1, digits = [1]\<rparr> \<lparr>signed_length = -2, digits = [0, 1]\<rparr>
      \<lparr>signed_length = 0, digits = [0, 0]\<rparr> = ret z' \<and> ival z' \<noteq> 1 OR - (2 ^ 32))"
proof
  let ?o = "\<lparr>signed_length = 0, digits = []\<rparr>" and ?n = "\<lparr>signed_length = -1, digits = [5]\<rparr>"
  show "Or ?o ?n ?o = raise Out_Of_Bounds"
    using Or_exact_iff [of ?o ?n ?o]
    by (simp add: wf_Integer_def ilength_def or_result_size_in_bytes_def capacity_in_bytes_def is_zero_def
        is_negative_def is_positive_def)
  let ?x = "\<lparr>signed_length = 1, digits = [1]\<rparr>" and ?y = "\<lparr>signed_length = -2, digits = [0, 1]\<rparr>"
  let ?z = "\<lparr>signed_length = 0, digits = [0, 0]\<rparr>"
  have "or_drops_carry ?x ?y"
    by (simp add: or_drops_carry_def is_negative_def ilength_def uval_def nval_def radix_def)
  moreover have "wf_Integer ?x" "wf_Integer ?y" "ival ?x = 1" "ival ?y = - (2 ^ 32)" "\<not> is_zero ?x" "\<not> is_zero ?y"
    "or_result_size_in_bytes ?x ?y = capacity_in_bytes ?z"
    by (simp_all add: wf_Integer_def ilength_def ival_def uval_def nval_def radix_def or_result_size_in_bytes_def
        capacity_in_bytes_def is_negative_def is_positive_def is_zero_def numeral_2_eq_2)
  ultimately show "\<exists>z'. Or ?x ?y ?z = ret z' \<and> ival z' \<noteq> 1 OR - (2 ^ 32)"
    using Or_exact_iff [of ?x ?y ?z] by auto
qed



end
