(* ===== verification/IntegerDivision.thy ===== *)
theory IntegerDivision
  imports IntegerArith
begin

text \<open>
  \<^verbatim>\<open>vm/utility/IntegerOps.cpp\<close>: division of large integers (\<^verbatim>\<open>qr_decomposition\<close> and the four
  operations above it), \<^verbatim>\<open>power\<close>, \<^verbatim>\<open>max_power\<close>, \<^verbatim>\<open>hash\<close> and the shifts of digit arrays. A
  \<^verbatim>\<open>for ( std::size_t i = ...; i >= 0; i-- )\<close> keeps its unsigned index as a \<open>32 word\<close>: the
  condition is always true and the index wraps. The array \<^verbatim>\<open>new_resource_array\<close> returns is
  uninitialised; its slots are written before they are read, \<open>copyDigits\<close> fills them with 0.
\<close>

section \<open>Powers\<close>

function power_loop :: "nat \<Rightarrow> digit \<Rightarrow> digit \<Rightarrow> digit" where
  "power_loop i f p =
     (if 0 < i then power_loop (i div 2) (f * f) (if i mod 2 = 1 then p * f else p) else p)"
  by pat_completeness auto
termination
  by (relation "measure (\<lambda>(i, f, p). i)") auto

declare power_loop.simps [simp del]

definition power_digit :: "digit \<Rightarrow> nat \<Rightarrow> digit" where
  "power_digit x n = power_loop n x 1"

partial_function (option) max_power_loop :: "digit \<Rightarrow> digit \<Rightarrow> digit \<Rightarrow> digit \<Rightarrow> (digit \<times> digit) run" where
  "max_power_loop b n p c =
     (if c = 0 then let (p', c') = axpy b p 0 c in max_power_loop b (n + 1) p' c' else ret (n, p))"

definition max_power :: "digit \<Rightarrow> digit run" where
  "max_power x = bindR (max_power_loop x 1 x 0) (\<lambda>(n, p). ret (if p = 0 then n else n - 1))"

section \<open>Division\<close>

definition copyDigits :: "digit list \<Rightarrow> nat \<Rightarrow> nat \<Rightarrow> digit list" where
  "copyDigits source l toCopy = take toCopy source @ replicate (l - toCopy) 0"

partial_function (option) qr_single_loop :: "digit list \<Rightarrow> 32 word \<Rightarrow> digit \<Rightarrow> digit \<Rightarrow> digit list run" where
  "qr_single_loop qr i divisor c =
     (if i \<ge> 0
      then if unat i < length qr \<and> unat (i + 1) < length qr
           then bindR (xdy (qr ! unat i) divisor c) (\<lambda>r.
                  qr_single_loop (qr[unat (i + 1) := fst r]) (i - 1) divisor (snd r))
           else raise Out_Of_Bounds
      else ret (qr[0 := c]))"

definition qr_decomposition_single_digit :: "digit list \<Rightarrow> nat \<Rightarrow> digit \<Rightarrow> digit list run" where
  "qr_decomposition_single_digit x l divisor = qr_single_loop x (of_nat l - 1) divisor 0"

definition qr_estimate_digit_quotient :: "digit \<Rightarrow> digit \<Rightarrow> digit \<Rightarrow> (digit \<times> digit) run" where
  "qr_estimate_digit_quotient xhi xlo y = (if xhi = y then ret (oneB, xhi) else xdy xlo y xhi)"

fun remainder_loop :: "digit list \<Rightarrow> digit list \<Rightarrow> digit \<Rightarrow> nat \<Rightarrow> digit \<Rightarrow> digit \<Rightarrow> (digit list \<times> digit) run" where
  "remainder_loop qr [] q j c b = ret (qr, b)"
| "remainder_loop qr (d # divisor) q j c b =
     (let (r1, b1) = xmy (qr ! j) 0 b;
          (qyk, c1) = axpy q d 0 c;
          (r2, c2) = xmy r1 qyk 0;
          (b2, c3) = xpy b1 c2 c1
      in bindR (guard (c3 = 0) ''Overflow'') (\<lambda>_. remainder_loop (qr[j := r2]) divisor q (Suc j) c3 b2))"

definition qr_calculate_remainder :: "digit list \<Rightarrow> digit list \<Rightarrow> digit \<Rightarrow> nat \<Rightarrow> nat \<Rightarrow> (digit list \<times> digit) run" where
  "qr_calculate_remainder qr divisor q qrStart stop = remainder_loop qr (take stop divisor) q qrStart 0 0"

fun underflow_loop :: "digit list \<Rightarrow> digit list \<Rightarrow> nat \<Rightarrow> digit \<Rightarrow> digit list \<times> digit" where
  "underflow_loop qr [] j c = (qr, c)"
| "underflow_loop qr (d # divisor) j c =
     (let (r, c') = xpy (qr ! j) d c in underflow_loop (qr[j := r]) divisor (Suc j) c')"

definition qr_adjust_for_underflow ::
  "digit list \<Rightarrow> digit list \<Rightarrow> digit \<Rightarrow> nat \<Rightarrow> nat \<Rightarrow> (digit list \<times> digit) run" where
  "qr_adjust_for_underflow qr divisor q qrStart stop =
     (let (qr', c) = underflow_loop qr (take stop divisor) qrStart 0 in
      bindR (guard (c = 1) ''Should have carry to balance borrow'') (\<lambda>_. ret (qr', q - 1)))"

text \<open>
  The test \<^verbatim>\<open>c > xi or ( c = xi and y2q > xi2 )\<close> holds an assignment: its second part is the
  value of \<^verbatim>\<open>xi and y2q > xi2\<close>.
\<close>

definition too_large :: "digit \<Rightarrow> digit \<Rightarrow> digit \<Rightarrow> digit \<Rightarrow> bool" where
  "too_large y2 q xi xi2 \<longleftrightarrow> (let (y2q, c) = axpy y2 q 0 0 in c > xi \<or> xi \<noteq> 0 \<and> y2q > xi2)"

definition qr_adjust_for_over_estimate :: "digit \<Rightarrow> digit \<Rightarrow> digit \<Rightarrow> digit \<Rightarrow> digit \<Rightarrow> digit" where
  "qr_adjust_for_over_estimate y1 y2 q xi xi2 =
     (if too_large y2 q xi xi2
      then let q1 = q - 1; (_, c2) = xpy xi y1 0 in
           if c2 = 0 \<and> too_large y2 q1 xi xi2 then q1 - 1 else q1
      else q)"

definition qr_scaling_factor :: "digit \<Rightarrow> digit run" where
  "qr_scaling_factor firstDivisorDigit =
     (if firstDivisorDigit = oneB then ret 1
      else bindR (xdy 0 (firstDivisorDigit + 1) 1) (\<lambda>(q, _). ret q))"

partial_function (option) qr_unscale_loop :: "digit list \<Rightarrow> 32 word \<Rightarrow> digit \<Rightarrow> digit \<Rightarrow> digit list run" where
  "qr_unscale_loop qr i scalingFactor c =
     (if i \<ge> 0
      then if unat i < length qr
           then bindR (xdy (qr ! unat i) scalingFactor c) (\<lambda>r.
                  qr_unscale_loop (qr[unat i := fst r]) (i - 1) scalingFactor (snd r))
           else raise Out_Of_Bounds
      else bindR (guard (c = 0) ''qr scaling broken'') (\<lambda>_. ret qr))"

definition qr_unscale_remainder :: "digit list \<Rightarrow> digit \<Rightarrow> nat \<Rightarrow> digit list run" where
  "qr_unscale_remainder qr scalingFactor l = qr_unscale_loop qr (of_nat l - 1) scalingFactor 0"

fun qr_loop :: "digit list \<Rightarrow> digit list \<Rightarrow> nat \<Rightarrow> nat \<Rightarrow> digit list run" where
  "qr_loop x y divisorLength 0 = ret x"
| "qr_loop x y divisorLength (Suc j) =
     (let i = Suc j; y1 = y ! (divisorLength - 1); y2 = y ! (divisorLength - 2) in
      if i \<ge> divisorLength
      then let xi = x ! i in
           bindR (qr_estimate_digit_quotient (x ! i) (x ! (i - 1)) y1) (\<lambda>(q0, xhi).
           let x1 = x[i := xhi]; q = qr_adjust_for_over_estimate y1 y2 q0 xhi (x1 ! (i - 2)) in
           bindR (qr_calculate_remainder x1 y q (i - divisorLength) divisorLength) (\<lambda>(x2, b).
           let (_, b') = xmy xi 0 b in
           if b' \<noteq> 0
           then bindR (qr_adjust_for_underflow x2 y q (i - divisorLength) divisorLength) (\<lambda>(x3, q').
                  qr_loop (x3[i := q']) y divisorLength j)
           else qr_loop (x2[i := q]) y divisorLength j))
      else ret x)"

definition qr_decomposition :: "Integer \<Rightarrow> Integer \<Rightarrow> digit list run" where
  "qr_decomposition dividend y0 =
     (let dividendLength = ilength dividend; divisorLength = ilength y0 in
      if dividendLength < divisorLength then raise (Fatal ''division not needed'')
      else if divisorLength = 0 then raise (Fatal ''division by zero'')
      else bindR (live dividend) (\<lambda>xs. bindR (live y0) (\<lambda>ys.
        let x = copyDigits xs (dividendLength + 1) dividendLength in
        if divisorLength = 1 then qr_decomposition_single_digit x dividendLength (ys ! 0)
        else let x1 = x[dividendLength := 0] in
             bindR (qr_scaling_factor (ys ! (divisorLength - 1))) (\<lambda>d.
             bindR (if d > 1
                    then let (xs', cx) = scale (take dividendLength x1) d;
                             (ys', c) = scale (copyDigits ys divisorLength divisorLength) d
                         in if c \<noteq> 0 then raise (Fatal ''qr_decomposition broken'')
                            else ret (xs' @ [cx], ys')
                    else ret (x1, ys)) (\<lambda>(x2, y2).
             bindR (qr_loop x2 y2 divisorLength dividendLength) (\<lambda>x3.
             if d \<noteq> 1 then qr_unscale_remainder x3 d divisorLength else ret x3))))))"

text \<open>Copying the quotient and remainder digits out, leading zeros scanned off.\<close>

definition unsigned_quo :: "Integer \<Rightarrow> Integer \<Rightarrow> Integer \<Rightarrow> Integer run" where
  "unsigned_quo x y z =
     (let xl = ilength x; yl = ilength y in
      if xl < yl then ret (set_signed_length z 0)
      else bindR (qr_decomposition x y) (\<lambda>qr.
        let q = take (xl + 1 - yl) (drop yl qr); n = trim_length q (length q)
        in store z (take n q) (int n)))"

definition sd_all_zero :: "digit list \<Rightarrow> nat \<Rightarrow> nat \<Rightarrow> bool" where
  "sd_all_zero ds start stop = list_all (\<lambda>d. d = 0) (take (stop - start) (drop start ds))"

definition signed_div :: "Integer \<Rightarrow> Integer \<Rightarrow> Integer \<Rightarrow> Integer run" where
  "signed_div x y z =
     (let xl = ilength x; xneg = is_negative x; yl = ilength y; yneg = is_negative y in
      if xl < yl
      then if xneg = yneg then ret (set_signed_length z 0)
           else bindR (store z [1] 1) (\<lambda>z'. ret (neg z'))
      else bindR (qr_decomposition x y) (\<lambda>qr.
        let q = take (xl + 1 - yl) (drop yl qr); n = trim_length q (length q);
            carry = (if \<not> sd_all_zero qr 0 yl \<and> xneg \<noteq> yneg then 1 else 0);
            (ds, c) = chain (\<lambda>x c. xpy x 0 c) (take n q) carry
        in bindR (if c \<noteq> 0 then store z (ds @ [c]) (int (n + 1)) else store z ds (int n)) (\<lambda>z'.
             ret (if xneg \<noteq> yneg then neg z' else z'))))"

definition last_non_zero_index :: "digit list \<Rightarrow> nat \<Rightarrow> int" where
  "last_non_zero_index z lastIndex = int (trim_length z (Suc lastIndex)) - 1"

definition signed_mod :: "Integer \<Rightarrow> Integer \<Rightarrow> Integer \<Rightarrow> Integer run" where
  "signed_mod x y z =
     (let xl = ilength x; yl = ilength y in
      if xl < yl
      then bindR (live x) (\<lambda>xs. bindR (live y) (\<lambda>ys.
             let (ds1, c1) = chain (\<lambda>(y, x). xmy y x) (zip (take xl ys) xs) 0;
                 (ds2, c2) = chain (\<lambda>(y, x). xmy y x) (map (\<lambda>y. (y, 0)) (drop xl ys)) c1;
                 ds = ds1 @ ds2
             in bindR (store z ds 0) (\<lambda>z'.
                bindR (guard (c2 = 0) ''Remainder too large'') (\<lambda>_.
                ret (set_signed_length z' (last_non_zero_index ds (yl - 1) + 1))))))
      else bindR (qr_decomposition x y) (\<lambda>qr. bindR (live y) (\<lambda>ys.
        bindR (if \<not> sd_all_zero qr 0 yl
               then let (ds, c) = chain (\<lambda>(y, x). xmy y x) (zip ys (take yl qr)) 0
                    in bindR (guard (c = 0) ''Remainder too large'') (\<lambda>_. ret (ds @ drop yl qr))
               else ret qr) (\<lambda>qr'.
        let n = trim_length qr' yl in store z (take n qr') (int n)))))"

definition unsigned_rem :: "Integer \<Rightarrow> Integer \<Rightarrow> Integer \<Rightarrow> Integer run" where
  "unsigned_rem x y z =
     (let xl = ilength x; yl = ilength y in
      if xl < yl then copy_Integer x z
      else bindR (qr_decomposition x y) (\<lambda>qr. let n = trim_length qr yl in store z (take n qr) (int n)))"

definition quo :: "Integer \<Rightarrow> Integer \<Rightarrow> Integer \<Rightarrow> Integer run" where
  "quo x y z =
     bindR (unsigned_quo x y z) (\<lambda>z'. ret (if is_negative x \<noteq> is_negative y then neg z' else z'))"

definition rem_Integer :: "Integer \<Rightarrow> Integer \<Rightarrow> Integer \<Rightarrow> Integer run" where
  "rem_Integer x y z = bindR (unsigned_rem x y z) (\<lambda>z'. ret (if is_negative x then neg z' else z'))"

definition Div :: "Integer \<Rightarrow> Integer \<Rightarrow> Integer \<Rightarrow> Integer run" where
  "Div x y z = (if \<not> is_negative x \<and> is_positive y then unsigned_quo x y z else signed_div x y z)"

definition Mod :: "Integer \<Rightarrow> Integer \<Rightarrow> Integer \<Rightarrow> Integer run" where
  "Mod x y z =
     bindR (if is_negative x = is_negative y then unsigned_rem x y z else signed_mod x y z)
       (\<lambda>z'. ret (if is_negative y \<and> is_not_zero z' then neg z' else z'))"

section \<open>Hash and array shifts\<close>

partial_function (option) hash_loop :: "Integer \<Rightarrow> 32 word \<Rightarrow> 32 word \<Rightarrow> 32 word run" where
  "hash_loop n i hash =
     (if i \<ge> 0
      then if unat i < length (digits n) then hash_loop n (i - 1) (hash XOR digits n ! unat i)
           else raise Out_Of_Bounds
      else ret hash)"

definition hash_Integer :: "Integer \<Rightarrow> 32 word run" where
  "hash_Integer x =
     bindR (hash_loop x (of_nat (ilength x) - 1) 0)
       (\<lambda>hash. ret (signed_drop_bit 2 (hash XOR of_int (signed_length x))))"

text \<open>\<open>fill_down f d i k\<close>: \<^verbatim>\<open>while ( i > k ) { d[ i ] = ...; i--; }\<close>.\<close>

fun fill_down :: "(digit list \<Rightarrow> nat \<Rightarrow> digit) \<Rightarrow> digit list \<Rightarrow> nat \<Rightarrow> nat \<Rightarrow> digit list" where
  "fill_down f d 0 k = d"
| "fill_down f d (Suc i) k = (if Suc i > k then fill_down f (d[Suc i := f d (Suc i)]) i k else d)"

definition shift_left :: "digit list \<Rightarrow> int \<Rightarrow> digit list run" where
  "shift_left d shift_count =
     (if shift_count \<le> 0 then ret d
      else let k = nat shift_count div logB; h = nat shift_count mod logB; l = logB - h;
               i = min k (length d - 1) in
           if h = 0
           then ret (fill_down (\<lambda>_ _. 0) (fill_down (\<lambda>d i. d ! (i - k)) d (length d - 1) k) i 0)
           else let d1 = fill_down (\<lambda>d i. push_bit h (d ! (i - k)) OR drop_bit l (d ! (i - k - 1))) d (length d - 1) k
                in if k \<le> i \<and> i < length d
                   then ret (fill_down (\<lambda>_ _. 0) (d1[i := push_bit h (d1 ! (i - k))]) (i - 1) 0)
                   else raise Out_Of_Bounds)"

text \<open>\<open>fill_up f d i n\<close>: \<^verbatim>\<open>while ( i < n ) { d[ i ] = ...; i++; }\<close>.\<close>

function fill_up :: "(digit list \<Rightarrow> nat \<Rightarrow> digit) \<Rightarrow> digit list \<Rightarrow> nat \<Rightarrow> nat \<Rightarrow> digit list" where
  "fill_up f d i n = (if i < n then fill_up f (d[i := f d i]) (Suc i) n else d)"
  by pat_completeness auto
termination
  by (relation "measure (\<lambda>(f, d, i, n). n - i)") auto

declare fill_up.simps [simp del]

definition shift_right :: "digit list \<Rightarrow> int \<Rightarrow> digit list run" where
  "shift_right d shift_count =
     (if shift_count \<le> 0 then ret d
      else let k = nat shift_count div logB; l = nat shift_count mod logB; h = logB - l; n = length d in
           if n < k + (if l = 0 then 0 else 1) then raise Out_Of_Bounds
           else if l = 0
           then ret (fill_up (\<lambda>_ _. 0) (fill_up (\<lambda>d i. d ! (i + k)) d 0 (n - k)) (n - k) n)
           else let d1 = fill_up (\<lambda>d i. push_bit h (d ! (i + k + 1)) OR drop_bit l (d ! (i + k))) d 0 (n - k - 1);
                    i = n - k - 1
                in ret (fill_up (\<lambda>_ _. 0) (d1[i := drop_bit l (d1 ! (i + k))]) (i + 1) n))"

section \<open>What the powers compute\<close>

lemma power_loop_value: "power_loop i f p = p * f ^ i"
proof (induction i f p rule: power_loop.induct)
  case (1 i f p)
  show ?case
  proof (cases "0 < i")
    case True
    have "f ^ i = (f * f) ^ (i div 2) * (if i mod 2 = 1 then f else 1)"
    proof -
      have "i = 2 * (i div 2) + i mod 2" by simp
      then have "f ^ i = f ^ (2 * (i div 2)) * f ^ (i mod 2)" by (metis power_add)
      moreover have "f ^ (2 * (i div 2)) = (f * f) ^ (i div 2)" by (simp add: power_mult power2_eq_square)
      moreover have "i mod 2 = 0 \<or> i mod 2 = 1" by auto
      ultimately show ?thesis by auto
    qed
    moreover have "power_loop i f p = power_loop (i div 2) (f * f) (if i mod 2 = 1 then p * f else p)"
      using True by (simp add: power_loop.simps [of i])
    ultimately show ?thesis using "1.IH" [OF True] by simp
  qed (simp add: power_loop.simps)
qed

lemma base_pos: "radix \<le> X ^ m \<Longrightarrow> 1 \<le> X"
proof (cases "X = 0")
  case True
  then have "X ^ m \<le> 1" by (simp add: power_0_left)
  moreover assume "radix \<le> X ^ m"
  ultimately show ?thesis using radix_pos(3) by linarith
qed simp

lemma max_power_loop_value:
  assumes "X = unat x" and "n + j = m" and "X ^ (m - 1) < radix" and "radix \<le> X ^ m" and "m < 2 ^ 32" and "1 \<le> n" and "0 < j"
  shows "max_power_loop x (of_nat n) (of_nat (X ^ n)) 0 = ret (of_nat m, of_nat (X ^ m))"
  using assms(2,6,7)
proof (induction j arbitrary: n)
  case (Suc j)
  have "X ^ n < radix"
  proof -
    have "1 \<le> X" by (rule base_pos [OF assms(4)])
    then have "X ^ n \<le> X ^ (m - 1)" using Suc.prems(1) by (intro power_increasing) auto
    then show ?thesis using assms(3) by linarith
  qed
  then have p: "unat (of_nat (X ^ n) :: digit) = X ^ n" by (simp only: unat_digit_of_nat mod_less)
  obtain p' c' where a: "axpy x (of_nat (X ^ n)) 0 0 = (p', c')" by (rule prod.exhaust)
  have s: "unat p' + radix * unat c' = X ^ Suc n"
    using axpy_step [OF a] unfolding p by (simp add: assms(1))
  have p': "p' = of_nat (X ^ Suc n)"
  proof -
    have "unat p' = (unat p' + radix * unat c') mod radix" by simp
    then have "unat p' = unat (of_nat (X ^ Suc n) :: digit)" unfolding s unat_digit_of_nat .
    then show ?thesis by (simp add: word_unat_eq_iff)
  qed
  have st: "max_power_loop x (of_nat n) (of_nat (X ^ n)) 0 = max_power_loop x (of_nat (Suc n)) p' c'"
    by (subst max_power_loop.simps) (simp add: a [simplified] ac_simps)
  show ?case
  proof (cases "j = 0")
    case True
    then have "Suc n = m" using Suc.prems(1) by simp
    then have "radix \<le> unat p' + radix * unat c'" using assms(4) s by simp
    then have "c' \<noteq> 0" using unat_less_radix [of p'] by (auto simp: not_le [symmetric])
    then show ?thesis unfolding st by (subst max_power_loop.simps) (simp only: p' \<open>Suc n = m\<close> if_False)
  next
    case False
    have "X ^ Suc n < radix"
    proof -
      have "1 \<le> X" by (rule base_pos [OF assms(4)])
      then have "X ^ Suc n \<le> X ^ (m - 1)" using Suc.prems(1) False by (intro power_increasing) auto
      then show ?thesis using assms(3) by linarith
    qed
    then have "radix * unat c' < radix * 1" using s by linarith
    then have "c' = 0" unfolding mult_less_cancel1 by (simp add: unat_eq_zero)
    then show ?thesis using Suc.IH [of "Suc n"] Suc.prems False unfolding st p' by simp
  qed
qed simp

lemma max_power_loop_forever:
  assumes "max_power_loop x n p c = Some r" and "unat x \<le> 1"
  shows "\<not> (unat p \<le> 1 \<and> c = 0)"
proof -
  have "unat x \<le> 1 \<longrightarrow> \<not> (unat p \<le> 1 \<and> c = 0)"
  proof (rule max_power_loop.raw_induct [where P = "\<lambda>b n p c r. unat b \<le> 1 \<longrightarrow> \<not> (unat p \<le> 1 \<and> c = 0)",
        OF _ assms(1)])
    fix loop x n p c r
    assume IH: "\<And>x n p c r. loop x n p c = Some r \<Longrightarrow> unat x \<le> 1 \<longrightarrow> \<not> (unat p \<le> 1 \<and> c = 0)"
      and eq: "(if c = 0 then let (p', c') = axpy x p 0 c in loop x (n + 1) p' c' else ret (n, p)) = Some r"
    show "unat x \<le> 1 \<longrightarrow> \<not> (unat p \<le> 1 \<and> c = 0)"
    proof (intro impI notI)
      assume x: "unat x \<le> 1" and a: "unat p \<le> 1 \<and> c = 0"
      obtain p' c' where s: "axpy x p 0 0 = (p', c')" by (rule prod.exhaust)
      have "unat x * unat p \<le> 1 * 1" using a x by (intro mult_le_mono) auto
      then have le: "unat p' + radix * unat c' \<le> 1" using axpy_step [OF s] by simp
      have "c' = 0"
      proof (rule ccontr)
        assume "c' \<noteq> 0"
        then have "radix * 1 \<le> radix * unat c'" by (intro mult_le_mono2) (simp add: Suc_le_eq unat_gt_0)
        with le show False using radix_pos(3) by linarith
      qed
      moreover have "loop x (n + 1) p' c' = Some r" using eq a s by simp
      from IH [OF this] have "\<not> (unat p' \<le> 1 \<and> c' = 0)" using x by blast
      ultimately show False using le by simp
    qed
  qed
  then show ?thesis using assms(2) by blast
qed

lemma max_power_forever: "unat x \<le> 1 \<Longrightarrow> max_power x = None"
  using max_power_loop_forever [of x 1 x 0] by (cases "max_power_loop x 1 x 0") (auto simp: max_power_def)

lemma max_power_ret:
  assumes "unat x ^ (m - 1) < radix" and "radix \<le> unat x ^ m" and x: "2 \<le> unat x"
  shows "max_power x = ret (of_nat (if radix dvd unat x ^ m then m else m - 1))" and "2 \<le> m" and "m \<le> 33"
proof -
  have "\<not> radix \<le> unat x ^ 0" "\<not> radix \<le> unat x ^ 1"
    using unat_less_radix [of x] radix_pos(3) by (simp_all add: not_le)
  then have "m \<noteq> 0" "m \<noteq> 1" using assms(2) by metis+
  then show m2: "2 \<le> m" by simp
  show m33: "m \<le> 33"
  proof (rule ccontr)
    assume "\<not> m \<le> 33"
    then have "radix \<le> (2::nat) ^ (m - 1)"
      unfolding radix_def by (intro power_increasing) simp_all
    also have "\<dots> \<le> unat x ^ (m - 1)" using x by (intro power_mono) simp_all
    finally show False using assms(1) by simp
  qed
  have "max_power_loop x (of_nat 1) (of_nat (unat x ^ 1)) 0 = ret (of_nat m, of_nat (unat x ^ m))"
    by (rule max_power_loop_value [OF refl, where j = "m - 1"]) (use assms m2 m33 in simp_all)
  then have "max_power_loop x 1 x 0 = ret (of_nat m, of_nat (unat x ^ m))" by simp
  moreover have "(of_nat (unat x ^ m) :: digit) = 0 \<longleftrightarrow> radix dvd unat x ^ m"
    by (metis unat_digit_of_nat unat_eq_zero dvd_eq_mod_eq_0)
  moreover have "(of_nat m - 1 :: digit) = of_nat (m - 1)" using m2 by (simp add: of_nat_diff)
  ultimately show "max_power x = ret (of_nat (if radix dvd unat x ^ m then m else m - 1))"
    by (simp only: max_power_def bindR_ret prod.case) simp
qed

section \<open>Loops that count an unsigned index down to zero\<close>

lemma word_pred_unat: "(i :: 32 word) \<noteq> 0 \<Longrightarrow> unat (i - 1) = unat i - 1"
  by (simp add: unat_minus_one)

lemma word_wrap_unat: "unat (0 - 1 :: 32 word) = 2 ^ 32 - 1"
  by (simp add: unsigned_minus_1_eq_mask mask_eq_exp_minus_1)

lemma qr_single_loop_faults:
  assumes "divisor \<noteq> 0" and "length qr < 2 ^ 32" and "unat i + 1 < length qr \<or> length qr \<le> unat i"
  shows "qr_single_loop qr i divisor c = raise Out_Of_Bounds"
  using assms(2,3)
proof (induction "unat i" arbitrary: i qr c rule: less_induct)
  case less
  show ?case
  proof (cases "unat i + 1 < length qr")
    case True
    then have "unat (i + 1) = unat i + 1"
      using less.prems(1) by (simp add: unat_word_ariths)
    moreover obtain q c' where x: "xdy (qr ! unat i) divisor c = ret (q, c')"
      using assms(1) by (simp add: xdy_def Let_def)
    ultimately have e: "qr_single_loop qr i divisor c = qr_single_loop (qr[unat i + 1 := q]) (i - 1) divisor c'"
      using True by (subst qr_single_loop.simps) simp
    show ?thesis
    proof (cases "i = 0")
      case True
      then show ?thesis
        unfolding e using less.prems(1) word_wrap_unat by (subst qr_single_loop.simps) simp
    next
      case False
      then show ?thesis
        unfolding e using less.prems True word_pred_unat [OF False] by (intro less.hyps) (auto simp: unat_gt_0)
    qed
  next
    case False
    then show ?thesis using less.prems by (subst qr_single_loop.simps) simp
  qed
qed

lemma qr_unscale_loop_never_returns:
  assumes "qr_unscale_loop qr i s c = Some r"
  shows "\<exists>f. r = Inl f"
proof (rule qr_unscale_loop.raw_induct [where P = "\<lambda>qr i s c r. \<exists>f. r = Inl f", OF _ assms])
  fix loop qr i s c r
  assume IH: "\<And>qr i s c r. loop qr i s c = Some r \<Longrightarrow> \<exists>f. r = Inl f"
    and eq: "(if i \<ge> (0 :: 32 word)
      then if unat i < length qr
           then bindR (xdy (qr ! unat i) s c) (\<lambda>r. loop (qr[unat i := fst r]) (i - 1) s (snd r))
           else raise Out_Of_Bounds
      else bindR (guard (c = 0) ''qr scaling broken'') (\<lambda>_. ret qr)) = Some r"
  show "\<exists>f. r = Inl f"
  proof (cases "unat i < length qr")
    case True
    show ?thesis
    proof (cases "xdy (qr ! unat i) s c" rule: run_cases)
      case (fault f)
      then have "raise f = Some r" using eq True by simp
      then show ?thesis by (auto simp: raise_def)
    next
      case (returns v)
      then have "loop (qr[unat i := fst v]) (i - 1) s (snd v) = Some r" using eq True by simp
      then show ?thesis by (rule IH)
    qed (use eq True in simp)
  next
    case False
    then show ?thesis using eq by (auto simp: raise_def)
  qed
qed

lemma hash_loop_faults:
  assumes "length (digits x) < 2 ^ 32"
  shows "hash_loop x i h = raise Out_Of_Bounds"
proof (induction "unat i" arbitrary: i h rule: less_induct)
  case less
  show ?case
  proof (cases "unat i < length (digits x)")
    case True
    then have e: "hash_loop x i h = hash_loop x (i - 1) (h XOR digits x ! unat i)"
      by (subst hash_loop.simps) simp
    show ?thesis
    proof (cases "i = 0")
      case True
      then show ?thesis unfolding e using assms word_wrap_unat by (subst hash_loop.simps) simp
    next
      case False
      then show ?thesis unfolding e using word_pred_unat [OF False] by (intro less.hyps) (auto simp: unat_gt_0)
    qed
  next
    case False
    then show ?thesis by (subst hash_loop.simps) simp
  qed
qed

section \<open>Division\<close>

lemma scaling_factor_gt_1:
  assumes "t \<noteq> 0" and "unat t < 2 ^ 31"
  shows "\<exists>d. qr_scaling_factor t = ret d \<and> 1 < d"
proof -
  have t1: "unat (t + 1) = unat t + 1"
    using assms(2) by (simp add: unat_word_ariths)
  then have nz: "t + 1 \<noteq> 0" by auto
  then obtain q c where x: "xdy 0 (t + 1) 1 = ret (q, c)" by (simp add: xdy_def Let_def)
  have "unat (1 :: digit) < unat (t + 1)" using assms(1) t1 by (simp add: unat_gt_0)
  from xdy_step [OF x this] have q: "unat q * unat (t + 1) + unat c = radix" "unat c < unat (t + 1)" by simp_all
  have "1 < unat q"
  proof (rule ccontr)
    assume "\<not> 1 < unat q"
    then have "unat q * unat (t + 1) \<le> 1 * unat (t + 1)" by (intro mult_le_mono1) simp
    then have "radix < 2 * unat (t + 1)" using q by linarith
    then show False using t1 assms(2) by (simp add: radix_def)
  qed
  then have "1 < q" by (simp add: word_less_nat_alt)
  moreover have "t \<noteq> oneB" using assms(2) by (auto simp: oneB_def)
  ultimately show ?thesis using x by (simp add: qr_scaling_factor_def)
qed

text \<open>Divisors for which \<^verbatim>\<open>qr_decomposition\<close> takes one of the two broken loops.\<close>

definition short_or_scaled :: "Integer \<Rightarrow> bool" where
  "short_or_scaled y \<longleftrightarrow> ilength y = 1 \<or> unat (digits y ! (ilength y - 1)) < 2 ^ 31"

lemma qr_decomposition_never_returns:
  assumes x: "wf_Integer x" and y: "wf_Integer y" and le: "ilength y \<le> ilength x" "0 < ilength y"
    and big: "ilength x < 2 ^ 31" and s: "short_or_scaled y"
  shows "qr_decomposition x y \<noteq> ret v"
proof (cases "ilength y = 1")
  case True
  define qr where "qr = copyDigits (take (ilength x) (digits x)) (ilength x + 1) (ilength x)"
  have l: "length qr = ilength x + 1" using x by (simp add: qr_def copyDigits_def wf_Integer_def)
  have "digits y \<noteq> []" using y le(2) by (auto simp: wf_Integer_def)
  then have d: "take (ilength y) (digits y) ! 0 \<noteq> 0" using True y by (simp add: wf_Integer_def)
  have "unat (of_nat (ilength x) - 1 :: 32 word) = ilength x - 1"
  proof -
    have "unat (of_nat (ilength x) :: 32 word) = ilength x" using big by (simp add: unat_of_nat)
    moreover have "(of_nat (ilength x) :: 32 word) \<noteq> 0" using calculation le by auto
    ultimately show ?thesis by (simp add: word_pred_unat)
  qed
  then have "qr_single_loop qr (of_nat (ilength x) - 1) (take (ilength y) (digits y) ! 0) 0 = raise Out_Of_Bounds"
    using d l le big True by (intro qr_single_loop_faults) auto
  then show ?thesis
    using True le unfolding qr_decomposition_def qr_decomposition_single_digit_def Let_def live_wf [OF x] live_wf [OF y]
      bindR_ret qr_def by simp
next
  case False
  then have t: "unat (digits y ! (ilength y - 1)) < 2 ^ 31" using s by (simp add: short_or_scaled_def)
  have top: "take (ilength y) (digits y) ! (ilength y - 1) = digits y ! (ilength y - 1)" using le by simp
  have "digits y ! (ilength y - 1) \<noteq> 0" using y le by (simp add: wf_Integer_def)
  from scaling_factor_gt_1 [OF this t] obtain d where
    d: "qr_scaling_factor (take (ilength y) (digits y) ! (ilength y - 1)) = ret d" "1 < d"
    unfolding top by blast
  then have "d \<noteq> 1" by auto
  have nr: "qr_unscale_remainder qr d l \<noteq> ret w" for qr l w
    using qr_unscale_loop_never_returns [of qr "of_nat l - 1" d 0] by (auto simp: qr_unscale_remainder_def ret_def)
  show ?thesis
  proof
    assume "qr_decomposition x y = ret v"
    then have "\<exists>x2 y2. bindR (qr_loop x2 y2 (ilength y) (ilength x)) (\<lambda>x3.
        if d \<noteq> 1 then qr_unscale_remainder x3 d (ilength y) else ret x3) = ret v"
      using False le d(2) unfolding qr_decomposition_def Let_def live_wf [OF x] live_wf [OF y] bindR_ret d(1)
      by (auto simp: bindR_eq_ret split: prod.splits if_splits)
    then show False using nr \<open>d \<noteq> 1\<close> by (auto simp: bindR_eq_ret)
  qed
qed

lemma bindR_never: "(\<And>v. m \<noteq> ret v) \<Longrightarrow> bindR m k \<noteq> ret w"
  by (auto simp: bindR_eq_ret)

text \<open>A dividend shorter than the divisor.\<close>

lemma signed_mod_sub:
  assumes x: "wf_Integer x" and y: "wf_Integer y" and lt: "ilength x < ilength y" and z: "ilength y \<le> length (digits z)"
  shows "\<exists>z'. signed_mod x y z = ret z' \<and> holds_nat z' (uval y - uval x)"
proof -
  have le: "uval x \<le> uval y" using uval_mono_length [OF y lt] by simp
  obtain z' where u: "unsigned_sub y x z = ret z'" and h: "holds_nat z' (uval y - uval x)"
    using unsigned_sub_ret [OF y x le z] by blast
  define xs ys where "xs = take (ilength x) (digits x)" and "ys = take (ilength y) (digits y)"
  have l: "length ys = ilength y" "length xs = ilength x" using x y by (simp_all add: xs_def ys_def wf_Integer_def)
  obtain ds1 c1 where c1: "chain (\<lambda>(x, y). xmy x y) (zip (take (ilength x) ys) xs) 0 = (ds1, c1)" by (rule prod.exhaust)
  obtain ds2 c2 where c2: "chain (\<lambda>(x, y). xmy x y) (map (\<lambda>x. (x, 0)) (drop (ilength x) ys)) c1 = (ds2, c2)"
    by (rule prod.exhaust)
  have "length ds1 = ilength x" "length ds2 = ilength y - ilength x"
    using length_chain [OF c1] length_chain [OF c2] l lt by simp_all
  then have ld: "length (ds1 @ ds2) = ilength y" using lt by simp
  have m: "max (ilength y) (ilength x) = ilength y" using lt by simp
  have "digits_upto y (ilength y) = ret ys" using live_wf [OF y] by (simp add: live_def ys_def)
  then have "c2 = 0 \<and> set_signed_length (z\<lparr>signed_length := 0, digits := (ds1 @ ds2) @ drop (ilength y) (digits z)\<rparr>)
      (int (trim_length (ds1 @ ds2) (ilength y))) = z'"
    using u c1 c2 ld z unfolding unsigned_sub_def Let_def m live_wf [OF x] bindR_ret xs_def [symmetric]
    by (auto split: if_splits)
  moreover have "Suc (ilength y - 1) = ilength y" using lt by simp
  ultimately have "signed_mod x y z = ret z'"
    using lt c1 c2 ld z unfolding signed_mod_def Let_def live_wf [OF x] live_wf [OF y] bindR_ret
      xs_def [symmetric] ys_def [symmetric]
    by (simp add: last_non_zero_index_def l)
  with h show ?thesis by blast
qed

lemma short_dividend:
  assumes x: "wf_Integer x" and y: "wf_Integer y" and lt: "ilength x < ilength y" and z: "ilength y \<le> length (digits z)"
  shows "\<exists>q r d m. quo x y z = ret q \<and> ival q = 0
    \<and> rem_Integer x y z = ret r \<and> ival r = \<bar>ival x\<bar>
    \<and> Div x y z = ret d \<and> ival d = (if is_negative x = is_negative y then 0 else - 1)
    \<and> Mod x y z = ret m \<and> ival m = (if is_negative x = is_negative y then \<bar>ival x\<bar> else sgn (ival y) * int (uval y - uval x))"
proof -
  have yz: "ilength y \<noteq> 0" "0 < length (digits z)" using lt z by linarith+
  obtain c where c: "copy_Integer x z = ret c" "wf_Integer c" "ival c = ival x"
    using copy_Integer_ret [OF x, of z] lt z by auto
  obtain s where s: "signed_mod x y z = ret s" "holds_nat s (uval y - uval x)"
    using signed_mod_sub [OF assms] by blast
  have sw: "wf_Integer s" "ival s = int (uval y - uval x)" using holds_nat_wf [OF s(2)] holds_nat_ival [OF s(2)] by simp_all
  have spos: "0 < ival s" using uval_mono_length [OF y lt] sw(2) by simp
  have "\<exists>q. quo x y z = ret q \<and> ival q = 0"
    using lt by (simp add: quo_def unsigned_quo_def set_signed_length_def neg_def ival_def uval_def ilength_def)
  moreover have "\<exists>r. rem_Integer x y z = ret r \<and> ival r = \<bar>ival x\<bar>"
    using lt c ival_sign(1) [OF x] by (auto simp: rem_Integer_def unsigned_rem_def)
  moreover have "\<exists>d. Div x y z = ret d \<and> ival d = (if is_negative x = is_negative y then 0 else - 1)"
  proof -
    have "\<not> is_negative x \<and> is_positive y \<Longrightarrow> is_negative x = is_negative y"
      by (simp add: is_positive_def is_negative_def)
    moreover have "ival (neg (z\<lparr>signed_length := 1, digits := [1] @ drop 1 (digits z)\<rparr>)) = - 1"
      by (simp add: neg_def set_signed_length_def ival_def uval_def ilength_def)
    moreover have "store z [1] 1 = ret (z\<lparr>signed_length := 1, digits := [1] @ drop 1 (digits z)\<rparr>)"
      using yz(2) by (simp add: store_def Suc_le_eq)
    moreover have "ival (set_signed_length z 0) = 0"
      by (simp add: set_signed_length_def ival_def uval_def ilength_def)
    ultimately show ?thesis
      using lt by (cases "is_negative x"; cases "is_negative y"; cases "is_positive y")
        (simp_all only: Div_def unsigned_quo_def signed_div_def Let_def if_True if_False bindR_ret ret_inject simp_thms
          not_True_eq_False not_False_eq_True ex_simps)
  qed
  moreover have "\<exists>m. Mod x y z = ret m \<and>
      ival m = (if is_negative x = is_negative y then \<bar>ival x\<bar> else sgn (ival y) * int (uval y - uval x))"
  proof (cases "is_negative x = is_negative y")
    case True
    have nz: "is_not_zero c \<longleftrightarrow> ival x \<noteq> 0" using ival_sign(2) [OF c(2)] c(3) by (simp add: is_not_zero_def is_zero_def)
    show ?thesis
      using True lt c nz ival_sign(1) [OF x]
      by (cases "is_negative x") (auto simp: Mod_def unsigned_rem_def)
  next
    case False
    have nz: "is_not_zero s" using ival_sign(2) [OF sw(1)] spos by (simp add: is_not_zero_def is_zero_def)
    have "sgn (ival y) = (if is_negative y then - 1 else 1)"
      using ival_sign(1) [OF y] uval_eq_0_iff [OF y] yz(1) by (auto simp: sgn_if ival_def is_negative_def)
    then show ?thesis using False lt s(1) sw nz by (auto simp: Mod_def)
  qed
  ultimately show ?thesis by blast
qed

section \<open>Array shifts\<close>

text \<open>A loop that runs down and reads no slot above the one it writes is a pointwise update.\<close>

lemma fill_down_nth:
  assumes "\<And>d d' i. (\<And>j. j \<le> i \<Longrightarrow> d ! j = d' ! j) \<Longrightarrow> f d i = f d' i" and "i < length d"
  shows "length (fill_down f d i k) = length d"
    and "fill_down f d i k ! j = (if k < j \<and> j \<le> i then f d j else d ! j)"
proof -
  have "length (fill_down f d i k) = length d \<and>
      (\<forall>j. fill_down f d i k ! j = (if k < j \<and> j \<le> i then f d j else d ! j))"
    using assms(2)
  proof (induction i arbitrary: d)
    case (Suc i)
    show ?case
    proof (cases "k < Suc i")
      case True
      let ?d = "d[Suc i := f d (Suc i)]"
      have IH: "length (fill_down f ?d i k) = length ?d"
        "\<And>j. fill_down f ?d i k ! j = (if k < j \<and> j \<le> i then f ?d j else ?d ! j)"
        using Suc.IH [of ?d] Suc.prems by simp_all
      have "f ?d j = f d j" if "j \<le> i" for j using that by (intro assms(1)) simp
      then show ?thesis using IH True Suc.prems by (auto simp: nth_list_update le_Suc_eq)
    qed auto
  qed auto
  then show "length (fill_down f d i k) = length d"
    "fill_down f d i k ! j = (if k < j \<and> j \<le> i then f d j else d ! j)" by auto
qed

definition reads_from :: "(digit list \<Rightarrow> nat \<Rightarrow> digit) \<Rightarrow> bool" where
  "reads_from f \<longleftrightarrow> (\<forall>d d' i. (\<forall>j\<ge>i. d ! j = d' ! j) \<longrightarrow> f d i = f d' i)"

lemma reads_fromI: "(\<And>d d' i. \<forall>j\<ge>i. d ! j = d' ! j \<Longrightarrow> f d i = f d' i) \<Longrightarrow> reads_from f"
  by (simp add: reads_from_def)

lemma fill_up_nth:
  assumes f: "reads_from f" and "n \<le> length d"
  shows "length (fill_up f d i n) = length d"
    and "fill_up f d i n ! j = (if i \<le> j \<and> j < n then f d j else d ! j)"
proof -
  have "length (fill_up f d i n) = length d \<and>
      (\<forall>j. fill_up f d i n ! j = (if i \<le> j \<and> j < n then f d j else d ! j))"
    using assms(2)
  proof (induction "n - i" arbitrary: d i)
    case 0
    then show ?case by (auto simp: fill_up.simps)
  next
    case (Suc m)
    let ?d = "d[i := f d i]"
    have IH: "length (fill_up f ?d (Suc i) n) = length ?d"
      "\<And>j. fill_up f ?d (Suc i) n ! j = (if Suc i \<le> j \<and> j < n then f ?d j else ?d ! j)"
      using Suc.hyps(1) [of "Suc i" ?d] Suc.hyps(2) Suc.prems by simp_all
    have "f ?d j = f d j" if "Suc i \<le> j" for j using f that by (simp add: reads_from_def)
    moreover have "fill_up f d i n = fill_up f ?d (Suc i) n"
    proof -
      have "i < n" using Suc.hyps(2) by linarith
      then show ?thesis by (subst fill_up.simps) simp
    qed
    ultimately show ?case
      using IH Suc.hyps(2) Suc.prems by (auto simp: nth_list_update Suc_le_eq le_less)
  qed
  then show "length (fill_up f d i n) = length d"
    "fill_up f d i n ! j = (if i \<le> j \<and> j < n then f d j else d ! j)" by auto
qed

lemma reads_zero: "reads_from (\<lambda>_ _. 0)"
  by (rule reads_fromI) simp

text \<open>The bits of a digit sequence.\<close>

lemma bit_nval: "bit (nval ds) n \<longleftrightarrow> n div 32 < length ds \<and> bit (ds ! (n div 32)) (n mod 32)"
proof (induction ds arbitrary: n)
  case (Cons d ds)
  have dd: "take_bit 32 (unat d) = unat d"
    using unsigned_less [of d, where ?'a = nat] by (simp add: take_bit_nat_eq_self_iff)
  have "nval (d # ds) = unat d + push_bit 32 (nval ds)" by (simp add: radix_def push_bit_eq_mult)
  also have "\<dots> = unat d OR push_bit 32 (nval ds)"
    by (rule disjunctive_add) (metis bit_push_bit_iff bit_take_bit_iff dd not_le)
  finally have e: "nval (d # ds) = unat d OR push_bit 32 (nval ds)" .
  show ?case
  proof (cases "n < 32")
    case True
    then show ?thesis unfolding e by (simp add: bit_or_iff bit_push_bit_iff bit_unsigned_iff)
  next
    case False
    then have "\<not> bit (unat d) n" using bit_imp_le_length [of d n] by (auto simp: bit_unsigned_iff)
    moreover have "n div 32 = Suc ((n - 32) div 32)" "n mod 32 = (n - 32) mod 32"
      using False by (simp_all add: le_div_geq le_mod_geq)
    ultimately show ?thesis using False Cons.IH [of "n - 32"] unfolding e by (simp add: bit_or_iff bit_push_bit_iff)
  qed
qed simp

lemma digit_index: "t < 32 \<Longrightarrow> (32 * j + t) div 32 = j \<and> (32 * j + t) mod 32 = (t :: nat)"
  by simp

lemma shift_right_value:
  assumes "0 \<le> sc" and "nat sc < 32 * length d"
  shows "\<exists>d'. shift_right d sc = ret d' \<and> length d' = length d \<and> nval d' = nval d div 2 ^ nat sc"
proof (cases "sc = 0")
  case True
  then show ?thesis by (simp add: shift_right_def)
next
  case False
  define k l n where "k = nat sc div 32" and "l = nat sc mod 32" and "n = length d"
  have sc: "nat sc = 32 * k + l" "l < 32" by (simp_all add: k_def l_def)
  have kn: "k + 1 \<le> n" using assms(2) unfolding k_def n_def by (simp add: Suc_le_eq less_mult_imp_div_less mult.commute)
  define R where "R = (\<lambda>j. if j + k < n then drop_bit l (d ! (j + k)) OR
      (if l \<noteq> 0 \<and> j + k + 1 < n then push_bit (32 - l) (d ! (j + k + 1)) else 0) else 0)"
  have "\<exists>d'. shift_right d sc = ret d' \<and> length d' = n \<and> (\<forall>j<n. d' ! j = R j)"
  proof (cases "l = 0")
    case True
    let ?d1 = "fill_up (\<lambda>d i. d ! (i + k)) d 0 (n - k)" and ?d2 = "\<lambda>d1. fill_up (\<lambda>_ _. 0) d1 (n - k) n"
    have "reads_from (\<lambda>d i. d ! (i + k))" by (rule reads_fromI) simp
    note d1 = fill_up_nth [OF this, of "n - k" d 0]
    have l1: "length ?d1 = n" using d1(1) by (simp add: n_def)
    note d2 = fill_up_nth [OF reads_zero, of n "?d1" "n - k", unfolded l1, OF order_refl]
    have "shift_right d sc = ret (?d2 ?d1)"
      using assms(1) False kn True by (simp add: shift_right_def Let_def logB_def k_def [symmetric] l_def [symmetric] n_def [symmetric])
    moreover have "\<forall>j<n. ?d2 ?d1 ! j = R j"
      using d2(2) d1(2) True kn by (auto simp: R_def n_def)
    ultimately show ?thesis using d2(1) by blast
  next
    case l: False
    let ?f = "\<lambda>d i. push_bit (32 - l) (d ! (i + k + 1)) OR drop_bit l (d ! (i + k))"
    let ?d1 = "fill_up ?f d 0 (n - k - 1)" and ?i = "n - k - 1"
    have "reads_from ?f" by (rule reads_fromI) simp
    note d1 = fill_up_nth [OF this, of "n - k - 1" d 0]
    have l1: "length ?d1 = n" using d1(1) by (simp add: n_def)
    let ?d2 = "?d1[?i := drop_bit l (?d1 ! (?i + k))]"
    have l2: "length ?d2 = n" using l1 by (simp only: length_list_update)
    let ?d3 = "fill_up (\<lambda>_ _. 0) ?d2 (?i + 1) n"
    note d3 = fill_up_nth [OF reads_zero, of n "?d2" "?i + 1", unfolded l2, OF order_refl]
    have "shift_right d sc = ret ?d3"
      using assms(1) False kn l by (simp add: shift_right_def Let_def logB_def k_def [symmetric] l_def [symmetric] n_def [symmetric])
    moreover have "\<forall>j<n. ?d3 ! j = R j"
      using d3(2) d1(2) l1 l kn by (auto simp: R_def n_def nth_list_update or.commute)
    ultimately show ?thesis using d3(1) by blast
  qed
  then obtain d' where d': "shift_right d sc = ret d'" "length d' = n" "\<forall>j<n. d' ! j = R j" by blast
  have "nval d' = drop_bit (nat sc) (nval d)"
  proof (rule bit_eqI)
    fix i :: nat
    define j t where "j = i div 32" and "t = i mod 32"
    have i: "i = 32 * j + t" "t < 32" by (simp_all add: j_def t_def)
    have "bit (nval d') i \<longleftrightarrow> j < n \<and> bit (R j) t"
      using d' by (auto simp: bit_nval j_def [symmetric] t_def [symmetric])
    also have "\<dots> \<longleftrightarrow> bit (nval d) (nat sc + i)"
    proof (cases "t + l < 32")
      case True
      have "nat sc + i = 32 * (j + k) + (t + l)" using sc i by simp
      with digit_index [OF True, of "j + k"] have "bit (nval d) (nat sc + i) \<longleftrightarrow> j + k < n \<and> bit (d ! (j + k)) (t + l)"
        by (simp add: bit_nval n_def)
      then show ?thesis using True i(2) by (auto simp: R_def bit_simps ac_simps)
    next
      case False
      then have lt: "t + l - 32 < 32" using i(2) sc(2) by linarith
      have "nat sc + i = 32 * (j + k + 1) + (t + l - 32)" using sc i False by simp
      with digit_index [OF lt, of "j + k + 1"]
      have "bit (nval d) (nat sc + i) \<longleftrightarrow> j + k + 1 < n \<and> bit (d ! (j + k + 1)) (t + l - 32)"
        by (simp add: bit_nval n_def)
      moreover have "\<not> bit (d ! (j + k)) (t + l)" using False bit_imp_le_length [of "d ! (j + k)" "t + l"] by auto
      moreover have "t - (32 - l) = t + l - 32" using False sc(2) by simp
      ultimately show ?thesis using False i(2) sc(2) by (auto simp: R_def bit_simps ac_simps)
    qed
    finally show "bit (nval d') i \<longleftrightarrow> bit (drop_bit (nat sc) (nval d)) i" by (simp add: bit_drop_bit_eq)
  qed
  then show ?thesis using d' by (auto simp: n_def drop_bit_eq_div)
qed

lemma fill_down_zero: "length (fill_down f d i k) = length d" "fill_down f d i k ! 0 = d ! 0"
  by (induction f d i k rule: fill_down.induct) auto

lemma shift_left_small:
  assumes "0 \<le> sc" and "sc < 32" and "d \<noteq> []"
  shows "\<exists>d'. shift_left d sc = ret d' \<and> length d' = length d \<and>
    nval d' = nval d * 2 ^ nat sc mod radix ^ length d"
proof (cases "sc = 0")
  case True
  then show ?thesis using nval_less [of d] by (simp add: shift_left_def)
next
  case False
  define h n where "h = nat sc" and "n = length d"
  have h: "0 < h" "h < 32" using False assms(1,2) by (simp_all add: h_def)
  have k: "nat sc div logB = 0" "nat sc mod logB = h" using h by (simp_all add: h_def logB_def)
  have n: "0 < n" using assms(3) by (simp add: n_def)
  let ?f = "\<lambda>d i. push_bit h (d ! i) OR drop_bit (32 - h) (d ! (i - 1))"
  let ?d1 = "fill_down ?f d (n - 1) 0"
  have d1: "length ?d1 = n" "?d1 ! j = (if 0 < j \<and> j \<le> n - 1 then ?f d j else d ! j)" for j
    using n by (subst fill_down_nth; simp add: n_def)+
  let ?d2 = "?d1[0 := push_bit h (?d1 ! 0)]"
  have s: "shift_left d sc = ret ?d2"
    using assms(1,3) False h n unfolding shift_left_def Let_def k by (simp add: logB_def n_def)
  have "nval ?d2 = take_bit (32 * n) (push_bit h (nval d))"
  proof (rule bit_eqI)
    fix i :: nat
    define j t where "j = i div 32" and "t = i mod 32"
    have i: "i = 32 * j + t" "t < 32" by (simp_all add: j_def t_def)
    have "bit (nval ?d2) i \<longleftrightarrow> j < n \<and> bit (if j = 0 then push_bit h (d ! 0) else ?f d j) t"
      using d1 n by (auto simp: bit_nval nth_list_update j_def [symmetric] t_def [symmetric])
    also have "\<dots> \<longleftrightarrow> i < 32 * n \<and> h \<le> i \<and> bit (nval d) (i - h)"
    proof (cases "h \<le> t")
      case True
      then have lt: "t - h < 32" using i(2) by linarith
      have "i - h = 32 * j + (t - h)" using i True by simp
      with digit_index [OF lt, of j] have "bit (nval d) (i - h) \<longleftrightarrow> j < n \<and> bit (d ! j) (t - h)"
        by (simp add: bit_nval n_def)
      moreover have "\<not> bit (drop_bit (32 - h) (d ! (j - 1))) t"
        using True i(2) h bit_imp_le_length [of "d ! (j - 1)" "32 - h + t"] by (auto simp: bit_simps)
      ultimately show ?thesis using True i h(2) by (auto simp: bit_simps)
    next
      case False
      show ?thesis
      proof (cases "j = 0")
        case True
        then show ?thesis using False i by (simp add: bit_push_bit_iff)
      next
        case j: False
        then have lt: "32 + t - h < 32" using False by linarith
        have "i - h = 32 * (j - 1) + (32 + t - h)" using i h False j by (cases j) simp_all
        with digit_index [OF lt, of "j - 1"] j
        have "bit (nval d) (i - h) \<longleftrightarrow> j - 1 < n \<and> bit (d ! (j - 1)) (32 + t - h)"
          by (simp add: bit_nval n_def)
        moreover have "32 - h + t = 32 + t - h" using h by simp
        ultimately show ?thesis using False i j h by (auto simp: bit_simps)
      qed
    qed
    finally show "bit (nval ?d2) i \<longleftrightarrow> bit (take_bit (32 * n) (push_bit h (nval d))) i"
      by (auto simp: bit_take_bit_iff bit_push_bit_iff)
  qed
  also have "\<dots> = nval d * 2 ^ h mod radix ^ n"
    by (simp add: take_bit_eq_mod push_bit_eq_mult radix_def power_mult)
  finally show ?thesis using s d1(1) by (simp add: h_def n_def)
qed

lemma shift_left_large:
  assumes "32 \<le> sc" and "shift_left d sc = ret d'"
  shows "d' ! 0 = d ! 0"
proof -
  define k where "k = nat sc div logB"
  have k: "0 < k" using assms(1) by (simp add: k_def logB_def div_greater_zero_iff)
  define i where "i = min k (length d - 1)"
  have "i = 0 \<Longrightarrow> \<not> k \<le> i" using k by simp
  then show ?thesis
    using assms unfolding shift_left_def Let_def k_def [symmetric] i_def [symmetric]
    by (auto simp: fill_down_zero nth_list_update split: if_splits)
qed

lemma wf_nonzero_negative: "wf_Integer x \<Longrightarrow> is_negative x \<Longrightarrow> uval x \<noteq> 0"
  using uval_eq_0_iff [of x] by (simp add: is_negative_def ilength_def)

lemma short_div_mod:
  assumes "a < b" and x: "x = (if p then - int a else int a)" and y: "y = (if q then - int b else int b)"
  shows "x div y = (if p = q \<or> a = 0 then 0 else - 1) \<and> x mod y = (if p = q \<or> a = 0 then x else x + y)"
proof (cases "p = q \<or> a = 0")
  case True
  then show ?thesis
    using assms(1) unfolding x y
    by (cases p; cases q) (auto simp: div_minus_minus mod_minus_minus)
next
  case False
  have e: "x = y * - 1 + (x + y)" by simp
  have "x div y = - 1 \<and> x mod y = x + y"
  proof (cases q)
    case True
    then have "x + y \<le> 0" "y < x + y" using False assms(1) unfolding x y by auto
    then show ?thesis using int_div_neg_eq [OF e] int_mod_neg_eq [OF e] by blast
  next
    case q: False
    then have "0 \<le> x + y" "x + y < y" using False assms(1) unfolding x y by auto
    then show ?thesis using int_div_pos_eq [OF e] int_mod_pos_eq [OF e] by blast
  qed
  then show ?thesis using False by simp
qed

section \<open>Properties\<close>

text \<open>
  C10. Division returns no result when the divisor has a single digit or its top digit is below
  \<open>2^31\<close>: for such divisors every one of \<open>quo\<close>, \<open>rem\<close>, \<open>Div\<close> and \<open>Mod\<close>, on a dividend that is
  not shorter, enters a loop over an unsigned index that cannot end.
\<close>

theorem division_never_returns:
  assumes "wf_Integer x" and "wf_Integer y" and "0 < ilength y" and "ilength y \<le> ilength x"
    and "ilength x < 2 ^ 31" and "short_or_scaled y"
  shows "\<forall>v. quo x y z \<noteq> ret v \<and> rem_Integer x y z \<noteq> ret v \<and> Div x y z \<noteq> ret v \<and> Mod x y z \<noteq> ret v"
proof -
  note nr = bindR_never [OF qr_decomposition_never_returns [OF assms(1,2,4,3,5,6)]]
  have uq: "unsigned_quo x y z \<noteq> ret w" and ur: "unsigned_rem x y z \<noteq> ret w"
    and sd: "signed_div x y z \<noteq> ret w" and sm: "signed_mod x y z \<noteq> ret w" for w
    using assms(4) nr unfolding unsigned_quo_def unsigned_rem_def signed_div_def signed_mod_def Let_def by simp_all
  show ?thesis
    by (simp add: quo_def rem_Integer_def Div_def Mod_def uq sd
        bindR_never [OF uq] bindR_never [OF ur] bindR_never [OF sm])
qed

theorem division_never_returns_witness:
  "(\<forall>v. quo \<lparr>signed_length = 1, digits = [7]\<rparr> \<lparr>signed_length = 1, digits = [2]\<rparr> \<lparr>signed_length = 0, digits = [0]\<rparr> \<noteq> ret v)
   \<and> (\<forall>v. Mod \<lparr>signed_length = 2, digits = [7, 9]\<rparr> \<lparr>signed_length = 2, digits = [1, 2]\<rparr> \<lparr>signed_length = 0, digits = [0, 0]\<rparr>
       \<noteq> ret v)"
  using division_never_returns [of "\<lparr>signed_length = 1, digits = [7]\<rparr>" "\<lparr>signed_length = 1, digits = [2]\<rparr>"
      "\<lparr>signed_length = 0, digits = [0]\<rparr>"]
    division_never_returns [of "\<lparr>signed_length = 2, digits = [7, 9]\<rparr>" "\<lparr>signed_length = 2, digits = [1, 2]\<rparr>"
      "\<lparr>signed_length = 0, digits = [0, 0]\<rparr>"]
  by (simp add: wf_Integer_def ilength_def short_or_scaled_def)

text \<open>
  C11. With a dividend shorter than the divisor every division returns. \<open>quo\<close> is 0; \<open>Div\<close> is the
  floored quotient except that 0 divided by a negative number gives -1; \<open>rem\<close> loses the sign of
  a negative dividend, and \<open>Mod\<close> is the floored remainder unless the divisor is negative and the
  dividend zero or negative.
\<close>

theorem short_dividend_division:
  assumes "wf_Integer x" and "wf_Integer y" and "ilength x < ilength y" and "ilength y \<le> length (digits z)"
  shows "\<exists>q r d m. quo x y z = ret q \<and> ival q = 0
    \<and> rem_Integer x y z = ret r \<and> ival r = \<bar>ival x\<bar>
    \<and> Div x y z = ret d \<and> (ival d = ival x div ival y \<longleftrightarrow> \<not> (is_zero x \<and> is_negative y))
    \<and> Mod x y z = ret m
    \<and> (ival m = ival x mod ival y \<longleftrightarrow> \<not> (is_negative y \<and> (is_zero x \<or> is_negative x)))"
proof -
  obtain q r d m where s: "quo x y z = ret q" "ival q = 0" "rem_Integer x y z = ret r" "ival r = \<bar>ival x\<bar>"
    "Div x y z = ret d" "ival d = (if is_negative x = is_negative y then 0 else - 1)"
    "Mod x y z = ret m"
    "ival m = (if is_negative x = is_negative y then \<bar>ival x\<bar> else sgn (ival y) * int (uval y - uval x))"
    using short_dividend [OF assms] by blast
  have lt: "uval x < uval y" by (rule uval_mono_length [OF assms(2,3)])
  have x: "ival x = (if is_negative x then - int (uval x) else int (uval x))"
    and y: "ival y = (if is_negative y then - int (uval y) else int (uval y))"
    by (simp_all add: ival_def is_negative_def)
  have zx: "is_zero x \<longleftrightarrow> uval x = 0" using uval_eq_0_iff [OF assms(1)] by (simp add: is_zero_iff)
  have nx: "is_negative x \<Longrightarrow> uval x \<noteq> 0" using wf_nonzero_negative [OF assms(1)] by simp
  have sy: "sgn (ival y) = (if is_negative y then - 1 else 1)" using lt unfolding y by (simp add: sgn_if)
  have qr: "ival x div ival y = (if is_negative x = is_negative y \<or> uval x = 0 then 0 else - 1)
      \<and> ival x mod ival y = (if is_negative x = is_negative y \<or> uval x = 0 then ival x else ival x + ival y)"
    by (rule short_div_mod [OF lt x y])
  have "ival d = ival x div ival y \<longleftrightarrow> \<not> (is_zero x \<and> is_negative y)"
    using qr s(6) zx nx by auto
  moreover have "ival m = ival x mod ival y \<longleftrightarrow> \<not> (is_negative y \<and> (is_zero x \<or> is_negative x))"
    using qr lt nx zx unfolding s(8) sy x y by (cases "is_negative x"; cases "is_negative y") auto
  ultimately show ?thesis using s by blast
qed

theorem short_dividend_division_witness:
  "let x = \<lparr>signed_length = -1, digits = [3]\<rparr>; y = \<lparr>signed_length = -2, digits = [0, 1]\<rparr>;
       z = \<lparr>signed_length = 0, digits = [0, 0]\<rparr> in
   \<exists>r m. rem_Integer x y z = ret r \<and> ival r = 3 \<and> Mod x y z = ret m \<and> ival m \<noteq> - 3 mod - (2 ^ 32)"
proof -
  let ?x = "\<lparr>signed_length = -1, digits = [3]\<rparr>" and ?y = "\<lparr>signed_length = -2, digits = [0, 1]\<rparr>"
  let ?z = "\<lparr>signed_length = 0, digits = [0, 0]\<rparr>"
  have "wf_Integer ?x" "wf_Integer ?y" "ilength ?x < ilength ?y" "ilength ?y \<le> length (digits ?z)"
    "is_negative ?x" "is_negative ?y" "ival ?x = - 3" "ival ?y = - (2 ^ 32)"
    by (simp_all add: wf_Integer_def ilength_def is_negative_def ival_def uval_def nval_def radix_def)
  then show ?thesis using short_dividend_division [of ?x ?y ?z] unfolding Let_def by fastforce
qed

text \<open>\<open>power\<close> is exponentiation modulo the radix. For a base of at least 2, with \<open>m\<close> the least
  exponent at which the power reaches the radix, \<open>max_power\<close> returns \<open>m - 1\<close>, but \<open>m\<close> itself when
  the radix divides that power, even when the power exceeds the radix; for bases 0 and 1 it runs for
  ever.
\<close>

theorem power_and_max_power:
  "power_digit x n = x ^ n \<and>
   (if unat x \<le> 1 then max_power x = None
    else \<exists>m. unat x ^ (m - 1) < radix \<and> radix \<le> unat x ^ m \<and>
      max_power x = ret (of_nat (if radix dvd unat x ^ m then m else m - 1)))"
proof -
  have "\<exists>m. unat x ^ (m - 1) < radix \<and> radix \<le> unat x ^ m \<and>
      max_power x = ret (of_nat (if radix dvd unat x ^ m then m else m - 1))" if x: "2 \<le> unat x"
  proof -
    have "radix \<le> 2 ^ 32" by (simp add: radix_def)
    also have "\<dots> \<le> unat x ^ 32" using x by (intro power_mono) simp_all
    finally have ex: "radix \<le> unat x ^ 32" .
    define m where "m = (LEAST m. radix \<le> unat x ^ m)"
    have m: "radix \<le> unat x ^ m" unfolding m_def by (rule LeastI [where P = "\<lambda>m. radix \<le> unat x ^ m", OF ex])
    moreover have "m \<noteq> 0" using m radix_pos(3) by (cases m) auto
    then have "unat x ^ (m - 1) < radix"
      using not_less_Least [of "m - 1" "\<lambda>m. radix \<le> unat x ^ m"] by (simp add: m_def [symmetric] not_le)
    ultimately show ?thesis using max_power_ret [OF _ _ x] by blast
  qed
  then show ?thesis using max_power_forever [of x] by (simp add: power_digit_def power_loop_value)
qed

text \<open>The shifts of digit arrays used for conversions from and to floating point. The right shift
  divides exactly for every count within the array. The left shift by fewer than 32 bits multiplies
  modulo the size of the array; by 32 bits or more it leaves the lowest digit as it was.
\<close>

theorem array_shifts:
  assumes "0 \<le> sc" and "nat sc < 32 * length d"
  shows "(\<exists>d'. shift_right d sc = ret d' \<and> length d' = length d \<and> nval d' = nval d div 2 ^ nat sc)
    \<and> (if sc < 32 then \<exists>d'. shift_left d sc = ret d' \<and> nval d' = nval d * 2 ^ nat sc mod radix ^ length d
       else \<forall>d'. shift_left d sc \<noteq> ret d' \<or> d' ! 0 = d ! 0)"
proof -
  have "d \<noteq> []" using assms(2) by auto
  then show ?thesis
    using shift_right_value [OF assms] shift_left_small [OF assms(1), of d] shift_left_large [of sc d] by auto
qed

theorem array_shifts_witness:
  "(\<exists>d'. shift_right [0, 0, 6] 33 = ret d' \<and> nval d' = 3 * radix) \<and> shift_left [5, 0] 32 \<noteq> ret [0, 5]"
  using array_shifts [of 33 "[0, 0, 6]"] array_shifts [of 32 "[5, 0]"]
  by (auto simp: nval_def radix_def)

text \<open>C12. The hash of a large integer cannot be computed: its loop runs off the front of the buffer.\<close>

theorem hash_faults:
  assumes "length (digits x) < 2 ^ 32"
  shows "hash_Integer x = raise Out_Of_Bounds"
  unfolding hash_Integer_def hash_loop_faults [OF assms] by simp

theorem hash_faults_witness:
  "hash_Integer \<lparr>signed_length = 1, digits = [5]\<rparr> = raise Out_Of_Bounds"
  by (rule hash_faults) simp

end
