(* ===== verification/Oops.thy ===== *)
theory Oops
  imports Bits
begin

text \<open>
  \<^verbatim>\<open>vm/oop/OopDescriptor.hpp\<close>, \<^verbatim>\<open>vm/oop/SmallIntegerOopDescriptor.hpp\<close>,
  \<^verbatim>\<open>vm/oop/MarkOopDescriptor.hpp\<close>, \<^verbatim>\<open>vm/memory/AgeTable.cpp\<close>: tagged words. An \<open>oop\<close> is a
  32-bit word; its two low bits say whether it is a small integer, a reference or a mark word.
  \<open>field\<close> and \<open>put\<close> read and replace a field of a word; the locale \<open>disjoint_fields\<close> says when
  replacing one leaves another alone, and is interpreted for the fields of the mark word.
\<close>

section \<open>Tags and small integers\<close>

type_synonym oop = "32 word"

definition INTEGER_TAG :: oop where "INTEGER_TAG = 0"
definition MEMOOP_TAG :: oop where "MEMOOP_TAG = 1"
definition MARK_TAG :: oop where "MARK_TAG = 3"
definition TAG_SIZE :: nat where "TAG_SIZE = 2"
definition TAG_MASK :: oop where "TAG_MASK = nthMask TAG_SIZE"

definition tag :: "oop \<Rightarrow> oop" where
  "tag p = maskBits p TAG_MASK"

definition isSmallIntegerOop :: "oop \<Rightarrow> bool" where
  "isSmallIntegerOop p \<longleftrightarrow> tag p = INTEGER_TAG"

definition isMemOop :: "oop \<Rightarrow> bool" where
  "isMemOop p \<longleftrightarrow> tag p = MEMOOP_TAG"

definition isMarkOop :: "oop \<Rightarrow> bool" where
  "isMarkOop p \<longleftrightarrow> tag p = MARK_TAG"

definition taggedIntegerFromInteger :: "32 word \<Rightarrow> oop" where
  "taggedIntegerFromInteger v = push_bit TAG_SIZE v + INTEGER_TAG"

definition smiOopFromValue :: "int \<Rightarrow> oop" where
  "smiOopFromValue v = taggedIntegerFromInteger (word_of_int v)"

definition SMI_MIN_VALUE :: int where "SMI_MIN_VALUE = - (2 ^ 29)"
definition SMI_MAX_VALUE :: int where "SMI_MAX_VALUE = 2 ^ 29 - 1"

definition smi_value :: "oop \<Rightarrow> int" where
  "smi_value p = sint (signed_drop_bit TAG_SIZE p)"

definition increment :: "oop \<Rightarrow> oop" where
  "increment p = p + smiOopFromValue 1"

definition decrement :: "oop \<Rightarrow> oop" where
  "decrement p = p - smiOopFromValue 1"

definition as_byte_count_smiOop :: "32 word \<Rightarrow> oop run" where
  "as_byte_count_smiOop value =
     bindR (guard (lowerBits value TAG_SIZE = 0) ''not a legal byte count'') (\<lambda>_. ret (value + INTEGER_TAG))"

definition byte_count :: "oop \<Rightarrow> 32 word" where
  "byte_count p = p - INTEGER_TAG"

definition smi_range :: "int set" where
  "smi_range = {SMI_MIN_VALUE..SMI_MAX_VALUE}"

lemma tag_take: "tag p = take_bit 2 p"
  by (simp add: tag_def maskBits_def TAG_MASK_def TAG_SIZE_def nthMask_mask take_bit_eq_mask)

lemma smi_value_div: "smi_value p = sint p div 4"
proof -
  have "sint (signed_drop_bit 2 p) = drop_bit 2 (sint p)"
    by (simp add: sint_signed_drop_bit_eq)
  then show ?thesis by (simp add: smi_value_def TAG_SIZE_def drop_bit_eq_div)
qed

lemma smiOopFromValue_word: "smiOopFromValue v = word_of_int (4 * v)"
  by (simp add: smiOopFromValue_def taggedIntegerFromInteger_def TAG_SIZE_def INTEGER_TAG_def push_bit_eq_mult)

lemma sint_word_of_int_range: "- (2 ^ 31) \<le> v \<Longrightarrow> v < 2 ^ 31 \<Longrightarrow> sint (word_of_int v :: 32 word) = v"
  by (simp add: signed_of_int signed_take_bit_int_eq_self)

lemma smi_roundtrip:
  assumes "v \<in> smi_range"
  shows "smi_value (smiOopFromValue v) = v" and "isSmallIntegerOop (smiOopFromValue v)"
proof -
  have "- (2 ^ 31) \<le> 4 * v" "4 * v < 2 ^ 31"
    using assms by (simp_all add: smi_range_def SMI_MIN_VALUE_def SMI_MAX_VALUE_def)
  then show "smi_value (smiOopFromValue v) = v"
    using sint_word_of_int_range [of "4 * v"] by (simp add: smi_value_div smiOopFromValue_word)
  have "take_bit 2 (push_bit 2 w) = 0" for w :: "32 word" by (rule bit_word_eqI) (auto simp: bit_simps)
  then show "isSmallIntegerOop (smiOopFromValue v)"
    by (simp add: isSmallIntegerOop_def tag_take INTEGER_TAG_def smiOopFromValue_def taggedIntegerFromInteger_def TAG_SIZE_def)
qed

lemma smi_sint:
  assumes "isSmallIntegerOop p"
  shows "sint p = 4 * smi_value p" and "smi_value p \<in> smi_range" and "smiOopFromValue (smi_value p) = p"
proof -
  have "take_bit 2 p = 0" using assms by (simp add: isSmallIntegerOop_def tag_take INTEGER_TAG_def)
  then have "take_bit 2 (uint p) = 0" by (metis unsigned_take_bit_eq unsigned_0)
  moreover have "take_bit 2 (sint p) = take_bit 2 (uint p)"
    by (simp add: sint_uint take_bit_signed_take_bit)
  ultimately have "sint p mod 4 = 0" by (simp add: take_bit_eq_mod)
  then show s: "sint p = 4 * smi_value p" unfolding smi_value_div by presburger
  show "smi_value p \<in> smi_range"
    using sint_ge [of p] sint_lt [of p] s by (simp add: smi_range_def SMI_MIN_VALUE_def SMI_MAX_VALUE_def)
  have "word_of_int (sint p) = p" by simp
  then show "smiOopFromValue (smi_value p) = p" by (simp only: smiOopFromValue_word s)
qed

section \<open>Fields of a word\<close>

definition field :: "nat \<Rightarrow> nat \<Rightarrow> 32 word \<Rightarrow> 32 word" where
  "field s l w = take_bit l (drop_bit s w)"

definition put :: "nat \<Rightarrow> nat \<Rightarrow> 32 word \<Rightarrow> 32 word \<Rightarrow> 32 word" where
  "put s l v w = (w AND NOT (push_bit s (mask l))) OR push_bit s (take_bit l v)"

lemma bit_field: "bit (field s l w) n \<longleftrightarrow> n < l \<and> bit w (s + n)"
  by (auto simp: field_def bit_simps)

lemma bit_put: "n < 32 \<Longrightarrow> bit (put s l v w) n \<longleftrightarrow> (if s \<le> n \<and> n < s + l then bit v (n - s) else bit w n)"
  by (auto simp: put_def bit_simps)

lemma field_put_same: "s + l \<le> 32 \<Longrightarrow> field s l (put s l v w) = take_bit l v"
  by (rule bit_word_eqI) (auto simp: bit_field bit_put bit_take_bit_iff)

lemma field_put_other: "s + l \<le> t \<or> t + k \<le> s \<Longrightarrow> t + k \<le> 32 \<Longrightarrow> field t k (put s l v w) = field t k w"
  by (rule bit_word_eqI) (auto simp: bit_field bit_put)

lemma put_field: "s + l \<le> 32 \<Longrightarrow> put s l (field s l w) w = w"
  by (rule bit_word_eqI) (auto simp: bit_field bit_put)

text \<open>Two fields that do not overlap: writing one, reading the other.\<close>

locale disjoint_fields =
  fixes get1 :: "32 word \<Rightarrow> 32 word" and set1 :: "32 word \<Rightarrow> 32 word \<Rightarrow> 32 word" and ok1 :: "32 word \<Rightarrow> bool"
    and get2 :: "32 word \<Rightarrow> 32 word" and set2 :: "32 word \<Rightarrow> 32 word \<Rightarrow> 32 word" and ok2 :: "32 word \<Rightarrow> bool"
  assumes get1_set1: "ok1 v \<Longrightarrow> get1 (set1 v w) = v"
    and get2_set2: "ok2 v \<Longrightarrow> get2 (set2 v w) = v"
    and get1_set2: "get1 (set2 v w) = get1 w"
    and get2_set1: "get2 (set1 v w) = get2 w"
begin

lemma both_set: "ok1 a \<Longrightarrow> ok2 b \<Longrightarrow> get1 (set1 a (set2 b w)) = a \<and> get2 (set1 a (set2 b w)) = b"
  by (simp add: get1_set1 get2_set2 get2_set1)

lemma either_order: "ok1 a \<Longrightarrow> ok2 b \<Longrightarrow>
  get1 (set1 a (set2 b w)) = get1 (set2 b (set1 a w)) \<and> get2 (set1 a (set2 b w)) = get2 (set2 b (set1 a w))"
  by (simp add: get1_set1 get2_set2 get2_set1 get1_set2)

end

section \<open>Mark words\<close>

text \<open>\<^verbatim>\<open>sentinel:1 near_death:1 tagged_contents:1 age:7 hash:20 tag:2\<close>.\<close>

definition sentinel_bits :: nat where "sentinel_bits = 1"
definition near_death_bits :: nat where "near_death_bits = 1"
definition tagged_contents_bits :: nat where "tagged_contents_bits = 1"
definition age_bits :: nat where "age_bits = 7"
definition hash_bits :: nat where
  "hash_bits = BITS_PER_WORD - sentinel_bits - near_death_bits - tagged_contents_bits - age_bits - TAG_SIZE"

definition hash_shift :: nat where "hash_shift = TAG_SIZE"
definition age_shift :: nat where "age_shift = hash_bits + hash_shift"
definition tagged_contents_shift :: nat where "tagged_contents_shift = age_bits + age_shift"
definition near_death_shift :: nat where "near_death_shift = tagged_contents_bits + tagged_contents_shift"
definition sentinel_shift :: nat where "sentinel_shift = near_death_bits + near_death_shift"

definition hash_mask :: "32 word" where "hash_mask = nthMask hash_bits"
definition hash_mask_in_place :: "32 word" where "hash_mask_in_place = push_bit hash_shift hash_mask"
definition age_mask :: "32 word" where "age_mask = nthMask age_bits"
definition age_mask_in_place :: "32 word" where "age_mask_in_place = push_bit age_shift age_mask"
definition tagged_contents_mask_in_place :: "32 word" where
  "tagged_contents_mask_in_place = push_bit tagged_contents_shift (nthMask tagged_contents_bits)"
definition near_death_mask_in_place :: "32 word" where
  "near_death_mask_in_place = push_bit near_death_shift (nthMask near_death_bits)"
definition sentinel_mask_in_place :: "32 word" where
  "sentinel_mask_in_place = push_bit sentinel_shift (nthMask sentinel_bits)"
definition no_hash :: "32 word" where "no_hash = 0"
definition first_hash :: "32 word" where "first_hash = 1"
definition untagged_contents_in_place :: "32 word" where
  "untagged_contents_in_place = push_bit tagged_contents_shift 1"
definition sentinel_is_place :: "32 word" where "sentinel_is_place = push_bit sentinel_shift 1"
definition max_age :: "32 word" where "max_age = age_mask"

definition has_sentinel :: "oop \<Rightarrow> bool" where
  "has_sentinel m \<longleftrightarrow> maskBits m sentinel_mask_in_place \<noteq> 0"

definition set_sentinel :: "oop \<Rightarrow> oop" where
  "set_sentinel m = sentinel_is_place OR m"

definition clear_sentinel :: "oop \<Rightarrow> oop" where
  "clear_sentinel m = NOT sentinel_is_place AND m"

definition has_tagged_contents :: "oop \<Rightarrow> bool" where
  "has_tagged_contents m \<longleftrightarrow> maskBits m tagged_contents_mask_in_place \<noteq> 0"

definition is_near_death :: "oop \<Rightarrow> bool" where
  "is_near_death m \<longleftrightarrow> maskBits m near_death_mask_in_place \<noteq> 0"

definition set_near_death :: "oop \<Rightarrow> oop" where
  "set_near_death m = near_death_mask_in_place OR m"

definition clear_near_death :: "oop \<Rightarrow> oop" where
  "clear_near_death m = NOT near_death_mask_in_place AND m"

definition is_klass_invalid :: "oop \<Rightarrow> bool" where
  "is_klass_invalid m \<longleftrightarrow> \<not> has_sentinel m"

definition set_klass_invalid :: "oop \<Rightarrow> oop" where
  "set_klass_invalid m = clear_sentinel m"

definition clear_klass_invalid :: "oop \<Rightarrow> oop" where
  "clear_klass_invalid m = set_sentinel m"

definition has_context_forward :: "oop \<Rightarrow> bool" where
  "has_context_forward m \<longleftrightarrow> is_near_death m"

definition set_context_forward :: "oop \<Rightarrow> oop" where
  "set_context_forward m = set_near_death m"

definition is_queued :: "oop \<Rightarrow> bool" where
  "is_queued m \<longleftrightarrow> \<not> has_sentinel m"

definition set_queued :: "oop \<Rightarrow> oop" where
  "set_queued m = clear_sentinel m"

definition clear_queued :: "oop \<Rightarrow> oop" where
  "clear_queued m = set_sentinel m"

definition age :: "oop \<Rightarrow> 32 word" where
  "age m = drop_bit age_shift (maskBits m age_mask_in_place)"

definition set_age :: "32 word \<Rightarrow> oop \<Rightarrow> oop run" where
  "set_age v m =
     bindR (guard (v AND NOT age_mask = 0) ''shouldn't overflow field'') (\<lambda>_.
       ret ((m AND NOT age_mask_in_place) OR push_bit age_shift (v AND age_mask)))"

definition incr_age :: "oop \<Rightarrow> oop run" where
  "incr_age m = (if age m = max_age then ret m else set_age (age m + 1) m)"

definition hash :: "oop \<Rightarrow> 32 word" where
  "hash m = drop_bit hash_shift (maskBits m hash_mask_in_place)"

definition set_hash :: "32 word \<Rightarrow> oop \<Rightarrow> oop run" where
  "set_hash v m =
     (let v' = (if v AND hash_mask = 0 then first_hash else v);
          val = (m AND NOT hash_mask_in_place) OR push_bit hash_shift (v' AND hash_mask)
      in bindR (guard (hash val \<noteq> no_hash) ''should have hash now'') (\<lambda>_. ret val))"

definition has_valid_hash :: "oop \<Rightarrow> bool" where
  "has_valid_hash m \<longleftrightarrow> hash m \<noteq> no_hash"

definition tagged_prototype :: oop where
  "tagged_prototype = sentinel_is_place OR push_bit hash_shift no_hash OR MARK_TAG"

definition untagged_prototype :: oop where
  "untagged_prototype = sentinel_is_place OR untagged_contents_in_place OR push_bit hash_shift no_hash OR MARK_TAG"

definition bad_mark :: oop where
  "bad_mark = sentinel_is_place OR push_bit hash_shift first_hash OR MARK_TAG"

definition masked_hash :: "32 word \<Rightarrow> 32 word" where
  "masked_hash v = v AND hash_mask"

text \<open>\<^verbatim>\<open>assign_hash\<close> takes the next value of the global \<^verbatim>\<open>CurrentHash\<close>.\<close>

definition assign_hash :: "oop \<Rightarrow> 32 word \<Rightarrow> (32 word \<times> oop \<times> 32 word) run" where
  "assign_hash m CurrentHash =
     bindR (set_hash CurrentHash m) (\<lambda>m'. ret (hash m', m', CurrentHash + 1))"

definition hash_markOop :: "oop \<Rightarrow> 32 word \<Rightarrow> (32 word \<times> oop \<times> 32 word) run" where
  "hash_markOop m CurrentHash =
     (let v = hash m in if v = no_hash then assign_hash m CurrentHash else ret (v, m, CurrentHash))"

lemmas mark_layout = hash_shift_def age_shift_def tagged_contents_shift_def near_death_shift_def sentinel_shift_def
  sentinel_bits_def near_death_bits_def tagged_contents_bits_def age_bits_def hash_bits_def BITS_PER_WORD_def TAG_SIZE_def

lemmas mark_masks = hash_mask_def hash_mask_in_place_def age_mask_def age_mask_in_place_def
  tagged_contents_mask_in_place_def near_death_mask_in_place_def sentinel_mask_in_place_def
  untagged_contents_in_place_def sentinel_is_place_def max_age_def nthMask_mask no_hash_def first_hash_def

text \<open>Every accessor is a \<open>field\<close>, every update a \<open>put\<close>.\<close>

lemma mark_field_drop: "drop_bit s (w AND push_bit s (mask l)) = field s l w"
  by (rule bit_word_eqI) (auto simp: field_def bit_simps ac_simps dest: bit_imp_le_length)

lemma mark_reads:
  "age m = field 22 7 m" "hash m = field 2 20 m" "tag m = field 0 2 m"
  unfolding age_def hash_def maskBits_def mark_masks
  by (simp_all add: mark_layout nthMask_mask mark_field_drop tag_take field_def del: drop_bit_and)

lemma field_1: "n < 32 \<Longrightarrow> field n 1 m = (if bit m n then 1 else 0)"
  by (rule bit_word_eqI) (auto simp: bit_field bit_1_iff)

lemma mark_flag: "n < 32 \<Longrightarrow> maskBits m (push_bit n 1) \<noteq> 0 \<longleftrightarrow> field n 1 m = 1"
  using isBitSet_bit [of n m] by (simp add: isBitSet_def anyBitSet_def nthBit_def field_1 del: One_nat_def)

lemma nthMask_1: "nthMask 1 = 1"
  by (simp add: nthMask_mask mask_eq_exp_minus_1)

lemma mark_flags:
  "has_sentinel m \<longleftrightarrow> field 31 1 m = 1" "is_near_death m \<longleftrightarrow> field 30 1 m = 1"
  "has_tagged_contents m \<longleftrightarrow> field 29 1 m = 1"
  unfolding has_sentinel_def is_near_death_def has_tagged_contents_def sentinel_mask_in_place_def
    near_death_mask_in_place_def tagged_contents_mask_in_place_def sentinel_bits_def near_death_bits_def
    tagged_contents_bits_def nthMask_1
  by (subst mark_flag; simp add: mark_layout)+

lemma put_1: "n < 32 \<Longrightarrow> put n 1 1 m = push_bit n 1 OR m" "n < 32 \<Longrightarrow> put n 1 0 m = NOT (push_bit n 1) AND m"
  by (rule bit_word_eqI, auto simp: bit_put bit_simps)+

lemma mark_flag_writes:
  "set_sentinel m = put 31 1 1 m" "clear_sentinel m = put 31 1 0 m"
  "set_near_death m = put 30 1 1 m" "clear_near_death m = put 30 1 0 m"
  unfolding set_sentinel_def clear_sentinel_def set_near_death_def clear_near_death_def near_death_mask_in_place_def
    near_death_bits_def nthMask_1 sentinel_is_place_def
  by (simp_all add: put_1 mark_layout del: One_nat_def)

lemma mark_put: "(m AND NOT (push_bit s (mask l))) OR push_bit s (v AND mask l) = put s l v m"
  by (simp add: put_def take_bit_eq_mask)

lemma set_age_put: "set_age v m = (if take_bit 7 v = v then ret (put 22 7 v m) else raise (Assertion ''shouldn't overflow field''))"
proof -
  have "v AND NOT (mask 7) = 0 \<longleftrightarrow> take_bit 7 v = v"
  proof
    assume z: "v AND NOT (mask 7) = 0"
    show "take_bit 7 v = v"
    proof (rule bit_word_eqI)
      fix n assume "n < LENGTH(32)"
      moreover have "bit (v AND NOT (mask 7)) n = bit 0 n" using z by simp
      ultimately show "bit (take_bit 7 v) n = bit v n" by (auto simp: bit_simps)
    qed
  next
    assume "take_bit 7 v = v"
    then have "v AND NOT (mask 7) = take_bit 7 v AND NOT (mask 7)" by simp
    also have "\<dots> = 0" by (rule bit_word_eqI) (auto simp: bit_simps)
    finally show "v AND NOT (mask 7) = 0" .
  qed
  moreover have c: "age_mask = mask 7" "age_mask_in_place = push_bit 22 (mask 7)" "age_shift = 22"
    by (simp_all add: mark_masks mark_layout nthMask_mask)
  ultimately show ?thesis unfolding set_age_def c mark_put by simp
qed

lemma set_hash_put:
  "set_hash v m = ret (put 2 20 (if take_bit 20 v = 0 then 1 else v) m)"
proof -
  have c: "hash_mask = mask 20" "hash_mask_in_place = push_bit 2 (mask 20)" "hash_shift = 2"
    by (simp_all add: mark_masks mark_layout nthMask_mask)
  let ?v = "if take_bit 20 v = 0 then 1 else v"
  have "hash (put 2 20 ?v m) = take_bit 20 ?v" unfolding mark_reads by (rule field_put_same) simp
  moreover have "take_bit 20 ?v \<noteq> 0" by simp
  ultimately show ?thesis
    by (simp only: set_hash_def Let_def c first_hash_def no_hash_def take_bit_eq_mask [symmetric] mark_put [unfolded take_bit_eq_mask [symmetric]])
      simp
qed

interpretation mark_fields: disjoint_fields
  age "put 22 7" "\<lambda>v. take_bit 7 v = v" hash "put 2 20" "\<lambda>v. take_bit 20 v = v"
  by unfold_locales (simp_all add: mark_reads field_put_same field_put_other)

lemma put_age_others:
  "hash (put 22 7 v m) = hash m" "tag (put 22 7 v m) = tag m" "has_sentinel (put 22 7 v m) = has_sentinel m"
  "is_near_death (put 22 7 v m) = is_near_death m" "has_tagged_contents (put 22 7 v m) = has_tagged_contents m"
  by (simp_all add: mark_reads mark_flags field_put_other del: One_nat_def)

lemma put_hash_others:
  "age (put 2 20 v m) = age m" "tag (put 2 20 v m) = tag m" "has_sentinel (put 2 20 v m) = has_sentinel m"
  "is_near_death (put 2 20 v m) = is_near_death m" "has_tagged_contents (put 2 20 v m) = has_tagged_contents m"
  by (simp_all add: mark_reads mark_flags field_put_other del: One_nat_def)

lemma age_less: "unat (age m) < 128"
proof -
  have "unat (age m) = take_bit 7 (unat (drop_bit 22 m))" by (simp add: mark_reads field_def unsigned_take_bit_eq)
  then show ?thesis by (simp add: take_bit_eq_mod)
qed

lemma incr_age_ret:
  "\<exists>m'. incr_age m = ret m' \<and> unat (age m') = min 127 (unat (age m) + 1) \<and> (\<exists>v. m' = put 22 7 v m)"
proof (cases "age m = max_age")
  case True
  have "unat max_age = 127" by (simp add: max_age_def age_mask_def age_bits_def nthMask_mask mask_eq_exp_minus_1)
  moreover have "put 22 7 (age m) m = m" unfolding mark_reads by (rule put_field) simp
  ultimately show ?thesis using True by (auto simp: incr_age_def intro!: exI [of _ "age m"])
next
  case False
  have mx: "unat max_age = 127" by (simp add: max_age_def age_mask_def age_bits_def nthMask_mask mask_eq_exp_minus_1)
  then have "unat (age m) \<noteq> 127" using False by (metis word_unat_eq_iff)
  then have lt: "unat (age m) < 127" using age_less [of m] by simp
  then have u: "unat (age m + 1) = unat (age m) + 1" by (simp add: unat_word_ariths)
  then have "unat (age m + 1) < 2 ^ 7" using lt by simp
  then have t: "take_bit 7 (age m + 1) = age m + 1"
    by (simp add: word_unat_eq_iff unsigned_take_bit_eq take_bit_nat_eq_self_iff)
  then have "incr_age m = ret (put 22 7 (age m + 1) m)" using False by (simp add: incr_age_def set_age_put)
  moreover have "age (put 22 7 (age m + 1) m) = age m + 1" using t by (rule mark_fields.get1_set1)
  ultimately show ?thesis using u lt by auto
qed

section \<open>The age table\<close>

text \<open>\<^verbatim>\<open>AgeTable\<close>: the words surviving at each age (32-bit counters that do not overflow).\<close>

type_synonym age_table = "int list"

definition age_table_size :: nat where
  "age_table_size = unat max_age + 1"

definition age_table_clear :: age_table where
  "age_table_clear = replicate age_table_size 0"

definition age_table_add :: "age_table \<Rightarrow> oop \<Rightarrow> int \<Rightarrow> age_table run" where
  "age_table_add sizes m oop_size =
     (let a = unat (age m) in
      bindR (guard (a < age_table_size) ''invalid age of object'') (\<lambda>_. ret (sizes[a := sizes ! a + oop_size])))"

definition tenure_size :: "age_table \<Rightarrow> nat \<Rightarrow> int" where
  "tenure_size sizes a = sum_list (drop a sizes)"

fun threshold_loop :: "int list \<Rightarrow> int \<Rightarrow> int \<Rightarrow> nat \<Rightarrow> nat" where
  "threshold_loop [] limit tot a = a"
| "threshold_loop (s # sizes) limit tot a =
     (if tot + s > limit then (if a = 1 then 1 else a - 1) else threshold_loop sizes limit (tot + s) (a + 1))"

definition tenuring_threshold :: "age_table \<Rightarrow> int \<Rightarrow> nat" where
  "tenuring_threshold sizes limit = threshold_loop (drop 1 sizes) limit 0 1"

lemma unat_max_age: "unat max_age = 127"
  by (simp add: max_age_def age_mask_def age_bits_def nthMask_mask mask_eq_exp_minus_1)

lemma age_table_size: "age_table_size = 128"
  by (simp add: age_table_size_def unat_max_age)

lemma age_table_add_ret:
  "age_table_add sizes m n = ret (sizes[unat (age m) := sizes ! unat (age m) + n])"
  using age_less [of m] by (simp add: age_table_add_def Let_def age_table_size)

lemma threshold_loop_first:
  assumes "tot \<le> limit"
  shows "(\<exists>k<length sizes. limit < tot + sum_list (take (Suc k) sizes) \<and> tot + sum_list (take k sizes) \<le> limit \<and>
            threshold_loop sizes limit tot a = (if a + k = 1 then 1 else a + k - 1)) \<or>
         tot + sum_list sizes \<le> limit \<and> threshold_loop sizes limit tot a = a + length sizes"
  using assms
proof (induction sizes arbitrary: tot a)
  case (Cons s sizes)
  show ?case
  proof (cases "tot + s > limit")
    case True
    then show ?thesis using Cons.prems by (intro disjI1 exI [of _ 0]) simp
  next
    case False
    then have "tot + s \<le> limit" by simp
    from Cons.IH [OF this, of "Suc a"] show ?thesis
    proof (elim disjE exE conjE)
      fix k
      assume "k < length sizes" "limit < tot + s + sum_list (take (Suc k) sizes)"
        "tot + s + sum_list (take k sizes) \<le> limit"
        "threshold_loop sizes limit (tot + s) (Suc a) = (if Suc a + k = 1 then 1 else Suc a + k - 1)"
      then show ?thesis using False by (intro disjI1 exI [of _ "Suc k"]) (simp add: algebra_simps)
    qed (use False in simp)
  qed
qed simp



text \<open>
  C14. The age of an object: incrementing it never faults, stops at 127, leaves the hash, the tag
  and the three flags of the mark word alone, and the survivor is counted at the new age.
\<close>

theorem incr_age_counts:
  "\<exists>m'. incr_age m = ret m' \<and> unat (age m') = min 127 (unat (age m) + 1) \<and> hash m' = hash m \<and> tag m' = tag m \<and>
     has_sentinel m' = has_sentinel m \<and> is_near_death m' = is_near_death m \<and>
     has_tagged_contents m' = has_tagged_contents m \<and>
     age_table_add sizes m' n = ret (sizes[min 127 (unat (age m) + 1) := sizes ! min 127 (unat (age m) + 1) + n])"
  using incr_age_ret [of m] age_table_add_ret put_age_others by auto

text \<open>
  C15. The identity hash of a mark word: asking for it never faults and never gives 0, stores it
  without touching the age, the tag or the flags, and asking again returns the same hash and
  leaves both the mark word and the counter alone.
\<close>

theorem hash_markOop_stable:
  "\<exists>h m' c'. hash_markOop m c = ret (h, m', c') \<and> h \<noteq> 0 \<and> hash m' = h \<and> has_valid_hash m' \<and>
     hash_markOop m' c' = ret (h, m', c') \<and> age m' = age m \<and> tag m' = tag m \<and>
     has_sentinel m' = has_sentinel m \<and> is_near_death m' = is_near_death m \<and>
     has_tagged_contents m' = has_tagged_contents m \<and> (c' = (if has_valid_hash m then c else c + 1))"
proof (cases "hash m = 0")
  case False
  then show ?thesis by (simp add: hash_markOop_def Let_def no_hash_def has_valid_hash_def)
next
  case True
  let ?v = "if take_bit 20 c = 0 then 1 else c" and ?m = "put 2 20 (if take_bit 20 c = 0 then 1 else c) m"
  have "hash ?m = take_bit 20 ?v" unfolding mark_reads by (rule field_put_same) simp
  moreover have "take_bit 20 ?v \<noteq> 0" by simp
  ultimately have h: "hash ?m \<noteq> 0" by simp
  have "hash_markOop m c = ret (hash ?m, ?m, c + 1)"
    using True by (simp add: hash_markOop_def Let_def no_hash_def assign_hash_def set_hash_put)
  moreover have "hash_markOop ?m (c + 1) = ret (hash ?m, ?m, c + 1)"
    using h by (simp only: hash_markOop_def Let_def no_hash_def if_False)
  ultimately show ?thesis
    using h True by (intro exI [of _ "hash ?m"] exI [of _ ?m] exI [of _ "c + 1"])
      (simp only: has_valid_hash_def no_hash_def put_hash_others simp_thms if_True if_False)
qed

text \<open>
  C13. Small integers: tagging is a bijection between the 30-bit range and the words with the
  integer tag, and \<open>increment\<close> and \<open>decrement\<close> step the value, wrapping at the ends of the range.
\<close>

theorem smi_tagging:
  "(v \<in> smi_range \<longrightarrow> isSmallIntegerOop (smiOopFromValue v) \<and> smi_value (smiOopFromValue v) = v) \<and>
   (isSmallIntegerOop p \<longrightarrow> smi_value p \<in> smi_range \<and> smiOopFromValue (smi_value p) = p \<and>
      smi_value (increment p) = (if smi_value p = SMI_MAX_VALUE then SMI_MIN_VALUE else smi_value p + 1) \<and>
      smi_value (decrement p) = (if smi_value p = SMI_MIN_VALUE then SMI_MAX_VALUE else smi_value p - 1))"
proof (intro conjI impI)
  have wrap: "smiOopFromValue (SMI_MAX_VALUE + 1) = smiOopFromValue SMI_MIN_VALUE"
    "smiOopFromValue (SMI_MIN_VALUE - 1) = smiOopFromValue SMI_MAX_VALUE"
    by (simp_all add: smiOopFromValue_word SMI_MIN_VALUE_def SMI_MAX_VALUE_def)
  have ends: "SMI_MAX_VALUE \<in> smi_range" "SMI_MIN_VALUE \<in> smi_range"
    by (simp_all add: smi_range_def SMI_MIN_VALUE_def SMI_MAX_VALUE_def)
  assume p: "isSmallIntegerOop p"
  note s = smi_sint(2,3) [OF p]
  have step: "increment p = smiOopFromValue (smi_value p + 1)" "decrement p = smiOopFromValue (smi_value p - 1)"
    by (subst s(2) [symmetric], simp add: increment_def decrement_def smiOopFromValue_word algebra_simps)+
  show "smi_value (increment p) = (if smi_value p = SMI_MAX_VALUE then SMI_MIN_VALUE else smi_value p + 1)"
    using wrap ends smi_roundtrip(1) s(1) by (simp add: step(1) smi_range_def)
  show "smi_value (decrement p) = (if smi_value p = SMI_MIN_VALUE then SMI_MAX_VALUE else smi_value p - 1)"
    using wrap ends smi_roundtrip(1) s(1) by (simp add: step(2) smi_range_def)
qed (auto simp: smi_roundtrip smi_sint)

theorem smi_tagging_witness:
  "smi_value (smiOopFromValue 5) = 5 \<and> isSmallIntegerOop 20 \<and> smi_value (increment 20) = 6"
proof -
  have "(5::int) \<in> smi_range" by (simp add: smi_range_def SMI_MIN_VALUE_def SMI_MAX_VALUE_def)
  then have "smi_value (smiOopFromValue 5) = 5" using smi_tagging by blast
  moreover have "smiOopFromValue 5 = 20" by (simp add: smiOopFromValue_word)
  ultimately show ?thesis using smi_tagging [of 5 20] \<open>5 \<in> smi_range\<close> by (simp add: SMI_MAX_VALUE_def)
qed

text \<open>Small facts of the surrounding accessors.\<close>

lemma byte_count_roundtrip: "as_byte_count_smiOop n = ret p \<Longrightarrow> byte_count p = n \<and> isSmallIntegerOop p"
  by (auto simp: as_byte_count_smiOop_def byte_count_def bindR_eq_ret INTEGER_TAG_def isSmallIntegerOop_def tag_take
      lowerBits_take_bit TAG_SIZE_def)

lemma prototypes:
  "has_tagged_contents untagged_prototype" "\<not> has_tagged_contents tagged_prototype"
  by (simp_all add: has_tagged_contents_def maskBits_def untagged_prototype_def tagged_prototype_def mark_masks
      mark_layout MARK_TAG_def mask_eq_exp_minus_1)

end
