(* ===== verification/CodeBuffers.thy ===== *)
theory CodeBuffers
  imports Bits
begin

text \<open>
  \<^verbatim>\<open>vm/assembler/CodeBuffer.cpp\<close>, \<^verbatim>\<open>vm/code/RelocationInformation.{hpp,cpp}\<close> and
  \<^verbatim>\<open>vm/code/NativeInstruction.{hpp,cpp}\<close>: machine code as a list of bytes, little-endian 32-bit
  reads and writes in it, the 16-bit relocation entries that accompany it, and the three kinds of
  instructions the run-time system patches in place (call, mov and test with a 32-bit immediate).
  Positions and 32-bit values are integers; a read or write outside the emitted bytes is a fault.
\<close>

section \<open>Bytes and little-endian longs\<close>

type_synonym bytes = "8 word list"

definition bytes_of_long :: "int \<Rightarrow> bytes" where
  "bytes_of_long v = [word_of_int v, word_of_int (drop_bit 8 v), word_of_int (drop_bit 16 v), word_of_int (drop_bit 24 v)]"

definition long_of_bytes :: "8 word \<Rightarrow> 8 word \<Rightarrow> 8 word \<Rightarrow> 8 word \<Rightarrow> int" where
  "long_of_bytes b0 b1 b2 b3 = signed_take_bit 31 (uint b0 + 2 ^ 8 * uint b1 + 2 ^ 16 * uint b2 + 2 ^ 24 * uint b3)"

definition byte_at :: "bytes \<Rightarrow> int \<Rightarrow> int run" where
  "byte_at c p = (if 0 \<le> p \<and> p < int (length c) then ret (uint (c ! nat p)) else raise Out_Of_Bounds)"

definition byte_at_put :: "bytes \<Rightarrow> int \<Rightarrow> int \<Rightarrow> bytes run" where
  "byte_at_put c p v = (if 0 \<le> p \<and> p < int (length c) then ret (c[nat p := word_of_int v]) else raise Out_Of_Bounds)"

definition long_at :: "bytes \<Rightarrow> int \<Rightarrow> int run" where
  "long_at c p =
     (if 0 \<le> p \<and> p + 4 \<le> int (length c)
      then ret (long_of_bytes (c ! nat p) (c ! (nat p + 1)) (c ! (nat p + 2)) (c ! (nat p + 3)))
      else raise Out_Of_Bounds)"

definition long_at_put :: "bytes \<Rightarrow> int \<Rightarrow> int \<Rightarrow> bytes run" where
  "long_at_put c p v =
     (if 0 \<le> p \<and> p + 4 \<le> int (length c) then ret (take (nat p) c @ bytes_of_long v @ drop (nat p + 4) c)
      else raise Out_Of_Bounds)"

definition int32_range :: "int set" where
  "int32_range = {- (2 ^ 31) ..< 2 ^ 31}"

lemma length_bytes_of_long [simp]: "length (bytes_of_long v) = 4"
  by (simp add: bytes_of_long_def)

lemma take_bit_bytes:
  fixes v :: int
  shows "take_bit 8 v + 2 ^ 8 * take_bit 8 (drop_bit 8 v) + 2 ^ 16 * take_bit 8 (drop_bit 16 v) +
     2 ^ 24 * take_bit 8 (drop_bit 24 v) = take_bit 32 v"
proof -
  have step: "take_bit (k + 8) v = take_bit k v + 2 ^ k * take_bit 8 (drop_bit k v)" for k
  proof -
    have "2 ^ k * take_bit 8 (drop_bit k v) = 2 ^ k * (v div 2 ^ k mod 2 ^ 8)"
      by (simp add: take_bit_eq_mod drop_bit_eq_div)
    then show ?thesis
      by (simp add: take_bit_eq_mod power_add zmod_zmult2_eq)
  qed
  show ?thesis using step [of 8] step [of 16] step [of 24] by simp
qed

lemma long_of_bytes_of_long:
  "long_of_bytes (word_of_int v) (word_of_int (drop_bit 8 v)) (word_of_int (drop_bit 16 v)) (word_of_int (drop_bit 24 v)) =
     signed_take_bit 31 v"
proof -
  have "uint (word_of_int i :: 8 word) = take_bit 8 i" for i by (simp add: uint_word_of_int_eq)
  then have "long_of_bytes (word_of_int v) (word_of_int (drop_bit 8 v)) (word_of_int (drop_bit 16 v)) (word_of_int (drop_bit 24 v)) =
    signed_take_bit 31 (take_bit 32 v)"
    by (simp only: long_of_bytes_def take_bit_bytes)
  then show ?thesis by (simp add: signed_take_bit_take_bit)
qed

lemma signed_take_bit_range: "v \<in> int32_range \<Longrightarrow> signed_take_bit 31 v = v"
  by (simp add: int32_range_def signed_take_bit_int_eq_self)

lemma long_of_bytes_range: "v \<in> int32_range \<Longrightarrow>
  long_of_bytes (word_of_int v) (word_of_int (drop_bit 8 v)) (word_of_int (drop_bit 16 v)) (word_of_int (drop_bit 24 v)) = v"
  by (simp add: long_of_bytes_of_long signed_take_bit_range)

lemma long_of_bytes_in: "long_of_bytes b0 b1 b2 b3 \<in> int32_range"
  using signed_take_bit_int_less_exp [of 31] signed_take_bit_int_greater_eq_minus_exp [of 31]
  by (simp add: long_of_bytes_def int32_range_def)

lemma long_at_put_same:
  assumes "long_at_put c p v = ret c'" and "v \<in> int32_range"
  shows "long_at c' p = ret v"
proof -
  from assms(1) have p: "0 \<le> p" "p + 4 \<le> int (length c)"
    and c': "c' = take (nat p) c @ bytes_of_long v @ drop (nat p + 4) c"
    by (auto simp: long_at_put_def split: if_splits)
  have l: "length (take (nat p) c) = nat p" using p by simp
  show ?thesis
    using p by (simp add: long_at_def c' nth_append l bytes_of_long_def long_of_bytes_range [OF assms(2)])
qed

lemma long_at_put_ret:
  assumes "0 \<le> p" and "p + 4 \<le> int (length c)"
  shows "\<exists>c'. long_at_put c p v = ret c' \<and> length c' = length c \<and>
    (\<forall>i. \<not> (nat p \<le> i \<and> i < nat p + 4) \<longrightarrow> c' ! i = c ! i)"
proof -
  have "(take (nat p) c @ bytes_of_long v @ drop (nat p + 4) c) ! i = c ! i"
    if "\<not> (nat p \<le> i \<and> i < nat p + 4)" for i
    using assms that by (auto simp: nth_append not_less)
  then show ?thesis using assms by (auto simp: long_at_put_def)
qed

lemma byte_at_cong: "length c' = length c \<Longrightarrow> c' ! nat p = c ! nat p \<Longrightarrow> byte_at c' p = byte_at c p"
  by (simp add: byte_at_def)

lemma long_at_cong:
  assumes "length c' = length c" and "\<And>i. nat p \<le> i \<Longrightarrow> i < nat p + 4 \<Longrightarrow> c' ! i = c ! i"
  shows "long_at c' p = long_at c p"
  by (simp add: long_at_def assms)

lemma byte_at_append: "byte_at c p = ret b \<Longrightarrow> byte_at (c @ d) p = ret b"
  by (auto simp: byte_at_def nth_append split: if_splits)

lemma long_at_append: "long_at c p = ret v \<Longrightarrow> long_at (c @ d) p = ret v"
  by (auto simp: long_at_def nth_append split: if_splits)

lemma long_at_bytes: "v \<in> int32_range \<Longrightarrow> long_at (c @ bytes_of_long v @ d) (int (length c)) = ret v"
  by (simp add: long_at_def nth_append bytes_of_long_def long_of_bytes_range)

section \<open>Relocation information\<close>

datatype RelocationType =
    reloc_none
  | oop_type
  | ic_type
  | primitive_type
  | runtime_call_type
  | external_word_type
  | internal_word_type
  | uncommon_type
  | dll_type

primrec reloc_code :: "RelocationType \<Rightarrow> int" where
  "reloc_code reloc_none = -1"
| "reloc_code oop_type = 0"
| "reloc_code ic_type = 1"
| "reloc_code primitive_type = 2"
| "reloc_code runtime_call_type = 3"
| "reloc_code external_word_type = 4"
| "reloc_code internal_word_type = 5"
| "reloc_code uncommon_type = 6"
| "reloc_code dll_type = 7"

definition reloc_type_width :: nat where "reloc_type_width = 3"
definition reloc_offset_width :: nat where "reloc_offset_width = 13"

definition RelocationInformation :: "RelocationType \<Rightarrow> int \<Rightarrow> 16 word run" where
  "RelocationInformation t off =
     bindR (guard (0 \<le> reloc_code t \<and> reloc_code t < 2 ^ reloc_type_width) ''wrong type'') (\<lambda>_.
     bindR (guard (off \<le> uint (nthMask reloc_offset_width)) ''offset out of bounds'') (\<lambda>_.
     ret (word_of_int (push_bit reloc_offset_width (reloc_code t) OR off))))"

definition reloc_offset :: "16 word \<Rightarrow> int" where
  "reloc_offset v = uint (get_unsigned_bitfield (ucast v) 0 reloc_offset_width)"

definition reloc_type :: "16 word \<Rightarrow> int" where
  "reloc_type v = uint (get_unsigned_bitfield (ucast v) reloc_offset_width reloc_type_width)"

definition reloc_is :: "RelocationType \<Rightarrow> 16 word \<Rightarrow> bool" where
  "reloc_is t v \<longleftrightarrow> reloc_type v = reloc_code t"

definition reloc_isCall :: "16 word \<Rightarrow> bool" where
  "reloc_isCall v \<longleftrightarrow> \<not> reloc_is oop_type v"

definition reloc_isValid :: "16 word \<Rightarrow> bool" where
  "reloc_isValid v \<longleftrightarrow> reloc_offset v \<noteq> 0"

definition is_position_dependent :: "16 word \<Rightarrow> bool" where
  "is_position_dependent v \<longleftrightarrow>
     reloc_is ic_type v \<or> reloc_is primitive_type v \<or> reloc_is uncommon_type v \<or> reloc_is runtime_call_type v \<or>
     reloc_is internal_word_type v \<or> reloc_is dll_type v"

lemma RelocationInformation_ret:
  assumes "t \<noteq> reloc_none" and "0 \<le> off" and "off < 2 ^ 13"
  shows "\<exists>v. RelocationInformation t off = ret v \<and> reloc_offset v = off \<and> reloc_type v = reloc_code t"
proof -
  let ?v = "word_of_int (push_bit 13 (reloc_code t) OR off) :: 16 word"
  have code: "0 \<le> reloc_code t" "reloc_code t < 8" using assms(1) by (cases t; simp)+
  have "take_bit 13 off = off" using assms by (simp add: take_bit_int_eq_self)
  then have off: "bit off n \<longleftrightarrow> n < 13 \<and> bit off n" for n by (metis bit_take_bit_iff)
  have "take_bit 3 (reloc_code t) = reloc_code t" using code by (simp add: take_bit_int_eq_self)
  then have tc: "bit (reloc_code t) n \<longleftrightarrow> n < 3 \<and> bit (reloc_code t) n" for n by (metis bit_take_bit_iff)
  have "uint (nthMask 13) = 2 ^ 13 - 1" by (simp add: nthMask_mask mask_eq_exp_minus_1)
  then have "RelocationInformation t off = ret ?v"
    using assms code by (simp add: RelocationInformation_def reloc_type_width_def reloc_offset_width_def)
  moreover have "uint (take_bit 13 (ucast ?v :: 32 word)) = off"
  proof (rule bit_eqI)
    fix n
    show "bit (uint (take_bit 13 (ucast ?v :: 32 word))) n \<longleftrightarrow> bit off n"
      using off [of n] by (auto simp: bit_simps)
  qed
  moreover have "uint (take_bit 3 (drop_bit 13 (ucast ?v :: 32 word))) = reloc_code t"
  proof (rule bit_eqI)
    fix n
    show "bit (uint (take_bit 3 (drop_bit 13 (ucast ?v :: 32 word)))) n \<longleftrightarrow> bit (reloc_code t) n"
      using off [of "13 + n"] tc [of n] by (auto simp: bit_simps)
  qed
  ultimately show ?thesis
    by (auto simp: reloc_offset_def reloc_type_def reloc_offset_width_def reloc_type_width_def get_unsigned_bitfield_take)
qed

lemma reloc_code_inject: "reloc_code t = reloc_code u \<longleftrightarrow> t = u"
  by (cases t; cases u) simp_all

section \<open>Code buffers\<close>

record code_buffer =
  codeStart :: int
  codeBytes :: bytes
  codeSize :: nat
  locs :: "16 word list option"
  locsSize :: nat
  last_reloc_offset :: int

definition CodeBuffer_at :: "int \<Rightarrow> nat \<Rightarrow> code_buffer" where
  "CodeBuffer_at code_start code_size =
     \<lparr> codeStart = code_start, codeBytes = [], codeSize = code_size, locs = None, locsSize = 0, last_reloc_offset = 0 \<rparr>"

definition code_size :: "code_buffer \<Rightarrow> int" where
  "code_size b = int (length (codeBytes b))"

definition set_code_end :: "bytes \<Rightarrow> code_buffer \<Rightarrow> code_buffer run" where
  "set_code_end c b = (if codeSize b < length c then raise (Fatal ''code end out of bounds'') else ret (b\<lparr> codeBytes := c \<rparr>))"

definition relocate :: "RelocationType \<Rightarrow> code_buffer \<Rightarrow> code_buffer run" where
  "relocate rtype b =
     (case locs b of
        None \<Rightarrow> bindR (guard (rtype \<in> {reloc_none, runtime_call_type, external_word_type}) ''code needs relocation information'')
                  (\<lambda>_. ret b)
      | Some l \<Rightarrow>
          let len = code_size b; offset = len - last_reloc_offset b in
          bindR (RelocationInformation rtype offset) (\<lambda>v.
            if locsSize b \<le> length l + 1 then raise (Fatal ''routine is too long to compile'')
            else ret (b\<lparr> locs := Some (l @ [v]), last_reloc_offset := len \<rparr>)))"

text \<open>\<^verbatim>\<open>RelocationInformationIterator\<close>: the positions an iteration visits, each with its entry.\<close>

fun reloc_iterate :: "16 word list \<Rightarrow> int \<Rightarrow> (int \<times> 16 word) list" where
  "reloc_iterate [] adr = []"
| "reloc_iterate (v # vs) adr =
     (let adr' = adr + reloc_offset v in if reloc_isValid v then (adr', v) # reloc_iterate vs adr' else [])"

fun fix_relocation_loop :: "(int \<times> 16 word) list \<Rightarrow> int \<Rightarrow> bytes \<Rightarrow> bytes run" where
  "fix_relocation_loop [] delta c = ret c"
| "fix_relocation_loop ((p, v) # rest) delta c =
     (if is_position_dependent v
      then bindR (long_at c p) (\<lambda>w.
           bindR (long_at_put c p (if reloc_is internal_word_type v then w - delta else w + delta))
             (fix_relocation_loop rest delta))
      else fix_relocation_loop rest delta c)"

definition fix_relocation_at_move :: "16 word list \<Rightarrow> int \<Rightarrow> bytes \<Rightarrow> bytes run" where
  "fix_relocation_at_move l delta c = fix_relocation_loop (reloc_iterate l 0) delta c"

definition pad_code :: "bytes \<Rightarrow> bytes" where
  "pad_code c = c @ replicate ((4 - length c mod 4) mod 4) 0xF4"

definition pad_locs :: "16 word list \<Rightarrow> 16 word list" where
  "pad_locs l = (if length l mod 2 = 0 then l else l @ [0])"

definition copyTo :: "code_buffer \<Rightarrow> int \<Rightarrow> (bytes \<times> 16 word list) run" where
  "copyTo b new_start =
     (let c = pad_code (codeBytes b); l = pad_locs (case locs b of None \<Rightarrow> [] | Some l \<Rightarrow> l) in
      bindR (fix_relocation_at_move l (codeStart b - new_start) c) (\<lambda>c'. ret (c', l)))"

lemma reloc_zero: "\<not> reloc_isValid 0"
  by (simp add: reloc_isValid_def reloc_offset_def get_unsigned_bitfield_take reloc_offset_width_def)

lemma reloc_iterate_pad: "reloc_iterate (pad_locs l) adr = reloc_iterate l adr"
proof -
  have "reloc_iterate (l @ [0]) adr = reloc_iterate l adr"
    by (induction l arbitrary: adr) (simp_all add: Let_def reloc_zero)
  then show ?thesis by (simp add: pad_locs_def)
qed

text \<open>The 32-bit word at a position, and where a pc-relative reference to it points.\<close>

definition word_at :: "bytes \<Rightarrow> int \<Rightarrow> 32 word" where
  "word_at c p = (case long_at c p of Some (Inr v) \<Rightarrow> word_of_int v | _ \<Rightarrow> 0)"

definition relative_target :: "int \<Rightarrow> bytes \<Rightarrow> int \<Rightarrow> 32 word" where
  "relative_target base c p = word_of_int (base + p + 4) + word_at c p"

definition reloc_sites :: "(int \<times> 16 word) list \<Rightarrow> bytes \<Rightarrow> bool" where
  "reloc_sites ps c \<longleftrightarrow> sorted_wrt (\<lambda>(p, _) (q, _). p + 4 \<le> q) ps \<and> (\<forall>(p, _)\<in>set ps. 0 \<le> p \<and> p + 4 \<le> int (length c))"

lemma word_at_put:
  assumes "0 \<le> p" and "p + 4 \<le> int (length c)"
  shows "\<exists>c'. long_at_put c p v = ret c' \<and> length c' = length c \<and> word_at c' p = word_of_int v \<and>
    (\<forall>q. 0 \<le> q \<longrightarrow> q + 4 \<le> p \<or> p + 4 \<le> q \<longrightarrow> word_at c' q = word_at c q)"
proof -
  from long_at_put_ret [OF assms, of v] obtain c' where c': "long_at_put c p v = ret c'" "length c' = length c"
    and other: "\<And>i. \<not> (nat p \<le> i \<and> i < nat p + 4) \<Longrightarrow> c' ! i = c ! i" by blast
  have "long_at_put c p (signed_take_bit 31 v) = long_at_put c p v"
  proof -
    have "word_of_int (drop_bit k (signed_take_bit 31 v)) = (word_of_int (drop_bit k v) :: 8 word)" if "k \<le> 24" for k
    proof (rule bit_word_eqI)
      fix n assume n: "n < LENGTH(8)"
      have "k + n = min 31 (k + n)" using n that by simp
      then show "bit (word_of_int (drop_bit k (signed_take_bit 31 v)) :: 8 word) n \<longleftrightarrow> bit (word_of_int (drop_bit k v) :: 8 word) n"
        using n by (simp add: bit_word_of_int_iff bit_drop_bit_eq bit_signed_take_bit_iff)
    qed
    from this [of 0] this [of 8] this [of 16] this [of 24] show ?thesis
      by (simp add: long_at_put_def bytes_of_long_def)
  qed
  moreover have "signed_take_bit 31 v \<in> int32_range"
    using signed_take_bit_int_less_exp [of 31 v] signed_take_bit_int_greater_eq_minus_exp [of 31 v]
    by (simp add: int32_range_def)
  ultimately have "long_at c' p = ret (signed_take_bit 31 v)" using long_at_put_same c'(1) by metis
  moreover have "word_of_int (signed_take_bit 31 v) = (word_of_int v :: 32 word)"
  proof (rule bit_word_eqI)
    fix n assume n: "n < LENGTH(32)"
    then have "n = min 31 n" by simp
    then show "bit (word_of_int (signed_take_bit 31 v) :: 32 word) n \<longleftrightarrow> bit (word_of_int v :: 32 word) n"
      using n by (simp add: bit_word_of_int_iff bit_signed_take_bit_iff)
  qed
  ultimately have "word_at c' p = word_of_int v" by (simp add: word_at_def ret_def)
  moreover have "word_at c' q = word_at c q" if q: "0 \<le> q" "q + 4 \<le> p \<or> p + 4 \<le> q" for q
  proof -
    have "c' ! i = c ! i" if "nat q \<le> i" "i < nat q + 4" for i
    proof -
      have "\<not> (nat p \<le> i \<and> i < nat p + 4)" using that q assms(1) by arith
      then show ?thesis by (rule other)
    qed
    then have "long_at c' q = long_at c q" using c'(2) by (intro long_at_cong)
    then show ?thesis by (simp add: word_at_def)
  qed
  ultimately show ?thesis using c' by blast
qed

lemma word_at_long_at:
  assumes "0 \<le> p" and "p + 4 \<le> int (length c)"
  shows "\<exists>w. long_at c p = ret w \<and> word_of_int w = word_at c p"
  using assms by (simp add: long_at_def word_at_def ret_def)

definition relocated_word :: "int \<Rightarrow> 16 word \<Rightarrow> 32 word \<Rightarrow> 32 word" where
  "relocated_word delta v w =
     (if is_position_dependent v then if reloc_is internal_word_type v then w - word_of_int delta else w + word_of_int delta
      else w)"

lemma fix_relocation_loop_words:
  assumes "reloc_sites ps c"
  shows "\<exists>c'. fix_relocation_loop ps delta c = ret c' \<and> length c' = length c \<and>
    (\<forall>(p, v)\<in>set ps. word_at c' p = relocated_word delta v (word_at c p)) \<and>
    (\<forall>q. 0 \<le> q \<longrightarrow> (\<forall>(p, v)\<in>set ps. q + 4 \<le> p \<or> p + 4 \<le> q) \<longrightarrow> word_at c' q = word_at c q)"
  using assms
proof (induction ps delta c rule: fix_relocation_loop.induct)
  case (2 p v rest delta c)
  from 2(3) have p: "0 \<le> p" "p + 4 \<le> int (length c)" and after: "\<forall>(q, u)\<in>set rest. p + 4 \<le> q"
    and rest: "reloc_sites rest c" by (auto simp: reloc_sites_def)
  show ?case
  proof (cases "is_position_dependent v")
    case False
    from 2(2) [OF False rest] obtain c' where c': "fix_relocation_loop rest delta c = ret c'" "length c' = length c"
      "\<forall>(q, u)\<in>set rest. word_at c' q = relocated_word delta u (word_at c q)"
      "\<forall>q. 0 \<le> q \<longrightarrow> (\<forall>(r, u)\<in>set rest. q + 4 \<le> r \<or> r + 4 \<le> q) \<longrightarrow> word_at c' q = word_at c q" by blast
    have "word_at c' p = word_at c p" using c'(4) p after by fast
    then show ?thesis using False c' by (auto simp: relocated_word_def)
  next
    case True
    from word_at_long_at [OF p] obtain w where w: "long_at c p = ret w" "word_of_int w = word_at c p" by blast
    let ?w = "if reloc_is internal_word_type v then w - delta else w + delta"
    from word_at_put [OF p, of ?w] obtain d where d: "long_at_put c p ?w = ret d" "length d = length c"
      "word_at d p = word_of_int ?w" "\<And>q. 0 \<le> q \<Longrightarrow> q + 4 \<le> p \<or> p + 4 \<le> q \<Longrightarrow> word_at d q = word_at c q" by blast
    have "reloc_sites rest d" using rest d(2) by (simp add: reloc_sites_def)
    from 2(1) [OF True this] obtain c' where c': "fix_relocation_loop rest delta d = ret c'" "length c' = length d"
      "\<forall>(q, u)\<in>set rest. word_at c' q = relocated_word delta u (word_at d q)"
      "\<forall>q. 0 \<le> q \<longrightarrow> (\<forall>(r, u)\<in>set rest. q + 4 \<le> r \<or> r + 4 \<le> q) \<longrightarrow> word_at c' q = word_at d q" by blast
    have p': "word_at c' p = word_at d p" using c'(4) p after by fast
    have rest': "word_at d q = word_at c q" if "(q, u) \<in> set rest" for q u
    proof (rule d(4))
      show "0 \<le> q" using rest that by (auto simp: reloc_sites_def)
      show "q + 4 \<le> p \<or> p + 4 \<le> q" using after that by blast
    qed
    have "fix_relocation_loop ((p, v) # rest) delta c = ret c'" using True w(1) d(1) c'(1) by simp
    moreover have "word_at c' p = relocated_word delta v (word_at c p)"
      using True p' d(3) w(2) by (auto simp: relocated_word_def)
    moreover have "\<forall>(q, u)\<in>set rest. word_at c' q = relocated_word delta u (word_at c q)"
      using c'(3) rest' by fastforce
    moreover have "word_at c' q = word_at c q"
      if "0 \<le> q" "\<forall>(r, u)\<in>set ((p, v) # rest). q + 4 \<le> r \<or> r + 4 \<le> q" for q
      using c'(4) d(4) [of q] that by auto
    ultimately show ?thesis using c'(2) d(2) by auto
  qed
qed simp

lemma word_at_pad: "0 \<le> p \<Longrightarrow> p + 4 \<le> int (length c) \<Longrightarrow> word_at (pad_code c) p = word_at c p"
  using long_at_append [of c p] by (auto simp: long_at_def word_at_def pad_code_def)

lemma pad_mod_4: "(m + (4 - m mod 4) mod 4) mod 4 = (0::nat)"
proof (cases "m mod 4 = 0")
  case False
  then have "(4 - m mod 4) mod 4 = 4 - m mod 4" by simp
  moreover have "m + (4 - m mod 4) = 4 * (m div 4 + 1)"
  proof -
    have "a + (4 - r) = b + 4" if "b + r = a" "r < 4" for a b r :: nat using that by arith
    from this [of "4 * (m div 4)" "m mod 4" m] show ?thesis by simp
  qed
  ultimately show ?thesis by simp
qed simp

lemma reloc_sites_pad: "reloc_sites ps c \<Longrightarrow> reloc_sites ps (pad_code c)"
  by (fastforce simp: reloc_sites_def pad_code_def)

text \<open>
  C17. Copying a code buffer to the place the code will run: it returns, pads code and relocation
  entries to whole words without adding a relocation, and every call or jump to code outside
  still reaches the same address, every reference into the code itself follows the move, and an
  embedded object or external word is copied unchanged.
\<close>

theorem copyTo_moves_references:
  assumes "locs b = Some l" and "reloc_sites (reloc_iterate l 0) (codeBytes b)"
  shows "\<exists>c' l'. copyTo b new_start = ret (c', l') \<and> length c' mod 4 = 0 \<and> length l' mod 2 = 0 \<and>
    reloc_iterate l' 0 = reloc_iterate l 0 \<and>
    (\<forall>(p, v)\<in>set (reloc_iterate l 0).
       if reloc_is internal_word_type v
       then word_at c' p = word_at (codeBytes b) p + word_of_int (new_start - codeStart b)
       else if is_position_dependent v
       then relative_target new_start c' p = relative_target (codeStart b) (codeBytes b) p
       else word_at c' p = word_at (codeBytes b) p)"
proof -
  let ?ps = "reloc_iterate l 0" and ?c = "pad_code (codeBytes b)" and ?delta = "codeStart b - new_start"
  from fix_relocation_loop_words [OF reloc_sites_pad [OF assms(2)], of ?delta]
  obtain c' where c': "fix_relocation_loop ?ps ?delta ?c = ret c'" "length c' = length ?c"
    "\<forall>(p, v)\<in>set ?ps. word_at c' p = relocated_word ?delta v (word_at ?c p)" by blast
  have w: "word_at c' p = relocated_word ?delta v (word_at (codeBytes b) p)" if "(p, v) \<in> set ?ps" for p v
    using c'(3) that assms(2) word_at_pad [of p "codeBytes b"] by (fastforce simp: reloc_sites_def)
  have "copyTo b new_start = ret (c', pad_locs l)"
    using c'(1) assms(1) by (simp add: copyTo_def Let_def fix_relocation_at_move_def reloc_iterate_pad)
  moreover have "length c' mod 4 = 0"
    using pad_mod_4 by (simp add: c'(2) pad_code_def)
  moreover have "length (pad_locs l) mod 2 = 0"
    by (cases "length l mod 2 = 0") (simp_all add: pad_locs_def mod_Suc)
  moreover have "\<forall>(p, v)\<in>set ?ps.
       if reloc_is internal_word_type v
       then word_at c' p = word_at (codeBytes b) p + word_of_int (new_start - codeStart b)
       else if is_position_dependent v
       then relative_target new_start c' p = relative_target (codeStart b) (codeBytes b) p
       else word_at c' p = word_at (codeBytes b) p"
  proof (intro ballI, clarify)
    fix p v assume pv: "(p, v) \<in> set ?ps"
    have d: "reloc_is internal_word_type v \<Longrightarrow> is_position_dependent v" by (simp add: is_position_dependent_def)
    have m: "word_of_int (new_start + p + 4) + (wd + word_of_int ?delta) = (word_of_int (codeStart b + p + 4) + wd :: 32 word)"
      "wd - word_of_int ?delta = (wd + word_of_int (new_start - codeStart b) :: 32 word)" for wd :: "32 word"
      by (simp_all add: algebra_simps)
    show "if reloc_is internal_word_type v
       then word_at c' p = word_at (codeBytes b) p + word_of_int (new_start - codeStart b)
       else if is_position_dependent v
       then relative_target new_start c' p = relative_target (codeStart b) (codeBytes b) p
       else word_at c' p = word_at (codeBytes b) p"
      unfolding w [OF pv] relocated_word_def relative_target_def using d m by simp
  qed
  ultimately show ?thesis by (intro exI [of _ c'] exI [of _ "pad_locs l"] conjI reloc_iterate_pad)
qed

theorem copyTo_moves_references_witness:
  "\<exists>c' l'. copyTo \<lparr> codeStart = 1000, codeBytes = [0xE8, 10, 0, 0, 0], codeSize = 8, locs = Some [0x6001],
      locsSize = 4, last_reloc_offset = 1 \<rparr> 600 = ret (c', l') \<and>
     relative_target 600 c' 1 = relative_target 1000 [0xE8, 10, 0, 0, 0] 1"
proof -
  let ?b = "\<lparr> codeStart = 1000, codeBytes = [0xE8, 10, 0, 0, 0], codeSize = 8, locs = Some [0x6001],
      locsSize = 4, last_reloc_offset = 1 \<rparr>"
  have o: "reloc_offset 0x6001 = 1" "reloc_type 0x6001 = 3"
    by (simp_all add: reloc_offset_def reloc_type_def get_unsigned_bitfield_take reloc_offset_width_def
        reloc_type_width_def unsigned_drop_bit_eq unsigned_take_bit_eq)
  then have i: "reloc_iterate [0x6001] 0 = [(1, 0x6001)]" by (simp add: reloc_isValid_def)
  have l: "locs ?b = Some [0x6001]" by simp
  have s: "reloc_sites (reloc_iterate [0x6001] 0) (codeBytes ?b)" using i by (simp add: reloc_sites_def)
  have d: "\<not> reloc_is internal_word_type 0x6001" "is_position_dependent 0x6001"
    using o by (simp_all add: is_position_dependent_def reloc_is_def)
  show ?thesis using copyTo_moves_references [OF l s, of 600] i d by auto
qed

text \<open>What the recorded entries mean: all valid, and their offsets add up to the last position.\<close>

definition relocs_ok :: "code_buffer \<Rightarrow> bool" where
  "relocs_ok b \<longleftrightarrow> (case locs b of None \<Rightarrow> True
     | Some l \<Rightarrow> (\<forall>v\<in>set l. reloc_isValid v) \<and> sum_list (map reloc_offset l) = last_reloc_offset b)"

lemma reloc_iterate_snoc:
  assumes "\<forall>v\<in>set l. reloc_isValid v" and "reloc_isValid v"
  shows "reloc_iterate (l @ [v]) adr = reloc_iterate l adr @ [(adr + sum_list (map reloc_offset l) + reloc_offset v, v)]"
  using assms by (induction l arbitrary: adr) (simp_all add: Let_def add.assoc)



section \<open>Instructions patched in place\<close>

text \<open>
  \<^verbatim>\<open>NativeCall\<close>, \<^verbatim>\<open>NativeMov\<close>, \<^verbatim>\<open>NativeTest\<close> and \<^verbatim>\<open>InlineCacheInfo\<close>: views of the instruction at
  a position \<open>p\<close>. For a call the position is that of the return address, for the others that of
  the first byte.
\<close>

definition verify_code :: "bytes \<Rightarrow> int \<Rightarrow> int \<Rightarrow> int \<Rightarrow> string \<Rightarrow> unit run" where
  "verify_code c p keep code msg =
     bindR (byte_at c p) (\<lambda>b. if b AND keep \<noteq> code then raise (Fatal msg) else ret ())"

definition NativeCall_verify :: "bytes \<Rightarrow> int \<Rightarrow> unit run" where
  "NativeCall_verify c p = verify_code c (p - 5) 0xFF 0xE8 ''not a call imm32''"

definition NativeCall_displacement :: "bytes \<Rightarrow> int \<Rightarrow> int run" where
  "NativeCall_displacement c p = long_at c (p - 4)"

definition NativeCall_destination :: "bytes \<Rightarrow> int \<Rightarrow> int run" where
  "NativeCall_destination c p = bindR (NativeCall_displacement c p) (\<lambda>d. ret (p + d))"

definition NativeCall_set_destination :: "bytes \<Rightarrow> int \<Rightarrow> int \<Rightarrow> bytes run" where
  "NativeCall_set_destination c p dest = long_at_put c (p - 4) (dest - p)"

definition nativeCall_at :: "bytes \<Rightarrow> int \<Rightarrow> int run" where
  "nativeCall_at c address = bindR (NativeCall_verify c (address + 5)) (\<lambda>_. ret (address + 5))"

definition nativeCall_from_return_address :: "bytes \<Rightarrow> int \<Rightarrow> int run" where
  "nativeCall_from_return_address c return_address = bindR (NativeCall_verify c return_address) (\<lambda>_. ret return_address)"

definition nativeCall_from_relocInfo :: "bytes \<Rightarrow> int \<Rightarrow> int run" where
  "nativeCall_from_relocInfo c displacement_address =
     bindR (NativeCall_verify c (displacement_address + 4)) (\<lambda>_. ret (displacement_address + 4))"

definition NativeMov_verify :: "bytes \<Rightarrow> int \<Rightarrow> unit run" where
  "NativeMov_verify c p = verify_code c p (NOT 0x07) 0xB8 ''not a mov reg, imm32''"

definition NativeMov_data :: "bytes \<Rightarrow> int \<Rightarrow> int run" where
  "NativeMov_data c p = long_at c (p + 1)"

definition NativeMov_set_data :: "bytes \<Rightarrow> int \<Rightarrow> int \<Rightarrow> bytes run" where
  "NativeMov_set_data c p d = long_at_put c (p + 1) d"

definition NativeTest_verify :: "bytes \<Rightarrow> int \<Rightarrow> unit run" where
  "NativeTest_verify c p = verify_code c p 0xFF 0xA9 ''not a test eax, imm32''"

definition NativeTest_data :: "bytes \<Rightarrow> int \<Rightarrow> int run" where
  "NativeTest_data c p = long_at c (p + 1)"

definition NativeTest_set_data :: "bytes \<Rightarrow> int \<Rightarrow> int \<Rightarrow> bytes run" where
  "NativeTest_set_data c p d = long_at_put c (p + 1) d"

definition info_offset :: int where "info_offset = 1"
definition number_of_flags :: nat where "number_of_flags = 8"
definition flags_mask :: int where "flags_mask = 2 ^ number_of_flags - 1"

definition NonLocalReturn_target :: "bytes \<Rightarrow> int \<Rightarrow> int run" where
  "NonLocalReturn_target c p = bindR (NativeTest_data c p) (\<lambda>d. ret (p + drop_bit number_of_flags d))"

definition ic_flags :: "bytes \<Rightarrow> int \<Rightarrow> int run" where
  "ic_flags c p = bindR (NativeTest_data c p) (\<lambda>d. ret (d AND flags_mask))"

definition ic_set_flags :: "bytes \<Rightarrow> int \<Rightarrow> int \<Rightarrow> bytes run" where
  "ic_set_flags c p flags =
     bindR (NativeTest_data c p) (\<lambda>d. NativeTest_set_data c p ((d AND NOT flags_mask) OR (flags AND flags_mask)))"

text \<open>Patching: redirecting a call makes it reach the new destination and leaves a valid call, and
  setting the flags of an inline-cache word changes the flags to the low eight bits of the new
  value and leaves the target of non-local returns alone.
\<close>

theorem patched_instructions:
  assumes "5 \<le> p" and "p \<le> int (length c)" and "NativeCall_verify c p = ret ()" and "dest - p \<in> int32_range"
    and "0 \<le> q" and "q + 5 \<le> int (length c)"
  shows "(\<exists>c'. NativeCall_set_destination c p dest = ret c' \<and> NativeCall_verify c' p = ret () \<and>
      NativeCall_destination c' p = ret dest \<and> length c' = length c) \<and>
    (\<exists>c'. ic_set_flags c q flags = ret c' \<and> ic_flags c' q = ret (take_bit 8 flags) \<and>
      NonLocalReturn_target c' q = NonLocalReturn_target c q)"
proof (intro conjI)
  from long_at_put_ret [of "p - 4" c "dest - p"] assms(1,2) obtain c' where
    c': "long_at_put c (p - 4) (dest - p) = ret c'" "length c' = length c"
    and same: "\<And>i. \<not> (nat (p - 4) \<le> i \<and> i < nat (p - 4) + 4) \<Longrightarrow> c' ! i = c ! i" by auto
  have "c' ! nat (p - 5) = c ! nat (p - 5)" using assms(1) by (intro same) arith
  then have "byte_at c' (p - 5) = byte_at c (p - 5)" using c'(2) by (intro byte_at_cong)
  then have "NativeCall_verify c' p = ret ()" using assms(3) by (simp add: NativeCall_verify_def verify_code_def)
  then show "\<exists>c'. NativeCall_set_destination c p dest = ret c' \<and> NativeCall_verify c' p = ret () \<and>
      NativeCall_destination c' p = ret dest \<and> length c' = length c"
    using c' long_at_put_same [OF c'(1) assms(4)]
    by (intro exI [of _ c'])
      (simp add: NativeCall_set_destination_def NativeCall_destination_def NativeCall_displacement_def)
next
  obtain d where d: "long_at c (q + 1) = ret d" "d \<in> int32_range"
    using assms(5,6) long_of_bytes_in by (auto simp: long_at_def)
  let ?d = "(d AND NOT (mask 8)) OR (flags AND mask 8)"
  have bits: "bit ?d n \<longleftrightarrow> (if n < 8 then bit flags n else bit d n)" for n by (auto simp: bit_simps)
  have "signed_take_bit 31 ?d = ?d"
  proof (rule bit_eqI)
    fix n
    have "bit (signed_take_bit 31 d) n \<longleftrightarrow> bit d (min 31 n)" by (simp add: bit_signed_take_bit_iff)
    then have "bit d n \<longleftrightarrow> bit d (min 31 n)" by (simp only: signed_take_bit_range [OF d(2)])
    then show "bit (signed_take_bit 31 ?d) n \<longleftrightarrow> bit ?d n"
      unfolding bit_signed_take_bit_iff bits by auto
  qed
  then have r: "?d \<in> int32_range"
    using signed_take_bit_int_less_exp [of 31 ?d] signed_take_bit_int_greater_eq_minus_exp [of 31 ?d]
    by (simp add: int32_range_def)
  from long_at_put_ret [of "q + 1" c ?d] assms(5,6) obtain c' where c': "long_at_put c (q + 1) ?d = ret c'" by auto
  have l: "long_at c' (q + 1) = ret ?d" using long_at_put_same [OF c' r] .
  have "?d AND mask 8 = take_bit 8 flags"
    by (rule bit_eqI) (auto simp: bit_and_iff bits bit_mask_iff bit_take_bit_iff)
  moreover have "drop_bit 8 ?d = drop_bit 8 d"
    by (rule bit_eqI) (simp only: bit_drop_bit_eq bits comp_def, simp)
  moreover have fm: "flags_mask = mask 8" by (simp add: flags_mask_def number_of_flags_def mask_eq_exp_minus_1)
  moreover have "ic_set_flags c q flags = ret c'"
    unfolding ic_set_flags_def NativeTest_data_def NativeTest_set_data_def d(1) bindR_ret fm by (rule c')
  moreover have "ic_flags c' q = ret (?d AND mask 8)" "NonLocalReturn_target c' q = ret (q + drop_bit 8 ?d)"
    "NonLocalReturn_target c q = ret (q + drop_bit 8 d)"
    unfolding ic_flags_def NonLocalReturn_target_def NativeTest_data_def l d(1) bindR_ret fm number_of_flags_def by (rule refl)+
  ultimately show "\<exists>c'. ic_set_flags c q flags = ret c' \<and> ic_flags c' q = ret (take_bit 8 flags) \<and>
      NonLocalReturn_target c' q = NonLocalReturn_target c q"
    by (metis (no_types))
qed

theorem patched_instructions_witness:
  "\<exists>c'. NativeCall_set_destination [0xE8, 0, 0, 0, 0, 0xA9, 3, 0, 0, 0] 5 77 = ret c' \<and> NativeCall_destination c' 5 = ret 77"
  using patched_instructions [of 5 "[0xE8, 0, 0, 0, 0, 0xA9, 3, 0, 0, 0]" 77 5]
  by (auto simp: NativeCall_verify_def verify_code_def byte_at_def int32_range_def)

end
