(* ===== verification/Assembler.thy ===== *)
theory Assembler
  imports CodeBuffers
begin

text \<open>
  \<^verbatim>\<open>vm/assembler/Assembler.{hpp,cpp}\<close>, \<^verbatim>\<open>Register\<close> and \<^verbatim>\<open>Address\<close>: the state of the assembler, the
  routines that append bytes to the code, and the encoding of operands. The assembler's
  \<^verbatim>\<open>_code_pos\<close> is always the end of its code buffer, so the buffer's byte list is the code emitted
  so far. An instruction is a function from the assembler to a run; \<open>steps\<close> runs a list of them in
  order. The last section states the Intel format as a decoder of operands and proves that
  \<open>emit_operand\<close> inverts it.
\<close>

section \<open>Registers and addresses\<close>

type_synonym register = int

definition REGISTER_COUNT :: int where "REGISTER_COUNT = 8"
definition noreg :: register where "noreg = -1"
definition eax :: register where "eax = 0"
definition ecx :: register where "ecx = 1"
definition edx :: register where "edx = 2"
definition ebx :: register where "ebx = 3"
definition esp :: register where "esp = 4"
definition ebp :: register where "ebp = 5"
definition esi :: register where "esi = 6"
definition edi :: register where "edi = 7"

definition isValid :: "register \<Rightarrow> bool" where
  "isValid r \<longleftrightarrow> 0 \<le> r \<and> r < REGISTER_COUNT"

definition hasByteRegister :: "register \<Rightarrow> bool" where
  "hasByteRegister r \<longleftrightarrow> 0 \<le> r \<and> r \<le> 3"

definition register_name :: "register \<Rightarrow> string" where
  "register_name r =
     (if isValid r then [''eax'', ''ecx'', ''edx'', ''ebx'', ''esp'', ''ebp'', ''esi'', ''edi''] ! nat r else ''noreg'')"

datatype ScaleFactor = no_scale | times_1 | times_2 | times_4 | times_8

primrec scale_code :: "ScaleFactor \<Rightarrow> int" where
  "scale_code no_scale = -1"
| "scale_code times_1 = 0"
| "scale_code times_2 = 1"
| "scale_code times_4 = 2"
| "scale_code times_8 = 3"

record Address =
  base :: register
  index :: register
  scale :: ScaleFactor
  displacement :: int
  relocationType :: RelocationType

definition Address_none :: Address where
  "Address_none = \<lparr> base = noreg, index = noreg, scale = no_scale, displacement = 0, relocationType = reloc_none \<rparr>"

definition Address_disp :: "int \<Rightarrow> RelocationType \<Rightarrow> Address" where
  "Address_disp d rtype = \<lparr> base = noreg, index = noreg, scale = no_scale, displacement = d, relocationType = rtype \<rparr>"

definition Address_base :: "register \<Rightarrow> int \<Rightarrow> RelocationType \<Rightarrow> Address" where
  "Address_base b d rtype = \<lparr> base = b, index = noreg, scale = no_scale, displacement = d, relocationType = rtype \<rparr>"

definition Address_index :: "register \<Rightarrow> register \<Rightarrow> ScaleFactor \<Rightarrow> int \<Rightarrow> RelocationType \<Rightarrow> Address run" where
  "Address_index b i s d rtype =
     bindR (guard ((i = noreg) = (s = no_scale)) ''inconsistent address'') (\<lambda>_.
     ret \<lparr> base = b, index = i, scale = s, displacement = d, relocationType = rtype \<rparr>)"

section \<open>The assembler's state and its steps\<close>

record assembler =
  code :: code_buffer
  unbound_label :: int
  binding_pos :: int

definition Assembler :: "code_buffer \<Rightarrow> assembler" where
  "Assembler b = \<lparr> code = b, unbound_label = 0, binding_pos = 0 \<rparr>"

definition offset :: "assembler \<Rightarrow> int" where
  "offset a = code_size (code a)"

abbreviation bytes_of :: "assembler \<Rightarrow> bytes" where
  "bytes_of a \<equiv> codeBytes (code a)"

type_synonym step = "assembler \<Rightarrow> assembler run"

primrec steps :: "step list \<Rightarrow> step" where
  "steps [] a = ret a"
| "steps (f # fs) a = bindR (f a) (steps fs)"

definition check :: "bool \<Rightarrow> string \<Rightarrow> step" where
  "check b msg a = bindR (guard b msg) (\<lambda>_. ret a)"

definition fails :: "string \<Rightarrow> step" where
  "fails msg a = raise (Fatal msg)"

text \<open>\<open>number r k\<close> is \<open>k\<close> applied to \<^verbatim>\<open>r.number()\<close>, which asserts that \<open>r\<close> is a register.\<close>

definition number :: "register \<Rightarrow> (int \<Rightarrow> step) \<Rightarrow> step" where
  "number r k a = bindR (guard (isValid r) ''not a register'') (\<lambda>_. k r a)"

definition is8bit :: "int \<Rightarrow> bool" where "is8bit v \<longleftrightarrow> - 0x80 \<le> v \<and> v < 0x80"
definition isByte :: "int \<Rightarrow> bool" where "isByte v \<longleftrightarrow> 0 \<le> v \<and> v < 0x100"
definition isShiftCount :: "int \<Rightarrow> bool" where "isShiftCount v \<longleftrightarrow> 0 \<le> v \<and> v < 32"

definition append_code :: "bytes \<Rightarrow> step" where
  "append_code bs a = bindR (set_code_end (bytes_of a @ bs) (code a)) (\<lambda>b. ret (a\<lparr> code := b \<rparr>))"

definition emit_byte :: "int \<Rightarrow> step" where
  "emit_byte v = steps [check (isByte v) ''not a byte'', append_code [word_of_int v]]"

definition emit_long :: "int \<Rightarrow> step" where
  "emit_long v = append_code (bytes_of_long v)"

definition emit_data :: "int \<Rightarrow> RelocationType \<Rightarrow> step" where
  "emit_data d rtype =
     steps [\<lambda>a. if rtype \<noteq> reloc_none then bindR (relocate rtype (code a)) (\<lambda>b. ret (a\<lparr> code := b \<rparr>)) else ret a,
            emit_long d]"

definition emit_arith_b :: "int \<Rightarrow> int \<Rightarrow> register \<Rightarrow> int \<Rightarrow> step" where
  "emit_arith_b op1 op2 dst imm8 = steps
     [check (hasByteRegister dst) ''must have byte register'',
      check (isByte op1 \<and> isByte op2) ''wrong opcode'',
      check (isByte imm8) ''not a byte'',
      check (op1 AND 0x01 = 0) ''should be 8bit operation'',
      emit_byte op1,
      number dst (\<lambda>d. emit_byte (op2 OR d)),
      emit_byte imm8]"

definition emit_arith :: "int \<Rightarrow> int \<Rightarrow> register \<Rightarrow> int \<Rightarrow> step" where
  "emit_arith op1 op2 dst imm32 = steps
     [check (isByte op1 \<and> isByte op2) ''wrong opcode'',
      check (op1 AND 0x01 = 1) ''should be 32bit operation'',
      check (op1 AND 0x02 = 0) ''sign-extension bit should not be set'',
      if is8bit imm32
      then steps [emit_byte (op1 OR 0x02), number dst (\<lambda>d. emit_byte (op2 OR d)), emit_byte (imm32 AND 0xFF)]
      else steps [emit_byte op1, number dst (\<lambda>d. emit_byte (op2 OR d)), emit_long imm32]]"

definition emit_arith_oop :: "int \<Rightarrow> int \<Rightarrow> register \<Rightarrow> int \<Rightarrow> step" where
  "emit_arith_oop op1 op2 dst obj = steps
     [check (isByte op1 \<and> isByte op2) ''wrong opcode'',
      check (op1 AND 0x01 = 1) ''should be 32bit operation'',
      check (op1 AND 0x02 = 0) ''sign-extension bit should not be set'',
      emit_byte op1,
      number dst (\<lambda>d. emit_byte (op2 OR d)),
      emit_data obj oop_type]"

definition emit_arith_reg :: "int \<Rightarrow> int \<Rightarrow> register \<Rightarrow> register \<Rightarrow> step" where
  "emit_arith_reg op1 op2 dst src = steps
     [check (isByte op1 \<and> isByte op2) ''wrong opcode'',
      emit_byte op1,
      number dst (\<lambda>d. number src (\<lambda>s. emit_byte (op2 OR push_bit 3 d OR s)))]"

definition emit_farith :: "int \<Rightarrow> int \<Rightarrow> int \<Rightarrow> step" where
  "emit_farith b1 b2 i = steps
     [check (isByte b1 \<and> isByte b2) ''wrong opcode'',
      check (0 \<le> i \<and> i < 8) ''illegal stack offset'',
      emit_byte b1,
      emit_byte (b2 + i)]"

section \<open>Operands\<close>

definition emit_sib :: "ScaleFactor \<Rightarrow> register \<Rightarrow> register \<Rightarrow> step" where
  "emit_sib s i b = number i (\<lambda>i. number b (\<lambda>b. emit_byte (push_bit 6 (scale_code s) OR push_bit 3 i OR b)))"

definition emit_operand_parts :: "register \<Rightarrow> register \<Rightarrow> register \<Rightarrow> ScaleFactor \<Rightarrow> int \<Rightarrow> RelocationType \<Rightarrow> step" where
  "emit_operand_parts reg b i s disp rtype =
     (if isValid b then
        if isValid i then steps
          [check (s \<noteq> no_scale) ''inconsistent address'',
           if disp = 0 \<and> rtype = reloc_none then steps
             [check (i \<noteq> esp \<and> b \<noteq> ebp) ''illegal addressing mode'',
              number reg (\<lambda>r. emit_byte (0x04 OR push_bit 3 r)),
              emit_sib s i b]
           else if is8bit disp \<and> rtype = reloc_none then steps
             [check (i \<noteq> esp) ''illegal addressing mode'',
              number reg (\<lambda>r. emit_byte (0x44 OR push_bit 3 r)),
              emit_sib s i b,
              emit_byte (disp AND 0xFF)]
           else steps
             [check (i \<noteq> esp) ''illegal addressing mode'',
              number reg (\<lambda>r. emit_byte (0x84 OR push_bit 3 r)),
              emit_sib s i b,
              emit_data disp rtype]]
        else if b = esp then
          if disp = 0 \<and> rtype = reloc_none then steps
            [number reg (\<lambda>r. emit_byte (0x04 OR push_bit 3 r)), emit_byte 0x24]
          else if is8bit disp \<and> rtype = reloc_none then steps
            [number reg (\<lambda>r. emit_byte (0x44 OR push_bit 3 r)), emit_byte 0x24, emit_byte (disp AND 0xFF)]
          else steps
            [number reg (\<lambda>r. emit_byte (0x84 OR push_bit 3 r)), emit_byte 0x24, emit_data disp rtype]
        else
          if disp = 0 \<and> rtype = reloc_none \<and> b \<noteq> ebp then
            number reg (\<lambda>r. number b (\<lambda>b. emit_byte (0x00 OR push_bit 3 r OR b)))
          else if is8bit disp \<and> rtype = reloc_none then steps
            [number reg (\<lambda>r. number b (\<lambda>b. emit_byte (0x40 OR push_bit 3 r OR b))), emit_byte (disp AND 0xFF)]
          else steps
            [number reg (\<lambda>r. number b (\<lambda>b. emit_byte (0x80 OR push_bit 3 r OR b))), emit_data disp rtype]
      else
        if isValid i then steps
          [check (s \<noteq> no_scale) ''inconsistent address'',
           check (i \<noteq> esp) ''illegal addressing mode'',
           number reg (\<lambda>r. emit_byte (0x04 OR push_bit 3 r)),
           number i (\<lambda>i. emit_byte (push_bit 6 (scale_code s) OR push_bit 3 i OR 0x05)),
           emit_data disp rtype]
        else steps
          [number reg (\<lambda>r. emit_byte (0x05 OR push_bit 3 r)), emit_data disp rtype])"

definition emit_operand :: "register \<Rightarrow> Address \<Rightarrow> step" where
  "emit_operand r a = emit_operand_parts r (base a) (index a) (scale a) (displacement a) (relocationType a)"

section \<open>What the steps append\<close>

lemma append_code_ret: "length (bytes_of a @ bs) \<le> codeSize (code a) \<Longrightarrow>
  append_code bs a = ret (a\<lparr> code := (code a)\<lparr> codeBytes := bytes_of a @ bs \<rparr> \<rparr>)"
  by (simp add: append_code_def set_code_end_def)

lemma append_code_overflow: "codeSize (code a) < length (bytes_of a @ bs) \<Longrightarrow>
  append_code bs a = raise (Fatal ''code end out of bounds'')"
  by (simp add: append_code_def set_code_end_def)

lemma append_code_twice: "bindR (append_code xs a) (append_code ys) = append_code (xs @ ys) a"
proof (cases "length (bytes_of a @ xs) \<le> codeSize (code a)")
  case True
  then show ?thesis
    by (simp add: append_code_ret) (simp add: append_code_def set_code_end_def)
next
  case False
  then show ?thesis by (simp add: append_code_overflow)
qed

lemma append_code_returns: "append_code bs a = ret a' \<longleftrightarrow>
  length (bytes_of a) + length bs \<le> codeSize (code a) \<and> a' = a\<lparr> code := (code a)\<lparr> codeBytes := bytes_of a @ bs \<rparr> \<rparr>"
  by (auto simp: append_code_def set_code_end_def)

text \<open>A step that appends fixed bytes and does nothing else.\<close>

definition appends :: "step \<Rightarrow> bytes \<Rightarrow> bool" where
  "appends f bs \<longleftrightarrow> (\<forall>a. f a = append_code bs a)"

named_theorems emits

lemma appends_byte [emits]: "isByte v \<Longrightarrow> appends (emit_byte v) [word_of_int v]"
  by (auto simp: appends_def emit_byte_def check_def bindR_assoc append_code_def set_code_end_def)

lemma appends_long [emits]: "appends (emit_long v) (bytes_of_long v)"
  by (simp add: appends_def emit_long_def)

lemma appends_data [emits]: "appends (emit_data v reloc_none) (bytes_of_long v)"
  by (auto simp: appends_def emit_data_def emit_long_def append_code_def set_code_end_def)

lemma appends_number [emits]: "isValid r \<Longrightarrow> appends (k r) bs \<Longrightarrow> appends (number r k) bs"
  by (simp add: appends_def number_def)

lemma appends_one: "appends f bs \<Longrightarrow> appends (steps [f]) bs"
  by (auto simp: appends_def append_code_def set_code_end_def)

lemma appends_steps [emits]: "appends f xs \<Longrightarrow> appends (steps fs) ys \<Longrightarrow> appends (steps (f # fs)) (xs @ ys)"
proof -
  assume "appends f xs" "appends (steps fs) ys"
  then have "f a = append_code xs a" "steps fs = append_code ys" for a by (auto simp: appends_def)
  then show ?thesis by (simp add: appends_def append_code_twice)
qed

lemma appends_Nil: "codeSize (code a) \<ge> length (bytes_of a) \<Longrightarrow> steps [] a = append_code [] a"
  by (simp add: append_code_ret)

lemma steps_check [simp]: "b \<Longrightarrow> steps (check b msg # fs) = steps fs"
  by (rule ext) (simp add: check_def)

lemma steps_check_fails [simp]: "\<not> b \<Longrightarrow> steps (check b msg # fs) a = raise (Assertion msg)"
  by (simp add: check_def)

lemmas registers = noreg_def eax_def ecx_def edx_def ebx_def esp_def ebp_def esi_def edi_def

section \<open>The operand format\<close>

text \<open>
  \<open>decode_operand\<close> reads an operand the way the processor does: a byte \<^verbatim>\<open>mod:2 reg:3 rm:3\<close>, where
  \<^verbatim>\<open>rm = 100\<close> announces a second byte \<^verbatim>\<open>scale:2 index:3 base:3\<close>, then no displacement, a
  sign-extended byte or a long.
\<close>

definition decode_disp :: "int \<Rightarrow> bytes \<Rightarrow> (int \<times> bytes) option" where
  "decode_disp md bs =
     (if md = 0 then Some (0, bs)
      else if md = 1 then (case bs of b # r \<Rightarrow> Some (signed_take_bit 7 (uint b), r) | _ \<Rightarrow> None)
      else (case bs of b0 # b1 # b2 # b3 # r \<Rightarrow> Some (long_of_bytes b0 b1 b2 b3, r) | _ \<Rightarrow> None))"

definition scale_of :: "int \<Rightarrow> ScaleFactor" where
  "scale_of s = (if s = 0 then times_1 else if s = 1 then times_2 else if s = 2 then times_4 else times_8)"

definition decode_sib :: "int \<Rightarrow> bytes \<Rightarrow> (Address \<times> bytes) option" where
  "decode_sib md bs = (case bs of [] \<Rightarrow> None
   | sib # r \<Rightarrow>
       let i = uint sib div 8 mod 8; b = uint sib mod 8; nobase = (md = 0 \<and> b = 5) in
       map_option (\<lambda>(d, r). (\<lparr> base = (if nobase then noreg else b), index = (if i = 4 then noreg else i),
           scale = (if i = 4 then no_scale else scale_of (uint sib div 64)), displacement = d, relocationType = reloc_none \<rparr>, r))
         (decode_disp (if nobase then 2 else md) r))"

definition decode_operand :: "bytes \<Rightarrow> (register \<times> Address \<times> bytes) option" where
  "decode_operand bs = (case bs of [] \<Rightarrow> None
   | m # r \<Rightarrow>
       let md = uint m div 64; reg = uint m div 8 mod 8; rm = uint m mod 8 in
       if md = 3 then None
       else if rm = 4 then map_option (Pair reg) (decode_sib md r)
       else let nobase = (md = 0 \<and> rm = 5) in
         map_option (\<lambda>(d, r). (reg, Address_base (if nobase then noreg else rm) d reloc_none, r))
           (decode_disp (if nobase then 2 else md) r))"

definition legal_address :: "Address \<Rightarrow> bool" where
  "legal_address a \<longleftrightarrow> (base a = noreg \<or> isValid (base a)) \<and> (index a = noreg \<or> isValid (index a)) \<and> index a \<noteq> esp \<and>
     (index a = noreg \<longleftrightarrow> scale a = no_scale) \<and> displacement a \<in> int32_range \<and>
     \<not> (index a \<noteq> noreg \<and> base a = ebp \<and> displacement a = 0)"

lemma or_push_bit: "0 \<le> (b::int) \<Longrightarrow> b < 2 ^ k \<Longrightarrow> push_bit k n OR b = 2 ^ k * n + b"
proof -
  assume b: "0 \<le> b" "b < 2 ^ k"
  then have "take_bit k b = b" by (simp add: take_bit_int_eq_self)
  then have bk: "\<not> bit b (k + m)" for m by (metis bit_take_bit_iff not_add_less1)
  have "push_bit k n AND b = 0"
  proof (rule bit_eqI)
    fix m
    show "bit (push_bit k n AND b) m \<longleftrightarrow> bit (0::int) m"
      using bk [of "m - k"] by (auto simp: bit_simps)
  qed
  then show ?thesis using plus_and_or [of "push_bit k n" b] by (simp add: push_bit_eq_mult)
qed

lemma valid_cases:
  assumes "isValid r"
  obtains "r = 0" | "r = 1" | "r = 2" | "r = 3" | "r = 4" | "r = 5" | "r = 6" | "r = 7"
proof -
  have "r = 0 \<or> r = 1 \<or> r = 2 \<or> r = 3 \<or> r = 4 \<or> r = 5 \<or> r = 6 \<or> r = 7"
    using assms unfolding isValid_def REGISTER_COUNT_def by presburger
  then show ?thesis using that by blast
qed

lemma modrm_fields:
  assumes "isValid r" and "0 \<le> m" and "m < 4" and "0 \<le> x" and "x < 8"
  shows "isByte (64 * m + 8 * r + x)" and "uint (word_of_int (64 * m + 8 * r + x) :: 8 word) div 64 = m"
    and "uint (word_of_int (64 * m + 8 * r + x) :: 8 word) div 8 mod 8 = r"
    and "uint (word_of_int (64 * m + 8 * r + x) :: 8 word) mod 8 = x"
proof -
  have r: "0 \<le> r" "r < 8" using assms(1) by (simp_all add: isValid_def REGISTER_COUNT_def)
  show "isByte (64 * m + 8 * r + x)" using assms r by (simp add: isByte_def)
  have u: "uint (word_of_int (64 * m + 8 * r + x) :: 8 word) = 64 * m + 8 * r + x"
    unfolding uint_word_of_int using assms r by (intro mod_pos_pos_trivial) simp_all
  have d: "(64 * m + 8 * r + x) div 8 = 8 * m + r" by (rule int_div_pos_eq [of _ _ _ x]) (use assms in simp_all)
  show "uint (word_of_int (64 * m + 8 * r + x) :: 8 word) div 64 = m"
    unfolding u by (rule int_div_pos_eq [of _ _ _ "8 * r + x"]) (use assms r in simp_all)
  show "uint (word_of_int (64 * m + 8 * r + x) :: 8 word) div 8 mod 8 = r"
    unfolding u d by (rule int_mod_pos_eq [of _ _ m]) (use r in simp_all)
  show "uint (word_of_int (64 * m + 8 * r + x) :: 8 word) mod 8 = x"
    unfolding u by (rule int_mod_pos_eq [of _ _ "8 * m + r"]) (use assms in simp_all)
qed

lemma modrm_or:
  assumes "isValid r"
  shows "0x04 OR push_bit 3 r = 64 * 0 + 8 * r + 4" "0x44 OR push_bit 3 r = 64 * 1 + 8 * r + 4"
    "0x84 OR push_bit 3 r = 64 * 2 + 8 * r + 4" "0x05 OR push_bit 3 r = 64 * 0 + 8 * r + 5"
    "isValid b \<Longrightarrow> 0x00 OR push_bit 3 r OR b = 64 * 0 + 8 * r + b"
    "isValid b \<Longrightarrow> 0x40 OR push_bit 3 r OR b = 64 * 1 + 8 * r + b"
    "isValid b \<Longrightarrow> 0x80 OR push_bit 3 r OR b = 64 * 2 + 8 * r + b"
    "isValid b \<Longrightarrow> 0xC0 OR push_bit 3 r OR b = 64 * 3 + 8 * r + b"
proof -
  have r: "0 \<le> r" "r < 8" using assms(1) by (simp_all add: isValid_def REGISTER_COUNT_def)
  have c: "push_bit 6 m OR push_bit 3 r OR x = 64 * m + 8 * r + x" if "0 \<le> x" "x < 8" for m x :: int
  proof -
    have "push_bit 6 m OR push_bit 3 r = push_bit 3 (push_bit 3 m OR r)"
      by (rule bit_eqI) (auto simp: bit_simps)
    also have "push_bit 3 m OR r = 8 * m + r" using or_push_bit [of r 3 m] r by simp
    finally have "(push_bit 6 m OR push_bit 3 r) OR x = 64 * m + 8 * r + x"
      using or_push_bit [of x 3 "8 * m + r"] that by simp
    then show ?thesis by (simp only: or.assoc)
  qed
  show "0x04 OR push_bit 3 r = 64 * 0 + 8 * r + 4" "0x44 OR push_bit 3 r = 64 * 1 + 8 * r + 4"
    "0x84 OR push_bit 3 r = 64 * 2 + 8 * r + 4" "0x05 OR push_bit 3 r = 64 * 0 + 8 * r + 5"
    using assms by (rule valid_cases; simp)+
  show "isValid b \<Longrightarrow> 0x00 OR push_bit 3 r OR b = 64 * 0 + 8 * r + b"
    "isValid b \<Longrightarrow> 0x40 OR push_bit 3 r OR b = 64 * 1 + 8 * r + b"
    "isValid b \<Longrightarrow> 0x80 OR push_bit 3 r OR b = 64 * 2 + 8 * r + b"
    "isValid b \<Longrightarrow> 0xC0 OR push_bit 3 r OR b = 64 * 3 + 8 * r + b"
    using c [of b 0] c [of b 1] c [of b 2] c [of b 3] by (simp_all add: isValid_def REGISTER_COUNT_def)
qed

definition modrm :: "int \<Rightarrow> int \<Rightarrow> int \<Rightarrow> 8 word" where
  "modrm m r b = word_of_int (64 * m + 8 * r + b)"

lemma appends_modrm:
  "isValid r \<Longrightarrow> 0 \<le> m \<Longrightarrow> m < 4 \<Longrightarrow> 0 \<le> b \<Longrightarrow> b < 8 \<Longrightarrow> appends (emit_byte (64 * m + 8 * r + b)) [modrm m r b]"
  unfolding modrm_def by (rule appends_byte) (rule modrm_fields)

lemma decode_modrm:
  assumes "isValid r" and "0 \<le> m" and "m < 3" and "0 \<le> b" and "b < 8"
  shows "decode_operand (modrm m r b # bs) =
    (if b = 4 then map_option (Pair r) (decode_sib m bs)
     else let nobase = (m = 0 \<and> b = 5) in
       map_option (\<lambda>(d, t). (r, Address_base (if nobase then noreg else b) d reloc_none, t))
         (decode_disp (if nobase then 2 else m) bs))"
  using modrm_fields(2-4) [OF assms(1,2) _ assms(4,5)] assms(3)
  by (simp add: decode_operand_def modrm_def)

lemma decode_sib_modrm:
  assumes "isValid i" and "s \<noteq> no_scale" and "isValid b"
  shows "decode_sib m (modrm (scale_code s) i b # bs) =
    (let nobase = (m = 0 \<and> b = 5) in
     map_option (\<lambda>(d, t). (\<lparr> base = (if nobase then noreg else b), index = (if i = 4 then noreg else i),
         scale = (if i = 4 then no_scale else s), displacement = d, relocationType = reloc_none \<rparr>, t))
       (decode_disp (if nobase then 2 else m) bs))"
proof -
  have b: "0 \<le> b" "b < 8" using assms(3) by (simp_all add: isValid_def REGISTER_COUNT_def)
  have s: "0 \<le> scale_code s" "scale_code s < 4" "scale_of (scale_code s) = s"
    using assms(2) by (cases s; simp add: scale_of_def)+
  show ?thesis
    unfolding decode_sib_def modrm_def list.case Let_def modrm_fields(2-4) [OF assms(1) s(1,2) b] s(3) ..
qed

lemma appends_sib:
  assumes "isValid i" and "s \<noteq> no_scale" and "isValid b"
  shows "appends (emit_sib s i b) [modrm (scale_code s) i b]"
proof -
  have b: "0 \<le> b" "b < 8" using assms(3) by (simp_all add: isValid_def REGISTER_COUNT_def)
  have s: "0 \<le> scale_code s" "scale_code s < 4" using assms(2) by (cases s; simp)+
  have "push_bit 6 (scale_code s) OR push_bit 3 i OR b = 64 * scale_code s + 8 * i + b"
    using assms(2) modrm_or(5-8) [OF assms(1,3)] by (cases s) (simp_all add: push_bit_eq_mult)
  then show ?thesis
    unfolding emit_sib_def using assms appends_modrm [OF assms(1) s b] by (intro appends_number) simp_all
qed

lemma decode_disp_0: "decode_disp 0 bs = Some (0, bs)"
  by (simp add: decode_disp_def)

lemma decode_disp_1: "is8bit d \<Longrightarrow> decode_disp 1 (word_of_int (d AND 0xFF) # bs) = Some (d, bs)"
proof -
  assume d: "is8bit d"
  have "d AND 0xFF = take_bit 8 d" by (simp add: take_bit_eq_mask mask_eq_exp_minus_1)
  then have "signed_take_bit 7 (uint (word_of_int (d AND 0xFF) :: 8 word)) = signed_take_bit 7 d"
    by (simp add: uint_word_of_int_eq signed_take_bit_take_bit)
  also have "\<dots> = d" using d by (intro signed_take_bit_int_eq_self) (simp_all add: is8bit_def)
  finally show ?thesis by (simp add: decode_disp_def)
qed

lemma decode_disp_2: "d \<in> int32_range \<Longrightarrow> decode_disp 2 (bytes_of_long d @ bs) = Some (d, bs)"
  by (simp add: decode_disp_def bytes_of_long_def long_of_bytes_range)

lemma isByte_low [simp]: "isByte (d AND 0xFF)"
proof -
  have "d AND 0xFF = d mod 2 ^ 8" using take_bit_eq_mask [of 8 d] by (simp add: mask_eq_exp_minus_1 take_bit_eq_mod)
  then show ?thesis by (simp add: isByte_def)
qed

text \<open>The three displacement forms, after any leading bytes.\<close>

lemma valid_bounds: "isValid r \<Longrightarrow> 0 \<le> r \<and> r < 8"
  by (simp add: isValid_def REGISTER_COUNT_def)

lemmas leaf = appends_number appends_steps [where fs = "[g]" for g] appends_one appends_modrm appends_sib appends_byte appends_data

lemma appends2: "appends f xs \<Longrightarrow> appends g ys \<Longrightarrow> appends (steps [f, g]) (xs @ ys)"
  by (intro appends_steps appends_one)

lemma appends3: "appends f xs \<Longrightarrow> appends g ys \<Longrightarrow> appends h zs \<Longrightarrow> appends (steps [f, g, h]) (xs @ ys @ zs)"
  by (intro appends_steps appends_one)

definition emits_operand :: "step \<Rightarrow> register \<Rightarrow> Address \<Rightarrow> bool" where
  "emits_operand f r a \<longleftrightarrow>
     (\<exists>bs. appends f bs \<and> 1 \<le> length bs \<and> length bs \<le> 6 \<and> (\<forall>rest. decode_operand (bs @ rest) = Some (r, a, rest)))"

lemma emits_operandI:
  "appends f bs \<Longrightarrow> 1 \<le> length bs \<Longrightarrow> length bs \<le> 6 \<Longrightarrow> (\<And>rest. decode_operand (bs @ rest) = Some (r, a, rest)) \<Longrightarrow>
   emits_operand f r a"
  by (auto simp: emits_operand_def)

lemma emit_operand_index:
  assumes r: "isValid r" and b: "isValid b" and i: "isValid i" "i \<noteq> esp" and s: "s \<noteq> no_scale" and d: "d \<in> int32_range"
    and eb: "\<not> (b = ebp \<and> d = 0)"
  shows "emits_operand (emit_operand_parts r b i s d reloc_none) r
    \<lparr> base = b, index = i, scale = s, displacement = d, relocationType = reloc_none \<rparr>"
proof -
  have i4: "i \<noteq> 4" using i(2) by (simp add: esp_def)
  note sib = decode_sib_modrm [OF i(1) s b] appends_sib [OF i(1) s b] decode_modrm [OF r] modrm_or(1-3) [OF r]
  have m: "appends (number r (\<lambda>r. emit_byte (0x04 OR push_bit 3 r))) [modrm 0 r 4]"
    "appends (number r (\<lambda>r. emit_byte (0x44 OR push_bit 3 r))) [modrm 1 r 4]"
    "appends (number r (\<lambda>r. emit_byte (0x84 OR push_bit 3 r))) [modrm 2 r 4]"
    using r appends_modrm [OF r, of 0 4] appends_modrm [OF r, of 1 4] appends_modrm [OF r, of 2 4]
    by (auto intro!: appends_number simp: modrm_or(1-3) [OF r])
  consider "d = 0" | "d \<noteq> 0" "is8bit d" | "d \<noteq> 0" "\<not> is8bit d" by blast
  then show ?thesis
  proof cases
    case 1
    then have eq: "emit_operand_parts r b i s d reloc_none =
      steps [steps [number r (\<lambda>r. emit_byte (0x04 OR push_bit 3 r)), emit_sib s i b]]"
      using b i s eb by (simp add: emit_operand_parts_def)
    show ?thesis unfolding eq
      by (rule emits_operandI, rule appends_one, rule appends2, rule m, rule appends_sib)
        (use 1 i s b eb i4 r in \<open>simp_all add: decode_modrm decode_sib_modrm decode_disp_0 ebp_def\<close>)
  next
    case 2
    then have eq: "emit_operand_parts r b i s d reloc_none =
      steps [steps [number r (\<lambda>r. emit_byte (0x44 OR push_bit 3 r)), emit_sib s i b, emit_byte (d AND 0xFF)]]"
      using b i s by (simp add: emit_operand_parts_def)
    show ?thesis unfolding eq
      by (rule emits_operandI, rule appends_one, rule appends3, rule m, rule appends_sib, (rule i s b)+, rule appends_byte, rule isByte_low)
        (use 2 i s b i4 r in \<open>simp_all add: decode_modrm decode_sib_modrm decode_disp_1 ebp_def\<close>)
  next
    case 3
    then have eq: "emit_operand_parts r b i s d reloc_none =
      steps [steps [number r (\<lambda>r. emit_byte (0x84 OR push_bit 3 r)), emit_sib s i b, emit_data d reloc_none]]"
      using b i s by (simp add: emit_operand_parts_def)
    show ?thesis unfolding eq
      by (rule emits_operandI, rule appends_one, rule appends3, rule m, rule appends_sib, (rule i s b)+, rule appends_data)
        (use 3 i s b i4 r d in \<open>simp_all add: decode_modrm decode_sib_modrm decode_disp_2 ebp_def\<close>)
  qed
qed

lemma emit_operand_esp:
  assumes r: "isValid r" and d: "d \<in> int32_range"
  shows "emits_operand (emit_operand_parts r esp noreg no_scale d reloc_none) r
    \<lparr> base = esp, index = noreg, scale = no_scale, displacement = d, relocationType = reloc_none \<rparr>"
proof -
  have v: "isValid esp" "isValid 4" "\<not> isValid noreg" by (simp_all add: isValid_def REGISTER_COUNT_def registers)
  have m: "appends (number r (\<lambda>r. emit_byte (0x04 OR push_bit 3 r))) [modrm 0 r 4]"
    "appends (number r (\<lambda>r. emit_byte (0x44 OR push_bit 3 r))) [modrm 1 r 4]"
    "appends (number r (\<lambda>r. emit_byte (0x84 OR push_bit 3 r))) [modrm 2 r 4]"
    using r appends_modrm [OF r, of 0 4] appends_modrm [OF r, of 1 4] appends_modrm [OF r, of 2 4]
    by (auto intro!: appends_number simp: modrm_or(1-3) [OF r])
  have b24: "appends (emit_byte 0x24) [modrm (scale_code times_1) 4 4]"
    using appends_byte [of "0x24"] by (simp add: isByte_def modrm_def)
  have sib: "decode_sib m (modrm (scale_code times_1) 4 4 # bs) =
    map_option (\<lambda>(d, t). (\<lparr> base = esp, index = noreg, scale = no_scale, displacement = d, relocationType = reloc_none \<rparr>, t))
      (decode_disp m bs)" for m bs
    using decode_sib_modrm [OF v(2) _ v(2), of times_1] by (simp add: esp_def)
  consider "d = 0" | "d \<noteq> 0" "is8bit d" | "d \<noteq> 0" "\<not> is8bit d" by blast
  then show ?thesis
  proof cases
    case 1
    then have eq: "emit_operand_parts r esp noreg no_scale d reloc_none =
      steps [number r (\<lambda>r. emit_byte (0x04 OR push_bit 3 r)), emit_byte 0x24]"
      using v by (simp add: emit_operand_parts_def)
    show ?thesis unfolding eq
      by (rule emits_operandI, rule appends2, rule m, rule b24)
        (use 1 r in \<open>simp_all add: decode_modrm sib decode_disp_0 del: scale_code.simps\<close>)
  next
    case 2
    then have eq: "emit_operand_parts r esp noreg no_scale d reloc_none =
      steps [number r (\<lambda>r. emit_byte (0x44 OR push_bit 3 r)), emit_byte 0x24, emit_byte (d AND 0xFF)]"
      using v by (simp add: emit_operand_parts_def)
    show ?thesis unfolding eq
      by (rule emits_operandI, rule appends3, rule m, rule b24, rule appends_byte, rule isByte_low)
        (use 2 r in \<open>simp_all add: decode_modrm sib decode_disp_1 del: scale_code.simps\<close>)
  next
    case 3
    then have eq: "emit_operand_parts r esp noreg no_scale d reloc_none =
      steps [number r (\<lambda>r. emit_byte (0x84 OR push_bit 3 r)), emit_byte 0x24, emit_data d reloc_none]"
      using v by (simp add: emit_operand_parts_def)
    show ?thesis unfolding eq
      by (rule emits_operandI, rule appends3, rule m, rule b24, rule appends_data)
        (use 3 r d in \<open>simp_all add: decode_modrm sib decode_disp_2 del: scale_code.simps\<close>)
  qed
qed

lemma emit_operand_base:
  assumes r: "isValid r" and b: "isValid b" "b \<noteq> esp" and d: "d \<in> int32_range"
  shows "emits_operand (emit_operand_parts r b noreg no_scale d reloc_none) r
    \<lparr> base = b, index = noreg, scale = no_scale, displacement = d, relocationType = reloc_none \<rparr>"
proof -
  have v: "\<not> isValid noreg" "b \<noteq> 4" "0 \<le> b" "b < 8"
    using b by (simp_all add: isValid_def REGISTER_COUNT_def registers)
  have m: "appends (number r (\<lambda>r. number b (\<lambda>b. emit_byte (0x00 OR push_bit 3 r OR b)))) [modrm 0 r b]"
    "appends (number r (\<lambda>r. number b (\<lambda>b. emit_byte (0x40 OR push_bit 3 r OR b)))) [modrm 1 r b]"
    "appends (number r (\<lambda>r. number b (\<lambda>b. emit_byte (0x80 OR push_bit 3 r OR b)))) [modrm 2 r b]"
    unfolding modrm_or(5-7) [OF r b(1), symmetric]
    using r b appends_modrm [OF r _ _ v(3,4), of 0] appends_modrm [OF r _ _ v(3,4), of 1] appends_modrm [OF r _ _ v(3,4), of 2]
    by (auto intro!: appends_number simp only: modrm_or(5-7) [OF r b(1)])
  consider "d = 0" "b \<noteq> ebp" | "\<not> (d = 0 \<and> b \<noteq> ebp)" "is8bit d" | "\<not> (d = 0 \<and> b \<noteq> ebp)" "\<not> is8bit d" by blast
  then show ?thesis
  proof cases
    case 1
    then have eq: "emit_operand_parts r b noreg no_scale d reloc_none =
      number r (\<lambda>r. number b (\<lambda>b. emit_byte (0x00 OR push_bit 3 r OR b)))"
      using v b by (simp add: emit_operand_parts_def)
    show ?thesis unfolding eq
      by (rule emits_operandI, rule m)
        (use 1 r v in \<open>simp_all add: decode_modrm decode_disp_0 Address_base_def ebp_def\<close>)
  next
    case 2
    then have eq: "emit_operand_parts r b noreg no_scale d reloc_none =
      steps [number r (\<lambda>r. number b (\<lambda>b. emit_byte (0x40 OR push_bit 3 r OR b))), emit_byte (d AND 0xFF)]"
      using v b by (auto simp: emit_operand_parts_def)
    show ?thesis unfolding eq
      by (rule emits_operandI, rule appends2, rule m, rule appends_byte, rule isByte_low)
        (use 2 r v in \<open>simp_all add: decode_modrm decode_disp_1 Address_base_def\<close>)
  next
    case 3
    then have eq: "emit_operand_parts r b noreg no_scale d reloc_none =
      steps [number r (\<lambda>r. number b (\<lambda>b. emit_byte (0x80 OR push_bit 3 r OR b))), emit_data d reloc_none]"
      using v b by (auto simp: emit_operand_parts_def)
    show ?thesis unfolding eq
      by (rule emits_operandI, rule appends2, rule m, rule appends_data)
        (use 3 r v d in \<open>simp_all add: decode_modrm decode_disp_2 Address_base_def\<close>)
  qed
qed

lemma emit_operand_nobase:
  assumes r: "isValid r" and d: "d \<in> int32_range"
    and i: "i = noreg \<and> s = no_scale \<or> isValid i \<and> i \<noteq> esp \<and> s \<noteq> no_scale"
  shows "emits_operand (emit_operand_parts r noreg i s d reloc_none) r
    \<lparr> base = noreg, index = i, scale = s, displacement = d, relocationType = reloc_none \<rparr>"
proof -
  have v: "\<not> isValid noreg" "isValid 5" by (simp_all add: isValid_def REGISTER_COUNT_def registers)
  have m: "appends (number r (\<lambda>r. emit_byte (0x04 OR push_bit 3 r))) [modrm 0 r 4]"
    "appends (number r (\<lambda>r. emit_byte (0x05 OR push_bit 3 r))) [modrm 0 r 5]"
    using r appends_modrm [OF r, of 0 4] appends_modrm [OF r, of 0 5]
    by (auto intro!: appends_number simp: modrm_or(1,4) [OF r])
  from i show ?thesis
  proof
    assume "i = noreg \<and> s = no_scale"
    then have n: "i = noreg" "s = no_scale" by simp_all
    have eq: "emit_operand_parts r noreg noreg no_scale d reloc_none =
      steps [number r (\<lambda>r. emit_byte (0x05 OR push_bit 3 r)), emit_data d reloc_none]"
      using v by (simp add: emit_operand_parts_def)
    show ?thesis unfolding n eq
      by (rule emits_operandI, rule appends2, rule m(2), rule appends_data)
        (use r d in \<open>simp_all add: decode_modrm decode_disp_2 Address_base_def\<close>)
  next
    assume "isValid i \<and> i \<noteq> esp \<and> s \<noteq> no_scale"
    then have j: "isValid i" "i \<noteq> esp" "i \<noteq> 4" "s \<noteq> no_scale" by (simp_all add: esp_def)
    have eq: "emit_operand_parts r noreg i s d reloc_none =
      steps [number r (\<lambda>r. emit_byte (0x04 OR push_bit 3 r)),
        number i (\<lambda>i. emit_byte (push_bit 6 (scale_code s) OR push_bit 3 i OR 0x05)), emit_data d reloc_none]"
      using v j by (simp add: emit_operand_parts_def)
    have sib: "appends (number i (\<lambda>i. emit_byte (push_bit 6 (scale_code s) OR push_bit 3 i OR 0x05))) [modrm (scale_code s) i 5]"
      using appends_sib [OF j(1,4) v(2)] by (simp add: emit_sib_def appends_def number_def v(2))
    show ?thesis unfolding eq
      by (rule emits_operandI, rule appends3, rule m(1), rule sib, rule appends_data)
        (use r d j v in \<open>simp_all add: decode_modrm decode_sib_modrm decode_disp_2\<close>)
  qed
qed

lemma emit_operand_encodes:
  assumes "isValid r" and "legal_address a" and "relocationType a = reloc_none"
  shows "\<exists>bs. appends (emit_operand r a) bs \<and> 1 \<le> length bs \<and> length bs \<le> 6 \<and>
    (\<forall>rest. decode_operand (bs @ rest) = Some (r, a, rest))"
proof -
  have legal: "base a = noreg \<or> isValid (base a)" "index a = noreg \<or> isValid (index a)" "index a \<noteq> esp"
    "index a = noreg \<longleftrightarrow> scale a = no_scale" "displacement a \<in> int32_range"
    "\<not> (index a \<noteq> noreg \<and> base a = ebp \<and> displacement a = 0)"
    using assms(2) by (auto simp: legal_address_def)
  have v: "\<not> isValid noreg" "noreg \<noteq> esp" by (simp_all add: isValid_def REGISTER_COUNT_def registers)
  obtain b i s d t where a: "a = \<lparr> base = b, index = i, scale = s, displacement = d, relocationType = t \<rparr>"
    by (cases a) blast
  have "emits_operand (emit_operand_parts r b i s d reloc_none) r
    \<lparr> base = b, index = i, scale = s, displacement = d, relocationType = reloc_none \<rparr>"
  proof (cases "b = noreg")
    case True
    show ?thesis unfolding True
      by (rule emit_operand_nobase) (use legal assms(1) v in \<open>auto simp: a\<close>)
  next
    case False
    show ?thesis
    proof (cases "i = noreg")
      case True
      then have "s = no_scale" using legal(4) by (simp add: a)
      then show ?thesis
        using True False legal(1,5) assms(1) emit_operand_esp emit_operand_base by (cases "b = esp") (auto simp: a)
    next
      case i: False
      then show ?thesis using False legal assms(1) by (intro emit_operand_index) (auto simp: a)
    qed
  qed
  then show ?thesis using assms(3) by (simp add: a emit_operand_def emits_operand_def)
qed

text \<open>
  C19. Operand encoding: for every register and every legal address that needs no relocation,
  \<open>emit_operand\<close> appends one to six bytes, nothing else, and decoding them gives back the register
  and the address, whatever bytes follow.
\<close>

theorem emit_operand_decodes:
  assumes "isValid r" and "legal_address a" and "relocationType a = reloc_none"
  shows "\<exists>bs. appends (emit_operand r a) bs \<and> 1 \<le> length bs \<and> length bs \<le> 6 \<and>
    (\<forall>rest. decode_operand (bs @ rest) = Some (r, a, rest))"
  by (rule emit_operand_encodes [OF assms])

theorem emit_operand_decodes_witness:
  "\<exists>bs. appends (emit_operand eax (Address_base ebp (-8) reloc_none)) bs \<and>
     decode_operand (bs @ [0x90]) = Some (eax, Address_base ebp (-8) reloc_none, [0x90])"
  using emit_operand_decodes [of eax "Address_base ebp (-8) reloc_none"]
  by (auto simp: legal_address_def Address_base_def isValid_def REGISTER_COUNT_def registers int32_range_def)

end
