(* ===== verification/Instructions.thy ===== *)
theory Instructions
  imports Assembler
begin

text \<open>
  \<^verbatim>\<open>vm/assembler/Assembler.cpp\<close>, the instructions that do not mention a label: one definition per
  overload, named after the mnemonic and the kinds of its arguments (\<open>reg\<close>, \<open>addr\<close>, \<open>imm\<close>, \<open>oop\<close>).
  An \<open>oop\<close> argument is the address of an object, recorded for relocation.
\<close>

section \<open>Instructions without labels\<close>

datatype Condition =
    zero | notZero | less | lessEqual | greater | greaterEqual | below | belowEqual
  | above | aboveEqual | overflow | noOverflow | negative | positive

text \<open>\<^verbatim>\<open>equal\<close>, \<^verbatim>\<open>notEqual\<close>, \<^verbatim>\<open>carrySet\<close> and \<^verbatim>\<open>carryClear\<close> are further names of four of these codes.\<close>

abbreviation (input) "equalCC \<equiv> zero"
abbreviation (input) "notEqual \<equiv> notZero"
abbreviation (input) "carrySet \<equiv> below"
abbreviation (input) "carryClear \<equiv> aboveEqual"

primrec condition_code :: "Condition \<Rightarrow> int" where
  "condition_code overflow = 0x0"
| "condition_code noOverflow = 0x1"
| "condition_code below = 0x2"
| "condition_code aboveEqual = 0x3"
| "condition_code zero = 0x4"
| "condition_code notZero = 0x5"
| "condition_code belowEqual = 0x6"
| "condition_code above = 0x7"
| "condition_code negative = 0x8"
| "condition_code positive = 0x9"
| "condition_code less = 0xC"
| "condition_code greaterEqual = 0xD"
| "condition_code lessEqual = 0xE"
| "condition_code greater = 0xF"

definition pushad :: "step" where
  "pushad = emit_byte 0x60"

definition popad :: "step" where
  "popad = emit_byte 0x61"

definition pushl_imm :: "int \<Rightarrow> step" where
  "pushl_imm imm32 = steps [emit_byte 0x68, emit_long imm32]"

definition pushl_oop :: "int \<Rightarrow> step" where
  "pushl_oop obj = steps [emit_byte 0x68, emit_data obj oop_type]"

definition pushl_reg :: "register \<Rightarrow> step" where
  "pushl_reg src = number src (\<lambda>s. emit_byte (0x50 OR s))"

definition pushl_addr :: "Address \<Rightarrow> step" where
  "pushl_addr src = steps [emit_byte 0xFF, emit_operand esi src]"

definition popl_reg :: "register \<Rightarrow> step" where
  "popl_reg dst = number dst (\<lambda>d. emit_byte (0x58 OR d))"

definition popl_addr :: "Address \<Rightarrow> step" where
  "popl_addr dst = steps [emit_byte 0x8F, emit_operand eax dst]"

definition movb_reg_addr :: "register \<Rightarrow> Address \<Rightarrow> step" where
  "movb_reg_addr dst src = steps [check (hasByteRegister dst) ''must have byte register'', emit_byte 0x8A, emit_operand dst src]"

definition movb_addr_imm :: "Address \<Rightarrow> int \<Rightarrow> step" where
  "movb_addr_imm dst imm8 = steps [emit_byte 0xC6, emit_operand eax dst, emit_byte imm8]"

definition movb_addr_reg :: "Address \<Rightarrow> register \<Rightarrow> step" where
  "movb_addr_reg dst src = steps [check (hasByteRegister src) ''must have byte register'', emit_byte 0x88, emit_operand src dst]"

definition movw_reg_addr :: "register \<Rightarrow> Address \<Rightarrow> step" where
  "movw_reg_addr dst src = steps [emit_byte 0x66, emit_byte 0x8B, emit_operand dst src]"

definition movw_addr_reg :: "Address \<Rightarrow> register \<Rightarrow> step" where
  "movw_addr_reg dst src = steps [emit_byte 0x66, emit_byte 0x89, emit_operand src dst]"

definition movl_reg_imm :: "register \<Rightarrow> int \<Rightarrow> step" where
  "movl_reg_imm dst imm32 = steps [number dst (\<lambda>d. emit_byte (0xB8 OR d)), emit_long imm32]"

definition movl_reg_oop :: "register \<Rightarrow> int \<Rightarrow> step" where
  "movl_reg_oop dst obj = steps [number dst (\<lambda>d. emit_byte (0xB8 OR d)), emit_data obj oop_type]"

definition movl_reg_reg :: "register \<Rightarrow> register \<Rightarrow> step" where
  "movl_reg_reg dst src = steps [emit_byte 0x8B, number dst (\<lambda>d. number src (\<lambda>s. emit_byte (0xC0 OR push_bit 3 d OR s)))]"

definition movl_reg_addr :: "register \<Rightarrow> Address \<Rightarrow> step" where
  "movl_reg_addr dst src = steps [emit_byte 0x8B, emit_operand dst src]"

definition movl_addr_imm :: "Address \<Rightarrow> int \<Rightarrow> step" where
  "movl_addr_imm dst imm32 = steps [emit_byte 0xC7, emit_operand eax dst, emit_long imm32]"

definition movl_addr_oop :: "Address \<Rightarrow> int \<Rightarrow> step" where
  "movl_addr_oop dst obj = steps [emit_byte 0xC7, emit_operand eax dst, emit_data obj oop_type]"

definition movl_addr_reg :: "Address \<Rightarrow> register \<Rightarrow> step" where
  "movl_addr_reg dst src = steps [emit_byte 0x89, emit_operand src dst]"

definition movsxb_reg_addr :: "register \<Rightarrow> Address \<Rightarrow> step" where
  "movsxb_reg_addr dst src = steps [emit_byte 0x0F, emit_byte 0xBE, emit_operand dst src]"

definition movsxb_reg_reg :: "register \<Rightarrow> register \<Rightarrow> step" where
  "movsxb_reg_reg dst src = steps [check (hasByteRegister src) ''must have byte register'',
      emit_byte 0x0F,
      emit_byte 0xBE,
      number dst (\<lambda>d. number src (\<lambda>s. emit_byte (0xC0 OR push_bit 3 d OR s)))]"

definition movsxw_reg_addr :: "register \<Rightarrow> Address \<Rightarrow> step" where
  "movsxw_reg_addr dst src = steps [emit_byte 0x0F, emit_byte 0xBF, emit_operand dst src]"

definition movsxw_reg_reg :: "register \<Rightarrow> register \<Rightarrow> step" where
  "movsxw_reg_reg dst src = steps [emit_byte 0x0F,
      emit_byte 0xBF,
      number dst (\<lambda>d. number src (\<lambda>s. emit_byte (0xC0 OR push_bit 3 d OR s)))]"

definition cmovccl_cc_reg_imm :: "Condition \<Rightarrow> register \<Rightarrow> int \<Rightarrow> step" where
  "cmovccl_cc_reg_imm cc dst imm32 = fails ''Unimplemented''"

definition cmovccl_cc_reg_oop :: "Condition \<Rightarrow> register \<Rightarrow> int \<Rightarrow> step" where
  "cmovccl_cc_reg_oop cc dst obj = fails ''Unimplemented''"

definition cmovccl_cc_reg_reg :: "Condition \<Rightarrow> register \<Rightarrow> register \<Rightarrow> step" where
  "cmovccl_cc_reg_reg cc dst src = fails ''Unimplemented''"

definition cmovccl_cc_reg_addr :: "Condition \<Rightarrow> register \<Rightarrow> Address \<Rightarrow> step" where
  "cmovccl_cc_reg_addr cc dst src = fails ''Unimplemented''"

definition adcl_reg_imm :: "register \<Rightarrow> int \<Rightarrow> step" where
  "adcl_reg_imm dst imm32 = emit_arith 0x81 0xD0 dst imm32"

definition adcl_reg_reg :: "register \<Rightarrow> register \<Rightarrow> step" where
  "adcl_reg_reg dst src = emit_arith_reg 0x13 0xC0 dst src"

definition addl_addr_imm :: "Address \<Rightarrow> int \<Rightarrow> step" where
  "addl_addr_imm dst imm32 = steps [emit_byte 0x81, emit_operand eax dst, emit_long imm32]"

definition addl_reg_imm :: "register \<Rightarrow> int \<Rightarrow> step" where
  "addl_reg_imm dst imm32 = emit_arith 0x81 0xC0 dst imm32"

definition addl_reg_reg :: "register \<Rightarrow> register \<Rightarrow> step" where
  "addl_reg_reg dst src = emit_arith_reg 0x03 0xC0 dst src"

definition addl_reg_addr :: "register \<Rightarrow> Address \<Rightarrow> step" where
  "addl_reg_addr dst src = steps [emit_byte 0x03, emit_operand dst src]"

definition andl_reg_imm :: "register \<Rightarrow> int \<Rightarrow> step" where
  "andl_reg_imm dst imm32 = emit_arith 0x81 0xE0 dst imm32"

definition andl_reg_reg :: "register \<Rightarrow> register \<Rightarrow> step" where
  "andl_reg_reg dst src = emit_arith_reg 0x23 0xC0 dst src"

definition cmpl_addr_imm :: "Address \<Rightarrow> int \<Rightarrow> step" where
  "cmpl_addr_imm dst imm32 = steps [emit_byte 0x81, emit_operand edi dst, emit_long imm32]"

definition cmpl_addr_oop :: "Address \<Rightarrow> int \<Rightarrow> step" where
  "cmpl_addr_oop dst obj = steps [emit_byte 0x81, emit_operand edi dst, emit_data obj oop_type]"

definition cmpl_reg_imm :: "register \<Rightarrow> int \<Rightarrow> step" where
  "cmpl_reg_imm dst imm32 = emit_arith 0x81 0xF8 dst imm32"

definition cmpl_reg_oop :: "register \<Rightarrow> int \<Rightarrow> step" where
  "cmpl_reg_oop dst obj = emit_arith_oop 0x81 0xF8 dst obj"

definition cmpl_reg_reg :: "register \<Rightarrow> register \<Rightarrow> step" where
  "cmpl_reg_reg dst src = emit_arith_reg 0x3B 0xC0 dst src"

definition cmpl_reg_addr :: "register \<Rightarrow> Address \<Rightarrow> step" where
  "cmpl_reg_addr dst src = steps [emit_byte 0x3B, emit_operand dst src]"

definition decb :: "register \<Rightarrow> step" where
  "decb dst = steps [check (hasByteRegister dst) ''must have byte register'',
      emit_byte 0xFE,
      number dst (\<lambda>d. emit_byte (0xC8 OR d))]"

definition decl_reg :: "register \<Rightarrow> step" where
  "decl_reg dst = number dst (\<lambda>d. emit_byte (0x48 OR d))"

definition decl_addr :: "Address \<Rightarrow> step" where
  "decl_addr dst = steps [emit_byte 0xFF, emit_operand ecx dst]"

definition idivl :: "register \<Rightarrow> step" where
  "idivl src = steps [emit_byte 0xF7, number src (\<lambda>s. emit_byte (0xF8 OR s))]"

definition imull_reg :: "register \<Rightarrow> step" where
  "imull_reg src = steps [emit_byte 0xF7, number src (\<lambda>s. emit_byte (0xE8 OR s))]"

definition imull_reg_reg :: "register \<Rightarrow> register \<Rightarrow> step" where
  "imull_reg_reg dst src = steps [emit_byte 0x0F,
      emit_byte 0xAF,
      number dst (\<lambda>d. number src (\<lambda>s. emit_byte (0xC0 OR push_bit 3 d OR s)))]"

definition imull_reg_reg_imm :: "register \<Rightarrow> register \<Rightarrow> int \<Rightarrow> step" where
  "imull_reg_reg_imm dst src value = (if is8bit value
     then steps [emit_byte 0x6B,
         number dst (\<lambda>d. number src (\<lambda>s. emit_byte (0xC0 OR push_bit 3 d OR s))),
         emit_byte value]
     else steps [emit_byte 0x69,
         number dst (\<lambda>d. number src (\<lambda>s. emit_byte (0xC0 OR push_bit 3 d OR s))),
         emit_long value])"

definition incl_reg :: "register \<Rightarrow> step" where
  "incl_reg dst = number dst (\<lambda>d. emit_byte (0x40 OR d))"

definition incl_addr :: "Address \<Rightarrow> step" where
  "incl_addr dst = steps [emit_byte 0xFF, emit_operand eax dst]"

definition leal :: "register \<Rightarrow> Address \<Rightarrow> step" where
  "leal dst src = steps [emit_byte 0x8D, emit_operand dst src]"

definition mull :: "register \<Rightarrow> step" where
  "mull src = steps [emit_byte 0xF7, number src (\<lambda>s. emit_byte (0xE0 OR s))]"

definition negl :: "register \<Rightarrow> step" where
  "negl dst = steps [emit_byte 0xF7, number dst (\<lambda>d. emit_byte (0xD8 OR d))]"

definition notl :: "register \<Rightarrow> step" where
  "notl dst = steps [emit_byte 0xF7, number dst (\<lambda>d. emit_byte (0xD0 OR d))]"

definition orl_reg_imm :: "register \<Rightarrow> int \<Rightarrow> step" where
  "orl_reg_imm dst imm32 = emit_arith 0x81 0xC8 dst imm32"

definition orl_reg_reg :: "register \<Rightarrow> register \<Rightarrow> step" where
  "orl_reg_reg dst src = emit_arith_reg 0x0B 0xC0 dst src"

definition orl_reg_addr :: "register \<Rightarrow> Address \<Rightarrow> step" where
  "orl_reg_addr dst src = steps [emit_byte 0x0B, emit_operand dst src]"

definition rcll :: "register \<Rightarrow> int \<Rightarrow> step" where
  "rcll dst imm8 = steps [check (isShiftCount imm8) ''illegal shift count'',
      (if imm8 = 1
     then steps [emit_byte 0xD1, number dst (\<lambda>d. emit_byte (0xD0 OR d))]
     else steps [emit_byte 0xC1, number dst (\<lambda>d. emit_byte (0xD0 OR d)), emit_byte imm8])]"

definition sarl_reg_imm :: "register \<Rightarrow> int \<Rightarrow> step" where
  "sarl_reg_imm dst imm8 = steps [check (isShiftCount imm8) ''illegal shift count'',
      (if imm8 = 1
     then steps [emit_byte 0xD1, number dst (\<lambda>d. emit_byte (0xF8 OR d))]
     else steps [emit_byte 0xC1, number dst (\<lambda>d. emit_byte (0xF8 OR d)), emit_byte imm8])]"

definition sarl_reg :: "register \<Rightarrow> step" where
  "sarl_reg dst = steps [emit_byte 0xD3, number dst (\<lambda>d. emit_byte (0xF8 OR d))]"

definition sbbl_reg_imm :: "register \<Rightarrow> int \<Rightarrow> step" where
  "sbbl_reg_imm dst imm32 = fails ''Unimplemented''"

definition sbbl_reg_reg :: "register \<Rightarrow> register \<Rightarrow> step" where
  "sbbl_reg_reg dst src = emit_arith_reg 0x1B 0xC0 dst src"

definition shldl :: "register \<Rightarrow> register \<Rightarrow> step" where
  "shldl dst src = steps [emit_byte 0x0F,
      emit_byte 0xA5,
      number src (\<lambda>s. number dst (\<lambda>d. emit_byte (0xC0 OR push_bit 3 s OR d)))]"

definition shll_reg_imm :: "register \<Rightarrow> int \<Rightarrow> step" where
  "shll_reg_imm dst imm8 = steps [check (isShiftCount imm8) ''illegal shift count'',
      (if imm8 = 1
     then steps [emit_byte 0xD1, number dst (\<lambda>d. emit_byte (0xE0 OR d))]
     else steps [emit_byte 0xC1, number dst (\<lambda>d. emit_byte (0xE0 OR d)), emit_byte imm8])]"

definition shll_reg :: "register \<Rightarrow> step" where
  "shll_reg dst = steps [emit_byte 0xD3, number dst (\<lambda>d. emit_byte (0xE0 OR d))]"

definition shrdl :: "register \<Rightarrow> register \<Rightarrow> step" where
  "shrdl dst src = steps [emit_byte 0x0F,
      emit_byte 0xAD,
      number src (\<lambda>s. number dst (\<lambda>d. emit_byte (0xC0 OR push_bit 3 s OR d)))]"

definition shrl_reg_imm :: "register \<Rightarrow> int \<Rightarrow> step" where
  "shrl_reg_imm dst imm8 = steps [check (isShiftCount imm8) ''illegal shift count'',
      emit_byte 0xC1,
      number dst (\<lambda>d. emit_byte (0xE8 OR d)),
      emit_byte imm8]"

definition shrl_reg :: "register \<Rightarrow> step" where
  "shrl_reg dst = steps [emit_byte 0xD3, number dst (\<lambda>d. emit_byte (0xE8 OR d))]"

definition subl_reg_imm :: "register \<Rightarrow> int \<Rightarrow> step" where
  "subl_reg_imm dst imm32 = emit_arith 0x81 0xE8 dst imm32"

definition subl_reg_reg :: "register \<Rightarrow> register \<Rightarrow> step" where
  "subl_reg_reg dst src = emit_arith_reg 0x2B 0xC0 dst src"

definition subl_reg_addr :: "register \<Rightarrow> Address \<Rightarrow> step" where
  "subl_reg_addr dst src = steps [emit_byte 0x2B, emit_operand dst src]"

definition testb :: "register \<Rightarrow> int \<Rightarrow> step" where
  "testb dst imm8 = steps [check (hasByteRegister dst) ''must have byte register'', emit_arith_b 0xF6 0xC0 dst imm8]"

definition testl_reg_imm :: "register \<Rightarrow> int \<Rightarrow> step" where
  "testl_reg_imm dst imm32 = steps [number dst (\<lambda>d. if d = 0
     then emit_byte 0xA9
     else steps [emit_byte 0xF7, number dst (\<lambda>d. emit_byte (0xC0 OR d))]),
      emit_long imm32]"

definition testl_reg_reg :: "register \<Rightarrow> register \<Rightarrow> step" where
  "testl_reg_reg dst src = emit_arith_reg 0x85 0xC0 dst src"

definition xorl_reg_imm :: "register \<Rightarrow> int \<Rightarrow> step" where
  "xorl_reg_imm dst imm32 = emit_arith 0x81 0xF0 dst imm32"

definition xorl_reg_reg :: "register \<Rightarrow> register \<Rightarrow> step" where
  "xorl_reg_reg dst src = emit_arith_reg 0x33 0xC0 dst src"

definition cdq :: "step" where
  "cdq = emit_byte 0x99"

definition hlt :: "step" where
  "hlt = emit_byte 0xF4"

definition int3 :: "bool \<Rightarrow> step" where
  "int3 EnableInt3 = (if EnableInt3
     then emit_byte 0xCC
     else steps [])"

definition nop :: "step" where
  "nop = emit_byte 0x90"

definition ret_imm :: "int \<Rightarrow> step" where
  "ret_imm imm16 = (if imm16 = 0
     then emit_byte 0xC3
     else steps [emit_byte 0xC2, emit_byte (imm16 AND 0xFF), emit_byte (drop_bit 8 imm16 AND 0xFF)])"

definition call_reg :: "register \<Rightarrow> step" where
  "call_reg dst = steps [emit_byte 0xFF, number dst (\<lambda>d. emit_byte (0xD0 OR d))]"

definition call_addr :: "Address \<Rightarrow> step" where
  "call_addr address = steps [emit_byte 0xFF, emit_operand edx address]"

definition jmp_reg :: "register \<Rightarrow> step" where
  "jmp_reg reg = steps [emit_byte 0xFF, number reg (\<lambda>r. emit_byte (0xE0 OR r))]"

definition jmp_addr :: "Address \<Rightarrow> step" where
  "jmp_addr address = steps [emit_byte 0xFF, emit_operand esp address]"

definition fld1 :: "step" where
  "fld1 = steps [emit_byte 0xD9, emit_byte 0xE8]"

definition fldz :: "step" where
  "fldz = steps [emit_byte 0xD9, emit_byte 0xEE]"

definition fld_s :: "Address \<Rightarrow> step" where
  "fld_s a = steps [emit_byte 0xD9, emit_operand eax a]"

definition fld_d :: "Address \<Rightarrow> step" where
  "fld_d a = steps [emit_byte 0xDD, emit_operand eax a]"

definition fstp_s :: "Address \<Rightarrow> step" where
  "fstp_s a = steps [emit_byte 0xD9, emit_operand ebx a]"

definition fstp_d :: "Address \<Rightarrow> step" where
  "fstp_d a = steps [emit_byte 0xDD, emit_operand ebx a]"

definition fild_s :: "Address \<Rightarrow> step" where
  "fild_s a = steps [emit_byte 0xDB, emit_operand eax a]"

definition fild_d :: "Address \<Rightarrow> step" where
  "fild_d a = steps [emit_byte 0xDF, emit_operand ebp a]"

definition fistp_s :: "Address \<Rightarrow> step" where
  "fistp_s a = steps [emit_byte 0xDB, emit_operand ebx a]"

definition fistp_d :: "Address \<Rightarrow> step" where
  "fistp_d a = steps [emit_byte 0xDF, emit_operand edi a]"

definition fabs :: "step" where
  "fabs = steps [emit_byte 0xD9, emit_byte 0xE1]"

definition fchs :: "step" where
  "fchs = steps [emit_byte 0xD9, emit_byte 0xE0]"

definition fadd_d :: "Address \<Rightarrow> step" where
  "fadd_d a = steps [emit_byte 0xDC, emit_operand eax a]"

definition fsub_d :: "Address \<Rightarrow> step" where
  "fsub_d a = steps [emit_byte 0xDC, emit_operand esp a]"

definition fmul_d :: "Address \<Rightarrow> step" where
  "fmul_d a = steps [emit_byte 0xDC, emit_operand ecx a]"

definition fdiv_d :: "Address \<Rightarrow> step" where
  "fdiv_d a = steps [emit_byte 0xDC, emit_operand esi a]"

definition fadd :: "int \<Rightarrow> step" where
  "fadd i = emit_farith 0xDC 0xC0 i"

definition fsub :: "int \<Rightarrow> step" where
  "fsub i = emit_farith 0xDC 0xE8 i"

definition fmul :: "int \<Rightarrow> step" where
  "fmul i = emit_farith 0xDC 0xC8 i"

definition fdiv :: "int \<Rightarrow> step" where
  "fdiv i = emit_farith 0xDC 0xF8 i"

definition faddp :: "int \<Rightarrow> step" where
  "faddp i = emit_farith 0xDE 0xC0 i"

definition fsubp :: "int \<Rightarrow> step" where
  "fsubp i = emit_farith 0xDE 0xE8 i"

definition fsubrp :: "int \<Rightarrow> step" where
  "fsubrp i = emit_farith 0xDE 0xE0 i"

definition fmulp :: "int \<Rightarrow> step" where
  "fmulp i = emit_farith 0xDE 0xC8 i"

definition fdivp :: "int \<Rightarrow> step" where
  "fdivp i = emit_farith 0xDE 0xF8 i"

definition fprem :: "step" where
  "fprem = steps [emit_byte 0xD9, emit_byte 0xF8]"

definition fprem1 :: "step" where
  "fprem1 = steps [emit_byte 0xD9, emit_byte 0xF5]"

definition fxch :: "int \<Rightarrow> step" where
  "fxch i = emit_farith 0xD9 0xC8 i"

definition fincstp :: "step" where
  "fincstp = steps [emit_byte 0xD9, emit_byte 0xF7]"

definition ffree :: "int \<Rightarrow> step" where
  "ffree i = emit_farith 0xDD 0xC0 i"

definition ftst :: "step" where
  "ftst = steps [emit_byte 0xD9, emit_byte 0xE4]"

definition fcompp :: "step" where
  "fcompp = steps [emit_byte 0xDE, emit_byte 0xD9]"

definition fnstsw_ax :: "step" where
  "fnstsw_ax = steps [emit_byte 0xDF, emit_byte 0xE0]"

definition fwait :: "step" where
  "fwait = emit_byte 0x9B"

section \<open>What the processor reads\<close>

text \<open>
  The two-operand arithmetic instructions in the Intel format: \<^verbatim>\<open>00 op 011\<close> with a register or memory
  operand, and \<^verbatim>\<open>10000001\<close> or \<^verbatim>\<open>10000011\<close> with the operation in the middle field and a long or a
  sign-extended byte.
\<close>

datatype alu_source = Imm int | Rgs register | Mem Address

definition decode_alu :: "bytes \<Rightarrow> (int \<times> register \<times> alu_source \<times> bytes) option" where
  "decode_alu bs = (case bs of
     o1 # m # r \<Rightarrow>
       let md = uint m div 64; mid = uint m div 8 mod 8; low = uint m mod 8 in
       if o1 = 0x81 \<or> o1 = 0x83 then
         if md = 3 then map_option (\<lambda>(v, t). (mid, low, Imm v, t)) (decode_disp (if o1 = 0x83 then 1 else 2) r) else None
       else if uint o1 < 64 \<and> uint o1 mod 8 = 3 then
         if md = 3 then Some (uint o1 div 8, mid, Rgs low, r)
         else map_option (\<lambda>(g, a, t). (uint o1 div 8, g, Mem a, t)) (decode_operand (m # r))
       else None
   | _ \<Rightarrow> None)"

definition alu_imm :: "(int \<times> (register \<Rightarrow> int \<Rightarrow> step)) list" where
  "alu_imm = [(0, addl_reg_imm), (1, orl_reg_imm), (2, adcl_reg_imm), (4, andl_reg_imm), (5, subl_reg_imm),
     (6, xorl_reg_imm), (7, cmpl_reg_imm)]"

definition alu_reg :: "(int \<times> (register \<Rightarrow> register \<Rightarrow> step)) list" where
  "alu_reg = [(0, addl_reg_reg), (1, orl_reg_reg), (2, adcl_reg_reg), (3, sbbl_reg_reg), (4, andl_reg_reg),
     (5, subl_reg_reg), (6, xorl_reg_reg), (7, cmpl_reg_reg)]"

definition alu_mem :: "(int \<times> (register \<Rightarrow> Address \<Rightarrow> step)) list" where
  "alu_mem = [(0, addl_reg_addr), (1, orl_reg_addr), (5, subl_reg_addr), (7, cmpl_reg_addr)]"

lemma byte_or: "isValid r \<Longrightarrow> 0 \<le> k \<Longrightarrow> 8 * k OR r = 8 * k + r"
  using or_push_bit [of r 3 k] by (simp add: isValid_def REGISTER_COUNT_def push_bit_eq_mult mult.commute)

lemma modrm3:
  assumes "isValid r" and "0 \<le> op" and "op < 8"
  shows "appends (emit_byte (0xC0 + 8 * op + r)) [modrm 3 op r]" and "uint (modrm 3 op r) div 64 = 3"
    and "uint (modrm 3 op r) div 8 mod 8 = op" and "uint (modrm 3 op r) mod 8 = r"
proof -
  have v: "isValid op" using assms(2,3) by (simp add: isValid_def REGISTER_COUNT_def)
  have r: "0 \<le> r" "r < 8" using assms(1) by (simp_all add: isValid_def REGISTER_COUNT_def)
  show "appends (emit_byte (0xC0 + 8 * op + r)) [modrm 3 op r]" using appends_modrm [OF v _ _ r, of 3] by simp
  show "uint (modrm 3 op r) div 64 = 3" "uint (modrm 3 op r) div 8 mod 8 = op" "uint (modrm 3 op r) mod 8 = r"
    unfolding modrm_def using modrm_fields(2-4) [OF v _ _ r, of 3] by simp_all
qed

lemma emit_arith_decodes:
  assumes "isValid r" and "v \<in> int32_range" and "0 \<le> op" and "op < 8"
  shows "\<exists>bs. appends (emit_arith 0x81 (0xC0 + 8 * op) r v) bs \<and>
    (\<forall>rest. decode_alu (bs @ rest) = Some (op, r, Imm v, rest))"
proof -
  note m = modrm3 [OF assms(1,3,4)]
  have o: "(0xC0 + 8 * op) OR r = 0xC0 + 8 * op + r" using byte_or [OF assms(1), of "24 + op"] assms(3) by simp
  have g: "isByte (0xC0 + 8 * op)" using assms(3,4) by (simp add: isByte_def)
  have n: "appends (number r (\<lambda>d. emit_byte ((0xC0 + 8 * op) OR d))) [modrm 3 op r]"
    using m(1) assms(1) o by (intro appends_number) simp_all
  show ?thesis
  proof (cases "is8bit v")
    case True
    then have eq: "emit_arith 0x81 (0xC0 + 8 * op) r v = steps [steps [emit_byte 0x83,
        number r (\<lambda>d. emit_byte ((0xC0 + 8 * op) OR d)), emit_byte (v AND 0xFF)]]"
      using g by (simp add: emit_arith_def isByte_def)
    have "appends (emit_arith 0x81 (0xC0 + 8 * op) r v) ([word_of_int 0x83] @ [modrm 3 op r] @ [word_of_int (v AND 0xFF)])"
      unfolding eq by (intro appends_one appends3 appends_byte n isByte_low) (simp add: isByte_def)
    moreover have "decode_alu ([word_of_int 0x83] @ [modrm 3 op r] @ [word_of_int (v AND 0xFF)] @ rest) =
      Some (op, r, Imm v, rest)" for rest
      using decode_disp_1 [OF True] m(2-4) by (simp add: decode_alu_def)
    ultimately show ?thesis by (intro exI conjI) auto
  next
    case False
    then have eq: "emit_arith 0x81 (0xC0 + 8 * op) r v = steps [steps [emit_byte 0x81,
        number r (\<lambda>d. emit_byte ((0xC0 + 8 * op) OR d)), emit_long v]]"
      using g by (simp add: emit_arith_def isByte_def)
    have "appends (emit_arith 0x81 (0xC0 + 8 * op) r v) ([word_of_int 0x81] @ [modrm 3 op r] @ bytes_of_long v)"
      unfolding eq by (intro appends_one appends3 appends_byte n appends_long) (simp add: isByte_def)
    moreover have "decode_alu ([word_of_int 0x81] @ [modrm 3 op r] @ bytes_of_long v @ rest) = Some (op, r, Imm v, rest)" for rest
      using decode_disp_2 [OF assms(2)] m(2-4) by (simp add: decode_alu_def)
    ultimately show ?thesis by (intro exI conjI) auto
  qed
qed

lemma alu_opcode:
  assumes "0 \<le> op" and "op < 8"
  shows "(word_of_int (8 * op + 3) :: 8 word) \<noteq> 0x81" "(word_of_int (8 * op + 3) :: 8 word) \<noteq> 0x83"
    "uint (word_of_int (8 * op + 3) :: 8 word) < 64" "uint (word_of_int (8 * op + 3) :: 8 word) mod 8 = 3"
    "uint (word_of_int (8 * op + 3) :: 8 word) div 8 = op"
proof -
  have u: "uint (word_of_int (8 * op + 3) :: 8 word) = 8 * op + 3"
    unfolding uint_word_of_int using assms by (intro mod_pos_pos_trivial) simp_all
  show "uint (word_of_int (8 * op + 3) :: 8 word) < 64" using assms unfolding u by simp
  then have "uint (word_of_int (8 * op + 3) :: 8 word) \<noteq> uint (0x81 :: 8 word)"
    "uint (word_of_int (8 * op + 3) :: 8 word) \<noteq> uint (0x83 :: 8 word)" by auto
  then show "(word_of_int (8 * op + 3) :: 8 word) \<noteq> 0x81" "(word_of_int (8 * op + 3) :: 8 word) \<noteq> 0x83" by metis+
  show "uint (word_of_int (8 * op + 3) :: 8 word) mod 8 = 3" unfolding u by (rule int_mod_pos_eq [of _ _ op]) simp_all
  show "uint (word_of_int (8 * op + 3) :: 8 word) div 8 = op" unfolding u by (rule int_div_pos_eq [of _ _ _ 3]) simp_all
qed

lemma emit_arith_reg_decodes:
  assumes "isValid d" and "isValid s" and "0 \<le> op" and "op < 8"
  shows "\<exists>bs. appends (emit_arith_reg (8 * op + 3) 0xC0 d s) bs \<and>
    (\<forall>rest. decode_alu (bs @ rest) = Some (op, d, Rgs s, rest))"
proof -
  have d: "0 \<le> d" "d < 8" using assms(1) by (simp_all add: isValid_def REGISTER_COUNT_def)
  note m = modrm3 [OF assms(2) d]
  have b: "isByte (8 * op + 3)" using assms(3,4) by (simp add: isByte_def)
  have "0xC0 OR push_bit 3 d OR s = 0xC0 + 8 * d + s" using modrm_or(8) [OF assms(1,2)] by simp
  then have "appends (number d (\<lambda>d. number s (\<lambda>s. emit_byte (0xC0 OR push_bit 3 d OR s)))) [modrm 3 d s]"
    using m(1) assms(1,2) by (intro appends_number) simp_all
  moreover have "emit_arith_reg (8 * op + 3) 0xC0 d s =
    steps [emit_byte (8 * op + 3), number d (\<lambda>d. number s (\<lambda>s. emit_byte (0xC0 OR push_bit 3 d OR s)))]"
    using b by (simp add: emit_arith_reg_def isByte_def)
  ultimately have "appends (emit_arith_reg (8 * op + 3) 0xC0 d s) ([word_of_int (8 * op + 3)] @ [modrm 3 d s])"
    using appends2 [OF appends_byte [OF b]] by simp
  moreover have "decode_alu ([word_of_int (8 * op + 3)] @ [modrm 3 d s] @ rest) = Some (op, d, Rgs s, rest)" for rest
    using alu_opcode [OF assms(3,4)] m(2-4) by (simp add: decode_alu_def)
  ultimately show ?thesis by (intro exI conjI) auto
qed

lemma emit_operand_alu:
  assumes "isValid r" and "legal_address a" and "relocationType a = reloc_none" and "0 \<le> op" and "op < 8"
    and enc: "\<exists>bs. appends (emit_operand r a) bs \<and> 1 \<le> length bs \<and> length bs \<le> 6 \<and>
      (\<forall>rest. decode_operand (bs @ rest) = Some (r, a, rest))"
  shows "\<exists>bs. appends (steps [emit_byte (8 * op + 3), emit_operand r a]) bs \<and>
    (\<forall>rest. decode_alu (bs @ rest) = Some (op, r, Mem a, rest))"
proof -
  from enc obtain bs where bs: "appends (emit_operand r a) bs" "1 \<le> length bs"
    "\<And>rest. decode_operand (bs @ rest) = Some (r, a, rest)" by blast
  obtain m t where m: "bs = m # t" using bs(2) by (cases bs) auto
  have "uint m div 64 \<noteq> 3" using bs(3) [of "[]"] by (auto simp: m decode_operand_def Let_def split: if_splits)
  then have "decode_alu ([word_of_int (8 * op + 3)] @ bs @ rest) = Some (op, r, Mem a, rest)" for rest
    using bs(3) [of rest] alu_opcode [OF assms(4,5)] by (simp add: decode_alu_def m)
  moreover have "appends (steps [emit_byte (8 * op + 3), emit_operand r a]) ([word_of_int (8 * op + 3)] @ bs)"
    using bs(1) assms(4,5) by (intro appends2 appends_byte) (simp_all add: isByte_def)
  ultimately show ?thesis by (intro exI conjI) auto
qed



end
