(* ===== verification/Labels.thy ===== *)
theory Labels
  imports Instructions
begin

text \<open>
  \<^verbatim>\<open>Label\<close>, \<^verbatim>\<open>Displacement\<close> and the label part of \<^verbatim>\<open>Assembler.cpp\<close>: \<open>bind_to\<close>, \<open>link_to\<close>, \<open>bind\<close>,
  \<open>finalize\<close>, and the instructions that refer to a label. A label is an integer: negative when bound
  to a position, 0 when unused, and otherwise one more than the position of the last reference to
  it; the references to an unbound label form a chain through the code, each holding the position
  of the one before. \<open>chain c ps\<close> says that the references at the positions \<open>ps\<close> are such a chain.
  The flag \<open>E\<close> is \<^verbatim>\<open>EliminateJumpsToJumps\<close>.
\<close>

section \<open>Labels and displacements\<close>

type_synonym label = int

definition is_bound :: "label \<Rightarrow> bool" where "is_bound L \<longleftrightarrow> L < 0"
definition is_unbound :: "label \<Rightarrow> bool" where "is_unbound L \<longleftrightarrow> 0 < L"
definition is_unused :: "label \<Rightarrow> bool" where "is_unused L \<longleftrightarrow> L = 0"

definition label_pos :: "label \<Rightarrow> int run" where
  "label_pos L = (if L < 0 then ret (- L - 1) else if 0 < L then ret (L - 1) else raise (Fatal ''ShouldNotReachHere''))"

definition label_bind_to :: "int \<Rightarrow> label run" where
  "label_bind_to pos = bindR (guard (0 \<le> pos) ''illegal position'') (\<lambda>_. ret (- pos - 1))"

definition label_link_to :: "int \<Rightarrow> label run" where
  "label_link_to pos = bindR (guard (0 \<le> pos) ''illegal position'') (\<lambda>_. ret (pos + 1))"

definition label_unuse :: label where
  "label_unuse = 0"

datatype disp_kind = call_disp | absolute_jump | conditional_jump | ic_info_disp

primrec kind_code :: "disp_kind \<Rightarrow> int" where
  "kind_code call_disp = 0"
| "kind_code absolute_jump = 1"
| "kind_code conditional_jump = 2"
| "kind_code ic_info_disp = 3"

definition info_size :: nat where "info_size = number_of_flags"
definition type_size :: nat where "type_size = 2"
definition next_size :: nat where "next_size = 32 - (type_size + info_size)"
definition info_pos :: nat where "info_pos = 0"
definition type_pos :: nat where "type_pos = info_pos + info_size"
definition next_pos :: nat where "next_pos = type_pos + type_size"
definition info_mask :: int where "info_mask = 2 ^ info_size - 1"
definition type_mask :: int where "type_mask = 2 ^ type_size - 1"
definition next_mask :: int where "next_mask = 2 ^ next_size - 1"

definition disp_type :: "int \<Rightarrow> disp_kind" where
  "disp_type d =
     (let t = drop_bit type_pos d AND type_mask in
      if t = 0 then call_disp else if t = 1 then absolute_jump else if t = 2 then conditional_jump else ic_info_disp)"

definition disp_info :: "int \<Rightarrow> int" where
  "disp_info d = drop_bit info_pos d AND info_mask"

definition disp_next :: "int \<Rightarrow> label run" where
  "disp_next d = (let n = drop_bit next_pos d AND next_mask in if 0 < n then label_link_to n else ret label_unuse)"

definition Displacement :: "label \<Rightarrow> disp_kind \<Rightarrow> int \<Rightarrow> int run" where
  "Displacement L t info =
     bindR (guard (\<not> is_bound L) ''label is bound'') (\<lambda>_.
     bindR (if is_unbound L
            then bindR (label_pos L) (\<lambda>p. bindR (guard (0 < p) ''Displacements must be at positions > 0'') (\<lambda>_. ret p))
            else ret 0) (\<lambda>next.
     bindR (guard (next AND NOT next_mask = 0) ''next field too small'') (\<lambda>_.
     bindR (guard (kind_code t AND NOT type_mask = 0) ''type field too small'') (\<lambda>_.
     bindR (guard (info AND NOT info_mask = 0) ''info field too small'') (\<lambda>_.
     ret (push_bit next_pos next OR push_bit type_pos (kind_code t) OR push_bit info_pos info))))))"

definition disp_link_to :: "int \<Rightarrow> label \<Rightarrow> int run" where
  "disp_link_to d L = Displacement L (disp_type d) (disp_info d)"

section \<open>Binding and linking\<close>

text \<open>The value \<^verbatim>\<open>bind_to\<close> stores for the reference \<open>d\<close> at \<open>p\<close> when its label is bound to \<open>pos\<close>.\<close>

definition fixup_value :: "bytes \<Rightarrow> int \<Rightarrow> int \<Rightarrow> int \<Rightarrow> int run" where
  "fixup_value c pos p d = (case disp_type d of
     call_disp \<Rightarrow>
       bindR (byte_at c (p - 1)) (\<lambda>b. bindR (guard (b = 0xE8) ''call expected'') (\<lambda>_. ret (pos - (p + 4))))
   | absolute_jump \<Rightarrow>
       bindR (byte_at c (p - 1)) (\<lambda>b. bindR (guard (b = 0xE9) ''jmp expected'') (\<lambda>_. ret (pos - (p + 4))))
   | conditional_jump \<Rightarrow>
       bindR (byte_at c (p - 2)) (\<lambda>b. bindR (guard (b = 0x0F) ''jcc expected'') (\<lambda>_.
       bindR (byte_at c (p - 1)) (\<lambda>b. bindR (guard (b = 0x80 OR disp_info d) ''jcc expected'') (\<lambda>_. ret (pos - (p + 4))))))
   | ic_info_disp \<Rightarrow>
       bindR (byte_at c (p - 1)) (\<lambda>b. bindR (guard (b = 0xA9) ''test eax expected'') (\<lambda>_.
       let offs = pos - (p - info_offset) in
       bindR (guard (drop_bit number_of_flags (signed_take_bit 31 (push_bit number_of_flags offs)) = offs)
         ''NonLocalReturn offset out of bounds'') (\<lambda>_. ret (push_bit number_of_flags offs OR disp_info d)))))"

partial_function (option) bind_loop :: "label \<Rightarrow> int \<Rightarrow> bytes \<Rightarrow> bytes run" where
  "bind_loop L pos c =
     (if is_unbound L
      then bindR (label_pos L) (\<lambda>p.
           bindR (long_at c p) (\<lambda>d.
           bindR (fixup_value c pos p d) (\<lambda>v.
           bindR (long_at_put c p v) (\<lambda>c'.
           bindR (disp_next d) (\<lambda>L'. bind_loop L' pos c')))))
      else ret c)"

definition with_code :: "assembler \<Rightarrow> bytes \<Rightarrow> assembler" where
  "with_code a c = a\<lparr> code := (code a)\<lparr> codeBytes := c \<rparr> \<rparr>"

definition bind_to :: "label \<Rightarrow> int \<Rightarrow> assembler \<Rightarrow> (label \<times> assembler) run" where
  "bind_to L pos a =
     bindR (guard (0 \<le> pos \<and> pos \<le> offset a) ''must have a valid binding position'') (\<lambda>_.
     bindR (bind_loop L pos (bytes_of a)) (\<lambda>c.
     bindR (label_bind_to pos) (\<lambda>L'. ret (L', with_code a c))))"

partial_function (option) last_link :: "label \<Rightarrow> bytes \<Rightarrow> int run" where
  "last_link q c =
     bindR (label_pos q) (\<lambda>p. bindR (long_at c p) (\<lambda>d. bindR (disp_next d) (\<lambda>q'.
       if is_unbound q' then last_link q' c else ret p)))"

definition link_to :: "label \<Rightarrow> label \<Rightarrow> assembler \<Rightarrow> (label \<times> assembler) run" where
  "link_to L appendix a =
     (if is_unbound appendix then
        if is_unbound L then
          bindR (last_link L (bytes_of a)) (\<lambda>p.
          bindR (long_at (bytes_of a) p) (\<lambda>d.
          bindR (disp_link_to d appendix) (\<lambda>d'.
          bindR (long_at_put (bytes_of a) p d') (\<lambda>c. ret (L, with_code a c)))))
        else ret (appendix, a)
      else ret (L, a))"

definition finalize :: "assembler \<Rightarrow> assembler run" where
  "finalize a =
     (if is_unbound (unbound_label a)
      then bindR (bind_to (unbound_label a) (binding_pos a) a) (\<lambda>(L, a'). ret (a'\<lparr> unbound_label := L \<rparr>))
      else ret a)"

text \<open>Jumps to the next instruction are dropped when their label is bound right after them.\<close>

partial_function (option) eliminate_jumps :: "label \<Rightarrow> assembler \<Rightarrow> (label \<times> assembler) run" where
  "eliminate_jumps L a =
     (if is_unbound L
      then bindR (label_pos L) (\<lambda>p.
           if p + 4 = offset a
           then bindR (long_at (bytes_of a) p) (\<lambda>d.
             if disp_type d = absolute_jump
             then bindR (byte_at (bytes_of a) (offset a - 5)) (\<lambda>b.
                  bindR (guard (b = 0xE9) ''jmp expected'') (\<lambda>_.
                  bindR (disp_next d) (\<lambda>L'.
                  bindR (set_code_end (take (length (bytes_of a) - 5) (bytes_of a)) (code a)) (\<lambda>b'.
                    eliminate_jumps L' (a\<lparr> code := b' \<rparr>)))))
             else ret (L, a))
           else ret (L, a))
      else ret (L, a))"

definition resolve_pending :: "label \<Rightarrow> assembler \<Rightarrow> (label \<times> assembler) run" where
  "resolve_pending L a =
     (if is_unbound (unbound_label a) then
        if binding_pos a = offset a
        then bindR (link_to L (unbound_label a) a) (\<lambda>(L', a'). ret (L', a'\<lparr> unbound_label := label_unuse \<rparr>))
        else bindR (guard (binding_pos a < offset a) ''assembler error'') (\<lambda>_.
             bindR (bind_to (unbound_label a) (binding_pos a) a) (\<lambda>(U, a'). ret (L, a'\<lparr> unbound_label := U \<rparr>)))
      else ret (L, a))"

definition bind_label :: "bool \<Rightarrow> label \<Rightarrow> assembler \<Rightarrow> (label \<times> assembler) run" where
  "bind_label E L a =
     bindR (guard (\<not> is_bound L) ''label can only be bound once'') (\<lambda>_.
     if E then
       bindR (resolve_pending L a) (\<lambda>(L1, a1).
       bindR (guard (\<not> is_unbound (unbound_label a1)) ''assembler error'') (\<lambda>_.
       bindR (eliminate_jumps L1 a1) (\<lambda>(L2, a2).
       bind_to label_unuse (offset a2) (a2\<lparr> unbound_label := L2, binding_pos := offset a2 \<rparr>))))
     else bind_to L (offset a) a)"

definition merge_labels :: "label \<Rightarrow> label \<Rightarrow> step" where
  "merge_labels L with_label = fails ''Unimplemented''"

section \<open>Instructions that refer to a label\<close>

text \<open>\<open>emit_disp\<close> is the common end of a reference to an unbound label: chain it and emit the long.\<close>

definition emit_disp :: "disp_kind \<Rightarrow> int \<Rightarrow> label \<Rightarrow> assembler \<Rightarrow> (label \<times> assembler) run" where
  "emit_disp t info L a =
     bindR (Displacement L t info) (\<lambda>d.
     bindR (label_link_to (offset a)) (\<lambda>L'.
     bindR (emit_long d a) (\<lambda>a'. ret (L', a'))))"

definition call_label :: "label \<Rightarrow> assembler \<Rightarrow> (label \<times> assembler) run" where
  "call_label L a =
     (if is_bound L then
        bindR (label_pos L) (\<lambda>p.
        let offs = p - offset a in
        bindR (steps [check (offs \<le> 0) ''assembler error'', emit_byte 0xE8, emit_long (offs - 5)] a) (\<lambda>a'. ret (L, a')))
      else bindR (emit_byte 0xE8 a) (emit_disp call_disp 0 L))"

definition jmp_label :: "bool \<Rightarrow> label \<Rightarrow> assembler \<Rightarrow> (label \<times> assembler) run" where
  "jmp_label E L a =
     (if is_bound L then
        bindR (label_pos L) (\<lambda>p.
        let offs = p - offset a in
        bindR (steps [check (offs \<le> 0) ''assembler error'',
                      if isByte (offs - 2) then steps [emit_byte 0xEB, emit_byte ((offs - 2) AND 0xFF)]
                      else steps [emit_byte 0xE9, emit_long (offs - 5)]] a) (\<lambda>a'. ret (L, a')))
      else
        bindR (if E \<and> is_unbound (unbound_label a) \<and> binding_pos a = offset a
               then bindR (link_to L (unbound_label a) a) (\<lambda>(L', a'). ret (L', a'\<lparr> unbound_label := label_unuse \<rparr>))
               else ret (L, a)) (\<lambda>(L, a).
        bindR (emit_byte 0xE9 a) (emit_disp absolute_jump 0 L)))"

definition jcc_label :: "Condition \<Rightarrow> label \<Rightarrow> assembler \<Rightarrow> (label \<times> assembler) run" where
  "jcc_label cc L a =
     (if is_bound L then
        bindR (label_pos L) (\<lambda>p.
        let offs = p - offset a in
        bindR (steps [check (offs \<le> 0) ''assembler error'',
                      if isByte (offs - 2)
                      then steps [emit_byte (0x70 OR condition_code cc), emit_byte ((offs - 2) AND 0xFF)]
                      else steps [emit_byte 0x0F, emit_byte (0x80 OR condition_code cc), emit_long (offs - 6)]] a)
          (\<lambda>a'. ret (L, a')))
      else
        bindR (steps [emit_byte 0x0F, emit_byte (0x80 OR condition_code cc)] a)
          (emit_disp conditional_jump (condition_code cc) L))"

definition ic_info_label :: "label \<Rightarrow> int \<Rightarrow> assembler \<Rightarrow> (label \<times> assembler) run" where
  "ic_info_label L flags a =
     bindR (guard (drop_bit number_of_flags (take_bit 32 flags) = 0) ''too many flags set'') (\<lambda>_.
     if is_bound L then
       bindR (label_pos L) (\<lambda>p.
       let offs = p - offset a in
       bindR (steps [check (offs \<le> 0) ''assembler error'',
                     check (drop_bit number_of_flags (signed_take_bit 31 (push_bit number_of_flags offs)) = offs)
                       ''NonLocalReturn offset out of bounds'',
                     emit_byte 0xA9,
                     emit_long (push_bit number_of_flags offs OR flags)] a) (\<lambda>a'. ret (L, a')))
     else bindR (emit_byte 0xA9 a) (emit_disp ic_info_disp flags L))"

definition call_entry :: "int \<Rightarrow> RelocationType \<Rightarrow> step" where
  "call_entry entry rtype = steps
     [emit_byte 0xE8, \<lambda>a. emit_data (entry - (codeStart (code a) + offset a + 4)) rtype a]"

definition jmp_entry :: "int \<Rightarrow> RelocationType \<Rightarrow> step" where
  "jmp_entry entry rtype = steps
     [emit_byte 0xE9, \<lambda>a. emit_data (entry - (codeStart (code a) + offset a + 4)) rtype a]"

definition jcc_entry :: "Condition \<Rightarrow> int \<Rightarrow> RelocationType \<Rightarrow> step" where
  "jcc_entry cc dst rtype = steps
     [emit_byte 0x0F, emit_byte (0x80 OR condition_code cc),
      \<lambda>a. emit_data (dst - (codeStart (code a) + offset a + 4)) rtype a]"

section \<open>Chains of references\<close>

definition disp_prev :: "int \<Rightarrow> int" where
  "disp_prev d = drop_bit next_pos d AND next_mask"

lemmas disp_layout = info_size_def type_size_def next_size_def info_pos_def type_pos_def next_pos_def
  info_mask_def type_mask_def next_mask_def number_of_flags_def

lemma disp_masks: "next_pos = 10" "type_pos = 8" "info_pos = 0" "next_mask = mask 22" "type_mask = mask 2" "info_mask = mask 8"
  by (simp_all add: disp_layout mask_eq_exp_minus_1)

lemma disp_next_ret: "disp_next d = ret (if 0 < disp_prev d then disp_prev d + 1 else 0)"
  by (simp add: disp_next_def disp_prev_def label_link_to_def label_unuse_def Let_def del: and_nonnegative_int_iff)

lemma kind_code_range: "0 \<le> kind_code t" "kind_code t < 4"
  by (cases t; simp)+

lemma disp_fields:
  fixes t :: disp_kind
  assumes "0 \<le> n" and "n < 2 ^ 22" and "0 \<le> info" and "info < 2 ^ 8"
  defines "w \<equiv> signed_take_bit 31 (push_bit 10 n OR push_bit 8 (kind_code t) OR info)"
  shows "disp_type w = t" and "disp_info w = info" and "disp_prev w = n"
proof -
  let ?d = "push_bit 10 n OR push_bit 8 (kind_code t) OR info"
  have "push_bit 8 (kind_code t) OR info = 2 ^ 8 * kind_code t + info"
    using assms(3,4) by (rule or_push_bit)
  moreover have "0 \<le> 2 ^ 8 * kind_code t + info" "2 ^ 8 * kind_code t + info < 2 ^ 10"
    using kind_code_range [of t] assms(3,4) by simp_all
  ultimately have d: "?d = 2 ^ 10 * n + (2 ^ 8 * kind_code t + info)" using or_push_bit by metis
  then have r: "0 \<le> ?d" "?d < 2 ^ 32" using assms(1-4) kind_code_range [of t] by simp_all
  have t32: "take_bit 32 w = 2 ^ 10 * n + (2 ^ 8 * kind_code t + info)"
    using r d by (simp add: w_def take_bit_signed_take_bit take_bit_int_eq_self)
  have take: "take_bit l (drop_bit s w) = take_bit l (drop_bit s (take_bit 32 w))" if "s + l \<le> 32" for s l
    by (rule bit_eqI) (use that in \<open>auto simp: bit_simps\<close>)
  have "disp_prev w = (2 ^ 10 * n + (2 ^ 8 * kind_code t + info)) div 2 ^ 10 mod 2 ^ 22"
    using take [of 10 22] t32
    by (simp only: disp_prev_def disp_masks take_bit_eq_mask [symmetric] take_bit_eq_mod drop_bit_eq_div)
  also have "(2 ^ 10 * n + (2 ^ 8 * kind_code t + info)) div 2 ^ 10 = n"
    by (rule int_div_pos_eq [of _ _ _ "2 ^ 8 * kind_code t + info"]) (use assms(3,4) kind_code_range [of t] in simp_all)
  finally show "disp_prev w = n" using assms(1,2) by simp
  have "disp_info w = (2 ^ 10 * n + (2 ^ 8 * kind_code t + info)) mod 2 ^ 8"
    using take [of 0 8] t32
    by (simp only: disp_info_def disp_masks take_bit_eq_mask [symmetric] take_bit_eq_mod drop_bit_0 id_apply)
  also have "\<dots> = info"
    by (rule int_mod_pos_eq [of _ _ "4 * n + kind_code t"]) (use assms(3,4) in simp_all)
  finally show "disp_info w = info" .
  have "drop_bit 8 w AND mask 2 = (2 ^ 10 * n + (2 ^ 8 * kind_code t + info)) div 2 ^ 8 mod 2 ^ 2"
    using take [of 8 2] t32
    by (simp only: take_bit_eq_mask [symmetric] take_bit_eq_mod drop_bit_eq_div)
  also have "(2 ^ 10 * n + (2 ^ 8 * kind_code t + info)) div 2 ^ 8 = 4 * n + kind_code t"
    by (rule int_div_pos_eq [of _ _ _ info]) (use assms(3,4) in simp_all)
  also have "(4 * n + kind_code t) mod 2 ^ 2 = kind_code t"
    by (rule int_mod_pos_eq [of _ _ n]) (use kind_code_range [of t] in simp_all)
  finally show "disp_type w = t"
    by (cases t) (simp_all only: disp_type_def disp_masks Let_def kind_code.simps, simp_all)
qed

definition label_of :: "int list \<Rightarrow> label" where
  "label_of ps = (case ps of [] \<Rightarrow> 0 | p # _ \<Rightarrow> p + 1)"

definition lead_of :: "disp_kind \<Rightarrow> int" where
  "lead_of t = (if t = conditional_jump then 2 else 1)"

definition opcode_ok :: "bytes \<Rightarrow> int \<Rightarrow> int \<Rightarrow> bool" where
  "opcode_ok c p d \<longleftrightarrow> (case disp_type d of
     call_disp \<Rightarrow> byte_at c (p - 1) = ret 0xE8
   | absolute_jump \<Rightarrow> byte_at c (p - 1) = ret 0xE9
   | conditional_jump \<Rightarrow> byte_at c (p - 2) = ret 0x0F \<and> byte_at c (p - 1) = ret (0x80 OR disp_info d)
   | ic_info_disp \<Rightarrow> byte_at c (p - 1) = ret 0xA9)"

definition site :: "bytes \<Rightarrow> int \<Rightarrow> int \<Rightarrow> bool" where
  "site c p d \<longleftrightarrow> long_at c p = ret d \<and> opcode_ok c p d \<and> lead_of (disp_type d) \<le> p"

definition apart :: "(int \<times> int) \<Rightarrow> (int \<times> int) \<Rightarrow> bool" where
  "apart x y \<longleftrightarrow> (case (x, y) of ((p, d), (q, e)) \<Rightarrow>
     q + 4 \<le> p - lead_of (disp_type d) \<or> p + 4 \<le> q - lead_of (disp_type e))"

text \<open>A chain is a list of positions with the displacements stored there.\<close>

fun chain :: "bytes \<Rightarrow> (int \<times> int) list \<Rightarrow> bool" where
  "chain c [] = True"
| "chain c ((p, d) # r) \<longleftrightarrow> site c p d \<and> disp_prev d = (case r of [] \<Rightarrow> 0 | (q, _) # _ \<Rightarrow> q) \<and>
     (\<forall>y\<in>set r. apart (p, d) y) \<and> chain c r"

definition chain_label :: "(int \<times> int) list \<Rightarrow> label" where
  "chain_label r = label_of (map fst r)"

lemma chain_label_simps [simp]: "chain_label [] = 0" "chain_label ((p, d) # r) = p + 1"
  by (simp_all add: chain_label_def label_of_def)

lemma lead_pos: "1 \<le> lead_of t"
  by (simp add: lead_of_def)

lemma site_bounds: "site c p d \<Longrightarrow> 1 \<le> p \<and> p + 4 \<le> int (length c)"
  using lead_pos [of "disp_type d"] by (auto simp: site_def long_at_def split: if_splits)

lemma chain_next: "chain c ((p, d) # r) \<Longrightarrow> disp_next d = ret (chain_label r)"
  using site_bounds by (cases r) (fastforce simp: disp_next_ret chain_label_def label_of_def)+

text \<open>Changes outside a reference leave it alone.\<close>

lemma site_cong:
  assumes "site c p d" and "length c' = length c"
    and "\<And>i. p - lead_of (disp_type d) \<le> int i \<Longrightarrow> int i < p + 4 \<Longrightarrow> c' ! i = c ! i"
  shows "site c' p d"
proof -
  have p: "lead_of (disp_type d) \<le> p" using assms(1) by (simp add: site_def)
  have "long_at c' p = long_at c p"
  proof (rule long_at_cong [OF assms(2)])
    fix i assume "nat p \<le> i" "i < nat p + 4"
    then show "c' ! i = c ! i" using p lead_pos [of "disp_type d"] by (intro assms(3)) linarith+
  qed
  moreover have "byte_at c' (p - k) = byte_at c (p - k)" if "1 \<le> k" "k \<le> lead_of (disp_type d)" for k
    using p that by (intro byte_at_cong assms(2,3)) linarith+
  then have "byte_at c' (p - 1) = byte_at c (p - 1)" "disp_type d = conditional_jump \<Longrightarrow> byte_at c' (p - 2) = byte_at c (p - 2)"
    by (simp_all add: lead_of_def)
  ultimately show ?thesis using assms(1) unfolding site_def opcode_ok_def by (cases "disp_type d") simp_all
qed

lemma site_append: "site c p d \<Longrightarrow> site (c @ e) p d"
  by (auto simp: site_def opcode_ok_def intro: long_at_append byte_at_append split: disp_kind.splits)

lemma chain_emit: "chain c r \<Longrightarrow> chain (c @ e) r"
  by (induction c r rule: chain.induct) (auto intro: site_append)

lemma chain_cong:
  assumes "chain c r" and "length c' = length c"
    and "\<And>p d i. (p, d) \<in> set r \<Longrightarrow> p - lead_of (disp_type d) \<le> int i \<Longrightarrow> int i < p + 4 \<Longrightarrow> c' ! i = c ! i"
  shows "chain c' r"
  using assms
proof (induction c r rule: chain.induct)
  case (2 c p d r)
  have "site c p d" "chain c r" using 2(2) by simp_all
  have "site c' p d" by (rule site_cong [OF \<open>site c p d\<close> 2(3)]) (rule 2(4), simp_all)
  moreover have "chain c' r" by (rule 2(1) [OF \<open>chain c r\<close> 2(3)]) (rule 2(4), auto)
  ultimately show ?case using 2(2) by simp
qed simp

section \<open>Binding resolves every reference\<close>

text \<open>The reference \<open>d\<close> at \<open>p\<close> leads to \<open>pos\<close>, read the way the run-time system reads it.\<close>

definition resolved :: "bytes \<Rightarrow> int \<Rightarrow> (int \<times> int) \<Rightarrow> bool" where
  "resolved c pos x \<longleftrightarrow> (case x of (p, d) \<Rightarrow>
     if disp_type d = ic_info_disp
     then NonLocalReturn_target c (p - 1) = ret pos \<and> ic_flags c (p - 1) = ret (disp_info d)
     else NativeCall_destination c (p + 4) = ret pos)"

lemma disp_info_range: "0 \<le> disp_info d" "disp_info d < 2 ^ 8"
  using take_bit_eq_mask [of 8 "drop_bit info_pos d"] take_bit_nonnegative [of 8 "drop_bit info_pos d"]
    take_bit_int_less_exp [of 8 "drop_bit info_pos d"]
  by (simp_all add: disp_info_def disp_masks)

lemma resolved_cong: "long_at c' p = long_at c p \<Longrightarrow> resolved c' pos (p, d) = resolved c pos (p, d)"
  by (simp add: resolved_def NonLocalReturn_target_def ic_flags_def NativeTest_data_def NativeCall_destination_def
      NativeCall_displacement_def)

lemma fixup_value_site:
  assumes "site c p d" and "0 \<le> pos" and "pos \<le> int (length c)" and "int (length c) \<le> 2 ^ 22"
  shows "\<exists>v. fixup_value c pos p d = ret v \<and> v \<in> int32_range \<and> (\<forall>c'. long_at c' p = ret v \<longrightarrow> resolved c' pos (p, d))"
proof (cases "disp_type d = ic_info_disp")
  case False
  let ?v = "pos - (p + 4)"
  have "fixup_value c pos p d = ret ?v"
    using assms(1) False by (cases "disp_type d") (simp_all add: fixup_value_def site_def opcode_ok_def)
  moreover have "?v \<in> int32_range" using site_bounds [OF assms(1)] assms(2-4) by (simp add: int32_range_def)
  ultimately show ?thesis
    using False by (auto simp: resolved_def NativeCall_destination_def NativeCall_displacement_def)
next
  case True
  let ?o = "pos - (p - 1)" and ?i = "disp_info d"
  let ?v = "push_bit 8 ?o OR ?i"
  have v: "?v = 2 ^ 8 * ?o + ?i" using disp_info_range by (rule or_push_bit)
  have r: "- (2 ^ 22) \<le> ?o" "?o \<le> 2 ^ 22" using site_bounds [OF assms(1)] assms(2-4) by simp_all
  then have "signed_take_bit 31 (push_bit 8 ?o) = push_bit 8 ?o"
    by (intro signed_take_bit_int_eq_self) (simp_all add: push_bit_eq_mult)
  moreover have "drop_bit 8 (push_bit 8 ?o) = ?o" by (rule bit_eqI) (simp add: bit_drop_bit_eq bit_push_bit_iff)
  ultimately have "drop_bit 8 (signed_take_bit 31 (push_bit 8 ?o)) = ?o" by simp
  then have "fixup_value c pos p d = ret ?v"
    using assms(1) True
    by (simp add: fixup_value_def site_def opcode_ok_def info_offset_def number_of_flags_def Let_def)
  moreover have "?v \<in> int32_range"
    using disp_info_range [of d] r unfolding v int32_range_def by simp
  moreover have "drop_bit 8 ?v = ?o"
    unfolding v drop_bit_eq_div by (rule int_div_pos_eq [of _ _ _ ?i]) (use disp_info_range in simp_all)
  moreover have "?v AND flags_mask = ?i"
  proof -
    have "?v AND flags_mask = ?v mod 2 ^ 8"
      using take_bit_eq_mask [of 8 ?v] by (simp add: flags_mask_def number_of_flags_def mask_eq_exp_minus_1 take_bit_eq_mod)
    also have "\<dots> = ?i"
      unfolding v by (rule int_mod_pos_eq [of _ _ ?o]) (use disp_info_range in simp_all)
    finally show ?thesis .
  qed
  ultimately show ?thesis
    using True
    by (intro exI [of _ ?v])
      (simp add: resolved_def NonLocalReturn_target_def ic_flags_def NativeTest_data_def number_of_flags_def)
qed

lemma bind_loop_chain:
  assumes "chain c r" and "0 \<le> pos" and "pos \<le> int (length c)" and "int (length c) \<le> 2 ^ 22"
  shows "\<exists>c'. bind_loop (chain_label r) pos c = ret c' \<and> length c' = length c \<and> (\<forall>x\<in>set r. resolved c' pos x) \<and>
    (\<forall>i. (\<forall>(p, d)\<in>set r. \<not> (p \<le> int i \<and> int i < p + 4)) \<longrightarrow> c' ! i = c ! i)"
  using assms
proof (induction r arbitrary: c)
  case Nil
  then show ?case by (subst bind_loop.simps) (simp add: is_unbound_def)
next
  case (Cons x r)
  obtain p d where x: "x = (p, d)" by (cases x)
  have site: "site c p d" and sep: "\<forall>y\<in>set r. apart (p, d) y" and tail: "chain c r"
    and "next": "disp_next d = ret (chain_label r)"
    using Cons.prems(1) chain_next unfolding x by auto
  note b = site_bounds [OF site]
  have long: "long_at c p = ret d" using site by (simp add: site_def)
  from fixup_value_site [OF site Cons.prems(2-4)] obtain v where
    v: "fixup_value c pos p d = ret v" "v \<in> int32_range" "\<And>c'. long_at c' p = ret v \<Longrightarrow> resolved c' pos (p, d)" by blast
  from long_at_put_ret [of p c v] b obtain e where
    e: "long_at_put c p v = ret e" "length e = length c" "\<And>i. \<not> (nat p \<le> i \<and> i < nat p + 4) \<Longrightarrow> e ! i = c ! i" by auto
  have same: "e ! i = c ! i" if "\<not> (p \<le> int i \<and> int i < p + 4)" for i
    using that b by (intro e(3)) linarith
  have "chain e r"
  proof (rule chain_cong [OF tail e(2)])
    fix q f i assume q: "(q, f) \<in> set r" "q - lead_of (disp_type f) \<le> int i" "int i < q + 4"
    have "apart (p, d) (q, f)" using sep q(1) by blast
    then have "\<not> (p \<le> int i \<and> int i < p + 4)" using q(2,3) lead_pos [of "disp_type d"] unfolding apart_def by auto
    then show "e ! i = c ! i" by (rule same)
  qed
  from Cons.IH [OF this] Cons.prems(2-4) e(2) obtain c' where
    c': "bind_loop (chain_label r) pos e = ret c'" "length c' = length e" "\<forall>x\<in>set r. resolved c' pos x"
    "\<And>i. \<forall>(p, d)\<in>set r. \<not> (p \<le> int i \<and> int i < p + 4) \<Longrightarrow> c' ! i = e ! i" by auto
  have outside: "\<forall>(q, f)\<in>set r. \<not> (q \<le> int i \<and> int i < q + 4)" if "p \<le> int i" "int i < p + 4" for i
  proof (clarify)
    fix q f assume "(q, f) \<in> set r" and i: "q \<le> int i" "int i < q + 4"
    then have "apart (p, d) (q, f)" using sep by blast
    then show False using i that lead_pos [of "disp_type d"] lead_pos [of "disp_type f"] unfolding apart_def by auto
  qed
  have "long_at c' p = long_at e p"
  proof (rule long_at_cong [OF c'(2)])
    fix i assume "nat p \<le> i" "i < nat p + 4"
    then show "c' ! i = e ! i" using b by (intro c'(4) outside) linarith+
  qed
  then have "resolved c' pos (p, d)"
    using v(3) [OF long_at_put_same [OF e(1) v(2)]] resolved_cong [of c' p e] by blast
  moreover have "bind_loop (chain_label (x # r)) pos c = ret c'"
    using b by (subst bind_loop.simps) (simp add: x is_unbound_def label_pos_def long v(1) e(1) "next" c'(1))
  moreover have "c' ! i = c ! i" if "\<forall>(q, f)\<in>set (x # r). \<not> (q \<le> int i \<and> int i < q + 4)" for i
    using that c'(4) [of i] same [of i] unfolding x by auto
  ultimately show ?case using c'(2,3) e(2) unfolding x by auto
qed

lemma with_code_simps [simp]: "bytes_of (with_code a c) = c" "codeSize (code (with_code a c)) = codeSize (code a)"
  "unbound_label (with_code a c) = unbound_label a" "binding_pos (with_code a c) = binding_pos a"
  "locs (code (with_code a c)) = locs (code a)"
  by (simp_all add: with_code_def)

lemma offset_with_code [simp]: "offset (with_code a c) = int (length c)"
  by (simp add: offset_def code_size_def with_code_def)

text \<open>
  C21. Binding a label to a position of the code: for any chain of references (calls, jumps,
  conditional jumps, inline-cache words), in code of at most 4 MB, the loop ends without a fault, the
  label is bound to the position, every reference of the chain leads there (an inline-cache word
  keeping its flags), and no byte outside the four bytes of each reference changes.
\<close>

theorem bind_to_resolves:
  assumes "chain (bytes_of a) r" and "0 \<le> pos" and "pos \<le> offset a" and "offset a \<le> 2 ^ 22"
  shows "\<exists>L' c'. bind_to (chain_label r) pos a = ret (L', with_code a c') \<and> is_bound L' \<and> label_pos L' = ret pos \<and>
    length c' = length (bytes_of a) \<and> (\<forall>x\<in>set r. resolved c' pos x) \<and>
    (\<forall>i. (\<forall>(p, d)\<in>set r. \<not> (p \<le> int i \<and> int i < p + 4)) \<longrightarrow> c' ! i = bytes_of a ! i)"
proof -
  have len: "offset a = int (length (bytes_of a))" by (simp add: offset_def code_size_def)
  from bind_loop_chain [OF assms(1,2)] assms(3,4) obtain c' where
    c': "bind_loop (chain_label r) pos (bytes_of a) = ret c'" "length c' = length (bytes_of a)" "\<forall>x\<in>set r. resolved c' pos x"
    "\<forall>i. (\<forall>(p, d)\<in>set r. \<not> (p \<le> int i \<and> int i < p + 4)) \<longrightarrow> c' ! i = bytes_of a ! i"
    unfolding len by blast
  have "bind_to (chain_label r) pos a = ret (- pos - 1, with_code a c')"
    using c'(1) assms(2,3) by (simp add: bind_to_def label_bind_to_def)
  then show ?thesis using c' assms(2)
    by (intro exI [of _ "- pos - 1"] exI [of _ c']) (simp add: is_bound_def label_pos_def)
qed

theorem bind_to_resolves_witness:
  "\<exists>L' c'. bind_to 2 6 (Assembler ((CodeBuffer_at 1000 64)\<lparr> codeBytes := [0xE9, 0, 1, 0, 0, 0x90] \<rparr>)) =
       ret (L', with_code (Assembler ((CodeBuffer_at 1000 64)\<lparr> codeBytes := [0xE9, 0, 1, 0, 0, 0x90] \<rparr>)) c') \<and>
     NativeCall_destination c' 5 = ret 6"
proof -
  let ?a = "Assembler ((CodeBuffer_at 1000 64)\<lparr> codeBytes := [0xE9, 0, 1, 0, 0, 0x90] \<rparr>)"
  have t: "disp_type 256 = absolute_jump" "disp_prev 256 = 0"
    by (simp_all add: disp_type_def disp_prev_def disp_layout)
  have "long_at [0xE9, 0, 1, 0, 0, 0x90] 1 = ret 256"
    by (simp add: long_at_def long_of_bytes_def signed_take_bit_int_eq_self)
  then have "chain (bytes_of ?a) [(1, 256)]"
    using t by (simp add: Assembler_def site_def opcode_ok_def byte_at_def lead_of_def)
  moreover have "offset ?a = 6" by (simp add: Assembler_def offset_def code_size_def)
  ultimately show ?thesis using bind_to_resolves [of ?a "[(1, 256)]" 6] t by (auto simp: resolved_def)
qed

section \<open>References extend chains\<close>

lemma long_at_bytes_wrap: "long_at (c @ bytes_of_long v @ e) (int (length c)) = ret (signed_take_bit 31 v)"
  by (simp add: long_at_def nth_append bytes_of_long_def long_of_bytes_of_long)

lemma chain_in: "chain c r \<Longrightarrow> (p, d) \<in> set r \<Longrightarrow> site c p d"
  by (induction c r rule: chain.induct) auto

lemma is_label [simp]: "\<not> is_bound (chain_label r)" if "chain c r"
  using that site_bounds by (cases r) (force simp: is_bound_def)+

lemma Displacement_chain:
  assumes "chain c r" and "length c < 2 ^ 22" and "0 \<le> info" and "info < 2 ^ 8"
  defines "n \<equiv> (case r of [] \<Rightarrow> 0 | (q, _) # _ \<Rightarrow> q)"
  shows "Displacement (chain_label r) t info = ret (push_bit 10 n OR push_bit 8 (kind_code t) OR info)" and "0 \<le> n" and "n < 2 ^ 22"
proof -
  have "0 \<le> n \<and> n < 2 ^ 22"
  proof (cases r)
    case (Cons x r')
    obtain q f where x: "x = (q, f)" by (cases x)
    then have "site c q f" using assms(1) Cons by simp
    from site_bounds [OF this] show ?thesis using assms(2) by (simp add: n_def Cons x)
  qed (simp add: n_def)
  then show n: "0 \<le> n" "n < 2 ^ 22" by simp_all
  have z: "w AND NOT (mask k) = (0::int)" if "0 \<le> w" "w < 2 ^ k" for w k
  proof (rule bit_eqI)
    fix i
    have "take_bit k w = w" using that by (simp add: take_bit_int_eq_self)
    then show "bit (w AND NOT (mask k)) i \<longleftrightarrow> bit (0::int) i"
      using bit_take_bit_iff [of k w i] by (auto simp: bit_and_iff bit_not_iff bit_mask_iff)
  qed
  have nx: "(if is_unbound (chain_label r)
      then bindR (label_pos (chain_label r)) (\<lambda>p. bindR (guard (0 < p) ''Displacements must be at positions > 0'') (\<lambda>_. ret p))
      else ret 0) = ret n"
    using assms(1) site_bounds
    by (cases r) (force simp: is_unbound_def label_pos_def n_def)+
  show "Displacement (chain_label r) t info = ret (push_bit 10 n OR push_bit 8 (kind_code t) OR info)"
    unfolding Displacement_def disp_masks nx bindR_ret
    using is_label [OF assms(1)] z [of n 22] z [of "kind_code t" 2] z [of info 8] n kind_code_range [of t] assms(3,4)
    by simp
qed

text \<open>The opcode bytes of each kind of reference.\<close>

definition opcodes :: "disp_kind \<Rightarrow> int \<Rightarrow> int list" where
  "opcodes t info = (case t of call_disp \<Rightarrow> [0xE8] | absolute_jump \<Rightarrow> [0xE9] | conditional_jump \<Rightarrow> [0x0F, 0x80 OR info]
     | ic_info_disp \<Rightarrow> [0xA9])"

lemma length_opcodes: "int (length (opcodes t info)) = lead_of t"
  by (cases t) (simp_all add: opcodes_def lead_of_def)

lemma emit_disp_extends:
  assumes "chain c r" and "bytes_of a = c @ map word_of_int (opcodes t info)" and "list_all isByte (opcodes t info)"
    and "length (bytes_of a) < 2 ^ 22" and "length (bytes_of a) + 4 \<le> codeSize (code a)" and "0 \<le> info" and "info < 2 ^ 8"
  shows "\<exists>d e. emit_disp t info (chain_label r) a = ret (offset a + 1, with_code a (bytes_of a @ e)) \<and> length e = 4 \<and>
    disp_type d = t \<and> disp_info d = info \<and> chain (bytes_of a @ e) ((offset a, d) # r)"
proof -
  define n where "n = (case r of [] \<Rightarrow> 0 | (q, _) # _ \<Rightarrow> q)"
  let ?d = "push_bit 10 n OR push_bit 8 (kind_code t) OR info"
  let ?w = "signed_take_bit 31 ?d"
  have off: "offset a = int (length (bytes_of a))" by (simp add: offset_def code_size_def)
  have "length c < 2 ^ 22" using assms(2,4) by simp
  note D = Displacement_chain [OF assms(1) this assms(6,7), folded n_def]
  have w: "disp_type ?w = t" "disp_info ?w = info" "disp_prev ?w = n"
    by (rule disp_fields [OF D(2,3) assms(6,7)])+
  let ?c = "bytes_of a @ bytes_of_long ?d"
  have "emit_long ?d a = ret (with_code a ?c)"
    using assms(5) by (simp add: emit_long_def append_code_ret with_code_def)
  then have "emit_disp t info (chain_label r) a = ret (offset a + 1, with_code a ?c)"
    by (simp add: emit_disp_def D(1) label_link_to_def off)
  moreover have "site ?c (offset a) ?w"
  proof -
    have "long_at ?c (offset a) = ret ?w" using long_at_bytes_wrap [of "bytes_of a" ?d "[]"] by (simp add: off)
    moreover have "opcode_ok ?c (offset a) ?w"
    proof -
      have u: "uint (word_of_int v :: 8 word) = v" if "isByte v" for v
        using that by (simp add: isByte_def uint_word_of_int)
      show ?thesis
        unfolding opcode_ok_def w off assms(2) using assms(3)
        by (cases t) (simp_all add: opcodes_def byte_at_def nth_append u nat_add_distrib)
    qed
    ultimately show ?thesis using length_opcodes [of t info] by (simp add: site_def w off assms(2))
  qed
  moreover have "apart (offset a, ?w) y" if y: "y \<in> set r" for y
  proof -
    obtain q f where q: "y = (q, f)" by (cases y)
    then have "q + 4 \<le> int (length c)" using chain_in [OF assms(1)] y site_bounds by blast
    then show ?thesis using length_opcodes [of t info] by (simp add: apart_def q w off assms(2))
  qed
  moreover have "chain ?c r" using chain_emit [OF assms(1)] by (simp add: assms(2))
  moreover have "disp_prev ?w = (case r of [] \<Rightarrow> 0 | (q, _) # _ \<Rightarrow> q)" using w(3) by (simp add: n_def)
  ultimately show ?thesis using w by (intro exI [of _ ?w] exI [of _ "bytes_of_long ?d"]) simp
qed

text \<open>One reference of each kind; \<open>E\<close> is irrelevant when no label is pending.\<close>

datatype reference = CallRef | JmpRef | JccRef Condition | IcRef int

primrec ref_kind :: "reference \<Rightarrow> disp_kind" where
  "ref_kind CallRef = call_disp"
| "ref_kind JmpRef = absolute_jump"
| "ref_kind (JccRef cc) = conditional_jump"
| "ref_kind (IcRef flags) = ic_info_disp"

primrec ref_info :: "reference \<Rightarrow> int" where
  "ref_info CallRef = 0"
| "ref_info JmpRef = 0"
| "ref_info (JccRef cc) = condition_code cc"
| "ref_info (IcRef flags) = flags"

primrec emit_reference :: "bool \<Rightarrow> reference \<Rightarrow> label \<Rightarrow> assembler \<Rightarrow> (label \<times> assembler) run" where
  "emit_reference E CallRef = call_label"
| "emit_reference E JmpRef = jmp_label E"
| "emit_reference E (JccRef cc) = jcc_label cc"
| "emit_reference E (IcRef flags) = (\<lambda>L. ic_info_label L flags)"

definition ref_ok :: "reference \<Rightarrow> bool" where
  "ref_ok x \<longleftrightarrow> (case x of IcRef flags \<Rightarrow> 0 \<le> flags \<and> flags < 2 ^ 8 | _ \<Rightarrow> True)"

lemma condition_code_range: "0 \<le> condition_code cc" "condition_code cc < 16"
  by (cases cc; simp)+

lemma ref_info_range: "ref_ok x \<Longrightarrow> 0 \<le> ref_info x \<and> ref_info x < 2 ^ 8"
  using condition_code_range(1,2) less_trans [OF condition_code_range(2), of 256] by (cases x) (auto simp: ref_ok_def)

lemma ref_opcodes_bytes: "list_all isByte (opcodes (ref_kind x) (ref_info x))"
proof -
  have "isByte (0x80 OR condition_code cc)" for cc by (cases cc) (simp_all add: isByte_def)
  then show ?thesis by (cases x) (simp_all add: opcodes_def isByte_def)
qed

lemma emit_reference_unbound:
  assumes "\<not> is_bound L" and "ref_ok x" and "\<not> is_unbound (unbound_label a)"
    and "length (bytes_of a @ map word_of_int (opcodes (ref_kind x) (ref_info x))) \<le> codeSize (code a)"
  shows "emit_reference E x L a =
    emit_disp (ref_kind x) (ref_info x) L (with_code a (bytes_of a @ map word_of_int (opcodes (ref_kind x) (ref_info x))))"
proof -
  have "isByte (0x80 OR condition_code cc)" for cc by (cases cc) (simp_all add: isByte_def)
  then have b: "appends (steps [emit_byte 0x0F, emit_byte (0x80 OR condition_code cc)])
      ([word_of_int 0x0F] @ [word_of_int (0x80 OR condition_code cc)])" for cc
    by (intro appends2 appends_byte) (simp add: isByte_def)
  have o: "appends (emit_byte v) [word_of_int v]" if "v \<in> {0xE8, 0xE9, 0xA9}" for v
    using that by (intro appends_byte) (auto simp: isByte_def)
  have f: "drop_bit 8 (take_bit 32 flags) = 0" if "0 \<le> flags" "flags < 2 ^ 8" for flags :: int
    using that by (simp add: take_bit_int_eq_self drop_bit_eq_div)
  show ?thesis
    using assms b o [unfolded appends_def] f
    by (cases x) (simp_all add: call_label_def jmp_label_def jcc_label_def ic_info_label_def opcodes_def
        append_code_ret with_code_def appends_def ref_ok_def number_of_flags_def del: steps.simps)
qed

section \<open>Joining chains\<close>

text \<open>A reference without the link it stores.\<close>

definition ref_of :: "int \<times> int \<Rightarrow> int \<times> disp_kind \<times> int" where
  "ref_of x = (fst x, disp_type (snd x), disp_info (snd x))"

lemma apart_ref_of: "ref_of x = ref_of x' \<Longrightarrow> apart x y = apart x' y"
  by (cases x; cases x'; cases y) (simp add: apart_def ref_of_def)

lemma apart_sym: "apart x y = apart y x"
  by (cases x; cases y) (auto simp: apart_def)

lemma last_link_chain:
  assumes "chain c (r @ [(p, d)])"
  shows "last_link (chain_label (r @ [(p, d)])) c = ret p"
  using assms
proof (induction r)
  case Nil
  then have "long_at c p = ret d" "disp_next d = ret 0" "1 \<le> p"
    using chain_next [of c p d "[]"] site_bounds [of c p d] by (simp_all add: site_def)
  then show ?case by (subst last_link.simps) (simp add: label_pos_def is_unbound_def)
next
  case (Cons x r)
  obtain q e where x: "x = (q, e)" by (cases x)
  have s: "site c q e" "chain c (r @ [(p, d)])" and n: "disp_next e = ret (chain_label (r @ [(p, d)]))"
    using Cons.prems chain_next [of c q e "r @ [(p, d)]"] unfolding x by simp_all
  have "is_unbound (chain_label (r @ [(p, d)]))"
    using s(2) site_bounds by (cases r) (auto simp: is_unbound_def, fastforce+)
  moreover have "long_at c q = ret e" "1 \<le> q" using s(1) site_bounds [OF s(1)] by (simp_all add: site_def)
  ultimately show ?case
    using n Cons.IH [OF s(2)] by (subst last_link.simps) (simp add: x label_pos_def)
qed

lemma chain_snoc_replace:
  assumes "chain c (r @ [(p, d)])" and "chain c' ((p, w) # u)" and "disp_type w = disp_type d"
    and "\<forall>x\<in>set r. \<forall>y\<in>set u. apart x y" and "\<forall>(q, e)\<in>set r. site c' q e"
  shows "chain c' (r @ (p, w) # u)"
  using assms
proof (induction r)
  case (Cons x r)
  obtain q e where x: "x = (q, e)" by (cases x)
  have "chain c' (r @ (p, w) # u)" using Cons by (simp add: x)
  moreover have "disp_prev e = (case r @ (p, w) # u of [] \<Rightarrow> 0 | (q, _) # _ \<Rightarrow> q)"
    using Cons.prems(1) by (cases r) (simp_all add: x)
  moreover have "apart (q, e) (p, w)"
    using Cons.prems(1,3) apart_ref_of [of "(p, d)" "(p, d)"] by (simp add: x apart_def)
  ultimately show ?case using Cons.prems by (auto simp: x)
qed simp

lemma link_to_chains:
  assumes "chain (bytes_of a) r" and "chain (bytes_of a) u" and "\<forall>x\<in>set r. \<forall>y\<in>set u. apart x y"
    and "length (bytes_of a) < 2 ^ 22" and "u \<noteq> []"
  shows "\<exists>c' r'. link_to (chain_label r) (chain_label u) a = ret (chain_label (r' @ u), with_code a c') \<and>
    chain c' (r' @ u) \<and> length c' = length (bytes_of a) \<and> map ref_of r' = map ref_of r \<and>
    (\<forall>i. (\<forall>(p, d)\<in>set r. \<not> (p \<le> int i \<and> int i < p + 4)) \<longrightarrow> c' ! i = bytes_of a ! i)"
proof -
  let ?c = "bytes_of a"
  have same_code: "with_code a ?c = a" by (simp add: with_code_def)
  have unb: "is_unbound (chain_label u)"
    using assms(2,5) site_bounds by (cases u) (fastforce simp: is_unbound_def)+
  show ?thesis
  proof (cases r rule: rev_cases)
    case Nil
    then have "link_to (chain_label r) (chain_label u) a = ret (chain_label ([] @ u), with_code a ?c)"
      using unb by (simp add: link_to_def is_unbound_def same_code)
    then show ?thesis using assms(2) Nil by (intro exI [of _ ?c] exI [of _ "[]"]) simp
  next
    case (snoc r0 x)
    obtain p d where x: "x = (p, d)" by (cases x)
    have r: "chain ?c (r0 @ [(p, d)])" using assms(1) snoc x by simp
    then have site: "site ?c p d" using chain_in by fastforce
    define n where "n = (case u of [] \<Rightarrow> 0 | (q, _) # _ \<Rightarrow> q)"
    let ?d = "push_bit 10 n OR push_bit 8 (kind_code (disp_type d)) OR disp_info d"
    let ?w = "signed_take_bit 31 ?d"
    note D = Displacement_chain [OF assms(2,4) disp_info_range, folded n_def]
    have w: "disp_type ?w = disp_type d" "disp_info ?w = disp_info d" "disp_prev ?w = n"
      by (rule disp_fields [OF D(2,3) disp_info_range])+
    from long_at_put_ret [of p ?c ?d] site_bounds [OF site] obtain c' where
      c': "long_at_put ?c p ?d = ret c'" "length c' = length ?c"
      "\<And>i. \<not> (nat p \<le> i \<and> i < nat p + 4) \<Longrightarrow> c' ! i = ?c ! i" by auto
    have same: "c' ! i = ?c ! i" if "\<not> (p \<le> int i \<and> int i < p + 4)" for i
      using that site_bounds [OF site] by (intro c'(3)) linarith
    have long: "long_at c' p = ret ?w"
    proof -
      have p: "0 \<le> p" "p + 4 \<le> int (length ?c)" using site_bounds [OF site] by simp_all
      then have "c' = take (nat p) ?c @ bytes_of_long ?d @ drop (nat p + 4) ?c"
        using c'(1) by (simp add: long_at_put_def)
      moreover have "int (length (take (nat p) ?c)) = p" using p by simp
      ultimately show ?thesis using long_at_bytes_wrap by metis
    qed
    have far: "c' ! i = ?c ! i" if "apart (p, d) (q, e)" "q - lead_of (disp_type e) \<le> int i" "int i < q + 4" for q e i
      using that lead_pos [of "disp_type d"] by (intro same) (auto simp: apart_def)
    have u: "chain c' u"
      by (rule chain_cong [OF assms(2) c'(2)]) (use assms(3) snoc x far in fastforce)
    have "opcode_ok c' p ?w"
    proof -
      have "byte_at c' (p - k) = byte_at ?c (p - k)" if "1 \<le> k" "k \<le> lead_of (disp_type d)" for k
        using that site by (intro byte_at_cong c'(2) same) (auto simp: site_def)
      then have "byte_at c' (p - 1) = byte_at ?c (p - 1)"
        "disp_type d = conditional_jump \<Longrightarrow> byte_at c' (p - 2) = byte_at ?c (p - 2)"
        by (simp_all add: lead_of_def)
      then show ?thesis using site unfolding site_def opcode_ok_def w by (cases "disp_type d") simp_all
    qed
    then have "site c' p ?w" using long site by (simp add: site_def w)
    moreover have "apart (p, ?w) y" if "y \<in> set u" for y
      using assms(3) that snoc x apart_ref_of [of "(p, ?w)" "(p, d)"] w by (simp add: ref_of_def)
    ultimately have hd: "chain c' ((p, ?w) # u)" using u w(3) by (simp add: n_def)
    have keep: "site c' q e" if q: "(q, e) \<in> set r0" for q e
    proof (rule site_cong [OF _ c'(2)])
      show "site ?c q e" using chain_in [OF r] q by simp
      fix i assume i: "q - lead_of (disp_type e) \<le> int i" "int i < q + 4"
      have "chain ?c (r0 @ [(p, d)]) \<Longrightarrow> apart (q, e) (p, d)"
        using q by (induction ?c r0 rule: chain.induct) auto
      then have "apart (p, d) (q, e)" using r by (simp add: apart_sym)
      then show "c' ! i = ?c ! i" using i by (rule far)
    qed
    have chain: "chain c' (r0 @ (p, ?w) # u)"
      using keep assms(3) snoc by (intro chain_snoc_replace [OF r hd w(1)]) auto
    have "is_unbound (chain_label r)"
      using assms(1) site_bounds snoc by (cases r) (fastforce simp: is_unbound_def)+
    then have "link_to (chain_label r) (chain_label u) a = ret (chain_label r, with_code a c')"
      using unb last_link_chain [OF r] site c'(1) D(1)
      by (simp add: link_to_def snoc x site_def disp_link_to_def)
    moreover have "chain_label r = chain_label ((r0 @ [(p, ?w)]) @ u)"
      by (cases r0) (simp_all add: snoc x chain_label_def label_of_def)
    ultimately show ?thesis
      using chain c'(2) same w snoc x
      by (intro exI [of _ c'] exI [of _ "r0 @ [(p, ?w)]"]) (simp add: ref_of_def)
  qed
qed

text \<open>
  C23. Jumps to jumps: when the current position is the target of a pending label, emitting a jump
  to an unbound label moves the pending references into that label's chain, so that binding it
  later (by \<open>bind_to_resolves\<close>) sends them directly to the final target. The chain then holds the
  new jump, the label's own references and the pending ones, none lost or changed in kind.
\<close>

theorem jump_to_jump_redirects:
  assumes "chain (bytes_of a) r" and "chain (bytes_of a) u" and "\<forall>x\<in>set r. \<forall>y\<in>set u. apart x y"
    and "length (bytes_of a) + 1 < 2 ^ 22" and "length (bytes_of a) + 5 \<le> codeSize (code a)"
    and "u \<noteq> []" and "unbound_label a = chain_label u" and "binding_pos a = offset a"
  shows "\<exists>a' s. jmp_label True (chain_label r) a = ret (chain_label s, a') \<and> chain (bytes_of a') s \<and>
    map ref_of s = (offset a + 1, absolute_jump, 0) # map ref_of r @ map ref_of u \<and> \<not> is_unbound (unbound_label a') \<and>
    offset a' = offset a + 5"
proof -
  have unb: "is_unbound (chain_label u)"
    using assms(2,6) site_bounds by (cases u) (fastforce simp: is_unbound_def)+
  from link_to_chains [OF assms(1-3) _ assms(6)] assms(4) obtain c r' where
    l: "link_to (chain_label r) (chain_label u) a = ret (chain_label (r' @ u), with_code a c)"
    "chain c (r' @ u)" "length c = length (bytes_of a)" "map ref_of r' = map ref_of r" by auto
  let ?b = "with_code a c\<lparr> unbound_label := 0 \<rparr>"
  let ?c = "c @ [0xE9]"
  have size: "codeSize (code ?b) = codeSize (code a)" "bytes_of ?b = c" by (simp_all add: with_code_def)
  have "appends (emit_byte 0xE9) [0xE9]" using appends_byte [of "0xE9"] by (simp add: isByte_def)
  then have e: "emit_byte 0xE9 ?b = ret (with_code ?b ?c)"
    using assms(5) l(3) size by (simp add: appends_def append_code_ret with_code_def)
  have w: "bytes_of (with_code ?b ?c) = ?c" "codeSize (code (with_code ?b ?c)) = codeSize (code a)"
    "unbound_label (with_code ?b ?c) = 0" by (simp_all add: with_code_def)
  have off: "offset (with_code ?b ?c) = offset a + 1" using l(3) by (simp add: offset_def code_size_def)
  have "\<exists>d e. emit_disp absolute_jump 0 (chain_label (r' @ u)) (with_code ?b ?c) =
      ret (offset (with_code ?b ?c) + 1, with_code (with_code ?b ?c) (bytes_of (with_code ?b ?c) @ e)) \<and> length e = 4 \<and>
    disp_type d = absolute_jump \<and> disp_info d = 0 \<and>
    chain (bytes_of (with_code ?b ?c) @ e) ((offset (with_code ?b ?c), d) # r' @ u)"
    by (rule emit_disp_extends [OF l(2)]) (use assms(4,5) l(3) w in \<open>simp_all add: opcodes_def isByte_def\<close>)
  then obtain d f where f: "emit_disp absolute_jump 0 (chain_label (r' @ u)) (with_code ?b ?c) =
      ret (offset a + 2, with_code (with_code ?b ?c) (?c @ f))" "length f = 4"
    "disp_type d = absolute_jump" "disp_info d = 0" "chain (?c @ f) ((offset a + 1, d) # r' @ u)"
    unfolding off w by auto
  have "\<not> is_bound (chain_label r)" using assms(1) by simp
  then have "jmp_label True (chain_label r) a =
    ret (chain_label ((offset a + 1, d) # r' @ u), with_code (with_code ?b ?c) (?c @ f))"
    using l(1) unb assms(7,8) e f(1) by (simp add: jmp_label_def label_unuse_def)
  moreover have "offset (with_code (with_code ?b ?c) (?c @ f)) = offset a + 5"
    using l(3) f(2) by (simp add: offset_def code_size_def)
  ultimately show ?thesis
    using f(3-5) l(4) w
    by (intro exI [of _ "with_code (with_code ?b ?c) (?c @ f)"] exI [of _ "(offset a + 1, d) # r' @ u"])
      (simp add: ref_of_def is_unbound_def)
qed

section \<open>Jumps to the next instruction\<close>

lemma eliminate_jumps_chain:
  assumes "chain (bytes_of a) r" and "length (bytes_of a) \<le> codeSize (code a)"
  shows "\<exists>r1 r2. r = r1 @ r2 \<and> (\<forall>x\<in>set r1. disp_type (snd x) = absolute_jump) \<and> 5 * length r1 \<le> length (bytes_of a) \<and>
    eliminate_jumps (chain_label r) a =
      ret (chain_label r2, with_code a (take (length (bytes_of a) - 5 * length r1) (bytes_of a))) \<and>
    chain (take (length (bytes_of a) - 5 * length r1) (bytes_of a)) r2"
  using assms
proof (induction r arbitrary: a)
  case Nil
  have "with_code a (bytes_of a) = a" by (simp add: with_code_def)
  then show ?case by (subst eliminate_jumps.simps) (simp add: is_unbound_def)
next
  case (Cons x r)
  let ?c = "bytes_of a"
  obtain p d where x: "x = (p, d)" by (cases x)
  have site: "site ?c p d" and tail: "chain ?c r" and apart: "\<forall>y\<in>set r. apart (p, d) y"
    and n: "disp_next d = ret (chain_label r)"
    using Cons.prems(1) chain_next [of ?c p d r] unfolding x by simp_all
  note b = site_bounds [OF site]
  have long: "long_at ?c p = ret d" using site by (simp add: site_def)
  have off: "offset a = int (length ?c)" by (simp add: offset_def code_size_def)
  show ?case
  proof (cases "p + 4 = offset a \<and> disp_type d = absolute_jump")
    case False
    then have "eliminate_jumps (chain_label (x # r)) a = ret (chain_label (x # r), a)"
      using b long by (subst eliminate_jumps.simps) (auto simp: x is_unbound_def label_pos_def)
    moreover have "with_code a ?c = a" by (simp add: with_code_def)
    ultimately show ?thesis using Cons.prems(1) by (intro exI [of _ "[]"] exI [of _ "x # r"]) simp
  next
    case True
    let ?e = "take (length ?c - 5) ?c"
    let ?a = "with_code a ?e"
    have five: "offset a - 5 = p - 1" "5 \<le> length ?c" using True b off by simp_all
    have op: "byte_at ?c (offset a - 5) = ret 0xE9" using site True five by (simp add: site_def opcode_ok_def)
    have "set_code_end ?e (code a) = ret (code ?a)"
      using Cons.prems(2) by (simp add: set_code_end_def with_code_def)
    moreover have "a\<lparr> code := code ?a \<rparr> = ?a" by (simp add: with_code_def)
    ultimately have step: "eliminate_jumps (chain_label (x # r)) a = eliminate_jumps (chain_label r) ?a"
      using b long True op n by (subst eliminate_jumps.simps) (simp add: x is_unbound_def label_pos_def with_code_def)
    have "chain ?e s" if "set s \<subseteq> set r" "chain ?c s" for s
      using that
    proof (induction s)
      case (Cons y s)
      obtain q f where y: "y = (q, f)" by (cases y)
      have sq: "site ?c q f" using Cons.prems(2) y by simp
      have "apart (p, d) (q, f)" using apart Cons.prems(1) y by auto
      then have "q + 4 \<le> p - 1"
        using site_bounds [OF sq] True off lead_pos [of "disp_type f"] by (auto simp: apart_def lead_of_def)
      then have fits: "q + 4 \<le> int (length ?e)" using five off by simp
      have nth: "?e ! i = ?c ! i" if "int i < q + 4" for i using that fits by simp
      have bq: "byte_at ?e (q - k) = byte_at ?c (q - k)" if "1 \<le> k" for k
        using that fits five nth by (auto simp: byte_at_def)
      have "long_at ?e q = long_at ?c q"
        using fits five nth site_bounds [OF sq] by (auto simp: long_at_def nth_take)
      then have "site ?e q f" using sq bq by (auto simp: site_def opcode_ok_def split: disp_kind.splits)
      then show ?case using Cons by (auto simp: y)
    qed simp
    then have "chain (bytes_of ?a) r" using tail by simp
    moreover have "length (bytes_of ?a) \<le> codeSize (code ?a)" using Cons.prems(2) by simp
    ultimately have "\<exists>r1 r2. r = r1 @ r2 \<and> (\<forall>x\<in>set r1. disp_type (snd x) = absolute_jump) \<and> 5 * length r1 \<le> length ?e \<and>
      eliminate_jumps (chain_label r) ?a = ret (chain_label r2, with_code ?a (take (length ?e - 5 * length r1) ?e)) \<and>
      chain (take (length ?e - 5 * length r1) ?e) r2"
      using Cons.IH [of ?a] unfolding with_code_simps by blast
    then obtain r1 r2 where
      r: "r = r1 @ r2" "\<forall>x\<in>set r1. disp_type (snd x) = absolute_jump" "5 * length r1 \<le> length ?e"
      "eliminate_jumps (chain_label r) ?a = ret (chain_label r2, with_code ?a (take (length ?e - 5 * length r1) ?e))"
      "chain (take (length ?e - 5 * length r1) ?e) r2" by blast
    have "take (length ?e - 5 * length r1) ?e = take (length ?c - 5 * length (x # r1)) ?c"
      by (simp add: min_def)
    moreover have "with_code ?a t = with_code a t" for t by (simp add: with_code_def)
    ultimately show ?thesis
      using r True five step by (intro exI [of _ "x # r1"] exI [of _ r2]) (auto simp: x)
  qed
qed

lemma eliminate_last:
  assumes "chain (bytes_of a) [(p, d)]" and "disp_type d = absolute_jump" and "p + 4 = offset a"
    and "length (bytes_of a) \<le> codeSize (code a)"
  shows "eliminate_jumps (p + 1) a = ret (0, with_code a (take (length (bytes_of a) - 5) (bytes_of a)))"
proof -
  let ?e = "take (length (bytes_of a) - 5) (bytes_of a)"
  have site: "site (bytes_of a) p d" using assms(1) by simp
  have "offset a - 5 = p - 1" using assms(3) by simp
  then have s: "1 \<le> p" "long_at (bytes_of a) p = ret d" "byte_at (bytes_of a) (offset a - 5) = ret 0xE9"
    using site_bounds [OF site] site assms(2) by (simp_all add: site_def opcode_ok_def)
  have "disp_next d = ret 0" using chain_next [OF assms(1)] by simp
  moreover have "set_code_end ?e (code a) = ret (code (with_code a ?e))"
    using assms(4) by (simp add: set_code_end_def with_code_def)
  ultimately have "eliminate_jumps (p + 1) a = eliminate_jumps 0 (with_code a ?e)"
    using s assms(2,3) by (subst eliminate_jumps.simps) (simp add: is_unbound_def label_pos_def with_code_def)
  then show ?thesis by (subst (asm) eliminate_jumps.simps [of 0]) (simp add: is_unbound_def)
qed


lemma disp_256: "disp_type 256 = absolute_jump" "disp_info 256 = 0" "disp_prev 256 = 0"
  by (simp_all add: disp_type_def disp_info_def disp_prev_def disp_layout)

lemma lone_jump: "chain [0xE9, 0, 1, 0, 0] [(1, 256)]"
proof -
  have "long_at [0xE9, 0, 1, 0, 0] 1 = ret 256"
    by (simp add: long_at_def long_of_bytes_def signed_take_bit_int_eq_self)
  then show ?thesis using disp_256 by (simp add: site_def opcode_ok_def byte_at_def lead_of_def)
qed

theorem jump_to_jump_redirects_witness:
  "\<exists>a' s. jmp_label True 0 \<lparr> code = (CodeBuffer_at 1000 64)\<lparr> codeBytes := [0xE9, 0, 1, 0, 0] \<rparr>, unbound_label = 2,
       binding_pos = 5 \<rparr> = ret (chain_label s, a') \<and> map ref_of s = [(6, absolute_jump, 0), (1, absolute_jump, 0)]"
proof -
  let ?a = "\<lparr> code = (CodeBuffer_at 1000 64)\<lparr> codeBytes := [0xE9, 0, 1, 0, 0] \<rparr>, unbound_label = 2, binding_pos = 5 \<rparr>"
  have off: "offset ?a = 5" by (simp add: offset_def code_size_def)
  have J: "\<exists>a' s. jmp_label True (chain_label []) ?a = ret (chain_label s, a') \<and> chain (bytes_of a') s \<and>
    map ref_of s = (offset ?a + 1, absolute_jump, 0) # map ref_of [] @ map ref_of [(1, 256)] \<and>
    \<not> is_unbound (unbound_label a') \<and> offset a' = offset ?a + 5"
    by (rule jump_to_jump_redirects) (use lone_jump off in \<open>simp_all add: CodeBuffer_at_def\<close>)
  have r: "ref_of (1, 256) = (1, absolute_jump, 0)" and six: "5 + 1 = (6::int)" using disp_256 by (simp_all add: ref_of_def)
  show ?thesis
    using J unfolding off six r chain_label_simps list.map append_Nil append_Cons by (elim exE conjE) (intro exI conjI)
qed


section \<open>Backward references\<close>

text \<open>
  C24. References to a bound label: a call, jump, conditional jump or inline-cache word emitted for
  a label bound at or before the current position returns, appends its opcode and one long - the
  short forms of jumps are never chosen, since \<open>isByte\<close> rejects every backward distance - and
  leads to the label.
\<close>

theorem backward_references_resolve:
  assumes "0 \<le> p" and "p \<le> offset a" and "offset a < 2 ^ 22" and "ref_ok x"
    and "length (bytes_of a) + 6 \<le> codeSize (code a)"
  shows "\<exists>v a'. emit_reference E x (- p - 1) a = ret (- p - 1, a') \<and>
    bytes_of a' = bytes_of a @ map word_of_int (opcodes (ref_kind x) (ref_info x)) @ bytes_of_long v \<and>
    (if ref_kind x = ic_info_disp
     then NonLocalReturn_target (bytes_of a') (offset a) = ret p \<and> ic_flags (bytes_of a') (offset a) = ret (ref_info x)
     else NativeCall_destination (bytes_of a') (offset a') = ret p)"
proof -
  let ?offs = "p - offset a" and ?ops = "opcodes (ref_kind x) (ref_info x)"
  have off: "offset a = int (length (bytes_of a))" by (simp add: offset_def code_size_def)
  have lp: "is_bound (- p - 1)" "label_pos (- p - 1) = ret p" using assms(1) by (simp_all add: is_bound_def label_pos_def)
  have long: "\<not> isByte (?offs - 2)" using assms(2) by (simp add: isByte_def)
  define v where "v = (case x of IcRef flags \<Rightarrow> push_bit 8 ?offs OR flags | JccRef cc \<Rightarrow> ?offs - 6 | _ \<Rightarrow> ?offs - 5)"
  let ?c = "bytes_of a @ map word_of_int ?ops @ bytes_of_long v"
  have icv: "push_bit 8 ?offs OR flags = 2 ^ 8 * ?offs + flags" if "x = IcRef flags" for flags
    using or_push_bit [of flags 8 ?offs] assms(4) that by (simp add: ref_ok_def)
  have vr: "v \<in> int32_range"
    using assms(1-4) icv by (cases x) (auto simp: v_def int32_range_def ref_ok_def)
  have room: "length ?c \<le> codeSize (code a)"
    using assms(5) length_opcodes [of "ref_kind x" "ref_info x"] by (simp add: lead_of_def split: if_splits)
  have b: "isByte (0x80 OR condition_code cc)" for cc by (cases cc) (simp_all add: isByte_def)
  have j: "appends (steps [emit_byte 0x0F, emit_byte (0x80 OR condition_code cc), emit_long w])
      ([word_of_int 0x0F] @ [word_of_int (0x80 OR condition_code cc)] @ bytes_of_long w)" for cc w
    by (intro appends3 appends_byte appends_long b) (simp add: isByte_def)
  have o: "appends (steps [emit_byte k, emit_long w]) ([word_of_int k] @ bytes_of_long w)" if "k \<in> {0xE8, 0xE9, 0xA9}" for k w
    using that by (intro appends2 appends_byte appends_long) (auto simp: isByte_def)
  have one: "steps [steps fs] a = ret a' \<longleftrightarrow> steps fs a = ret a'" for fs a'
    by (auto simp: bindR_eq_ret)
  have ic: "drop_bit 8 (signed_take_bit 31 (push_bit 8 ?offs)) = ?offs"
  proof -
    have "signed_take_bit 31 (push_bit 8 ?offs) = push_bit 8 ?offs"
      using assms(1-3) by (intro signed_take_bit_int_eq_self) (simp_all add: push_bit_eq_mult)
    moreover have "drop_bit 8 (push_bit 8 ?offs) = ?offs" by (rule bit_eqI) (simp add: bit_drop_bit_eq bit_push_bit_iff)
    ultimately show ?thesis by simp
  qed
  have fl: "drop_bit 8 (take_bit 32 flags) = 0" if "x = IcRef flags" for flags
    using assms(4) that by (simp add: ref_ok_def take_bit_int_eq_self drop_bit_eq_div)
  have run: "append_code (map word_of_int ?ops @ bytes_of_long v) a = ret (with_code a ?c)"
    using room by (simp add: append_code_ret with_code_def)
  have em: "emit_reference E x (- p - 1) a = ret (- p - 1, with_code a ?c)"
  proof (cases x)
    case CallRef
    then show ?thesis using lp assms(2) o [of "0xE8" v, unfolded appends_def] run
      by (simp add: call_label_def opcodes_def v_def del: steps.simps)
  next
    case JmpRef
    have "steps [steps [emit_byte 0xE9, emit_long v]] a = ret (with_code a ?c)"
      unfolding one using o [of "0xE9" v, unfolded appends_def] run JmpRef by (simp add: opcodes_def del: steps.simps)
    then show ?thesis using JmpRef lp assms(2) long by (simp add: jmp_label_def v_def del: steps.simps)
  next
    case (JccRef cc)
    have "steps [steps [emit_byte 0x0F, emit_byte (0x80 OR condition_code cc), emit_long v]] a = ret (with_code a ?c)"
      unfolding one using j [of cc v, unfolded appends_def] run JccRef by (simp add: opcodes_def del: steps.simps)
    then show ?thesis using JccRef lp assms(2) long by (simp add: jcc_label_def v_def del: steps.simps)
  next
    case (IcRef flags)
    then show ?thesis using lp assms(2) o [of "0xA9" v, unfolded appends_def] run ic fl
      by (simp add: ic_info_label_def opcodes_def v_def number_of_flags_def del: steps.simps)
  qed
  let ?a = "with_code a ?c"
  have offa: "offset ?a = offset a + lead_of (ref_kind x) + 4" using off length_opcodes by simp
  have "long_at ?c (offset a + lead_of (ref_kind x)) = ret v"
    using long_at_bytes [OF vr, of "bytes_of a @ map word_of_int ?ops" "[]"] off length_opcodes by simp
  moreover have "NativeCall_destination ?c (offset ?a) = ret p"
    if "long_at ?c (offset a + lead_of (ref_kind x)) = ret v" "ref_kind x \<noteq> ic_info_disp"
  proof -
    have "offset ?a - 4 = offset a + lead_of (ref_kind x)" unfolding offa by simp
    then have "NativeCall_destination ?c (offset ?a) = ret (offset ?a + v)"
      using that(1) by (simp only: NativeCall_destination_def NativeCall_displacement_def bindR_ret)
    also have "offset ?a + v = p" using that(2) unfolding offa by (cases x) (simp_all add: v_def lead_of_def)
    finally show ?thesis .
  qed
  ultimately have "if ref_kind x = ic_info_disp
     then NonLocalReturn_target ?c (offset a) = ret p \<and> ic_flags ?c (offset a) = ret (ref_info x)
     else NativeCall_destination ?c (offset ?a) = ret p"
  proof (cases x)
    case (IcRef flags)
    have w: "v = 2 ^ 8 * ?offs + flags" "0 \<le> flags" "flags < 2 ^ 8"
      using icv [OF IcRef] IcRef assms(4) by (simp_all add: v_def ref_ok_def)
    have "drop_bit 8 v = ?offs" unfolding w(1) drop_bit_eq_div by (rule int_div_pos_eq [of _ _ _ flags]) (use w in simp_all)
    moreover have "v AND flags_mask = v mod 2 ^ 8"
      using take_bit_eq_mask [of 8 v] by (simp add: flags_mask_def number_of_flags_def mask_eq_exp_minus_1 take_bit_eq_mod)
    moreover have "v mod 2 ^ 8 = flags" unfolding w(1) by (rule int_mod_pos_eq [of _ _ ?offs]) (use w in simp_all)
    moreover assume "long_at ?c (offset a + lead_of (ref_kind x)) = ret v"
    ultimately show ?thesis
      using IcRef by (simp add: NonLocalReturn_target_def ic_flags_def NativeTest_data_def lead_of_def number_of_flags_def)
  qed (simp_all del: offset_with_code)
  then show ?thesis using em by (intro exI [of _ v] exI [of _ ?a] conjI) (simp_all only: with_code_simps)
qed

theorem backward_references_resolve_witness:
  "\<exists>a'. jmp_label True (-1) (Assembler ((CodeBuffer_at 1000 64)\<lparr> codeBytes := [0x90] \<rparr>)) = ret (-1, a') \<and>
     NativeCall_destination (bytes_of a') (offset a') = ret 0"
  using backward_references_resolve [of 0 "Assembler ((CodeBuffer_at 1000 64)\<lparr> codeBytes := [0x90] \<rparr>)" JmpRef True]
  by (auto simp: offset_def code_size_def Assembler_def CodeBuffer_at_def ref_ok_def)

text \<open>
  C25. A label bound between a jump and that jump's own label is left behind: after \<^verbatim>\<open>jmp(L); bind(M);
  bind(L)\<close> with jump elimination the jump is gone and the code ends where it began, but \<open>M\<close>,
  bound to that very place, still names the position five bytes further on.
\<close>

theorem elimination_misplaces_labels:
  assumes "\<not> is_unbound (unbound_label a)" and "length (bytes_of a) + 5 \<le> codeSize (code a)" and "offset a + 5 < 2 ^ 22"
  shows "\<exists>L M L' a1 a2 a3. jmp_label True 0 a = ret (L, a1) \<and> bind_label True 0 a1 = ret (M, a2) \<and>
    bind_label True L a2 = ret (L', a3) \<and> bytes_of a3 = bytes_of a \<and>
    label_pos L' = ret (offset a) \<and> label_pos M = ret (offset a + 5)"
proof -
  have off: "offset a = int (length (bytes_of a))" by (simp add: offset_def code_size_def)
  let ?b = "with_code a (bytes_of a @ [0xE9])"
  have b: "bytes_of ?b = bytes_of a @ map word_of_int (opcodes absolute_jump 0)" by (simp add: opcodes_def)
  have "\<exists>d e. emit_disp absolute_jump 0 (chain_label []) ?b = ret (offset ?b + 1, with_code ?b (bytes_of ?b @ e)) \<and> length e = 4 \<and>
    disp_type d = absolute_jump \<and> disp_info d = 0 \<and> chain (bytes_of ?b @ e) ((offset ?b, d) # [])"
    by (rule emit_disp_extends [OF _ b]) (use assms(2,3) off in \<open>simp_all add: opcodes_def isByte_def\<close>)
  moreover have "offset ?b = offset a + 1" using off by simp
  ultimately obtain d e where de: "emit_disp absolute_jump 0 0 ?b = ret (offset a + 2, with_code ?b (bytes_of ?b @ e))"
    "length e = 4" "disp_type d = absolute_jump" "chain (bytes_of ?b @ e) [(offset a + 1, d)]"
    by (simp only: chain_label_simps) (elim exE conjE, simp)
  let ?c = "bytes_of a @ [0xE9] @ e"
  let ?a1 = "with_code a ?c"
  have "with_code ?b (bytes_of ?b @ e) = ?a1" by (simp add: with_code_def)
  moreover have "emit_reference True JmpRef 0 a = emit_disp absolute_jump 0 0 ?b"
    using emit_reference_unbound [of 0 JmpRef a True] assms(1,2) by (simp add: is_bound_def ref_ok_def opcodes_def)
  ultimately have j: "jmp_label True 0 a = ret (offset a + 2, ?a1)" using de(1) by simp
  have o1: "offset ?a1 = offset a + 5" "bytes_of ?a1 = ?c" using de(2) off by simp_all
  let ?a2 = "?a1\<lparr> unbound_label := 0, binding_pos := offset a + 5 \<rparr>"
  have o2: "offset ?a2 = offset a + 5" "bytes_of ?a2 = ?c" "codeSize (code ?a2) = codeSize (code a)" "unbound_label ?a2 = 0"
    using o1 by (simp_all add: offset_def with_code_def)
  have "bind_loop 0 (offset a + 5) ?c = ret ?c" by (subst bind_loop.simps) (simp add: is_unbound_def)
  moreover have "with_code ?a2 ?c = ?a2" by (simp add: with_code_def)
  ultimately have "bind_to 0 (offset a + 5) ?a2 = ret (- (offset a + 5) - 1, ?a2)"
    using o2 off by (simp add: bind_to_def label_bind_to_def)
  moreover have "eliminate_jumps 0 ?a1 = ret (0, ?a1)" by (subst eliminate_jumps.simps) (simp add: is_unbound_def)
  ultimately have m: "bind_label True 0 ?a1 = ret (- (offset a + 5) - 1, ?a2)"
    using assms(1) o1 by (simp add: bind_label_def is_bound_def resolve_pending_def label_unuse_def del: offset_with_code)
  have ch: "chain ?c [(offset a + 1, d)]" using de(4) by simp
  have "take (length ?c - 5) ?c = bytes_of a" using de(2) by simp
  then have el: "eliminate_jumps (offset a + 2) ?a2 = ret (0, with_code ?a2 (bytes_of a))"
    using eliminate_last [of ?a2 "offset a + 1" d] ch de(2,3) o2 assms(2) by (simp add: algebra_simps)
  let ?a3 = "with_code ?a2 (bytes_of a)\<lparr> unbound_label := 0, binding_pos := offset a \<rparr>"
  have o3: "offset ?a3 = offset a" "bytes_of ?a3 = bytes_of a" by (simp_all add: offset_def code_size_def with_code_def)
  have "bind_loop 0 (offset a) (bytes_of a) = ret (bytes_of a)" by (subst bind_loop.simps) (simp add: is_unbound_def)
  moreover have "with_code ?a3 (bytes_of a) = ?a3" by (simp add: with_code_def)
  ultimately have "bind_to 0 (offset a) ?a3 = ret (- offset a - 1, ?a3)"
    using o3 off by (simp add: bind_to_def label_bind_to_def)
  then have bl: "bind_label True (offset a + 2) ?a2 = ret (- offset a - 1, ?a3)"
    using el o2 off by (simp add: bind_label_def is_bound_def is_unbound_def resolve_pending_def label_unuse_def)
  have lp: "label_pos (- offset a - 1) = ret (offset a)" "label_pos (- (offset a + 5) - 1) = ret (offset a + 5)"
    using off by (simp_all add: label_pos_def)
  show ?thesis by (intro exI conjI, rule j, rule m, rule bl, rule o3(2), rule lp, rule lp)
qed

theorem elimination_misplaces_labels_witness:
  "\<exists>L M L' a1 a2 a3. jmp_label True 0 (Assembler (CodeBuffer_at 1000 64)) = ret (L, a1) \<and>
    bind_label True 0 a1 = ret (M, a2) \<and> bind_label True L a2 = ret (L', a3) \<and> bytes_of a3 = [] \<and>
    label_pos L' = ret 0 \<and> label_pos M = ret 5"
proof -
  let ?a = "Assembler (CodeBuffer_at 1000 64)"
  have o: "offset ?a = 0" "bytes_of ?a = []" by (simp_all add: Assembler_def CodeBuffer_at_def offset_def code_size_def)
  have "\<not> is_unbound (unbound_label ?a)" "length (bytes_of ?a) + 5 \<le> codeSize (code ?a)" "offset ?a + 5 < 2 ^ 22"
    by (simp_all add: Assembler_def CodeBuffer_at_def offset_def code_size_def is_unbound_def)
  from elimination_misplaces_labels [OF this] show ?thesis unfolding o by simp
qed

end
