(* ===== verification/MacroAssembler.thy ===== *)
theory MacroAssembler
  imports Labels
begin

text \<open>
  \<^verbatim>\<open>vm/assembler/MacroAssembler.cpp\<close>: short code sequences built from the instructions. The
  addresses of the variables and limits they mention (\<^verbatim>\<open>&last_delta_fp\<close>, \<^verbatim>\<open>&byte_map_base\<close>,
  \<^verbatim>\<open>Universe::new_gen.boundary()\<close>) are the fields of a record. Printing of registers and the
  inspector call are left out.
\<close>

record vm_addresses =
  last_delta_fp :: int
  last_delta_sp :: int
  byte_map_base :: int
  new_gen_boundary :: int

definition OOP_SIZE :: int where "OOP_SIZE = 4"
definition card_shift :: int where "card_shift = 9"

section \<open>Alignment, frames, inlined data\<close>

partial_function (option) align :: "int \<Rightarrow> assembler \<Rightarrow> assembler run" where
  "align modulus a =
     (if modulus = 0 then raise Division_By_Zero
      else if offset a mod \<bar>modulus\<bar> \<noteq> 0 then bindR (nop a) (align modulus) else ret a)"

definition test_imm :: "bool \<Rightarrow> register \<Rightarrow> int \<Rightarrow> step" where
  "test_imm CodeForP6 dst imm8 =
     (if \<not> CodeForP6 \<and> hasByteRegister dst then testb dst imm8 else testl_reg_imm dst imm8)"

definition enter :: step where
  "enter = steps [pushl_reg ebp, movl_reg_reg ebp esp]"

definition leave :: step where
  "leave = steps [movl_reg_reg esp ebp, popl_reg ebp]"

definition inline_oop :: "int \<Rightarrow> step" where
  "inline_oop obj = steps [emit_byte 0xA9, emit_data obj oop_type]"

definition fpop :: step where
  "fpop = steps [ffree 0, fincstp]"

section \<open>Calls of run-time routines\<close>

definition set_last_delta_frame_before_call :: "vm_addresses \<Rightarrow> step" where
  "set_last_delta_frame_before_call vm = steps
     [movl_addr_reg (Address_disp (last_delta_fp vm) external_word_type) ebp,
      movl_addr_reg (Address_disp (last_delta_sp vm) external_word_type) esp]"

definition set_last_delta_frame_after_call :: "vm_addresses \<Rightarrow> step" where
  "set_last_delta_frame_after_call vm = steps
     [addl_reg_imm esp OOP_SIZE, set_last_delta_frame_before_call vm, subl_reg_imm esp OOP_SIZE]"

definition reset_last_delta_frame :: "vm_addresses \<Rightarrow> step" where
  "reset_last_delta_frame vm = movl_addr_imm (Address_disp (last_delta_fp vm) external_word_type) 0"

definition call_C_label :: "vm_addresses \<Rightarrow> label \<Rightarrow> assembler \<Rightarrow> (label \<times> assembler) run" where
  "call_C_label vm L a =
     bindR (set_last_delta_frame_before_call vm a) (\<lambda>a.
     bindR (call_label L a) (\<lambda>(L, a).
     bindR (reset_last_delta_frame vm a) (\<lambda>a. ret (L, a))))"

definition call_C_label_nlr :: "vm_addresses \<Rightarrow> label \<Rightarrow> label \<Rightarrow> assembler \<Rightarrow> (label \<times> label \<times> assembler) run" where
  "call_C_label_nlr vm L nlrTestPoint a =
     bindR (set_last_delta_frame_before_call vm a) (\<lambda>a.
     bindR (call_label L a) (\<lambda>(L, a).
     bindR (ic_info_label nlrTestPoint 0 a) (\<lambda>(N, a).
     bindR (reset_last_delta_frame vm a) (\<lambda>a. ret (L, N, a)))))"

definition call_C_entry :: "vm_addresses \<Rightarrow> int \<Rightarrow> RelocationType \<Rightarrow> step" where
  "call_C_entry vm entry rtype = steps
     [set_last_delta_frame_before_call vm, call_entry entry rtype, reset_last_delta_frame vm]"

definition call_C_entry_nlr :: "vm_addresses \<Rightarrow> int \<Rightarrow> RelocationType \<Rightarrow> label \<Rightarrow> assembler \<Rightarrow> (label \<times> assembler) run" where
  "call_C_entry_nlr vm entry rtype nlrTestPoint a =
     bindR (steps [set_last_delta_frame_before_call vm, call_entry entry rtype] a) (\<lambda>a.
     bindR (ic_info_label nlrTestPoint 0 a) (\<lambda>(N, a).
     bindR (reset_last_delta_frame vm a) (\<lambda>a. ret (N, a))))"

definition call_C_reg :: "vm_addresses \<Rightarrow> register \<Rightarrow> step" where
  "call_C_reg vm entry = steps [set_last_delta_frame_before_call vm, call_reg entry, reset_last_delta_frame vm]"

definition call_C_reg_nlr :: "vm_addresses \<Rightarrow> register \<Rightarrow> label \<Rightarrow> assembler \<Rightarrow> (label \<times> assembler) run" where
  "call_C_reg_nlr vm entry nlrTestPoint a =
     bindR (steps [set_last_delta_frame_before_call vm, call_reg entry] a) (\<lambda>a.
     bindR (ic_info_label nlrTestPoint 0 a) (\<lambda>(N, a).
     bindR (reset_last_delta_frame vm a) (\<lambda>a. ret (N, a))))"

text \<open>
  Calls with arguments jump over a stub that pushes them and calls the routine, then call the stub.
  A label that is still unbound when its variable goes out of scope is an assertion failure.
\<close>

definition label_scope_end :: "label \<Rightarrow> step" where
  "label_scope_end L = check (\<not> is_unbound L) ''unbound label''"

definition call_C_stub :: "bool \<Rightarrow> vm_addresses \<Rightarrow> int \<Rightarrow> step list \<Rightarrow> int \<Rightarrow> step" where
  "call_C_stub E vm entry pushes bytes a =
     bindR (jmp_label E 0 a) (\<lambda>(L1, a).
     bindR (bind_label E 0 a) (\<lambda>(L2, a).
     bindR (steps (pushes @ [call_entry entry runtime_call_type, addl_reg_imm esp bytes, ret_imm 0]) a) (\<lambda>a.
     bindR (bind_label E L1 a) (\<lambda>(L1, a).
     bindR (call_C_label vm L2 a) (\<lambda>(L2, a).
     steps [label_scope_end L2, label_scope_end L1] a)))))"

definition call_C_1 :: "bool \<Rightarrow> vm_addresses \<Rightarrow> int \<Rightarrow> register \<Rightarrow> step" where
  "call_C_1 E vm entry arg1 = call_C_stub E vm entry [pushl_reg arg1] (1 * OOP_SIZE)"

definition call_C_2 :: "bool \<Rightarrow> vm_addresses \<Rightarrow> int \<Rightarrow> register \<Rightarrow> register \<Rightarrow> step" where
  "call_C_2 E vm entry arg1 arg2 = call_C_stub E vm entry [pushl_reg arg2, pushl_reg arg1] (2 * OOP_SIZE)"

definition call_C_3 :: "bool \<Rightarrow> vm_addresses \<Rightarrow> int \<Rightarrow> register \<Rightarrow> register \<Rightarrow> register \<Rightarrow> step" where
  "call_C_3 E vm entry arg1 arg2 arg3 =
     call_C_stub E vm entry [pushl_reg arg3, pushl_reg arg2, pushl_reg arg1] (3 * OOP_SIZE)"

definition call_C_4 :: "bool \<Rightarrow> vm_addresses \<Rightarrow> int \<Rightarrow> register \<Rightarrow> register \<Rightarrow> register \<Rightarrow> register \<Rightarrow> step" where
  "call_C_4 E vm entry arg1 arg2 arg3 arg4 =
     call_C_stub E vm entry [pushl_reg arg4, pushl_reg arg3, pushl_reg arg2, pushl_reg arg1] (4 * OOP_SIZE)"

section \<open>Stores and floating-point comparisons\<close>

definition store_check :: "bool \<Rightarrow> vm_addresses \<Rightarrow> register \<Rightarrow> register \<Rightarrow> step" where
  "store_check E vm obj tmp a =
     bindR (check (obj \<noteq> tmp) ''registers must be different'' a) (\<lambda>a.
     bindR (cmpl_reg_imm obj (new_gen_boundary vm) a) (\<lambda>a.
     bindR (jcc_label less 0 a) (\<lambda>(no_store, a).
     bindR (steps [movl_reg_addr tmp (Address_disp (byte_map_base vm) external_word_type), shrl_reg_imm obj card_shift] a) (\<lambda>a.
     bindR (Address_index tmp obj times_1 0 reloc_none) (\<lambda>card.
     bindR (movb_addr_imm card 0 a) (\<lambda>a.
     bindR (bind_label E no_store a) (\<lambda>(no_store, a). label_scope_end no_store a)))))))"

definition fpu_mask_and_cond_for :: "Condition \<Rightarrow> (int \<times> Condition) run" where
  "fpu_mask_and_cond_for cc = (case cc of
     zero \<Rightarrow> ret (0x4000, notZero)
   | notZero \<Rightarrow> ret (0x4000, zero)
   | less \<Rightarrow> ret (0x0100, notZero)
   | lessEqual \<Rightarrow> ret (0x4500, notZero)
   | greater \<Rightarrow> ret (0x4500, zero)
   | greaterEqual \<Rightarrow> ret (0x0100, zero)
   | _ \<Rightarrow> raise (Fatal ''Unimplemented''))"

section \<open>Properties\<close>

lemma nop_ret: "length (bytes_of a) < codeSize (code a) \<Longrightarrow> nop a = ret (with_code a (bytes_of a @ [0x90]))"
  using appends_byte [of "0x90"] by (simp add: nop_def appends_def isByte_def append_code_ret with_code_def)

lemma align_pads:
  assumes "offset a + int n = k * \<bar>modulus\<bar>" and "int n < \<bar>modulus\<bar>" and "length (bytes_of a) + n \<le> codeSize (code a)"
  shows "align modulus a = ret (with_code a (bytes_of a @ replicate n 0x90))"
  using assms
proof (induction n arbitrary: a)
  case 0
  then have "offset a mod \<bar>modulus\<bar> = 0" by simp
  moreover have "with_code a (bytes_of a) = a" by (simp add: with_code_def)
  ultimately show ?case using 0 by (subst align.simps) simp
next
  case (Suc n)
  let ?b = "with_code a (bytes_of a @ [0x90])"
  have m: "modulus \<noteq> 0" using Suc.prems(2) by auto
  have "offset a = \<bar>modulus\<bar> * (k - 1) + (\<bar>modulus\<bar> - int (Suc n))" using Suc.prems(1) by (simp add: algebra_simps)
  then have "offset a mod \<bar>modulus\<bar> = \<bar>modulus\<bar> - int (Suc n)"
    by (rule int_mod_pos_eq [of _ _ "k - 1"]) (use Suc.prems(2) in \<open>simp_all add: algebra_simps\<close>)
  then have "align modulus a = align modulus ?b"
    using m Suc.prems(2,3) nop_ret [of a] by (subst align.simps) simp
  also have "\<dots> = ret (with_code ?b (bytes_of ?b @ replicate n 0x90))"
    using Suc.prems by (intro Suc.IH) (simp_all add: offset_def code_size_def)
  finally show ?case by (simp add: with_code_def)
qed

text \<open>
  C26. Alignment: for a nonzero modulus and enough room, \<open>align\<close> ends, appends fewer \<^verbatim>\<open>nop\<close>
  instructions than the modulus and nothing else, and leaves the position a multiple of it.
\<close>

theorem align_returns:
  assumes "modulus \<noteq> 0" and "offset a + \<bar>modulus\<bar> \<le> int (codeSize (code a)) + 1"
  shows "\<exists>n. align modulus a = ret (with_code a (bytes_of a @ replicate n 0x90)) \<and> int n < \<bar>modulus\<bar> \<and>
    (offset a + int n) mod \<bar>modulus\<bar> = 0"
proof -
  let ?m = "\<bar>modulus\<bar>"
  define n where "n = nat ((- offset a) mod ?m)"
  have m: "0 < ?m" using assms(1) by simp
  have n: "int n = (- offset a) mod ?m" "int n < ?m" using m by (simp_all add: n_def)
  have z: "(offset a + int n) mod ?m = 0" unfolding n(1) by (simp add: mod_add_right_eq)
  have k: "offset a + int n = (offset a + int n) div ?m * ?m"
    using div_mult_mod_eq [of "offset a + int n" ?m] z by linarith
  have room: "length (bytes_of a) + n \<le> codeSize (code a)"
    using assms(2) n(2) unfolding offset_def code_size_def by linarith
  show ?thesis using n(2) z by (intro exI [of _ n] conjI align_pads [OF k _ room])
qed

theorem align_returns_witness:
  "\<exists>n. align 4 (Assembler ((CodeBuffer_at 1000 64)\<lparr> codeBytes := [0x90] \<rparr>)) =
      ret (with_code (Assembler ((CodeBuffer_at 1000 64)\<lparr> codeBytes := [0x90] \<rparr>)) ([0x90] @ replicate n 0x90))"
  using align_returns [of 4 "Assembler ((CodeBuffer_at 1000 64)\<lparr> codeBytes := [0x90] \<rparr>)"]
  by (auto simp: Assembler_def CodeBuffer_at_def offset_def code_size_def)

end
