(* ===== verification/ChunkMap.thy ===== *)
theory ChunkMap
  imports CodeBuffers
begin

text \<open>
  \<^verbatim>\<open>HeapChunk\<close> maps of \<^verbatim>\<open>vm/code/ZoneHeap.{hpp,cpp}\<close>: the zone of compiled code is a sequence of
  blocks with one byte per block. A chunk of \<open>n\<close> blocks writes its length and state into its first
  and last bytes (one byte each below 62 blocks, four from there on), and, when used, a distance to
  its start into every byte between. Positions are indices into the map, which includes the
  sentinel before its first byte. \<open>chunk_ok\<close> is the format; \<open>chunks\<close> says that a stretch of the
  map is a sequence of chunks.
\<close>

section \<open>Encoding\<close>

definition MaxDistance :: int where "MaxDistance = 128"
definition chunk_unused :: int where "chunk_unused = 128"
definition chunk_unusedOvfl :: int where "chunk_unusedOvfl = 190"
definition chunk_used :: int where "chunk_used = 192"
definition chunk_usedOvfl :: int where "chunk_usedOvfl = 254"
definition chunk_invalid :: int where "chunk_invalid = 255"
definition minHeaderSize :: int where "minHeaderSize = 1"
definition maxHeaderSize :: int where "maxHeaderSize = 4"
definition MaxDistLog :: nat where "MaxDistLog = 7"
definition maxOneByteLen :: int where "maxOneByteLen = chunk_usedOvfl - chunk_used"

lemmas chunk_consts = MaxDistance_def chunk_unused_def chunk_unusedOvfl_def chunk_used_def chunk_usedOvfl_def
  chunk_invalid_def minHeaderSize_def maxHeaderSize_def MaxDistLog_def maxOneByteLen_def

definition chunk_n :: "bytes \<Rightarrow> int \<Rightarrow> int run" where
  "chunk_n c p = bindR (byte_at c p) (\<lambda>b. ret ((b - chunk_unused) mod 256))"

definition chunk_isUsed :: "bytes \<Rightarrow> int \<Rightarrow> bool run" where
  "chunk_isUsed c p = bindR (byte_at c p) (\<lambda>b. ret (chunk_used \<le> b))"

definition chunk_ovfl :: "bool \<Rightarrow> int" where
  "chunk_ovfl used = (if used then chunk_usedOvfl else chunk_unusedOvfl)"

definition chunk_headerSize :: "bytes \<Rightarrow> int \<Rightarrow> int run" where
  "chunk_headerSize c p =
     bindR (chunk_isUsed c p) (\<lambda>u. bindR (byte_at c p) (\<lambda>b.
     ret (if b = chunk_ovfl u then maxHeaderSize else minHeaderSize)))"

text \<open>The long form of a length: three bytes of seven bits, at \<open>q\<close>, \<open>q + 1\<close>, \<open>q + 2\<close>.\<close>

definition long_length :: "bytes \<Rightarrow> int \<Rightarrow> int run" where
  "long_length c q =
     bindR (chunk_n c q) (\<lambda>a. bindR (chunk_n c (q + 1)) (\<lambda>b. bindR (chunk_n c (q + 2)) (\<lambda>d.
     ret (push_bit MaxDistLog (push_bit MaxDistLog a + b) + d))))"

definition chunk_size :: "bytes \<Rightarrow> int \<Rightarrow> int run" where
  "chunk_size c p =
     bindR (chunk_isUsed c p) (\<lambda>u. bindR (byte_at c p) (\<lambda>b.
     bindR (guard (b \<noteq> chunk_invalid \<and> MaxDistance \<le> b) ''invalid chunk'') (\<lambda>_.
     bindR (if b \<noteq> chunk_ovfl u then ret (b + 1 - (if u then chunk_used else chunk_unused)) else long_length c (p + 1)) (\<lambda>len.
     bindR (guard (0 < len) ''negative/zero chunk length'') (\<lambda>_. ret len)))))"

definition chunk_contains :: "bytes \<Rightarrow> int \<Rightarrow> int \<Rightarrow> bool run" where
  "chunk_contains c m q = (if q < m then ret False else bindR (chunk_size c m) (\<lambda>s. ret (q < m + s)))"

definition chunk_next :: "bytes \<Rightarrow> int \<Rightarrow> int run" where
  "chunk_next c p = bindR (chunk_size c p) (\<lambda>s. ret (p + s))"

definition chunk_prev :: "bytes \<Rightarrow> int \<Rightarrow> int run" where
  "chunk_prev c p =
     bindR (chunk_isUsed c (p - 1)) (\<lambda>u. bindR (byte_at c (p - 1)) (\<lambda>b.
     bindR (if b \<noteq> chunk_ovfl u then chunk_size c (p - 1) else long_length c (p - 4)) (\<lambda>len.
     bindR (guard (0 < len) ''negative/zero chunk length'') (\<lambda>_. ret (p - len)))))"

definition chunk_invalidate :: "bytes \<Rightarrow> int \<Rightarrow> bytes run" where
  "chunk_invalidate c p = byte_at_put c p chunk_invalid"

definition chunk_isValid :: "bytes \<Rightarrow> int \<Rightarrow> bool run" where
  "chunk_isValid c p =
     bindR (byte_at c p) (\<lambda>b.
     if b = chunk_invalid \<or> b < MaxDistance then ret False
     else bindR (chunk_next c p) (\<lambda>nx. let e = nx - 1 in
          bindR (chunk_isUsed c p) (\<lambda>u. bindR (byte_at c e) (\<lambda>b'.
          if b \<noteq> b' then ret False
          else if b \<noteq> chunk_ovfl u then ret True
          else bindR (byte_at c (p + 1)) (\<lambda>x1. bindR (byte_at c (e - 3)) (\<lambda>y1.
               bindR (byte_at c (p + 2)) (\<lambda>x2. bindR (byte_at c (e - 2)) (\<lambda>y2.
               bindR (byte_at c (p + 3)) (\<lambda>x3. bindR (byte_at c (e - 1)) (\<lambda>y3.
               ret (x1 = y1 \<and> x2 = y2 \<and> x3 = y3)))))))))))"

text \<open>A loop that stores to successive positions is the list of its stores.\<close>

fun write_bytes :: "bytes \<Rightarrow> int \<Rightarrow> (int \<times> int) list \<Rightarrow> bytes run" where
  "write_bytes c p [] = ret c"
| "write_bytes c p ((i, v) # r) = bindR (byte_at_put c (p + i) v) (\<lambda>c'. write_bytes c' p r)"

definition header_bytes :: "int \<Rightarrow> bool \<Rightarrow> (int \<times> int) list" where
  "header_bytes n used =
     (if n < maxOneByteLen
      then let b = (if used then chunk_used else chunk_unused) + n - 1 in [(n - 1, b), (0, b)]
      else let b1 = chunk_unused + drop_bit (2 * MaxDistLog) n;
               b2 = chunk_unused + (drop_bit MaxDistLog n AND (2 ^ MaxDistLog - 1));
               b3 = chunk_unused + (n AND (2 ^ MaxDistLog - 1)) in
           [(n - 1, chunk_ovfl used), (0, chunk_ovfl used), (n - 4, b1), (1, b1), (n - 3, b2), (2, b2), (n - 2, b3), (3, b3)])"

definition distance_bytes :: "int \<Rightarrow> bool \<Rightarrow> (int \<times> int) list" where
  "distance_bytes n used =
     (let h = (if n < maxOneByteLen then minHeaderSize else maxHeaderSize) in
      if \<not> used then (if 2 * minHeaderSize < n then [(h, h)] else [])
      else if n < maxOneByteLen then map (\<lambda>i. (i, i)) [minHeaderSize..n - minHeaderSize - 1]
      else let mx = min (n - 4) MaxDistance in
           map (\<lambda>i. (i, i)) [maxHeaderSize..mx - 1] @
           map (\<lambda>i. (i, MaxDistance - maxHeaderSize)) [mx..n - maxHeaderSize - 1])"

definition markSize :: "bytes \<Rightarrow> int \<Rightarrow> int \<Rightarrow> bool \<Rightarrow> bytes run" where
  "markSize c p nChunks used =
     bindR (guard (nChunks < maxOneByteLen \<or> nChunks < 2 ^ (3 * MaxDistLog)) ''chunk too large'') (\<lambda>_.
     bindR (write_bytes c p (header_bytes nChunks used)) (\<lambda>c1.
     bindR (chunk_size c1 p) (\<lambda>s.
     bindR (guard (s = nChunks) ''incorrect size encoding'') (\<lambda>_.
     write_bytes c1 p (distance_bytes nChunks used)))))"

definition markUsed :: "bytes \<Rightarrow> int \<Rightarrow> int \<Rightarrow> bytes run" where
  "markUsed c p nChunks = markSize c p nChunks True"

definition markUnused :: "bytes \<Rightarrow> int \<Rightarrow> int \<Rightarrow> bytes run" where
  "markUnused c p nChunks = markSize c p nChunks False"

section \<open>Finding the chunk of a block\<close>

partial_function (option) walk_down :: "bytes \<Rightarrow> int \<Rightarrow> int run" where
  "walk_down c p = bindR (byte_at c p) (\<lambda>b. if b < MaxDistance then walk_down c (p - b) else ret p)"

partial_function (option) walk_up :: "bytes \<Rightarrow> int \<Rightarrow> int \<Rightarrow> int run" where
  "walk_up c lim p = bindR (byte_at c p) (\<lambda>b. if MaxDistance \<le> b \<and> p < lim then walk_up c lim (p + 1) else ret p)"

partial_function (option) walk_prev :: "bytes \<Rightarrow> int \<Rightarrow> int \<Rightarrow> int run" where
  "walk_prev c q m = bindR (chunk_contains c m q) (\<lambda>b. if b then ret m else bindR (chunk_prev c m) (walk_prev c q))"

definition findStart :: "bytes \<Rightarrow> int \<Rightarrow> int \<Rightarrow> int \<Rightarrow> int run" where
  "findStart c q mapStart mapEnd =
     bindR (byte_at c q) (\<lambda>b.
     bindR (if b < MaxDistance
            then bindR (walk_down c q) (\<lambda>p. bindR (guard (mapStart \<le> p) ''not found'') (\<lambda>_. ret p))
            else bindR (walk_up c mapEnd q) (\<lambda>p.
                 bindR (if p < mapEnd
                        then bindR (walk_down c p) (\<lambda>p. bindR (guard (mapStart \<le> p) ''not found'') (\<lambda>_. ret p))
                        else ret p) (walk_prev c q))) (\<lambda>m.
     bindR (chunk_isValid c m) (\<lambda>v. bindR (guard v ''invalid chunk map'') (\<lambda>_.
     bindR (chunk_contains c m q) (\<lambda>b. bindR (guard b ''wrong chunk'') (\<lambda>_. ret m))))))"

section \<open>The format\<close>

definition at :: "bytes \<Rightarrow> int \<Rightarrow> int" where
  "at c q = uint (c ! nat q)"

lemma at_range: "0 \<le> at c q" "at c q < 256"
  using uint_lt2p [of "c ! nat q"] by (simp_all add: at_def)

lemma byte_at_at: "0 \<le> p \<Longrightarrow> p < int (length c) \<Longrightarrow> byte_at c p = ret (at c p)"
  by (simp add: byte_at_def at_def)

lemma write_bytes_ret:
  assumes "\<forall>(i, v)\<in>set r. 0 \<le> p + i \<and> p + i < int (length c) \<and> 0 \<le> v \<and> v < 256"
  shows "\<exists>c'. write_bytes c p r = ret c' \<and> length c' = length c \<and>
    (\<forall>q. 0 \<le> q \<longrightarrow> q < int (length c) \<longrightarrow> at c' q = (case map_of (rev r) (q - p) of None \<Rightarrow> at c q | Some v \<Rightarrow> v))"
  using assms
proof (induction r arbitrary: c)
  case (Cons x r)
  obtain i v where x: "x = (i, v)" by (cases x)
  have i: "0 \<le> p + i" "p + i < int (length c)" "0 \<le> v" "v < 256" using Cons.prems by (auto simp: x)
  let ?d = "c[nat (p + i) := word_of_int v]"
  have "\<exists>c'. write_bytes ?d p r = ret c' \<and> length c' = length ?d \<and>
    (\<forall>q. 0 \<le> q \<longrightarrow> q < int (length ?d) \<longrightarrow> at c' q = (case map_of (rev r) (q - p) of None \<Rightarrow> at ?d q | Some v \<Rightarrow> v))"
    using Cons.prems by (intro Cons.IH) simp
  then obtain c' where c': "write_bytes ?d p r = ret c'" "length c' = length c"
    "\<And>q. 0 \<le> q \<Longrightarrow> q < int (length c) \<Longrightarrow> at c' q = (case map_of (rev r) (q - p) of None \<Rightarrow> at ?d q | Some v \<Rightarrow> v)"
    by auto
  have d: "at ?d q = (if q = p + i then v else at c q)" if "0 \<le> q" "q < int (length c)" for q
    using that i by (auto simp: at_def nth_list_update uint_word_of_int)
  have "write_bytes c p (x # r) = ret c'" using i c'(1) by (simp add: x byte_at_put_def)
  moreover have "at c' q = (case map_of (rev (x # r)) (q - p) of None \<Rightarrow> at c q | Some v \<Rightarrow> v)"
    if "0 \<le> q" "q < int (length c)" for q
    using c'(3) [OF that] d [OF that] by (auto simp: x map_add_def split: option.splits)
  ultimately show ?case using c'(2) by blast
qed simp

definition header_size :: "int \<Rightarrow> int" where
  "header_size n = (if n < 62 then 1 else 4)"

text \<open>The distance byte of position \<open>i\<close> of a used chunk of \<open>n\<close> blocks.\<close>

definition distance :: "int \<Rightarrow> int \<Rightarrow> int" where
  "distance n i = (if n < 62 \<or> i < min (n - 4) 128 then i else 124)"

definition header_ok :: "bytes \<Rightarrow> int \<Rightarrow> int \<Rightarrow> bool \<Rightarrow> bool" where
  "header_ok c p n used \<longleftrightarrow>
     (if n < 62 then at c p = (if used then 192 else 128) + n - 1 \<and> at c (p + n - 1) = at c p
      else at c p = chunk_ovfl used \<and> at c (p + n - 1) = chunk_ovfl used \<and>
        at c (p + 1) = 128 + n div 2 ^ 14 \<and> at c (p + n - 4) = at c (p + 1) \<and>
        at c (p + 2) = 128 + n div 2 ^ 7 mod 2 ^ 7 \<and> at c (p + n - 3) = at c (p + 2) \<and>
        at c (p + 3) = 128 + n mod 2 ^ 7 \<and> at c (p + n - 2) = at c (p + 3))"

definition chunk_head :: "bytes \<Rightarrow> int \<Rightarrow> int \<Rightarrow> bool \<Rightarrow> bool" where
  "chunk_head c p n used \<longleftrightarrow> 0 \<le> p \<and> 1 \<le> n \<and> n < 2 ^ 21 \<and> p + n \<le> int (length c) \<and> header_ok c p n used"

definition chunk_ok :: "bytes \<Rightarrow> int \<Rightarrow> int \<Rightarrow> bool \<Rightarrow> bool" where
  "chunk_ok c p n used \<longleftrightarrow> chunk_head c p n used \<and>
     (2 * header_size n < n \<longrightarrow> at c (p + header_size n) = header_size n) \<and>
     (used \<longrightarrow> (\<forall>i. header_size n \<le> i \<longrightarrow> i < n - header_size n \<longrightarrow> at c (p + i) = distance n i))"

lemma chunk_ovfl_simps [simp]: "chunk_ovfl True = 254" "chunk_ovfl False = 190"
  by (simp_all add: chunk_ovfl_def chunk_consts)

lemma long_length_value:
  assumes "0 \<le> q" and "q + 3 \<le> int (length c)" and "0 \<le> n" and "n < 2 ^ 21"
    and "at c q = 128 + n div 2 ^ 14" and "at c (q + 1) = 128 + n div 2 ^ 7 mod 2 ^ 7" and "at c (q + 2) = 128 + n mod 2 ^ 7"
  shows "long_length c q = ret n"
proof -
  have "n div 2 ^ 14 \<le> (2 ^ 21 - 1) div 2 ^ 14" by (rule zdiv_mono1) (use assms(4) in simp_all)
  then have r: "n div 2 ^ 14 < 128" "0 \<le> n div 2 ^ 14" using assms(3) by (simp_all add: pos_imp_zdiv_nonneg_iff)
  have m0: "chunk_n c p = ret k" if "0 \<le> p" "p < int (length c)" "at c p = 128 + k" "0 \<le> k" "k < 128" for p k
    using that by (simp add: chunk_n_def byte_at_at chunk_unused_def)
  have m: "chunk_n c q = ret (n div 2 ^ 14)" "chunk_n c (q + 1) = ret (n div 2 ^ 7 mod 2 ^ 7)" "chunk_n c (q + 2) = ret (n mod 2 ^ 7)"
    using m0 [OF _ _ assms(5)] m0 [OF _ _ assms(6)] m0 [OF _ _ assms(7)] assms(1,2) r by simp_all
  have "n div 2 ^ 14 = n div 2 ^ 7 div 2 ^ 7" using zdiv_zmult2_eq [of "2 ^ 7" n "2 ^ 7"] by simp
  then have "n div 2 ^ 14 * 2 ^ 7 + n div 2 ^ 7 mod 2 ^ 7 = n div 2 ^ 7" by (simp only: div_mult_mod_eq)
  then have "(n div 2 ^ 14 * 2 ^ 7 + n div 2 ^ 7 mod 2 ^ 7) * 2 ^ 7 + n mod 2 ^ 7 = n" by (simp only: div_mult_mod_eq)
  moreover have "long_length c q = ret ((n div 2 ^ 14 * 2 ^ 7 + n div 2 ^ 7 mod 2 ^ 7) * 2 ^ 7 + n mod 2 ^ 7)"
    unfolding long_length_def m bindR_ret MaxDistLog_def push_bit_eq_mult ..
  ultimately show ?thesis by (simp only:)
qed

lemma chunk_head_bytes:
  assumes "chunk_head c p n used"
  shows "0 \<le> p" and "p < int (length c)" and "1 \<le> n" and "p + n \<le> int (length c)"
    and "(192 \<le> at c p) = used" and "128 \<le> at c p" and "at c p \<noteq> 255" and "at c (p + n - 1) = at c p"
    and "at c p = chunk_ovfl used \<longleftrightarrow> 62 \<le> n"
proof -
  show b: "0 \<le> p" "1 \<le> n" "p + n \<le> int (length c)" using assms by (simp_all add: chunk_head_def)
  then show "p < int (length c)" by simp
  have v: "at c p = (if n < 62 then (if used then 192 else 128) + n - 1 else chunk_ovfl used)"
    using assms by (simp add: chunk_head_def header_ok_def split: if_splits)
  show "(192 \<le> at c p) = used" "128 \<le> at c p" "at c p \<noteq> 255" "at c p = chunk_ovfl used \<longleftrightarrow> 62 \<le> n"
    unfolding v using b(2) by (cases used; simp)+
  show "at c (p + n - 1) = at c p" using assms by (simp add: chunk_head_def header_ok_def split: if_splits)
qed

lemma chunk_head_size:
  assumes "chunk_head c p n used"
  shows "chunk_isUsed c p = ret used" and "chunk_size c p = ret n" and "chunk_headerSize c p = ret (header_size n)"
    and "chunk_next c p = ret (p + n)"
proof -
  note b = chunk_head_bytes [OF assms]
  show u: "chunk_isUsed c p = ret used" using b by (simp add: chunk_isUsed_def byte_at_at chunk_consts)
  show s: "chunk_size c p = ret n"
  proof (cases "n < 62")
    case True
    then have "at c p \<noteq> chunk_ovfl used" using b(9) by simp
    moreover have "at c p = (if used then 192 else 128) + n - 1" using assms True by (simp add: chunk_head_def header_ok_def)
    ultimately show ?thesis using u b by (simp add: chunk_size_def byte_at_at chunk_consts)
  next
    case False
    have "long_length c (p + 1) = ret n"
      using assms False b by (intro long_length_value) (auto simp: chunk_head_def header_ok_def add.assoc)
    then show ?thesis using u b False by (simp add: chunk_size_def byte_at_at chunk_consts)
  qed
  show "chunk_headerSize c p = ret (header_size n)"
    using u b by (simp add: chunk_headerSize_def byte_at_at header_size_def chunk_consts)
  show "chunk_next c p = ret (p + n)" using s by (simp add: chunk_next_def)
qed

lemma chunk_head_prev:
  assumes "chunk_head c p n used"
  shows "chunk_prev c (p + n) = ret p"
proof -
  note b = chunk_head_bytes [OF assms]
  have l: "0 \<le> p + n - 1" "p + n - 1 < int (length c)" using b by simp_all
  have u: "chunk_isUsed c (p + n - 1) = ret used" using b l by (simp add: chunk_isUsed_def byte_at_at chunk_consts)
  show ?thesis
  proof (cases "n < 62")
    case True
    then have o: "at c p \<noteq> chunk_ovfl used" using b(9) by simp
    have v: "at c p = (if used then 192 else 128) + n - 1" using assms True by (simp add: chunk_head_def header_ok_def)
    have "chunk_size c (p + n - 1) = ret n"
      using u b l o v by (simp add: chunk_size_def byte_at_at chunk_consts)
    then show ?thesis using u b l o by (simp add: chunk_prev_def byte_at_at)
  next
    case False
    have "long_length c (p + n - 4) = ret n"
      using assms False b by (intro long_length_value) (auto simp: chunk_head_def header_ok_def algebra_simps)
    then show ?thesis using u b l False by (simp add: chunk_prev_def byte_at_at)
  qed
qed

lemma chunk_head_valid:
  assumes "chunk_head c p n used"
  shows "chunk_isValid c p = ret True"
proof -
  note b = chunk_head_bytes [OF assms] and s = chunk_head_size [OF assms]
  have l: "0 \<le> p + n - 1" "p + n - 1 < int (length c)" using b by simp_all
  show ?thesis
  proof (cases "n < 62")
    case True
    then show ?thesis using b s l by (simp add: chunk_isValid_def byte_at_at chunk_consts Let_def)
  next
    case False
    have h: "at c (p + n - 4) = at c (p + 1)" "at c (p + n - 3) = at c (p + 2)" "at c (p + n - 2) = at c (p + 3)"
      using assms False by (auto simp: chunk_head_def header_ok_def)
    have e: "p + n - 1 - 3 = p + n - 4" "p + n - 1 - 2 = p + n - 3" "p + n - 1 - 1 = p + n - 2" by simp_all
    have r: "byte_at c (p + k) = ret (at c (p + k))" "byte_at c (p + n - k) = ret (at c (p + n - k))" if "1 \<le> k" "k \<le> 4" for k
      using that b False by (simp_all add: byte_at_at)
    show ?thesis
      using b s l False h r by (simp add: chunk_isValid_def byte_at_at [of p] byte_at_at [of "p + n - 1"] chunk_consts Let_def e)
  qed
qed

lemma map_of_same: "map_of (rev (map (\<lambda>i. (i, f i)) xs)) k = (if k \<in> set xs then Some (f k) else None)"
proof -
  have "map_of (map (\<lambda>i. (i, f i)) (rev xs)) k = (if k \<in> set (rev xs) then Some (f k) else None)"
    by (simp add: map_of_map_restrict restrict_map_def)
  then show ?thesis by (simp add: rev_map)
qed

lemma header_bytes_ok:
  assumes "0 \<le> p" and "1 \<le> n" and "n < 2 ^ 21" and "p + n \<le> int (length c)"
  shows "\<exists>c'. write_bytes c p (header_bytes n used) = ret c' \<and> length c' = length c \<and> chunk_head c' p n used \<and>
    (\<forall>q. 0 \<le> q \<longrightarrow> q < int (length c) \<longrightarrow> \<not> (p \<le> q \<and> q < p + n) \<longrightarrow> at c' q = at c q)"
proof (cases "n < 62")
  case True
  define b where "b = (if used then 192 else 128) + n - 1"
  have b: "0 \<le> b" "b < 256" using True assms(2) by (simp_all add: b_def)
  have h: "header_bytes n used = [(n - 1, b), (0, b)]" using True by (simp add: header_bytes_def b_def chunk_consts Let_def)
  have "\<exists>c'. write_bytes c p (header_bytes n used) = ret c' \<and> length c' = length c \<and>
    (\<forall>q. 0 \<le> q \<longrightarrow> q < int (length c) \<longrightarrow>
      at c' q = (case map_of (rev (header_bytes n used)) (q - p) of None \<Rightarrow> at c q | Some v \<Rightarrow> v))"
    by (rule write_bytes_ret) (use b assms in \<open>simp add: h\<close>)
  then obtain c' where c': "write_bytes c p (header_bytes n used) = ret c'" "length c' = length c"
    "\<And>q. 0 \<le> q \<Longrightarrow> q < int (length c) \<Longrightarrow>
      at c' q = (case map_of (rev (header_bytes n used)) (q - p) of None \<Rightarrow> at c q | Some v \<Rightarrow> v)" by blast
  have v: "at c' p = b" "at c' (p + n - 1) = b" using assms by (simp_all add: c'(3) h)
  have "chunk_head c' p n used"
    using v c'(2) assms True by (simp add: chunk_head_def header_ok_def b_def)
  moreover have "at c' q = at c q" if q: "0 \<le> q" "q < int (length c)" "\<not> (p \<le> q \<and> q < p + n)" for q
    using c'(3) [OF q(1,2)] q(3) assms(2) by (auto simp: h)
  ultimately show ?thesis using c'(1,2) by blast
next
  case False
  let ?o = "chunk_ovfl used"
  define b1 b2 b3 where "b1 = 128 + n div 2 ^ 14" and "b2 = 128 + n div 2 ^ 7 mod 2 ^ 7" and "b3 = 128 + n mod 2 ^ 7"
  have "n div 2 ^ 14 \<le> (2 ^ 21 - 1) div 2 ^ 14" by (rule zdiv_mono1) (use assms(3) in simp_all)
  then have b: "0 \<le> b1" "b1 < 256" "0 \<le> b2" "b2 < 256" "0 \<le> b3" "b3 < 256"
    using assms(2) by (simp_all add: b1_def b2_def b3_def pos_imp_zdiv_nonneg_iff)
  have o: "0 \<le> ?o" "?o < 256" by (cases used; simp)+
  have m: "n AND 127 = n mod 2 ^ 7" "drop_bit 7 n AND 127 = n div 2 ^ 7 mod 2 ^ 7"
    using take_bit_eq_mask [of 7 n] take_bit_eq_mask [of 7 "drop_bit 7 n"]
    by (simp_all add: mask_eq_exp_minus_1 take_bit_eq_mod drop_bit_eq_div)
  have h: "header_bytes n used =
    [(n - 1, ?o), (0, ?o), (n - 4, b1), (1, b1), (n - 3, b2), (2, b2), (n - 2, b3), (3, b3)]"
    using False m by (simp add: header_bytes_def chunk_consts Let_def b1_def b2_def b3_def drop_bit_eq_div)
  have "\<exists>c'. write_bytes c p (header_bytes n used) = ret c' \<and> length c' = length c \<and>
    (\<forall>q. 0 \<le> q \<longrightarrow> q < int (length c) \<longrightarrow>
      at c' q = (case map_of (rev (header_bytes n used)) (q - p) of None \<Rightarrow> at c q | Some v \<Rightarrow> v))"
    by (rule write_bytes_ret) (use b o assms False in \<open>simp add: h\<close>)
  then obtain c' where c': "write_bytes c p (header_bytes n used) = ret c'" "length c' = length c"
    "\<And>q. 0 \<le> q \<Longrightarrow> q < int (length c) \<Longrightarrow>
      at c' q = (case map_of (rev (header_bytes n used)) (q - p) of None \<Rightarrow> at c q | Some v \<Rightarrow> v)" by blast
  have v: "at c' p = ?o" "at c' (p + n - 1) = ?o" "at c' (p + 1) = b1" "at c' (p + n - 4) = b1" "at c' (p + 2) = b2"
    "at c' (p + n - 3) = b2" "at c' (p + 3) = b3" "at c' (p + n - 2) = b3"
    using assms False by (simp_all add: c'(3) h)
  have "chunk_head c' p n used"
    using v c'(2) assms False by (simp add: chunk_head_def header_ok_def b1_def b2_def b3_def)
  moreover have "at c' q = at c q" if q: "0 \<le> q" "q < int (length c)" "\<not> (p \<le> q \<and> q < p + n)" for q
    using c'(3) [OF q(1,2)] q(3) False by (auto simp: h)
  ultimately show ?thesis using c'(1,2) by blast
qed

lemma header_ok_cong:
  assumes "\<And>k. 0 \<le> k \<Longrightarrow> k < header_size n \<Longrightarrow> at c' (p + k) = at c (p + k)"
    and "\<And>k. 1 \<le> k \<Longrightarrow> k \<le> header_size n \<Longrightarrow> at c' (p + n - k) = at c (p + n - k)"
  shows "header_ok c' p n used = header_ok c p n used"
proof (cases "n < 62")
  case True
  then show ?thesis using assms(1) [of 0] assms(2) [of 1] by (simp add: header_ok_def header_size_def)
next
  case False
  then show ?thesis
    using assms(1) [of 0] assms(1) [of 1] assms(1) [of 2] assms(1) [of 3] assms(2) [of 1] assms(2) [of 2] assms(2) [of 3] assms(2) [of 4]
    by (simp add: header_ok_def header_size_def)
qed

lemma distance_bytes_at:
  assumes "1 \<le> n"
  shows "map_of (rev (distance_bytes n used)) k =
    (if used \<and> header_size n \<le> k \<and> k < n - header_size n then Some (distance n k)
     else if \<not> used \<and> 2 < n \<and> k = header_size n then Some k else None)"
proof (cases used)
  case False
  then show ?thesis by (auto simp: distance_bytes_def header_size_def chunk_consts Let_def)
next
  case True
  show ?thesis
  proof (cases "n < 62")
    case n: True
    then have "distance_bytes n used = map (\<lambda>i. (i, i)) [1..n - 2]" using True by (simp add: distance_bytes_def chunk_consts)
    then show ?thesis using True n map_of_same [of "\<lambda>i. i" "[1..n - 2]" k] by (simp add: header_size_def distance_def)
  next
    case n: False
    define m where "m = min (n - 4) 128"
    have m: "4 \<le> m" "m \<le> n - 4" using n by (simp_all add: m_def)
    have "distance_bytes n used = map (\<lambda>i. (i, i)) [4..m - 1] @ map (\<lambda>i. (i, 124)) [m..n - 5]"
      using True n by (simp add: distance_bytes_def chunk_consts Let_def m_def)
    then have "map_of (rev (distance_bytes n used)) k =
      (if k \<in> {4..m - 1} then Some k else if k \<in> {m..n - 5} then Some 124 else None)"
      using map_of_same [of "\<lambda>i. i" "[4..m - 1]" k] map_of_same [of "\<lambda>i. 124::int" "[m..n - 5]" k]
      by (simp add: map_add_def)
    moreover have "header_size n = 4" "distance n k = (if k < m then k else 124)"
      using n by (simp_all add: header_size_def distance_def m_def)
    ultimately show ?thesis using True m by auto
  qed
qed

lemma distance_bytes_range:
  "1 \<le> n \<Longrightarrow> (i, v) \<in> set (distance_bytes n used) \<Longrightarrow> 0 \<le> i \<and> i < n \<and> 0 \<le> v \<and> v < 256"
  by (auto simp: distance_bytes_def chunk_consts Let_def split: if_splits)

lemma markSize_ret:
  assumes "0 \<le> p" and "1 \<le> n" and "n < 2 ^ 21" and "p + n \<le> int (length c)"
  shows "\<exists>c'. markSize c p n used = ret c' \<and> length c' = length c \<and> chunk_ok c' p n used \<and>
    (\<forall>q. 0 \<le> q \<longrightarrow> q < int (length c) \<longrightarrow> \<not> (p \<le> q \<and> q < p + n) \<longrightarrow> at c' q = at c q)"
proof -
  from header_bytes_ok [OF assms, of used] obtain c1 where
    c1: "write_bytes c p (header_bytes n used) = ret c1" "length c1 = length c" "chunk_head c1 p n used"
    "\<And>q. 0 \<le> q \<Longrightarrow> q < int (length c) \<Longrightarrow> \<not> (p \<le> q \<and> q < p + n) \<Longrightarrow> at c1 q = at c q" by blast
  have "\<forall>(i, v)\<in>set (distance_bytes n used). 0 \<le> p + i \<and> p + i < int (length c1) \<and> 0 \<le> v \<and> v < 256"
    using distance_bytes_range [OF assms(2)] assms(1,4) c1(2) by fastforce
  from write_bytes_ret [OF this] obtain c' where
    c': "write_bytes c1 p (distance_bytes n used) = ret c'" "length c' = length c1"
    "\<And>q. 0 \<le> q \<Longrightarrow> q < int (length c1) \<Longrightarrow>
      at c' q = (case map_of (rev (distance_bytes n used)) (q - p) of None \<Rightarrow> at c1 q | Some v \<Rightarrow> v)" by blast
  have hs: "1 \<le> header_size n" "header_size n \<le> 4" by (simp_all add: header_size_def)
  have "header_ok c' p n used = header_ok c1 p n used"
  proof (rule header_ok_cong)
    fix k assume k: "0 \<le> k" "k < header_size n"
    have "n < 62 \<Longrightarrow> k < n" using k assms(2) by (simp add: header_size_def)
    then have "p + k < int (length c1)" using k hs assms c1(2) by (cases "n < 62") simp_all
    then show "at c' (p + k) = at c1 (p + k)"
      using c'(3) [of "p + k"] k assms(1,2) by (auto simp: distance_bytes_at)
  next
    fix k assume k: "1 \<le> k" "k \<le> header_size n"
    have r: "0 \<le> p + n - k" "p + n - k < int (length c1)"
      using k assms c1(2) by (auto simp: header_size_def split: if_splits)
    have "\<not> (\<not> used \<and> 2 < n \<and> n - k = header_size n)" using k by (auto simp: header_size_def split: if_splits)
    then show "at c' (p + n - k) = at c1 (p + n - k)"
      using c'(3) [OF r] k by (auto simp: distance_bytes_at [OF assms(2)])
  qed
  then have head: "chunk_head c' p n used" using c1(3) c'(2) by (simp add: chunk_head_def)
  have first: "at c' (p + header_size n) = header_size n" if "2 * header_size n < n"
    using c'(3) [of "p + header_size n"] that hs assms c1(2)
    by (auto simp: distance_bytes_at distance_def header_size_def split: if_splits)
  have dist: "at c' (p + i) = distance n i" if "used" "header_size n \<le> i" "i < n - header_size n" for i
    using c'(3) [of "p + i"] that hs assms c1(2) by (simp add: distance_bytes_at)
  have "markSize c p n used = ret c'"
    using c1(1) c'(1) chunk_head_size(2) [OF c1(3)] assms(3) by (simp add: markSize_def chunk_consts)
  moreover have "at c' q = at c q" if q: "0 \<le> q" "q < int (length c)" "\<not> (p \<le> q \<and> q < p + n)" for q
  proof -
    have "map_of (rev (distance_bytes n used)) (q - p) = None"
      using q(3) hs by (auto simp: distance_bytes_at [OF assms(2)] header_size_def split: if_splits)
    then show ?thesis using c'(3) [of q] q c1(2,4) by simp
  qed
  ultimately show ?thesis using head first dist c'(2) c1(2) by (auto simp: chunk_ok_def)
qed

text \<open>
  C28. For every chunk length that three bytes of seven bits encode, \<open>markSize\<close> succeeds (its
  assertion on the encoding never fails), and from then on the chunk has that size, that state and
  that header, \<open>next\<close> leads to its end, \<open>prev\<close> from its end leads back to it, it is valid, its
  distance bytes are those \<open>findStart\<close> follows, and no byte outside the chunk has changed.
\<close>

theorem markSize_writes_chunk:
  assumes "0 \<le> p" and "1 \<le> n" and "n < 2 ^ 21" and "p + n \<le> int (length c)"
  shows "\<exists>c'. markSize c p n used = ret c' \<and> chunk_size c' p = ret n \<and> chunk_isUsed c' p = ret used \<and>
    chunk_headerSize c' p = ret (header_size n) \<and> chunk_next c' p = ret (p + n) \<and> chunk_prev c' (p + n) = ret p \<and>
    chunk_isValid c' p = ret True \<and> chunk_ok c' p n used \<and> length c' = length c \<and>
    (\<forall>q. 0 \<le> q \<longrightarrow> q < int (length c) \<longrightarrow> \<not> (p \<le> q \<and> q < p + n) \<longrightarrow> at c' q = at c q)"
proof -
  from markSize_ret [OF assms, of used] obtain c' where
    c': "markSize c p n used = ret c'" "length c' = length c" "chunk_ok c' p n used"
    "\<forall>q. 0 \<le> q \<longrightarrow> q < int (length c) \<longrightarrow> \<not> (p \<le> q \<and> q < p + n) \<longrightarrow> at c' q = at c q" by blast
  have h: "chunk_head c' p n used" using c'(3) by (simp add: chunk_ok_def)
  show ?thesis using c' chunk_head_size [OF h] chunk_head_prev [OF h] chunk_head_valid [OF h] by blast
qed

lemma markSize_writes_chunk_witness:
  "\<exists>c'. markSize (replicate 100 0) 1 70 True = ret c' \<and> chunk_size c' 1 = ret 70 \<and> chunk_prev c' 71 = ret 1"
  using markSize_writes_chunk [of 1 70 "replicate 100 0" True] by auto

section \<open>Maps of chunks\<close>

text \<open>The stretch from \<open>lo\<close> to \<open>hi\<close> is a sequence of chunks with the given lengths and states.\<close>

fun chunks :: "bytes \<Rightarrow> int \<Rightarrow> (int \<times> bool) list \<Rightarrow> int \<Rightarrow> bool" where
  "chunks c lo [] hi = (lo = hi)"
| "chunks c lo ((n, u) # r) hi = (chunk_ok c lo n u \<and> chunks c (lo + n) r hi)"

lemma chunks_append: "chunks c lo (xs @ ys) hi \<longleftrightarrow> (\<exists>m. chunks c lo xs m \<and> chunks c m ys hi)"
  by (induction xs arbitrary: lo) auto

lemma chunk_ok_head: "chunk_ok c p n u \<Longrightarrow> chunk_head c p n u"
  by (simp add: chunk_ok_def)

lemma chunks_le: "chunks c lo xs hi \<Longrightarrow> lo \<le> hi"
  by (induction xs arbitrary: lo) (fastforce simp: chunk_ok_def chunk_head_def)+

lemma chunk_header_high:
  assumes "chunk_head c p n u" and "0 \<le> k" and "k < header_size n"
  shows "128 \<le> at c (p + k)" and "128 \<le> at c (p + n - 1 - k)"
proof -
  note b = chunk_head_bytes [OF assms(1)]
  have d: "0 \<le> n div 2 ^ 14" using b(3) by (simp add: pos_imp_zdiv_nonneg_iff)
  have "128 \<le> at c (p + k) \<and> 128 \<le> at c (p + n - 1 - k)"
  proof (cases "n < 62")
    case True
    then have "k = 0" using assms(2,3) by (simp add: header_size_def)
    then show ?thesis using b(6,8) by simp
  next
    case False
    have h: "128 \<le> at c (p + 1)" "128 \<le> at c (p + 2)" "128 \<le> at c (p + 3)"
      "at c (p + n - 4) = at c (p + 1)" "at c (p + n - 3) = at c (p + 2)" "at c (p + n - 2) = at c (p + 3)"
      using assms(1) False d by (simp_all add: chunk_head_def header_ok_def)
    have "k = 0 \<or> k = 1 \<or> k = 2 \<or> k = 3" using assms(2,3) False by (auto simp: header_size_def)
    moreover have "p + n - 1 - 1 = p + n - 2" "p + n - 1 - 2 = p + n - 3" "p + n - 1 - 3 = p + n - 4" by simp_all
    ultimately show ?thesis using b(6,8) h by (elim disjE) simp_all
  qed
  then show "128 \<le> at c (p + k)" and "128 \<le> at c (p + n - 1 - k)" by simp_all
qed

lemma walk_up_skip:
  assumes "\<forall>k. 0 \<le> k \<longrightarrow> k < int j \<longrightarrow> 128 \<le> at c (q + k)" and "0 \<le> q" and "q + int j \<le> hi" and "hi < int (length c)"
  shows "walk_up c hi q = walk_up c hi (q + int j)"
  using assms
proof (induction j arbitrary: q)
  case (Suc j)
  have "128 \<le> at c q" using Suc.prems(1) [rule_format, of 0] by simp
  then have "walk_up c hi q = walk_up c hi (q + 1)"
    using Suc.prems by (subst walk_up.simps) (simp add: byte_at_at chunk_consts)
  also have "\<dots> = walk_up c hi (q + 1 + int j)"
  proof (rule Suc.IH)
    show "\<forall>k. 0 \<le> k \<longrightarrow> k < int j \<longrightarrow> 128 \<le> at c (q + 1 + k)"
    proof (intro allI impI)
      fix k assume "0 \<le> k" "k < int j"
      then show "128 \<le> at c (q + 1 + k)" using Suc.prems(1) [rule_format, of "k + 1"] by (simp add: algebra_simps)
    qed
  qed (use Suc.prems in simp_all)
  finally show ?case by (simp add: algebra_simps)
qed simp

lemma walk_down_head:
  "0 \<le> p \<Longrightarrow> p < int (length c) \<Longrightarrow> 128 \<le> at c p \<Longrightarrow> walk_down c p = ret p"
  by (subst walk_down.simps) (simp add: byte_at_at chunk_consts)

lemma walk_down_step:
  "0 \<le> q \<Longrightarrow> q < int (length c) \<Longrightarrow> at c q < 128 \<Longrightarrow> walk_down c q = walk_down c (q - at c q)"
  by (subst walk_down.simps) (simp add: byte_at_at chunk_consts)

text \<open>Every distance byte leads to the start: below 128 in one step, above in steps of 124.\<close>

lemma walk_down_chunk:
  assumes "chunk_ok c p n True" and "header_size n \<le> i" and "i < n - header_size n"
  shows "walk_down c (p + i) = ret p"
  using assms(2,3)
proof (induction "nat i" arbitrary: i rule: less_induct)
  case less
  note b = chunk_head_bytes [OF chunk_ok_head [OF assms(1)]]
  have d: "at c (p + i) = distance n i" using assms(1) less.prems by (simp add: chunk_ok_def)
  have r: "0 \<le> p + i" "p + i < int (length c)" "0 < i" using less.prems b by (auto simp: header_size_def split: if_splits)
  have l: "distance n i < 128" using less.prems by (auto simp: distance_def header_size_def split: if_splits)
  have s: "walk_down c (p + i) = walk_down c (p + i - distance n i)" using walk_down_step [OF r(1,2)] d l by simp
  show ?case
  proof (cases "distance n i = i")
    case True
    then show ?thesis using s walk_down_head [OF b(1,2,6)] by simp
  next
    case False
    then have i: "distance n i = 124" "128 \<le> i" "\<not> n < 62"
      using less.prems by (auto simp: distance_def header_size_def split: if_splits)
    have "walk_down c (p + (i - 124)) = ret p"
      by (rule less.hyps) (use i less.prems in \<open>auto simp: header_size_def\<close>)
    then show ?thesis using s i(1) by (simp add: algebra_simps)
  qed
qed

lemma chunk_contains_iff:
  assumes "chunk_head c p n u"
  shows "chunk_contains c p q = ret (p \<le> q \<and> q < p + n)"
  using chunk_head_size(2) [OF assms] by (simp add: chunk_contains_def)

lemma walk_prev_chunks:
  assumes "chunks c p ((n, u) # xs) m" and "p \<le> q" and "q < p + n"
  shows "walk_prev c q m = ret p"
  using assms(1)
proof (induction xs arbitrary: m rule: rev_induct)
  case Nil
  then have h: "chunk_head c p n u" "m = p + n" by (simp_all add: chunk_ok_def)
  have "walk_prev c q p = ret p" using chunk_contains_iff [OF h(1)] assms(2,3) by (subst walk_prev.simps) simp
  then show ?case using chunk_head_prev [OF h(1)] h(2) assms(3) by (subst walk_prev.simps) (simp add: chunk_contains_def)
next
  case (snoc x xs)
  obtain k v where x: "x = (k, v)" by (cases x)
  have "chunks c p (((n, u) # xs) @ [(k, v)]) m" using snoc.prems by (simp add: x)
  then obtain m' where m': "chunks c p ((n, u) # xs) m'" "chunk_ok c m' k v" "m = m' + k"
    by (auto simp only: chunks_append chunks.simps)
  have "p + n \<le> m'" using m'(1) by (auto dest: chunks_le)
  moreover have "1 \<le> k" using m'(2) by (simp add: chunk_ok_def chunk_head_def)
  ultimately have "chunk_contains c m q = ret False" using m'(3) assms(3) by (simp add: chunk_contains_def)
  then show ?case using snoc.IH [OF m'(1)] chunk_head_prev [OF chunk_ok_head [OF m'(2)]] m'(3)
    by (subst walk_prev.simps) simp
qed

text \<open>
  Walking up over headers from the start of a chunk ends at the end of the map or at the first
  distance byte after a header, which leads down to the start of its chunk.
\<close>

lemma walk_up_head:
  assumes "chunk_ok c p n u" and "0 \<le> j" and "j \<le> header_size n" and "2 * header_size n < n" and "p + n \<le> hi" and "hi < int (length c)"
  shows "walk_up c hi (p + j) = ret (p + header_size n)" and "walk_down c (p + header_size n) = ret p"
proof -
  note h = chunk_ok_head [OF assms(1)]
  note b = chunk_head_bytes [OF h]
  have z: "1 \<le> header_size n" "header_size n \<le> 4" by (simp_all add: header_size_def)
  have d: "at c (p + header_size n) = header_size n" using assms(1,4) by (simp add: chunk_ok_def)
  have "walk_up c hi (p + j) = walk_up c hi (p + j + int (nat (header_size n - j)))"
  proof (rule walk_up_skip)
    show "\<forall>k. 0 \<le> k \<longrightarrow> k < int (nat (header_size n - j)) \<longrightarrow> 128 \<le> at c (p + j + k)"
      using chunk_header_high(1) [OF h, of "j + k" for k] assms(2,3) by (simp add: algebra_simps)
  qed (use b assms z in auto)
  moreover have "p + j + int (nat (header_size n - j)) = p + header_size n" using assms(3) by simp
  moreover have "walk_up c hi (p + header_size n) = ret (p + header_size n)"
    using b assms z d by (subst walk_up.simps) (simp add: byte_at_at chunk_consts)
  ultimately show "walk_up c hi (p + j) = ret (p + header_size n)" by simp
  show "walk_down c (p + header_size n) = ret p"
    using walk_down_step [of "p + header_size n" c] walk_down_head [OF b(1,2,6)] b assms z d by simp
qed

lemma walk_up_tail:
  assumes "chunk_ok c p n u" and "n - header_size n \<le> j \<or> n = 2" and "0 \<le> j" and "j < n" and "p + n \<le> hi" and "hi < int (length c)"
  shows "walk_up c hi (p + j) = walk_up c hi (p + n)"
proof -
  note h = chunk_ok_head [OF assms(1)]
  note b = chunk_head_bytes [OF h]
  have "walk_up c hi (p + j) = walk_up c hi (p + j + int (nat (n - j)))"
  proof (rule walk_up_skip)
    show "\<forall>k. 0 \<le> k \<longrightarrow> k < int (nat (n - j)) \<longrightarrow> 128 \<le> at c (p + j + k)"
    proof (intro allI impI)
      fix k assume k0: "0 \<le> k" "k < int (nat (n - j))"
      then have k: "j + k \<le> n - 1" "0 \<le> j + k" using assms(3,4) by (auto split: if_splits)
      show "128 \<le> at c (p + j + k)"
      proof (cases "n - header_size n \<le> j + k")
        case True
        have "128 \<le> at c (p + n - 1 - (n - 1 - (j + k)))"
          by (rule chunk_header_high(2) [OF h]) (use True k in simp_all)
        then show ?thesis by (simp add: add.assoc)
      next
        case False
        then have "j + k = 0" using k assms(2) k0(1) by (auto simp: header_size_def)
        then show ?thesis using b(6) by (simp add: add.assoc)
      qed
    qed
  qed (use b assms in auto)
  then show ?thesis using assms(4) by simp
qed

lemma chunks_cons_split:
  assumes "chunk_ok c p n u" and "\<exists>m ys zs. xs = ys @ zs \<and> chunks c (p + n) ys m \<and> P m"
  shows "\<exists>m ys zs. (n, u) # xs = ys @ zs \<and> chunks c p ys m \<and> P m"
proof -
  obtain m ys zs where "xs = ys @ zs" "chunks c (p + n) ys m" "P m" using assms(2) by blast
  then have "(n, u) # xs = ((n, u) # ys) @ zs \<and> chunks c p ((n, u) # ys) m \<and> P m" using assms(1) by simp
  then show ?thesis by blast
qed

lemma walk_up_chunks:
  assumes "chunks c p xs hi" and "0 \<le> p" and "hi < int (length c)"
  shows "\<exists>r. walk_up c hi p = ret r \<and> (r = hi \<or> r < hi \<and>
    (\<exists>m ys zs. xs = ys @ zs \<and> chunks c p ys m \<and> walk_down c r = ret m))"
  using assms
proof (induction xs arbitrary: p)
  case Nil
  then show ?case by (subst walk_up.simps) (simp add: byte_at_at)
next
  case (Cons x xs)
  obtain n u where x: "x = (n, u)" by (cases x)
  have c: "chunk_ok c p n u" "chunks c (p + n) xs hi" "p + n \<le> hi" using Cons.prems(1) chunks_le by (auto simp: x)
  note b = chunk_head_bytes [OF chunk_ok_head [OF c(1)]]
  show ?case
  proof (cases "2 * header_size n < n")
    case True
    have "0 \<le> header_size n" by (simp add: header_size_def)
    from walk_up_head [OF c(1) order_refl this True c(3) Cons.prems(3)]
    have "walk_up c hi p = ret (p + header_size n)" "walk_down c (p + header_size n) = ret p" by simp_all
    moreover have "p + header_size n < hi" using True c(3) b(3) by simp
    ultimately show ?thesis
      by (intro exI [of _ "p + header_size n"] conjI disjI2 exI [of _ p] exI [of _ "[]"] exI [of _ "x # xs"]) simp_all
  next
    case False
    then have n: "n = 1 \<or> n = 2" "header_size n = 1" using b(3) by (auto simp: header_size_def split: if_splits)
    have one: "walk_up c hi p = walk_up c hi (p + 1)" if "n = 2"
    proof -
      have "128 \<le> at c p" "p < hi" "p < int (length c)" using b c(3) that by simp_all
      then show ?thesis using b(1) by (subst walk_up.simps) (simp add: byte_at_at chunk_consts)
    qed
    have last: "walk_up c hi (p + (n - 1)) = walk_up c hi (p + n)"
      by (rule walk_up_tail [OF c(1) _ _ _ c(3) Cons.prems(3)]) (use n in auto)
    have "walk_up c hi p = walk_up c hi (p + n)"
    proof (cases "n = 2")
      case True
      then show ?thesis using one last by simp
    next
      case False
      then have "p + (n - 1) = p" using n(1) by simp
      then show ?thesis using last by (simp only:)
    qed
    moreover have "\<exists>r. walk_up c hi (p + n) = ret r \<and> (r = hi \<or> r < hi \<and>
      (\<exists>m ys zs. xs = ys @ zs \<and> chunks c (p + n) ys m \<and> walk_down c r = ret m))"
      by (rule Cons.IH [OF c(2) _ Cons.prems(3)]) (use Cons.prems(2) b(3) in simp)
    then obtain r where r: "walk_up c hi (p + n) = ret r" "r = hi \<or> r < hi \<and>
      (\<exists>m ys zs. xs = ys @ zs \<and> chunks c (p + n) ys m \<and> walk_down c r = ret m)" by (elim exE conjE)
    ultimately have "walk_up c hi p = ret r" by (simp only:)
    moreover have "r = hi \<or> r < hi \<and> (\<exists>m ys zs. x # xs = ys @ zs \<and> chunks c p ys m \<and> walk_down c r = ret m)"
      using r(2) chunks_cons_split [OF c(1), of xs "\<lambda>m. walk_down c r = ret m"] unfolding x by (elim disjE conjE) simp_all
    ultimately show ?thesis by (intro exI [of _ r] conjI)
  qed
qed

lemma chunks_det: "chunks c lo xs a \<Longrightarrow> chunks c lo xs b \<Longrightarrow> a = b"
  by (induction xs arbitrary: lo) auto

lemma findStart_from:
  assumes "chunk_head c p n u" and "p \<le> q" and "q < p + n" and "lo \<le> p" and "hi < int (length c)" and "q < hi"
    and "(at c q < 128 \<and> walk_down c q = ret p) \<or>
      (128 \<le> at c q \<and> (\<exists>r m. walk_up c hi q = ret r \<and> (if r < hi then walk_down c r = ret m \<and> lo \<le> m else m = r) \<and> walk_prev c q m = ret p))"
  shows "findStart c q lo hi = ret p"
proof -
  have r: "0 \<le> q" "q < int (length c)" using chunk_head_bytes(1) [OF assms(1)] assms by auto
  have v: "chunk_isValid c p = ret True" "chunk_contains c p q = ret True"
    using chunk_head_valid [OF assms(1)] chunk_contains_iff [OF assms(1)] assms(2,3) by simp_all
  have p: "walk_prev c q p = ret p" using v(2) by (subst walk_prev.simps) simp
  from assms(7) show ?thesis
  proof
    assume "at c q < 128 \<and> walk_down c q = ret p"
    then show ?thesis using r v assms(4) by (simp add: findStart_def byte_at_at chunk_consts)
  next
    assume a: "128 \<le> at c q \<and> (\<exists>r m. walk_up c hi q = ret r \<and> (if r < hi then walk_down c r = ret m \<and> lo \<le> m else m = r) \<and> walk_prev c q m = ret p)"
    then obtain s m where m: "walk_up c hi q = ret s" "if s < hi then walk_down c s = ret m \<and> lo \<le> m else m = s" "walk_prev c q m = ret p"
      by blast
    show ?thesis using a m r v by (cases "s < hi") (simp_all add: findStart_def byte_at_at chunk_consts)
  qed
qed

text \<open>
  C27. In a map that is a sequence of chunks, \<open>findStart\<close> returns the start of the chunk from every
  block of a used chunk, and from the first block of an unused one; it terminates and none of its
  assertions fails.
\<close>

theorem findStart_finds_chunk:
  assumes "chunks c lo xs p" and "chunks c p ((n, u) # ys) hi" and "0 \<le> lo" and "hi < int (length c)"
    and "p \<le> q" and "q < p + n" and "u \<or> q = p"
  shows "findStart c q lo hi = ret p"
proof -
  have c: "chunk_ok c p n u" "chunks c (p + n) ys hi" "p + n \<le> hi" "lo \<le> p"
    using assms(1,2) chunks_le by auto
  note h = chunk_ok_head [OF c(1)] and z = header_size_def
  note b = chunk_head_bytes [OF h]
  let ?j = "q - p"
  have q: "q = p + ?j" "0 \<le> ?j" "?j < n" "0 \<le> header_size n" using assms(5,6) by (simp_all add: z)
  have prev: "walk_prev c q m = ret p" if "chunks c (p + n) zs m" for zs m
    using walk_prev_chunks [OF _ assms(5,6), of c u zs m] that c(1) by simp
  have self: "walk_prev c q p = ret p"
    using chunk_contains_iff [OF h, of q] assms(5,6) by (subst walk_prev.simps) simp
  have "(u \<and> header_size n \<le> ?j \<and> ?j < n - header_size n) \<or> (?j < header_size n \<and> 2 * header_size n < n) \<or> (n - header_size n \<le> ?j \<or> n = 2)"
    using assms(7) q(2,3) b(3) unfolding z by (cases "n < 62"; cases u) auto
  then consider (dist) "u = True" and "header_size n \<le> ?j" and "?j < n - header_size n"
    | (front) "?j < header_size n" and "2 * header_size n < n"
    | (tail) "n - header_size n \<le> ?j \<or> n = 2" by blast
  then show ?thesis
  proof cases
    case dist
    have "at c (p + ?j) = distance n ?j" using c(1) dist unfolding chunk_ok_def by blast
    then have "at c q = distance n ?j" by simp
    then have "at c q < 128" using dist by (auto simp: distance_def z split: if_splits)
    moreover have "walk_down c q = ret p"
      using walk_down_chunk [of c p n ?j] c(1) dist by simp
    ultimately show ?thesis using assms c b(4) by (intro findStart_from [OF h]) auto
  next
    case front
    have "128 \<le> at c q" using chunk_header_high(1) [OF h q(2) front(1)] by simp
    moreover have "walk_up c hi q = ret (p + header_size n)" "walk_down c (p + header_size n) = ret p"
      using walk_up_head [OF c(1) q(2) _ front(2) c(3) assms(4)] front(1) by simp_all
    moreover have "p + header_size n < hi" using front(2) c(3) q(4) by simp
    ultimately show ?thesis using assms c self
      by (intro findStart_from [OF h] disjI2 conjI exI [of _ "p + header_size n"] exI [of _ p]) simp_all
  next
    case tail
    have hq: "128 \<le> at c q"
    proof (cases "?j = 0")
      case True
      then show ?thesis using b(6) by simp
    next
      case False
      have "128 \<le> at c (p + n - 1 - (n - 1 - ?j))"
        by (rule chunk_header_high(2) [OF h]) (use tail q False in \<open>auto simp: z\<close>)
      then show ?thesis by simp
    qed
    have up: "walk_up c hi q = walk_up c hi (p + n)"
      using walk_up_tail [OF c(1) tail q(2,3) c(3) assms(4)] by simp
    have "0 \<le> p + n" using b(1,3) by simp
    from walk_up_chunks [OF c(2) this assms(4)] obtain r where
      r: "walk_up c hi (p + n) = ret r" "r = hi \<or> r < hi \<and> (\<exists>m zs ws. ys = zs @ ws \<and> chunks c (p + n) zs m \<and> walk_down c r = ret m)"
      by blast
    from r(2) have "\<exists>m. (if r < hi then walk_down c r = ret m \<and> lo \<le> m else m = r) \<and> walk_prev c q m = ret p"
    proof
      assume "r = hi"
      then show ?thesis using prev [OF c(2)] by simp
    next
      assume "r < hi \<and> (\<exists>m zs ws. ys = zs @ ws \<and> chunks c (p + n) zs m \<and> walk_down c r = ret m)"
      then obtain m zs where m: "r < hi" "chunks c (p + n) zs m" "walk_down c r = ret m" by blast
      then show ?thesis using prev [OF m(2)] chunks_le [OF m(2)] c(4) b(3) by (intro exI [of _ m]) simp
    qed
    then show ?thesis using assms c hq up r(1) by (intro findStart_from [OF h] disjI2) auto
  qed
qed

lemma findStart_finds_chunk_witness:
  "findStart [192, 196, 1, 2, 3, 196, 129, 129, 192] 5 1 8 = ret 1"
proof -
  let ?c = "[192, 196, 1, 2, 3, 196, 129, 129, 192] :: bytes"
  have "at ?c (1 + i) = i" if "1 \<le> i" "i < 4" for i :: int
  proof -
    have "i = 1 \<or> i = 2 \<or> i = 3" using that by arith
    then show ?thesis by (elim disjE) (simp_all add: at_def)
  qed
  then have "chunk_ok ?c 1 5 True"
    by (simp add: chunk_ok_def chunk_head_def header_ok_def header_size_def distance_def) (simp add: at_def)
  moreover have "chunk_ok ?c 6 2 False"
    by (simp add: chunk_ok_def chunk_head_def header_ok_def header_size_def at_def)
  ultimately show ?thesis using findStart_finds_chunk [of ?c 1 "[]" 1 5 True "[(2, False)]" 8 5] by simp
qed

end
