(* ===== verification/FreeLists.thy ===== *)
theory FreeLists
  imports ChunkMap
begin

text \<open>
  \<^verbatim>\<open>HeapChunk\<close> and \<^verbatim>\<open>FreeList\<close> of \<^verbatim>\<open>vm/code/ZoneHeap.{hpp,cpp}\<close>: doubly linked rings through the
  free blocks themselves. A node is the anchor of one of the lists or the address of a free block;
  the \<open>rings\<close> record is the memory of the \<^verbatim>\<open>_next\<close>, \<^verbatim>\<open>_prev\<close> and \<^verbatim>\<open>size\<close> fields. The contract of
  the lists, the locale \<open>free_lists\<close>, is stated over their contents as sequences; \<open>linked\<close> is the
  abstraction that the rings satisfy it with.
\<close>

section \<open>Rings\<close>

datatype node = List_head nat | Big_list | Chunk_at int

record rings =
  next_of :: "node \<Rightarrow> node"
  prev_of :: "node \<Rightarrow> node"
  size_of :: "node \<Rightarrow> int"

definition node_initialize :: "node \<Rightarrow> rings \<Rightarrow> rings" where
  "node_initialize x r =
     r\<lparr> next_of := (next_of r)(x := x), prev_of := (prev_of r)(x := x), size_of := (size_of r)(x := 0) \<rparr>"

definition set_next :: "node \<Rightarrow> node \<Rightarrow> rings \<Rightarrow> rings" where
  "set_next x y r = r\<lparr> next_of := (next_of r)(x := y) \<rparr>"

definition set_prev :: "node \<Rightarrow> node \<Rightarrow> rings \<Rightarrow> rings" where
  "set_prev x y r = r\<lparr> prev_of := (prev_of r)(x := y) \<rparr>"

definition set_size :: "node \<Rightarrow> int \<Rightarrow> rings \<Rightarrow> rings" where
  "set_size x n r = r\<lparr> size_of := (size_of r)(x := n) \<rparr>"

definition node_insert :: "node \<Rightarrow> node \<Rightarrow> rings \<Rightarrow> rings" where
  "node_insert this other r0 =
     (let r1 = set_next other (next_of r0 this) r0;
          r2 = set_prev (next_of r1 this) other r1;
          r3 = set_next this other r2
      in set_prev other this r3)"

definition node_remove :: "node \<Rightarrow> rings \<Rightarrow> rings" where
  "node_remove this r0 =
     (let r1 = set_prev (next_of r0 this) (prev_of r0 this) r0;
          r2 = set_next (prev_of r1 this) (next_of r1 this) r1
      in node_initialize this r2)"

definition list_clear :: "node \<Rightarrow> rings \<Rightarrow> rings" where
  "list_clear f r = node_initialize f r"

definition list_isEmpty :: "node \<Rightarrow> rings \<Rightarrow> bool" where
  "list_isEmpty f r \<longleftrightarrow> next_of r f = f"

definition list_append :: "node \<Rightarrow> node \<Rightarrow> rings \<Rightarrow> rings" where
  "list_append f h r = node_insert f h r"

definition list_remove :: "node \<Rightarrow> rings \<Rightarrow> rings" where
  "list_remove h r = node_remove h r"

definition list_get :: "node \<Rightarrow> rings \<Rightarrow> node option \<times> rings" where
  "list_get f r =
     (if list_isEmpty f r then (None, r)
      else let res = next_of r f in (Some res, list_remove res r))"

partial_function (option) list_length_loop :: "rings \<Rightarrow> node \<Rightarrow> node \<Rightarrow> nat \<Rightarrow> nat run" where
  "list_length_loop r f p i = (if p \<noteq> f then list_length_loop r f (next_of r p) (i + 1) else ret i)"

definition list_length :: "node \<Rightarrow> rings \<Rightarrow> nat run" where
  "list_length f r = list_length_loop r f (next_of r f) 0"

section \<open>The contract of the lists\<close>

text \<open>\<open>holds s l\<close>: in the state \<open>s\<close> the list with the anchor \<open>f\<close> has the elements \<open>l f\<close>, in order.\<close>

locale free_lists =
  fixes holds :: "'s \<Rightarrow> ('n \<Rightarrow> 'n list) \<Rightarrow> bool"
    and anchors :: "'n set"
    and nxt :: "'s \<Rightarrow> 'n \<Rightarrow> 'n"
    and put :: "'n \<Rightarrow> 'n \<Rightarrow> 's \<Rightarrow> 's"
    and drop_node :: "'n \<Rightarrow> 's \<Rightarrow> 's"
  assumes separate: "holds s l \<Longrightarrow> x \<in> set (l f) \<Longrightarrow> f \<in> anchors \<and> x \<notin> anchors \<and> distinct (l f) \<and> (x \<in> set (l g) \<longrightarrow> f = g)"
    and nxt_anchor: "holds s l \<Longrightarrow> f \<in> anchors \<Longrightarrow> nxt s f = hd (l f @ [f])"
    and nxt_element: "holds s l \<Longrightarrow> l f = xs @ x # ys \<Longrightarrow> nxt s x = hd (ys @ [f])"
    and put_holds: "holds s l \<Longrightarrow> f \<in> anchors \<Longrightarrow> x \<notin> anchors \<Longrightarrow> (\<And>g. x \<notin> set (l g)) \<Longrightarrow> holds (put f x s) (l(f := x # l f))"
    and drop_holds: "holds s l \<Longrightarrow> x \<in> set (l f) \<Longrightarrow> holds (drop_node x s) (l(f := remove1 x (l f)))"
begin

lemma empty_iff: "holds s l \<Longrightarrow> f \<in> anchors \<Longrightarrow> nxt s f = f \<longleftrightarrow> l f = []"
  using nxt_anchor [of s l f] separate [of s l "hd (l f)" f f] by (cases "l f") auto

lemma get_first:
  assumes "holds s l" and "f \<in> anchors" and "nxt s f \<noteq> f"
  shows "l f = nxt s f # tl (l f)" and "holds (drop_node (nxt s f) s) (l(f := tl (l f)))"
proof -
  have ne: "l f \<noteq> []" using empty_iff [OF assms(1,2)] assms(3) by simp
  then show e: "l f = nxt s f # tl (l f)" using nxt_anchor [OF assms(1,2)] by (cases "l f") simp_all
  have "remove1 (nxt s f) (l f) = tl (l f)" by (subst e) simp
  then show "holds (drop_node (nxt s f) s) (l(f := tl (l f)))"
    using drop_holds [OF assms(1), of "nxt s f" f] e by (metis list.set_intros(1))
qed

end

section \<open>Links\<close>

fun links :: "rings \<Rightarrow> node list \<Rightarrow> bool" where
  "links r (x # y # xs) = (next_of r x = y \<and> prev_of r y = x \<and> links r (y # xs))"
| "links r _ = True"

lemma links_append:
  "xs \<noteq> [] \<Longrightarrow> ys \<noteq> [] \<Longrightarrow>
   links r (xs @ ys) \<longleftrightarrow> links r xs \<and> next_of r (last xs) = hd ys \<and> prev_of r (hd ys) = last xs \<and> links r ys"
proof (induction xs rule: links.induct [of "\<lambda>_ xs. _ xs"])
qed (auto simp: neq_Nil_conv)

lemma links_cong:
  "(\<And>y. y \<in> set (butlast xs) \<Longrightarrow> next_of r' y = next_of r y) \<Longrightarrow>
   (\<And>y. y \<in> set (tl xs) \<Longrightarrow> prev_of r' y = prev_of r y) \<Longrightarrow> links r' xs = links r xs"
proof (induction xs)
  case (Cons x xs)
  then show ?case by (cases xs) auto
qed simp

text \<open>There are 30 lists by size, and the list of big chunks.\<close>

definition is_anchor :: "node \<Rightarrow> bool" where
  "is_anchor x = (case x of Chunk_at _ \<Rightarrow> False | List_head i \<Rightarrow> i < 30 | Big_list \<Rightarrow> True)"

definition linked :: "rings \<Rightarrow> (node \<Rightarrow> node list) \<Rightarrow> bool" where
  "linked r l \<longleftrightarrow>
     (\<forall>f. is_anchor f \<longrightarrow> links r (f # l f @ [f])) \<and> (\<forall>f. \<not> is_anchor f \<longrightarrow> l f = []) \<and>
     (\<forall>f. distinct (l f)) \<and> (\<forall>f x. x \<in> set (l f) \<longrightarrow> \<not> is_anchor x) \<and>
     (\<forall>f g x. x \<in> set (l f) \<longrightarrow> x \<in> set (l g) \<longrightarrow> f = g)"

lemma linkedD:
  assumes "linked r l"
  shows "is_anchor f \<Longrightarrow> links r (f # l f @ [f])" and "distinct (l f)"
    and "x \<in> set (l f) \<Longrightarrow> is_anchor f" and "x \<in> set (l f) \<Longrightarrow> \<not> is_anchor x"
    and "x \<in> set (l f) \<Longrightarrow> x \<in> set (l g) \<Longrightarrow> f = g"
  using assms unfolding linked_def by fastforce+

lemma linked_next:
  assumes "linked r l" and "is_anchor f" and "f # l f = xs @ [x] @ ys"
  shows "next_of r x = hd (ys @ [f])" and "prev_of r (hd (ys @ [f])) = x"
proof -
  have "links r ((xs @ [x]) @ ys @ [f])" using linkedD(1) [OF assms(1,2)] assms(3) by (metis append.assoc append_Cons)
  then show "next_of r x = hd (ys @ [f])" and "prev_of r (hd (ys @ [f])) = x"
    by (simp_all add: links_append del: append_assoc)
qed

lemma node_insert_fields:
  "next_of (node_insert f x r) = (next_of r)(x := next_of r f, f := x)"
  "x \<noteq> f \<Longrightarrow> prev_of (node_insert f x r) = (prev_of r)(next_of r f := x, x := f)"
  "size_of (node_insert f x r) = size_of r"
  by (simp_all add: node_insert_def Let_def set_next_def set_prev_def)

lemma node_remove_fields:
  assumes "next_of r x \<noteq> x" and "prev_of r x \<noteq> x"
  shows "next_of (node_remove x r) = (next_of r)(prev_of r x := next_of r x, x := x)"
    and "prev_of (node_remove x r) = (prev_of r)(next_of r x := prev_of r x, x := x)"
    and "size_of (node_remove x r) = (size_of r)(x := 0)"
  using assms by (simp_all add: node_remove_def Let_def set_next_def set_prev_def node_initialize_def)

lemma linked_insert:
  assumes "linked r l" and "is_anchor f" and "\<not> is_anchor x" and "\<And>g. x \<notin> set (l g)"
  shows "linked (node_insert f x r) (l(f := x # l f))"
proof -
  let ?r = "node_insert f x r"
  have xf: "x \<noteq> f" using assms(2,3) by auto
  note fields = node_insert_fields(1) [of f x r] node_insert_fields(2) [OF xf, of r]
  have nf: "next_of r f = hd (l f @ [f])" "prev_of r (hd (l f @ [f])) = f"
    using linked_next [OF assms(1,2), of "[]" f "l f"] by simp_all
  have hin: "hd (l f @ [f]) = f \<or> hd (l f @ [f]) \<in> set (l f)" by (cases "l f") auto
  have fl: "f \<notin> set (l f)" using linkedD(4) [OF assms(1)] assms(2) by blast
  have own: "links ?r (f # (x # l f) @ [f])"
  proof -
    have "links r (l f @ [f])" using linkedD(1) [OF assms(1,2)] by (cases "l f @ [f]") auto
    then have "links ?r (l f @ [f])"
    proof (subst links_cong [of _ ?r r])
      fix y assume "y \<in> set (butlast (l f @ [f]))"
      then show "next_of ?r y = next_of r y" using fl assms(4) by (auto simp: fields)
    next
      fix y assume y: "y \<in> set (tl (l f @ [f]))"
      have "distinct (l f @ [f])" using linkedD(2) [OF assms(1)] fl by simp
      then have "y \<noteq> hd (l f @ [f])" using y by (cases "l f @ [f]") auto
      moreover have "y \<noteq> x" using y xf assms(4) [of f] by (cases "l f") auto
      ultimately show "prev_of ?r y = prev_of r y" by (simp add: fields nf)
    qed
    moreover have "next_of ?r f = x" "prev_of ?r x = f" "next_of ?r x = hd (l f @ [f])" "prev_of ?r (hd (l f @ [f])) = x"
      using xf hin assms(4) by (auto simp: fields nf)
    ultimately show ?thesis by (cases "l f @ [f]") auto
  qed
  moreover have "links ?r (g # l g @ [g])" if g: "is_anchor g" "g \<noteq> f" for g
  proof (subst links_cong [of _ ?r r])
    fix y assume y: "y \<in> set (butlast (g # l g @ [g]))"
    then have "y \<noteq> x" "y \<noteq> f" using g assms(3,4) linkedD(4) [OF assms(1), of f g] assms(2) by auto
    then show "next_of ?r y = next_of r y" by (simp add: fields)
  next
    fix y assume y: "y \<in> set (tl (g # l g @ [g]))"
    then have yx: "y \<noteq> x" using g assms(3,4) by auto
    have "y \<noteq> hd (l f @ [f])"
      using y g hin linkedD(4) [OF assms(1)] linkedD(5) [OF assms(1)] assms(2) by auto
    then show "prev_of ?r y = prev_of r y" using yx by (simp add: fields nf)
  qed (use linkedD(1) [OF assms(1) g(1)] in simp)
  ultimately have lk: "links ?r (g # (l(f := x # l f)) g @ [g])" if "is_anchor g" for g using that by (cases "g = f") simp_all
  show ?thesis unfolding linked_def
  proof (intro conjI allI impI)
    fix g assume "\<not> is_anchor g"
    then show "(l(f := x # l f)) g = []" using assms(1,2) by (auto simp: linked_def)
  next
    fix g show "distinct ((l(f := x # l f)) g)" using linkedD(2) [OF assms(1)] assms(4) by simp
  next
    fix g y assume "y \<in> set ((l(f := x # l f)) g)"
    then show "\<not> is_anchor y" using linkedD(4) [OF assms(1), of y g] assms(3) by (cases "g = f") auto
  next
    fix g h y assume "y \<in> set ((l(f := x # l f)) g)" "y \<in> set ((l(f := x # l f)) h)"
    then show "g = h" using linkedD(5) [OF assms(1), of y g h] assms(4) by (cases "g = f"; cases "h = f") auto
  qed (rule lk)
qed

lemma linked_remove:
  assumes "linked r l" and "x \<in> set (l f)"
  shows "linked (node_remove x r) (l(f := remove1 x (l f)))"
proof -
  let ?r = "node_remove x r"
  note L = linkedD [OF assms(1)]
  have f: "is_anchor f" "\<not> is_anchor x" using L(3,4) assms(2) by blast+
  obtain as bs where s: "l f = as @ x # bs" using split_list assms(2) by metis
  have d: "distinct (f # as @ x # bs)" using L(2) [of f] L(4) [of f f] f by (auto simp: s)
  define p n where "p = last (f # as)" and "n = hd (bs @ [f])"
  have "links r ((f # as) @ [x] @ bs @ [f])" using L(1) [OF f(1)] by (simp add: s)
  then have c: "links r (f # as)" "next_of r p = x" "prev_of r x = p" "next_of r x = n" "prev_of r n = x" "links r (bs @ [f])"
    by (simp_all add: links_append p_def n_def del: append_Cons)
  have pn: "p \<in> set (f # as)" "n \<in> set (f # bs)" by (auto simp: p_def n_def hd_append)
  then have "n \<noteq> x" "p \<noteq> x" using d by auto
  then have fields: "next_of ?r = (next_of r)(p := n, x := x)" "prev_of ?r = (prev_of r)(n := p, x := x)"
    using node_remove_fields [of r x] c by simp_all
  have "links ?r (f # as)"
  proof (subst links_cong [of _ ?r r])
    fix y assume y: "y \<in> set (butlast (f # as))"
    have e: "butlast (f # as) @ [p] = f # as" unfolding p_def by (rule append_butlast_last_id) simp
    have "distinct (butlast (f # as) @ [p])" using d unfolding e by simp
    then have "y \<noteq> p" using y by auto
    moreover have "y \<noteq> x" using in_set_butlastD [OF y] d by auto
    ultimately show "next_of ?r y = next_of r y" by (simp add: fields)
  next
    fix y assume "y \<in> set (tl (f # as))"
    then show "prev_of ?r y = prev_of r y" using d pn(2) by (auto simp: fields)
  qed (rule c(1))
  moreover have "links ?r (bs @ [f])"
  proof (subst links_cong [of _ ?r r])
    fix y assume "y \<in> set (butlast (bs @ [f]))"
    then show "next_of ?r y = next_of r y" using d pn(1) by (auto simp: fields)
  next
    fix y assume y: "y \<in> set (tl (bs @ [f]))"
    have "distinct (bs @ [f])" using d by auto
    then have "y \<noteq> n" using y unfolding n_def by (cases "bs @ [f]") auto
    moreover have "y \<noteq> x" using y d by (cases bs) auto
    ultimately show "prev_of ?r y = prev_of r y" by (simp add: fields)
  qed (rule c(6))
  moreover have "next_of ?r p = n" "prev_of ?r n = p"
    using \<open>n \<noteq> x\<close> \<open>p \<noteq> x\<close> by (simp_all add: fields)
  ultimately have "links ?r ((f # as) @ bs @ [f])"
    by (subst links_append) (simp_all add: p_def n_def)
  moreover have r1: "remove1 x (l f) = as @ bs" using d by (simp add: s remove1_append)
  ultimately have own: "links ?r (f # remove1 x (l f) @ [f])" by simp
  have other: "links ?r (g # l g @ [g])" if g: "is_anchor g" "g \<noteq> f" for g
  proof -
    have dis: "y \<notin> set (f # l f)" if "y \<in> set (g # l g)" for y
      using that g L(4) L(5) f(1) by auto
    have "p \<in> set (f # l f)" "n \<in> set (f # l f)" "x \<in> set (f # l f)" using pn assms(2) by (auto simp: s)
    then have ne: "y \<noteq> p" "y \<noteq> n" "y \<noteq> x" if "y \<in> set (g # l g)" for y using dis [OF that] by blast+
    show ?thesis
    proof (subst links_cong [of _ ?r r])
      fix y assume "y \<in> set (butlast (g # l g @ [g]))"
      then have "y \<in> set (g # l g)" by (metis append_Cons butlast_snoc)
      then show "next_of ?r y = next_of r y" using ne by (simp add: fields)
    next
      fix y assume "y \<in> set (tl (g # l g @ [g]))"
      then have "y \<in> set (g # l g)" by auto
      then show "prev_of ?r y = prev_of r y" using ne by (simp add: fields)
    qed (rule L(1) [OF g(1)])
  qed
  have sub: "set ((l(f := remove1 x (l f))) g) \<subseteq> set (l g)" for g
    using set_remove1_subset [of x "l f"] by simp
  show ?thesis unfolding linked_def
  proof (intro conjI allI impI)
    fix g assume "is_anchor g"
    then show "links ?r (g # (l(f := remove1 x (l f))) g @ [g])" using own other by simp
  next
    fix g assume "\<not> is_anchor g"
    then show "(l(f := remove1 x (l f))) g = []" using assms(1) f(1) by (auto simp: linked_def)
  next
    fix g show "distinct ((l(f := remove1 x (l f))) g)" using L(2) by (simp add: distinct_remove1)
  next
    fix g y assume "y \<in> set ((l(f := remove1 x (l f))) g)"
    then show "\<not> is_anchor y" using sub L(4) by blast
  next
    fix g h y assume "y \<in> set ((l(f := remove1 x (l f))) g)" "y \<in> set ((l(f := remove1 x (l f))) h)"
    then show "g = h" using sub L(5) by blast
  qed
qed

interpretation fl: free_lists linked "Collect is_anchor" next_of list_append list_remove
proof unfold_locales
  fix r l x f g assume "linked r l" "x \<in> set (l f)"
  then show "f \<in> Collect is_anchor \<and> x \<notin> Collect is_anchor \<and> distinct (l f) \<and> (x \<in> set (l g) \<longrightarrow> f = g)"
    using linkedD(2-5) [of r l] by blast
next
  fix r l f assume "linked r l" "f \<in> Collect is_anchor"
  then show "next_of r f = hd (l f @ [f])" using linked_next(1) [of r l f "[]" f "l f"] by simp
next
  fix r l f xs x ys assume a: "linked r l" "l f = xs @ x # ys"
  then have "is_anchor f" using linkedD(3) [OF a(1), of x f] by simp
  then show "next_of r x = hd (ys @ [f])" using linked_next(1) [OF a(1), of f "f # xs" x ys] a(2) by simp
qed (simp_all add: list_append_def list_remove_def linked_insert linked_remove)

lemma node_remove_size:
  assumes "linked r l" and "x \<in> set (l f)"
  shows "size_of (node_remove x r) = (size_of r)(x := 0)"
proof -
  note L = linkedD [OF assms(1)]
  obtain as bs where s: "l f = as @ x # bs" using split_list assms(2) by metis
  have f: "is_anchor f" "\<not> is_anchor x" using L(3,4) assms(2) by blast+
  have d: "distinct (f # as @ x # bs)" using L(2) [of f] L(4) [of f f] f by (auto simp: s)
  have "hd (bs @ [f]) \<in> set (f # bs)" "last (f # as) \<in> set (f # as)" by (auto simp: hd_append)
  then have "hd (bs @ [f]) \<noteq> x" "last (f # as) \<noteq> x" using d by auto
  moreover have "next_of r x = hd (bs @ [f])" using linked_next(1) [OF assms(1) f(1), of "f # as" x bs] by (simp add: s)
  moreover have "prev_of r x = last (f # as)"
    using linked_next(2) [OF assms(1) f(1), of "butlast (f # as)" "last (f # as)" "x # bs"] by (simp add: s)
  ultimately show ?thesis using node_remove_fields(3) [of r x] by (simp only:) simp
qed

lemma linked_set_size: "linked (set_size x n r) l = linked r l"
proof -
  have "links (set_size x n r) xs = links r xs" for xs by (rule links_cong) (simp_all add: set_size_def)
  then show ?thesis by (simp add: linked_def)
qed

lemma list_clear_links:
  assumes "is_anchor f"
  shows "next_of (list_clear f r) f = f \<and> prev_of (list_clear f r) f = f"
  by (simp add: list_clear_def node_initialize_def)

text \<open>The length of a list is the length of its contents.\<close>

lemma list_length_value:
  assumes "linked r l" and "is_anchor f"
  shows "list_length f r = ret (length (l f))"
proof -
  have "list_length_loop r f (hd (ys @ [f])) i = ret (i + length ys)" if "l f = xs @ ys" for xs ys i
    using that
  proof (induction ys arbitrary: xs i)
    case Nil
    then show ?case by (subst list_length_loop.simps) simp
  next
    case (Cons y ys)
    have "y \<noteq> f" using linkedD(4) [OF assms(1), of y f] Cons.prems assms(2) by auto
    moreover have "next_of r y = hd (ys @ [f])" using fl.nxt_element [OF assms(1) Cons.prems] .
    moreover have "list_length_loop r f (hd (ys @ [f])) (i + 1) = ret (i + 1 + length ys)"
      by (rule Cons.IH [of "xs @ [y]"]) (simp add: Cons.prems)
    ultimately show ?case by (subst list_length_loop.simps) simp
  qed
  from this [of "[]" "l f" 0] show ?thesis using fl.nxt_anchor [OF assms(1), of f] assms(2) by (simp add: list_length_def)
qed

end
