(* ===== verification/ZoneHeap.thy ===== *)
theory ZoneHeap
  imports FreeLists
begin

text \<open>
  \<^verbatim>\<open>ZoneHeap\<close> of \<^verbatim>\<open>vm/code/ZoneHeap.{hpp,cpp}\<close>, the allocator of compiled code. A \<open>zone\<close> is the
  chunk map, the rings of free blocks and the counters; a \<^verbatim>\<open>ChunkKlass *\<close> is an index of the map
  (\<^verbatim>\<open>_heapKlass\<close> is 1, after the sentinel), a pointer into the zone an address. \<^verbatim>\<open>VerifyZoneOften\<close>
  is off, its default, and no replacement heap (\<^verbatim>\<open>_newHeap\<close>) is installed. \<^verbatim>\<open>error\<close>, which reports
  an inconsistent map, is a fault.
\<close>

section \<open>State and addresses\<close>

record zone =
  zsize :: int
  blockSize :: int
  nfree :: int
  log2BS :: nat
  bytesUsed :: int
  total_bytes :: int
  ifrag :: int
  zbase :: int
  zmap :: bytes
  lists :: rings
  lastCombine :: int
  combineOnDeallocation :: bool

definition heapKlass :: int where "heapKlass = 1"

definition mapSize :: "zone \<Rightarrow> int" where
  "mapSize z = drop_bit (log2BS z) (zsize z)"

definition capacity :: "zone \<Rightarrow> int" where "capacity z = zsize z"
definition usedBytes :: "zone \<Rightarrow> int" where "usedBytes z = bytesUsed z"
definition freeBytes :: "zone \<Rightarrow> int" where "freeBytes z = zsize z - bytesUsed z"
definition startAddr :: "zone \<Rightarrow> int" where "startAddr z = zbase z"
definition endAddr :: "zone \<Rightarrow> int" where "endAddr z = startAddr z + capacity z"

definition heapEnd :: "zone \<Rightarrow> int" where
  "heapEnd z = heapKlass + mapSize z"

definition blockAddr :: "zone \<Rightarrow> int \<Rightarrow> int run" where
  "blockAddr z m =
     bindR (guard (heapKlass \<le> m \<and> m < heapKlass + mapSize z) ''not a heapKlass entry'')
       (\<lambda>_. ret (zbase z + push_bit (log2BS z) (m - heapKlass)))"

definition mapAddr :: "zone \<Rightarrow> int \<Rightarrow> int run" where
  "mapAddr z p =
     bindR (guard (zbase z \<le> p \<and> p < zbase z + zsize z) ''not in this heap'') (\<lambda>_.
     bindR (guard (p mod blockSize z = 0) ''must be block-aligned'') (\<lambda>_.
     ret (heapKlass + drop_bit (log2BS z) (p - zbase z))))"

definition chunk_verify :: "bytes \<Rightarrow> int \<Rightarrow> unit run" where
  "chunk_verify c p = bindR (chunk_isValid c p) (\<lambda>v. if v then ret () else raise (Fatal ''inconsistent chunk map''))"

definition node_addr :: "node \<Rightarrow> int run" where
  "node_addr x = (case x of Chunk_at a \<Rightarrow> ret a | _ \<Rightarrow> raise Out_Of_Bounds)"

section \<open>Free lists\<close>

definition removeFromFreeList :: "zone \<Rightarrow> int \<Rightarrow> zone run" where
  "removeFromFreeList z m =
     bindR (chunk_verify (zmap z) m) (\<lambda>_.
     bindR (blockAddr z m) (\<lambda>p.
     ret (z\<lparr> lists := node_remove (Chunk_at p) (lists z) \<rparr>)))"

definition addToFreeList :: "zone \<Rightarrow> int \<Rightarrow> (bool \<times> zone) run" where
  "addToFreeList z m =
     bindR (chunk_verify (zmap z) m) (\<lambda>_.
     bindR (blockAddr z m) (\<lambda>p.
     bindR (chunk_size (zmap z) m) (\<lambda>sz.
     if sz \<le> nfree z
     then ret (False, z\<lparr> lists := list_append (List_head (nat (sz - 1))) (Chunk_at p) (lists z) \<rparr>)
     else ret (True, z\<lparr> lists := set_size (Chunk_at p) sz (list_append Big_list (Chunk_at p) (lists z)) \<rparr>))))"

section \<open>Combination of free neighbours\<close>

partial_function (option) combine_prev :: "zone \<Rightarrow> int \<Rightarrow> (int \<times> zone) run" where
  "combine_prev z cm1 =
     bindR (chunk_isUsed (zmap z) cm1) (\<lambda>u.
     if u then ret (cm1, z)
     else bindR (chunk_prev (zmap z) cm1) (\<lambda>p.
          bindR (removeFromFreeList z cm1) (\<lambda>z1.
          bindR (chunk_invalidate (zmap z1) cm1) (\<lambda>c.
          combine_prev (z1\<lparr> zmap := c \<rparr>) p))))"

partial_function (option) combine_next :: "zone \<Rightarrow> int \<Rightarrow> (int \<times> zone) run" where
  "combine_next z cm2 =
     bindR (chunk_isUsed (zmap z) cm2) (\<lambda>u.
     if u then ret (cm2, z)
     else bindR (chunk_next (zmap z) cm2) (\<lambda>p.
          bindR (removeFromFreeList z cm2) (\<lambda>z1.
          bindR (chunk_invalidate (zmap z1) cm2) (\<lambda>c.
          combine_next (z1\<lparr> zmap := c \<rparr>) p))))"

definition combine :: "zone \<Rightarrow> node \<Rightarrow> (node \<times> int \<times> zone) run" where
  "combine z c =
     bindR (node_addr c) (\<lambda>a. bindR (mapAddr z a) (\<lambda>cm.
     bindR (guard (cm < heapEnd z) ''beyond heap'') (\<lambda>_.
     bindR (chunk_next (zmap z) cm) (\<lambda>cmnext.
     bindR (if cm = heapKlass then ret (cm, z)
            else bindR (chunk_prev (zmap z) cm) (\<lambda>p.
                 bindR (combine_prev z p) (\<lambda>(u, z1).
                 bindR (chunk_next (zmap z1) u) (\<lambda>cm1. ret (cm1, z1))))) (\<lambda>(cm1, z1).
     bindR (combine_next z1 cmnext) (\<lambda>(cm2, z2).
     let c' = next_of (lists z2) c in
     bindR (if cm1 \<noteq> cm \<or> cm2 \<noteq> cmnext
            then bindR (removeFromFreeList z2 cm) (\<lambda>z3.
                 bindR (chunk_invalidate (zmap z3) cm) (\<lambda>m3.
                 bindR (markUnused m3 cm1 (cm2 - cm1)) (\<lambda>m4.
                 bindR (addToFreeList (z3\<lparr> zmap := m4 \<rparr>) cm1) (\<lambda>(_, z4).
                 ret (z4\<lparr> lastCombine := cm1 \<rparr>)))))
            else ret z2) (\<lambda>z5.
     bindR (guard (heapKlass \<le> cm1 \<and> cm2 \<le> heapEnd z5 \<and> cm1 < cm2) ''just checkin'') (\<lambda>_.
     bindR (chunk_size (zmap z5) cm1) (\<lambda>sz. ret (c', sz, z5))))))))))"

partial_function (option) combine_list :: "zone \<Rightarrow> node \<Rightarrow> node \<Rightarrow> int \<Rightarrow> (int \<times> zone) run" where
  "combine_list z f c biggest =
     (if c \<noteq> f
      then bindR (combine z c) (\<lambda>(c', sz, z').
           if c = c' then raise (Fatal ''infinite loop detected while combining blocks'')
           else combine_list z' f c' (if biggest < sz then sz else biggest))
      else ret (biggest, z))"

fun combine_lists :: "zone \<Rightarrow> nat list \<Rightarrow> int \<Rightarrow> (int \<times> zone) run" where
  "combine_lists z [] biggest = ret (biggest, z)"
| "combine_lists z (i # is) biggest =
     bindR (combine_list z (List_head i) (next_of (lists z) (List_head i)) biggest) (\<lambda>(b, z'). combine_lists z' is b)"

definition combineAll :: "zone \<Rightarrow> (int \<times> zone) run" where
  "combineAll z =
     bindR (combine_lists z [0..<nat (nfree z)] 0) (\<lambda>(biggest, z'). ret (biggest, z'\<lparr> combineOnDeallocation := True \<rparr>))"

section \<open>Allocation\<close>

function small_fit :: "rings \<Rightarrow> int \<Rightarrow> int \<Rightarrow> node option \<times> int \<times> rings" where
  "small_fit r n blocks =
     (let b = blocks + 1 in
      if b \<le> n
      then case list_get (List_head (nat (b - 1))) r of
             (Some p, r') \<Rightarrow> (Some p, b, r')
           | (None, r') \<Rightarrow> small_fit r' n b
      else (None, b, r))"
  by pat_completeness auto
termination by (relation "measure (\<lambda>(r, n, blocks). nat (n - blocks))") auto

partial_function (option) big_fit :: "rings \<Rightarrow> int \<Rightarrow> node \<Rightarrow> node run" where
  "big_fit r wanted c = (if c \<noteq> Big_list \<and> size_of r c < wanted then big_fit r wanted (next_of r c) else ret c)"

definition take_fit :: "rings \<Rightarrow> int \<Rightarrow> int \<Rightarrow> (node option \<times> int \<times> rings) run" where
  "take_fit r n wanted =
     (case small_fit r n (wanted - 1) of
        (Some p, b, r') \<Rightarrow> ret (Some p, b, r')
      | (None, b, r') \<Rightarrow>
          bindR (big_fit r' wanted (next_of r' Big_list)) (\<lambda>c.
          if c = Big_list then ret (None, b, r') else ret (Some c, size_of r' c, list_remove c r')))"

definition use_chunk :: "zone \<Rightarrow> int \<Rightarrow> int \<Rightarrow> int \<Rightarrow> zone run" where
  "use_chunk z p blocks wanted =
     bindR (mapAddr z p) (\<lambda>m.
     bindR (chunk_size (zmap z) m) (\<lambda>sz.
     bindR (guard (sz = blocks) ''inconsistent sizes'') (\<lambda>_.
     bindR (markUsed (zmap z) m wanted) (\<lambda>c.
     if wanted < blocks
     then bindR (chunk_next c m) (\<lambda>f.
          bindR (markUnused c f (blocks - wanted)) (\<lambda>c'.
          bindR (addToFreeList (z\<lparr> zmap := c' \<rparr>) f) (\<lambda>(_, z'). ret z')))
     else ret (z\<lparr> zmap := c \<rparr>)))))"

partial_function (option) allocFromLists :: "zone \<Rightarrow> int \<Rightarrow> (int option \<times> zone) run" where
  "allocFromLists z wantedBytes =
     bindR (guard (wantedBytes mod blockSize z = 0) ''not a multiple of blockSize'') (\<lambda>_.
     let wanted = drop_bit (log2BS z) wantedBytes in
     bindR (guard (0 < wanted) ''negative alloc size'') (\<lambda>_.
     bindR (take_fit (lists z) (nfree z) wanted) (\<lambda>(x, blocks, r).
     case x of
       Some c \<Rightarrow> bindR (node_addr c) (\<lambda>p. bindR (use_chunk (z\<lparr> lists := r \<rparr>) p blocks wanted) (\<lambda>z'. ret (Some p, z')))
     | None \<Rightarrow>
         if \<not> combineOnDeallocation z
         then bindR (combineAll (z\<lparr> lists := r \<rparr>)) (\<lambda>(biggest, z').
              if wanted \<le> biggest then allocFromLists z' wantedBytes else ret (None, z'))
         else ret (None, z\<lparr> lists := r \<rparr>))))"

definition allocate :: "zone \<Rightarrow> int \<Rightarrow> (int option \<times> zone) run" where
  "allocate z wantedBytes =
     bindR (guard (0 < wantedBytes) ''Heap::allocate: size <= 0'') (\<lambda>_.
     let rounded = push_bit (log2BS z) (drop_bit (log2BS z) (wantedBytes + blockSize z - 1)) in
     bindR (allocFromLists z rounded) (\<lambda>(p, z').
     ret (p, case p of None \<Rightarrow> z'
             | Some _ \<Rightarrow> z'\<lparr> bytesUsed := bytesUsed z' + rounded, total_bytes := total_bytes z' + rounded,
                            ifrag := ifrag z' + (rounded - wantedBytes) \<rparr>)))"

definition deallocate :: "zone \<Rightarrow> int \<Rightarrow> int \<Rightarrow> zone run" where
  "deallocate z p bytes =
     bindR (mapAddr z p) (\<lambda>m.
     bindR (chunk_size (zmap z) m) (\<lambda>sz.
     let blockedBytes = push_bit (log2BS z) sz;
         z1 = z\<lparr> bytesUsed := bytesUsed z - blockedBytes, ifrag := ifrag z - (blockedBytes - bytes) \<rparr> in
     bindR (markUnused (zmap z1) m sz) (\<lambda>c.
     bindR (addToFreeList (z1\<lparr> zmap := c \<rparr>) m) (\<lambda>(big, z2).
     if combineOnDeallocation z2 \<or> big then bindR (combine z2 (Chunk_at p)) (\<lambda>(_, _, z3). ret z3) else ret z2))))"

section \<open>Construction\<close>

definition clear_lists :: "nat \<Rightarrow> rings \<Rightarrow> rings" where
  "clear_lists n r = fold (\<lambda>i. list_clear (List_head i)) [0..<n] r"

definition zone_clear :: "zone \<Rightarrow> zone run" where
  "zone_clear z =
     (let z0 = z\<lparr> bytesUsed := 0, total_bytes := 0, ifrag := 0,
                 lists := list_clear Big_list (clear_lists (nat (nfree z)) (lists z)) \<rparr> in
      bindR (markUnused (zmap z0) heapKlass (mapSize z0)) (\<lambda>c1.
      bindR (markUsed c1 (heapEnd z0) 1) (\<lambda>c2.
      bindR (markUsed c2 (heapKlass - 1) 1) (\<lambda>c3.
      bindR (addToFreeList (z0\<lparr> zmap := c3 \<rparr>) heapKlass) (\<lambda>(_, z1).
      ret (z1\<lparr> combineOnDeallocation := False, lastCombine := heapKlass \<rparr>))))))"

function log2_loop :: "int \<Rightarrow> nat \<Rightarrow> nat" where
  "log2_loop bs k = (if 1 < bs then log2_loop (drop_bit 1 bs) (k + 1) else k)"
  by pat_completeness auto
termination by (relation "measure (\<lambda>(bs, k). nat bs)") (auto simp: drop_bit_eq_div)

text \<open>
  The constructor: \<open>raw\<close> is the address of the executable memory obtained, \<open>m\<close> and \<open>r\<close> the
  unspecified contents of the map and of the list anchors before \<^verbatim>\<open>clear\<close>.
\<close>

definition ZoneHeap_new :: "int \<Rightarrow> int \<Rightarrow> int \<Rightarrow> bytes \<Rightarrow> rings \<Rightarrow> zone run" where
  "ZoneHeap_new s bs raw m r =
     bindR (guard (s mod bs = 0) ''size not a multiple of blockSize'') (\<lambda>_.
     bindR (if bs AND (bs - 1) \<noteq> 0 then raise (Fatal ''heap block size is not a power of 2'') else ret ()) (\<lambda>_.
     let b = (raw + bs - 1) div bs * bs in
     bindR (guard (b mod bs = 0) ''base not aligned to blockSize'') (\<lambda>_.
     zone_clear \<lparr> zsize = s, blockSize = bs, nfree = 30, log2BS = log2_loop bs 0, bytesUsed = 0, total_bytes = 0,
       ifrag = 0, zbase = b, zmap = m, lists = r, lastCombine = heapKlass, combineOnDeallocation = False \<rparr>)))"

section \<open>Compaction\<close>

text \<open>
  The client copies the bytes of a block: the moves, in order, as (from, to, number of bytes).
\<close>

partial_function (option) skip_used :: "bytes \<Rightarrow> int \<Rightarrow> int run" where
  "skip_used c p = bindR (chunk_isUsed c p) (\<lambda>u. if u then bindR (chunk_next c p) (skip_used c) else ret p)"

partial_function (option) skip_unused :: "bytes \<Rightarrow> int \<Rightarrow> int run" where
  "skip_unused c p = bindR (chunk_isUsed c p) (\<lambda>u. if \<not> u then bindR (chunk_next c p) (skip_unused c) else ret p)"

partial_function (option) compact_loop ::
    "zone \<Rightarrow> int \<Rightarrow> int \<Rightarrow> (int \<times> int \<times> int) list \<Rightarrow> (int \<times> (int \<times> int \<times> int) list \<times> zone) run" where
  "compact_loop z freeChunk usedChunk moves =
     bindR (skip_unused (zmap z) usedChunk) (\<lambda>u.
     if u = heapEnd z then ret (freeChunk, moves, z)
     else bindR (chunk_size (zmap z) u) (\<lambda>uSize.
          bindR (guard (freeChunk < u) ''compaction bug'') (\<lambda>_.
          bindR (blockAddr z u) (\<lambda>from. bindR (blockAddr z freeChunk) (\<lambda>to.
          bindR (markUsed (zmap z) freeChunk uSize) (\<lambda>c.
          compact_loop (z\<lparr> zmap := c \<rparr>) (freeChunk + uSize) (u + uSize)
            (moves @ [(from, to, push_bit (log2BS z) uSize)])))))))"

definition compact :: "zone \<Rightarrow> (int option \<times> (int \<times> int \<times> int) list \<times> zone) run" where
  "compact z =
     (if usedBytes z = capacity z then ret (None, [], z)
      else bindR (skip_used (zmap z) heapKlass) (\<lambda>f.
           bindR (compact_loop z f f []) (\<lambda>(freeChunk, moves, z1).
           let z2 = z1\<lparr> lists := list_clear Big_list (clear_lists (nat (nfree z1)) (lists z1)) \<rparr>;
               freeBlocks = heapEnd z2 - freeChunk in
           bindR (markUnused (zmap z2) freeChunk freeBlocks) (\<lambda>c.
           bindR (addToFreeList (z2\<lparr> zmap := c \<rparr>) freeChunk) (\<lambda>(_, z3).
           bindR (guard (freeBlocks * blockSize z3 = capacity z3 - usedBytes z3) ''usage info inconsistent'') (\<lambda>_.
           bindR (blockAddr z3 freeChunk) (\<lambda>a. ret (Some a, moves, z3\<lparr> lastCombine := heapKlass \<rparr>))))))))"

section \<open>Queries\<close>

partial_function (option) next_until :: "bytes \<Rightarrow> (int \<Rightarrow> bool) \<Rightarrow> int \<Rightarrow> int run" where
  "next_until c stop p = (if stop p then ret p else bindR (chunk_next c p) (next_until c stop))"

definition nextUsed :: "zone \<Rightarrow> int \<Rightarrow> int option run" where
  "nextUsed z p =
     bindR (mapAddr z p) (\<lambda>m.
     bindR (chunk_isValid (zmap z) m) (\<lambda>v.
     bindR (if v then chunk_contains (zmap z) (lastCombine z) m else ret True) (\<lambda>inside.
     bindR (if v \<and> \<not> inside then chunk_next (zmap z) m
            else bindR (next_until (zmap z) (\<lambda>q. lastCombine z \<le> q) heapKlass) (\<lambda>m1.
                 bindR (guard (m1 = lastCombine z) ''lastCombine not found'') (\<lambda>_.
                 bindR (chunk_isValid (zmap z) (lastCombine z)) (\<lambda>v'.
                 bindR (guard v' ''invalid lastCombine'') (\<lambda>_.
                 bindR (next_until (zmap z) (\<lambda>q. m < q) (lastCombine z)) (\<lambda>n.
                 bindR (chunk_isValid (zmap z) n) (\<lambda>w. bindR (guard w ''something wrong'') (\<lambda>_. ret n)))))))) (\<lambda>m'.
     bindR (skip_unused (zmap z) m') (\<lambda>n.
     bindR (chunk_isValid (zmap z) n) (\<lambda>w.
     bindR (guard w ''something wrong'') (\<lambda>_.
     bindR (guard (n \<le> heapEnd z) ''past end of heap'') (\<lambda>_.
     if n = heapEnd z then ret None
     else bindR (blockAddr z n) (\<lambda>a.
          bindR (guard (p < a) ''must be monotonic'') (\<lambda>_.
          bindR (guard (a mod 2 = 0) ''must be even'') (\<lambda>_. ret (Some a))))))))))))"

definition firstUsed :: "zone \<Rightarrow> int option run" where
  "firstUsed z =
     (if usedBytes z = 0 then ret None
      else bindR (chunk_isUsed (zmap z) heapKlass) (\<lambda>u. if u then ret (Some (zbase z)) else nextUsed z (zbase z)))"

definition findStartOfBlock :: "zone \<Rightarrow> int \<Rightarrow> int run" where
  "findStartOfBlock z start =
     (let s = start AND NOT (blockSize z - 1) in
      bindR (mapAddr z s) (\<lambda>q.
      bindR (findStart (zmap z) q heapKlass (heapEnd z)) (\<lambda>m. blockAddr z m)))"

definition sizeOfBlock :: "zone \<Rightarrow> int \<Rightarrow> int run" where
  "sizeOfBlock z p = bindR (mapAddr z p) (\<lambda>m. bindR (chunk_size (zmap z) m) (\<lambda>sz. ret (push_bit (log2BS z) sz)))"

end
