(* ===== verification/ZoneAlloc.thy ===== *)
theory ZoneAlloc
  imports ZoneHeap
begin

text \<open>
  The allocator of compiled code keeps a well-formed heap. \<open>zone_ok z L l\<close> is the invariant: the
  map of \<open>z\<close> is the sequence \<open>L\<close> of chunks between two used sentinels, the rings hold the lists \<open>l\<close>,
  every free chunk is in the list of its size and in no other, and the counter of used bytes is
  the size of the used chunks. \<open>used_chunks L\<close>, the set of the used stretches, is the abstract state:
  an allocation adds one stretch to it, a deallocation takes one away, whatever the heap combines.
\<close>

section \<open>Chunks and their positions\<close>

fun spans :: "int \<Rightarrow> (int \<times> bool) list \<Rightarrow> (int \<times> int \<times> bool) list" where
  "spans lo [] = []"
| "spans lo ((n, u) # r) = (lo, n, u) # spans (lo + n) r"

definition used_chunks :: "(int \<times> bool) list \<Rightarrow> (int \<times> int) set" where
  "used_chunks L = {(p, n). (p, n, True) \<in> set (spans heapKlass L)}"

definition free_chunks :: "(int \<times> bool) list \<Rightarrow> (int \<times> int) set" where
  "free_chunks L = {(p, n). (p, n, False) \<in> set (spans heapKlass L)}"

definition extent :: "(int \<times> bool) list \<Rightarrow> int" where
  "extent L = sum_list (map fst L)"

lemma extent_simps [simp]: "extent [] = 0" "extent ((n, u) # L) = n + extent L" "extent (L @ M) = extent L + extent M"
  by (simp_all add: extent_def)

lemma spans_append: "spans lo (L @ M) = spans lo L @ spans (lo + extent L) M"
  by (induction L arbitrary: lo) (auto simp: add.assoc)

lemma chunks_extent: "chunks c lo L hi \<Longrightarrow> hi = lo + extent L"
proof (induction L arbitrary: lo)
  case (Cons x L)
  then show ?case using Cons.IH [of "lo + fst x"] by (cases x) (simp add: add.assoc)
qed simp

lemma chunks_append_iff:
  "chunks c lo (L @ M) hi \<longleftrightarrow> chunks c lo L (lo + extent L) \<and> chunks c (lo + extent L) M hi"
  using chunks_extent by (auto simp: chunks_append)

lemma chunks_spans:
  "chunks c lo L hi \<Longrightarrow> (p, n, u) \<in> set (spans lo L) \<Longrightarrow> chunk_ok c p n u \<and> lo \<le> p \<and> p + n \<le> hi \<and> 1 \<le> n"
proof (induction L arbitrary: lo)
  case (Cons x L)
  obtain k v where x: "x = (k, v)" by (cases x)
  have k: "chunk_ok c lo k v" "chunks c (lo + k) L hi" using Cons.prems by (simp_all add: x)
  then have "1 \<le> k" "lo + k \<le> hi" using chunks_le by (auto simp: chunk_ok_def chunk_head_def)
  then show ?case using Cons.IH [OF k(2)] Cons.prems(2) k(1) by (auto simp: x)
qed simp

lemma spans_split: "(p, n, u) \<in> set (spans lo L) \<Longrightarrow> \<exists>A B. L = A @ (n, u) # B \<and> p = lo + extent A"
proof (induction L arbitrary: lo)
  case (Cons x L)
  obtain k v where x: "x = (k, v)" by (cases x)
  show ?case
  proof (cases "(p, n, u) = (lo, k, v)")
    case True
    then show ?thesis using x by (intro exI [of _ "[]"] exI [of _ L]) simp
  next
    case False
    then have "(p, n, u) \<in> set (spans (lo + k) L)" using Cons.prems by (auto simp: x)
    then obtain A B where "L = A @ (n, u) # B" "p = lo + k + extent A" using Cons.IH by blast
    then show ?thesis using x by (intro exI [of _ "(k, v) # A"] exI [of _ B]) simp
  qed
qed simp

text \<open>Two chunks are the same or do not overlap.\<close>

lemma spans_disjoint:
  assumes "chunks c lo L hi" and "(p, n, u) \<in> set (spans lo L)" and "(q, k, v) \<in> set (spans lo L)"
  shows "(p, n, u) = (q, k, v) \<or> p + n \<le> q \<or> q + k \<le> p"
  using assms
proof (induction L arbitrary: lo)
  case (Cons x L)
  obtain i w where x: "x = (i, w)" by (cases x)
  have c: "chunks c (lo + i) L hi" using Cons.prems(1) by (simp add: x)
  have s: "lo + i \<le> q'" if "(q', k', v') \<in> set (spans (lo + i) L)" for q' k' v'
    using chunks_spans [OF c that] by simp
  show ?case using Cons.prems(2,3) Cons.IH [OF c] s by (fastforce simp: x)
qed simp

lemma header_ok_frame:
  "(\<And>x. p \<le> x \<Longrightarrow> x < p + n \<Longrightarrow> at c' x = at c x) \<Longrightarrow> 1 \<le> n \<Longrightarrow> header_ok c' p n u = header_ok c p n u"
  by (rule header_ok_cong) (auto simp: header_size_def split: if_splits)

lemma chunk_head_frame:
  assumes "\<And>x. p \<le> x \<Longrightarrow> x < p + n \<Longrightarrow> at c' x = at c x" and "length c' = length c"
  shows "chunk_head c' p n u = chunk_head c p n u"
  using header_ok_frame [of p n c' c u] assms by (auto simp: chunk_head_def)

lemma chunk_ok_frame:
  assumes "\<And>x. p \<le> x \<Longrightarrow> x < p + n \<Longrightarrow> at c' x = at c x" and "length c' = length c"
  shows "chunk_ok c' p n u = chunk_ok c p n u"
proof -
  have "at c' (p + i) = at c (p + i)" if "header_size n \<le> i" "i < n - header_size n" for i
    using that assms(1) [of "p + i"] by (auto simp: header_size_def split: if_splits)
  moreover have "at c' (p + header_size n) = at c (p + header_size n)" if "2 * header_size n < n"
    using that assms(1) [of "p + header_size n"] by (auto simp: header_size_def split: if_splits)
  ultimately show ?thesis using chunk_head_frame [of p n c' c u] assms by (simp add: chunk_ok_def)
qed

lemma chunks_frame:
  assumes "chunks c lo L hi" and "\<And>x. lo \<le> x \<Longrightarrow> x < hi \<Longrightarrow> at c' x = at c x" and "length c' = length c"
  shows "chunks c' lo L hi"
  using assms(1,2)
proof (induction L arbitrary: lo)
  case (Cons x L)
  obtain k v where x: "x = (k, v)" by (cases x)
  have c: "chunk_ok c lo k v" "chunks c (lo + k) L hi" using Cons.prems by (simp_all add: x)
  have k: "1 \<le> k" "lo + k \<le> hi" using c chunks_le by (auto simp: chunk_ok_def chunk_head_def)
  have "chunk_ok c' lo k v = chunk_ok c lo k v"
    by (rule chunk_ok_frame) (use Cons.prems(2) k assms(3) in simp_all)
  moreover have "chunks c' (lo + k) L hi" by (rule Cons.IH [OF c(2)]) (use Cons.prems(2) k in simp)
  ultimately show ?case using c(1) by (simp add: x)
qed simp

section \<open>The invariant\<close>

definition addr :: "zone \<Rightarrow> int \<Rightarrow> int" where
  "addr z p = zbase z + push_bit (log2BS z) (p - heapKlass)"

definition list_of :: "zone \<Rightarrow> int \<Rightarrow> node" where
  "list_of z n = (if n \<le> nfree z then List_head (nat (n - 1)) else Big_list)"

definition zone_shape :: "zone \<Rightarrow> bool" where
  "zone_shape z \<longleftrightarrow> blockSize z = 2 ^ log2BS z \<and> zsize z = mapSize z * 2 ^ log2BS z \<and> zbase z mod 2 ^ log2BS z = 0 \<and>
     0 < mapSize z \<and> mapSize z < 2 ^ 21 \<and> 0 \<le> nfree z \<and> nfree z \<le> 30"

definition nodes :: "zone \<Rightarrow> (int \<times> int) set \<Rightarrow> node set" where
  "nodes z F = (\<lambda>(p, n). Chunk_at (addr z p)) ` F"

definition map_ok :: "zone \<Rightarrow> (int \<times> bool) list \<Rightarrow> bool" where
  "map_ok z L \<longleftrightarrow> length (zmap z) = nat (mapSize z + 2) \<and> chunks (zmap z) heapKlass L (heapEnd z) \<and>
     chunk_ok (zmap z) 0 1 True \<and> chunk_ok (zmap z) (heapEnd z) 1 True"

definition lists_ok :: "zone \<Rightarrow> (int \<times> int) set \<Rightarrow> (node \<Rightarrow> node list) \<Rightarrow> bool" where
  "lists_ok z F l \<longleftrightarrow> linked (lists z) l \<and> (\<forall>f. set (l f) = nodes z {(p, n). (p, n) \<in> F \<and> list_of z n = f}) \<and>
     (\<forall>(p, n)\<in>F. nfree z < n \<longrightarrow> size_of (lists z) (Chunk_at (addr z p)) = n)"

definition used_blocks :: "(int \<times> bool) list \<Rightarrow> int" where
  "used_blocks L = (\<Sum>(n, u)\<leftarrow>L. if u then n else 0)"

definition zone_ok :: "zone \<Rightarrow> (int \<times> bool) list \<Rightarrow> (node \<Rightarrow> node list) \<Rightarrow> bool" where
  "zone_ok z L l \<longleftrightarrow> zone_shape z \<and> map_ok z L \<and> lists_ok z (free_chunks L) l \<and>
     bytesUsed z = used_blocks L * blockSize z \<and> (\<exists>n u. (lastCombine z, n, u) \<in> set (spans heapKlass L))"

text \<open>States that differ only in the map, the rings and the counters have the same geometry.\<close>

definition same_shape :: "zone \<Rightarrow> zone \<Rightarrow> bool" where
  "same_shape z z' \<longleftrightarrow> zsize z' = zsize z \<and> blockSize z' = blockSize z \<and> nfree z' = nfree z \<and> log2BS z' = log2BS z \<and> zbase z' = zbase z"

lemma same_shape_eqs:
  assumes "same_shape z z'"
  shows "mapSize z' = mapSize z" "heapEnd z' = heapEnd z" "addr z' = addr z" "list_of z' = list_of z" "nodes z' = nodes z"
    "zone_shape z' = zone_shape z" "blockSize z' = blockSize z" "nfree z' = nfree z" "blockAddr z' = blockAddr z" "mapAddr z' = mapAddr z"
    "log2BS z' = log2BS z" "zsize z' = zsize z"
  using assms by (auto simp: same_shape_def mapSize_def heapEnd_def addr_def list_of_def nodes_def zone_shape_def
      blockAddr_def mapAddr_def fun_eq_iff)

lemma same_shape_update [simp]:
  "same_shape z (z\<lparr> zmap := c \<rparr>)" "same_shape z (z\<lparr> lists := r \<rparr>)" "same_shape z (z\<lparr> zmap := c, lists := r \<rparr>)"
  "same_shape z (z\<lparr> lists := r, zmap := c \<rparr>)" "same_shape z z" "same_shape z (z\<lparr> lastCombine := p \<rparr>)"
  "same_shape z (z\<lparr> bytesUsed := b \<rparr>)" "same_shape z (z\<lparr> combineOnDeallocation := d \<rparr>)"
  by (simp_all add: same_shape_def)

lemma same_shape_trans: "same_shape a b \<Longrightarrow> same_shape b c \<Longrightarrow> same_shape a c"
  by (simp add: same_shape_def)

lemma addr_inject [simp]: "addr z p = addr z q \<longleftrightarrow> p = q"
  by (simp add: addr_def push_bit_eq_mult)

lemma Chunk_at_nodes [simp]: "Chunk_at (addr z p) \<in> nodes z F \<longleftrightarrow> p \<in> fst ` F"
  by (force simp: nodes_def)

lemma blockAddr_ret: "heapKlass \<le> p \<Longrightarrow> p < heapEnd z \<Longrightarrow> blockAddr z p = ret (addr z p)"
  by (simp add: blockAddr_def heapEnd_def addr_def)

lemma mapAddr_addr:
  assumes "zone_shape z" and "heapKlass \<le> p" and "p < heapEnd z"
  shows "mapAddr z (addr z p) = ret p"
proof -
  let ?b = "2 ^ log2BS z :: int"
  have "addr z p - zbase z = (p - heapKlass) * ?b" by (simp add: addr_def push_bit_eq_mult)
  moreover have "(p - heapKlass) * ?b < mapSize z * ?b" using assms(3) by (simp add: heapEnd_def)
  moreover have "(zbase z + (p - heapKlass) * ?b) mod ?b = 0" using assms(1) by (simp add: zone_shape_def)
  ultimately show ?thesis using assms by (simp add: mapAddr_def addr_def zone_shape_def push_bit_eq_mult drop_bit_eq_div)
qed

lemma zone_okD:
  assumes "zone_ok z L l"
  shows "zone_shape z" "length (zmap z) = nat (mapSize z + 2)" "chunks (zmap z) heapKlass L (heapEnd z)"
    "chunk_ok (zmap z) 0 1 True" "chunk_ok (zmap z) (heapEnd z) 1 True" "linked (lists z) l"
    "set (l f) = nodes z {(p, n). (p, n) \<in> free_chunks L \<and> list_of z n = f}" "lists_ok z (free_chunks L) l"
    "bytesUsed z = used_blocks L * blockSize z" "heapEnd z = heapKlass + extent L" "heapEnd z = 1 + mapSize z"
    "int (length (zmap z)) = mapSize z + 2" "nfree z \<le> 30"
  using assms chunks_extent [of "zmap z" heapKlass L "heapEnd z"]
  by (auto simp: zone_ok_def map_ok_def lists_ok_def heapEnd_def heapKlass_def zone_shape_def)

lemma remove_ret:
  assumes "chunk_head (zmap z) p n u" and "heapKlass \<le> p" and "p < heapEnd z"
  shows "removeFromFreeList z p = ret (z\<lparr> lists := node_remove (Chunk_at (addr z p)) (lists z) \<rparr>)"
  using chunk_head_valid [OF assms(1)] blockAddr_ret [OF assms(2,3)] by (simp add: removeFromFreeList_def chunk_verify_def)

lemma invalidate_ret:
  assumes "0 \<le> p" and "p < int (length c)"
  shows "\<exists>c'. chunk_invalidate c p = ret c' \<and> length c' = length c \<and> (\<forall>x. 0 \<le> x \<longrightarrow> x \<noteq> p \<longrightarrow> at c' x = at c x)"
  using assms by (auto simp: chunk_invalidate_def byte_at_put_def at_def chunk_consts nth_list_update)

text \<open>The lists without the nodes of a set.\<close>

definition purge :: "(node \<Rightarrow> node list) \<Rightarrow> node set \<Rightarrow> node \<Rightarrow> node list" where
  "purge l X = (\<lambda>f. filter (\<lambda>x. x \<notin> X) (l f))"

lemma purge_simps [simp]: "purge l {} = l" "purge (purge l X) Y = purge l (X \<union> Y)" "set (purge l X f) = set (l f) - X"
  by (auto simp: purge_def conj_commute)

lemma linked_purge:
  assumes "linked r l" and "x \<in> set (l f)"
  shows "linked (node_remove x r) (purge l {x})" and "size_of (node_remove x r) = (size_of r)(x := 0)"
proof -
  have "purge l {x} = l(f := remove1 x (l f))"
  proof
    fix g show "purge l {x} g = (l(f := remove1 x (l f))) g"
    proof (cases "g = f")
      case True
      then show ?thesis using linkedD(2) [OF assms(1), of f] by (simp add: purge_def distinct_remove1_removeAll removeAll_filter_not_eq) (rule filter_cong; auto)
    next
      case False
      then have "x \<notin> set (l g)" using linkedD(5) [OF assms(1,2)] by blast
      then show ?thesis using False by (auto simp: purge_def filter_id_conv)
    qed
  qed
  then show "linked (node_remove x r) (purge l {x})" using linked_remove [OF assms] by simp
  show "size_of (node_remove x r) = (size_of r)(x := 0)" by (rule node_remove_size [OF assms])
qed

section \<open>Combination\<close>

definition all_free :: "(int \<times> bool) list \<Rightarrow> bool" where
  "all_free F \<longleftrightarrow> (\<forall>(n, u)\<in>set F. \<not> u)"

lemma all_free_simps [simp]: "all_free []" "all_free ((n, u) # F) \<longleftrightarrow> \<not> u \<and> all_free F"
  "all_free (F @ G) \<longleftrightarrow> all_free F \<and> all_free G"
  by (auto simp: all_free_def)

text \<open>The positions and sizes of a stretch of chunks.\<close>

definition places :: "int \<Rightarrow> (int \<times> bool) list \<Rightarrow> (int \<times> int) set" where
  "places s F = (\<lambda>(p, n, u). (p, n)) ` set (spans s F)"

lemma places_simps [simp]: "places s [] = {}" "places s ((n, u) # F) = insert (s, n) (places (s + n) F)"
  "places s (F @ G) = places s F \<union> places (s + extent F) G"
  by (simp_all add: places_def spans_append image_Un)

text \<open>
  What the two loops of \<^verbatim>\<open>combine\<close> leave behind: the chunks of \<open>P\<close> are out of their lists, the
  map has changed at their first bytes only.
\<close>

definition absorbed :: "zone \<Rightarrow> (int \<times> int) set \<Rightarrow> (node \<Rightarrow> node list) \<Rightarrow> zone \<Rightarrow> bool" where
  "absorbed z P l z' \<longleftrightarrow>
     z' = z\<lparr> zmap := zmap z', lists := lists z' \<rparr> \<and> length (zmap z') = length (zmap z) \<and>
     (\<forall>x. 0 \<le> x \<longrightarrow> x \<notin> fst ` P \<longrightarrow> at (zmap z') x = at (zmap z) x) \<and>
     linked (lists z') (purge l (nodes z P)) \<and>
     (\<forall>x. x \<notin> nodes z P \<longrightarrow> size_of (lists z') x = size_of (lists z) x)"

lemma absorbed_refl: "linked (lists z) l \<Longrightarrow> absorbed z {} l z"
  by (simp add: absorbed_def nodes_def)

lemma absorbed_trans:
  assumes "absorbed z P l z1" and "absorbed z1 Q (purge l (nodes z P)) z2"
  shows "absorbed z (P \<union> Q) l z2"
proof -
  have z1: "z1 = z\<lparr> zmap := zmap z1, lists := lists z1 \<rparr>" using assms(1) by (simp add: absorbed_def)
  have "same_shape z (z\<lparr> zmap := zmap z1, lists := lists z1 \<rparr>)" by simp
  then have n: "nodes z1 = nodes z" using same_shape_eqs(5) z1 by metis
  have u: "nodes z (P \<union> Q) = nodes z P \<union> nodes z Q" by (simp add: nodes_def image_Un)
  have "z2 = z1\<lparr> zmap := zmap z2, lists := lists z2 \<rparr>" using assms(2) by (simp add: absorbed_def)
  also have "\<dots> = z\<lparr> zmap := zmap z2, lists := lists z2 \<rparr>" by (subst z1) simp
  finally show ?thesis using assms unfolding absorbed_def by (simp add: n u image_Un)
qed

lemma absorb_one:
  assumes "chunk_head (zmap z) m n u" and "heapKlass \<le> m" and "m < heapEnd z" and "linked (lists z) l"
    and "Chunk_at (addr z m) \<in> set (l f)"
  shows "\<exists>z1 c. removeFromFreeList z m = ret z1 \<and> chunk_invalidate (zmap z1) m = ret c \<and> absorbed z {(m, n)} l (z1\<lparr> zmap := c \<rparr>)"
proof -
  let ?r = "node_remove (Chunk_at (addr z m)) (lists z)"
  obtain c where c: "chunk_invalidate (zmap z) m = ret c" "length c = length (zmap z)" "\<forall>x. 0 \<le> x \<longrightarrow> x \<noteq> m \<longrightarrow> at c x = at (zmap z) x"
    using invalidate_ret chunk_head_bytes(1,2) [OF assms(1)] by blast
  have "nodes z {(m, n)} = {Chunk_at (addr z m)}" by (simp add: nodes_def)
  then have "absorbed z {(m, n)} l (z\<lparr> lists := ?r, zmap := c \<rparr>)"
    using c(2,3) linked_purge [OF assms(4,5)] by (simp add: absorbed_def)
  then show ?thesis using remove_ret [OF assms(1-3)] c(1) by (intro exI [of _ "z\<lparr> lists := ?r \<rparr>"] exI [of _ c]) simp
qed

lemma absorbed_shape: "absorbed z P l z' \<Longrightarrow> same_shape z z'"
  by (metis absorbed_def same_shape_update(3))

lemma not_in_places:
  "chunks c s F hi \<Longrightarrow> (p, n) \<in> places s F \<Longrightarrow> s \<le> p \<and> p < hi"
  using chunks_spans by (fastforce simp: places_def)

lemma combine_prev_ok:
  assumes "chunks (zmap z) s F cm" and "all_free F" and "chunk_head (zmap z) q k True" and "q + k = s"
    and "linked (lists z) l" and "\<And>p n. (p, n) \<in> places s F \<Longrightarrow> Chunk_at (addr z p) \<in> set (l (list_of z n))"
    and "heapKlass \<le> s" and "cm \<le> heapEnd z"
  shows "\<exists>z'. combine_prev z (if F = [] then q else cm - fst (last F)) = ret (q, z') \<and> absorbed z (places s F) l z'"
  using assms(1,2,3,5,6,8)
proof (induction F arbitrary: z l cm rule: rev_induct)
  case Nil
  then show ?case using chunk_head_size(1) [of "zmap z" q k True]
    by (subst combine_prev.simps) (auto intro: absorbed_refl)
next
  case (snoc x F)
  obtain n u where x: "x = (n, u)" by (cases x)
  have u: "\<not> u" "all_free F" using snoc.prems(2) by (simp_all add: x)
  obtain m where m: "chunks (zmap z) s F m" "chunk_ok (zmap z) m n False" "cm = m + n"
    using snoc.prems(1) u by (auto simp: x chunks_append)
  have ext: "m = s + extent F" using chunks_extent [OF m(1)] .
  note h = chunk_ok_head [OF m(2)]
  note b = chunk_head_bytes [OF h]
  have sm: "s \<le> m" using chunks_le [OF m(1)] .
  have mem: "Chunk_at (addr z m) \<in> set (l (list_of z n))" using snoc.prems(5) [of m n] by (simp add: x ext)
  have bm: "heapKlass \<le> m" "m < heapEnd z" using sm assms(7) m(3) b(3) snoc.prems(6) by simp_all
  obtain z1 c where z1: "removeFromFreeList z m = ret z1" "chunk_invalidate (zmap z1) m = ret c" "absorbed z {(m, n)} l (z1\<lparr> zmap := c \<rparr>)"
    using absorb_one [OF h bm snoc.prems(4) mem] by blast
  let ?z = "z1\<lparr> zmap := c \<rparr>"
  have fr: "at (zmap ?z) x = at (zmap z) x" if "0 \<le> x" "x < m" for x using z1(3) that by (simp add: absorbed_def)
  have len: "length (zmap ?z) = length (zmap z)" using z1(3) by (simp add: absorbed_def)
  have q: "0 \<le> q" using chunk_head_bytes(1) [OF snoc.prems(3)] .
  have before: "chunk_prev (zmap z) m = ret (if F = [] then q else m - fst (last F))"
  proof (cases F rule: rev_cases)
    case Nil
    then show ?thesis using chunk_head_prev [OF snoc.prems(3)] ext assms(4) by simp
  next
    case (snoc G y)
    obtain i w where y: "y = (i, w)" by (cases y)
    obtain m' where "chunk_ok (zmap z) m' i w" "m = m' + i" using m(1) snoc by (auto simp: y chunks_append)
    then show ?thesis using chunk_head_prev [OF chunk_ok_head] snoc y by simp
  qed
  note shape = same_shape_eqs [OF absorbed_shape [OF z1(3)]]
  have "\<exists>z'. combine_prev ?z (if F = [] then q else m - fst (last F)) = ret (q, z') \<and>
    absorbed ?z (places s F) (purge l (nodes z {(m, n)})) z'"
  proof (rule snoc.IH [OF _ u(2)])
    show "chunks (zmap ?z) s F m" by (rule chunks_frame [OF m(1)]) (use fr len assms(7) in \<open>simp_all add: heapKlass_def\<close>)
    show "chunk_head (zmap ?z) q k True"
      using chunk_head_frame [of q k "zmap ?z" "zmap z" True] snoc.prems(3) fr len q sm assms(4) by simp
    show "linked (lists ?z) (purge l (nodes z {(m, n)}))" using z1(3) by (simp add: absorbed_def)
    show "m \<le> heapEnd ?z" using bm by (simp add: shape)
    fix p k assume pk: "(p, k) \<in> places s F"
    then have "p \<noteq> m" using not_in_places [OF m(1)] by fastforce
    moreover have "Chunk_at (addr z p) \<in> set (l (list_of z k))" using snoc.prems(5) [of p k] pk by simp
    ultimately show "Chunk_at (addr ?z p) \<in> set (purge l (nodes z {(m, n)}) (list_of ?z k))" by (simp add: shape)
  qed
  then obtain z' where z': "combine_prev ?z (if F = [] then q else m - fst (last F)) = ret (q, z')"
    "absorbed ?z (places s F) (purge l (nodes z {(m, n)})) z'" by blast
  have "combine_prev z m = ret (q, z')"
    using chunk_head_size(1) [OF h] before z1(1,2) z'(1) by (subst combine_prev.simps) simp
  moreover have "absorbed z ({(m, n)} \<union> places s F) l z'" by (rule absorbed_trans [OF z1(3) z'(2)])
  ultimately show ?case using m(3) by (simp add: x ext)
qed

lemma combine_next_ok:
  assumes "chunks (zmap z) s F e" and "all_free F" and "chunk_head (zmap z) e k True"
    and "linked (lists z) l" and "\<And>p n. (p, n) \<in> places s F \<Longrightarrow> Chunk_at (addr z p) \<in> set (l (list_of z n))"
    and "heapKlass \<le> s" and "e \<le> heapEnd z"
  shows "\<exists>z'. combine_next z s = ret (e, z') \<and> absorbed z (places s F) l z'"
  using assms
proof (induction F arbitrary: z l s)
  case Nil
  then show ?case using chunk_head_size(1) [of "zmap z" e k True]
    by (subst combine_next.simps) (auto intro: absorbed_refl)
next
  case (Cons x F)
  obtain n u where x: "x = (n, u)" by (cases x)
  have u: "\<not> u" "all_free F" using Cons.prems(2) by (simp_all add: x)
  have m: "chunk_ok (zmap z) s n False" "chunks (zmap z) (s + n) F e" using Cons.prems(1) u by (simp_all add: x)
  note h = chunk_ok_head [OF m(1)]
  note b = chunk_head_bytes [OF h]
  have se: "s + n \<le> e" using chunks_le [OF m(2)] .
  have mem: "Chunk_at (addr z s) \<in> set (l (list_of z n))" using Cons.prems(5) [of s n] by (simp add: x)
  have bm: "s < heapEnd z" using se b(3) Cons.prems(7) by simp
  obtain z1 c where z1: "removeFromFreeList z s = ret z1" "chunk_invalidate (zmap z1) s = ret c" "absorbed z {(s, n)} l (z1\<lparr> zmap := c \<rparr>)"
    using absorb_one [OF h Cons.prems(6) bm Cons.prems(4) mem] by blast
  let ?z = "z1\<lparr> zmap := c \<rparr>"
  have fr: "at (zmap ?z) x = at (zmap z) x" if "0 \<le> x" "x \<noteq> s" for x using z1(3) that by (simp add: absorbed_def)
  have len: "length (zmap ?z) = length (zmap z)" using z1(3) by (simp add: absorbed_def)
  note shape = same_shape_eqs [OF absorbed_shape [OF z1(3)]]
  have "\<exists>z'. combine_next ?z (s + n) = ret (e, z') \<and> absorbed ?z (places (s + n) F) (purge l (nodes z {(s, n)})) z'"
  proof (rule Cons.IH [OF _ u(2)])
    show "chunks (zmap ?z) (s + n) F e" by (rule chunks_frame [OF m(2)]) (use fr len b in simp_all)
    show "chunk_head (zmap ?z) e k True"
      using chunk_head_frame [of e k "zmap ?z" "zmap z" True] Cons.prems(3) fr len se b(1,3) by simp
    show "linked (lists ?z) (purge l (nodes z {(s, n)}))" using z1(3) by (simp add: absorbed_def)
    show "heapKlass \<le> s + n" "e \<le> heapEnd ?z" using Cons.prems(6,7) b(3) by (simp_all add: shape)
    fix p k assume pk: "(p, k) \<in> places (s + n) F"
    then have "p \<noteq> s" using not_in_places [OF m(2)] b(3) by fastforce
    moreover have "Chunk_at (addr z p) \<in> set (l (list_of z k))" using Cons.prems(5) [of p k] pk by (simp add: x)
    ultimately show "Chunk_at (addr ?z p) \<in> set (purge l (nodes z {(s, n)}) (list_of ?z k))" by (simp add: shape)
  qed
  then obtain z' where z': "combine_next ?z (s + n) = ret (e, z')"
    "absorbed ?z (places (s + n) F) (purge l (nodes z {(s, n)})) z'" by blast
  have "combine_next z s = ret (e, z')"
    using chunk_head_size(1,4) [OF h] z1(1,2) z'(1) by (subst combine_next.simps) simp
  moreover have "absorbed z ({(s, n)} \<union> places (s + n) F) l z'" by (rule absorbed_trans [OF z1(3) z'(2)])
  ultimately show ?case by (simp add: x)
qed

section \<open>Free and used stretches\<close>

definition frees :: "int \<Rightarrow> (int \<times> bool) list \<Rightarrow> (int \<times> int) set" where
  "frees s L = {(p, n). (p, n, False) \<in> set (spans s L)}"

definition useds :: "int \<Rightarrow> (int \<times> bool) list \<Rightarrow> (int \<times> int) set" where
  "useds s L = {(p, n). (p, n, True) \<in> set (spans s L)}"

lemma frees_simps [simp]: "frees s [] = {}" "frees s ((n, u) # L) = (if u then frees (s + n) L else insert (s, n) (frees (s + n) L))"
  "frees s (L @ M) = frees s L \<union> frees (s + extent L) M"
  by (auto simp: frees_def spans_append)

lemma useds_simps [simp]: "useds s [] = {}" "useds s ((n, u) # L) = (if u then insert (s, n) (useds (s + n) L) else useds (s + n) L)"
  "useds s (L @ M) = useds s L \<union> useds (s + extent L) M"
  by (auto simp: useds_def spans_append)

lemma all_free_sets: "all_free F \<Longrightarrow> frees s F = places s F" "all_free F \<Longrightarrow> useds s F = {}"
  by (induction F arbitrary: s) auto

lemma chunk_sets: "free_chunks L = frees heapKlass L" "used_chunks L = useds heapKlass L"
  by (simp_all add: free_chunks_def frees_def used_chunks_def useds_def)

lemma used_blocks_simps [simp]: "used_blocks [] = 0" "used_blocks ((n, u) # L) = (if u then n else 0) + used_blocks L"
  "used_blocks (L @ M) = used_blocks L + used_blocks M"
  by (simp_all add: used_blocks_def)

lemma used_blocks_free: "all_free F \<Longrightarrow> used_blocks F = 0"
  by (induction F) auto

lemma frees_place:
  assumes "chunks c s L hi" and "(p, n) \<in> frees s L"
  shows "s \<le> p" "p + n \<le> hi" "1 \<le> n" "chunk_ok c p n False" and "(p, k) \<in> frees s L \<Longrightarrow> n = k"
  using chunks_spans [OF assms(1), of p n False] assms(2) spans_disjoint [OF assms(1), of p n False p k False]
    chunks_spans [OF assms(1), of p k False]
  by (auto simp: frees_def)

lemma lists_ok_absorbed:
  assumes "lists_ok z F l" and "absorbed z P l z'" and "P \<subseteq> F" and "\<And>p n k. (p, n) \<in> F \<Longrightarrow> (p, k) \<in> F \<Longrightarrow> n = k"
  shows "lists_ok z' (F - P) (purge l (nodes z P))"
proof -
  note shape = same_shape_eqs [OF absorbed_shape [OF assms(2)]]
  have k: "(p, n) \<in> P" if "(p, n) \<in> F" "(p, k) \<in> P" for p n k
    using that assms(3) assms(4) [of p n k] by blast
  have "nodes z {(p, n). (p, n) \<in> F \<and> list_of z n = f} - nodes z P = nodes z {(p, n). (p, n) \<in> F - P \<and> list_of z n = f}" for f
    using k by (auto simp: nodes_def)
  moreover have "Chunk_at (addr z p) \<notin> nodes z P" if "(p, n) \<in> F" "(p, n) \<notin> P" for p n using k that by auto
  ultimately show ?thesis using assms(1,2) unfolding lists_ok_def absorbed_def shape by (fastforce simp: shape)
qed

lemma addToFreeList_ret:
  assumes "chunk_ok (zmap z) p n False" and "heapKlass \<le> p" and "p < heapEnd z" and "lists_ok z F l" and "p \<notin> fst ` F" and "nfree z \<le> 30"
  shows "\<exists>z'. addToFreeList z p = ret (nfree z < n, z') \<and> z' = z\<lparr> lists := lists z' \<rparr> \<and>
    lists_ok z' (insert (p, n) F) (l(list_of z n := Chunk_at (addr z p) # l (list_of z n)))"
proof -
  note h = chunk_ok_head [OF assms(1)]
  let ?x = "Chunk_at (addr z p)" and ?f = "list_of z n"
  let ?r = "node_insert ?f ?x (lists z)"
  let ?r' = "if n \<le> nfree z then ?r else set_size ?x n ?r"
  have lk: "linked (lists z) l" and el: "\<And>f. set (l f) = nodes z {(p, n). (p, n) \<in> F \<and> list_of z n = f}"
    and sz: "\<And>p n. (p, n) \<in> F \<Longrightarrow> nfree z < n \<Longrightarrow> size_of (lists z) (Chunk_at (addr z p)) = n"
    using assms(4) by (auto simp: lists_ok_def)
  have "is_anchor ?f" "\<not> is_anchor ?x"
    using assms(6) chunk_head_bytes(3) [OF h] by (auto simp: list_of_def is_anchor_def)
  moreover have fresh: "?x \<notin> set (l g)" for g using assms(5) by (auto simp: el nodes_def image_iff)
  ultimately have i: "linked ?r (l(?f := ?x # l ?f))" by (intro linked_insert [OF lk])
  let ?z = "z\<lparr> lists := ?r' \<rparr>"
  have "addToFreeList z p = ret (nfree z < n, ?z)"
    using chunk_head_valid [OF h] chunk_head_size(2) [OF h] blockAddr_ret [OF assms(2,3)]
    by (simp add: addToFreeList_def chunk_verify_def list_of_def list_append_def)
  moreover have "lists_ok ?z (insert (p, n) F) (l(?f := ?x # l ?f))"
    unfolding lists_ok_def
  proof (intro conjI ballI allI)
    show "linked (lists ?z) (l(?f := ?x # l ?f))" using i by (simp add: linked_set_size)
    fix f
    show "set ((l(?f := ?x # l ?f)) f) = nodes ?z {(p', n'). (p', n') \<in> insert (p, n) F \<and> list_of ?z n' = f}"
      using el [of f] by (cases "f = ?f") (auto simp: nodes_def addr_def list_of_def image_iff)
  next
    fix y assume y: "y \<in> insert (p, n) F"
    obtain q k where q: "y = (q, k)" by (cases y)
    have "size_of ?r' (Chunk_at (addr z q)) = k" if "nfree z < k"
    proof (cases "(q, k) = (p, n)")
      case True
      then show ?thesis using that by (simp add: set_size_def)
    next
      case False
      then have "(q, k) \<in> F" "q \<noteq> p" using y q assms(5) by force+
      then show ?thesis using sz [of q k] that by (simp add: set_size_def node_insert_fields)
    qed
    then show "case y of (q, k) \<Rightarrow> nfree ?z < k \<longrightarrow> size_of (lists ?z) (Chunk_at (addr ?z q)) = k"
      by (simp add: q addr_def)
  qed
  ultimately show ?thesis by (intro exI [of _ ?z]) simp
qed

lemma split_free_suffix: "\<exists>A F. P = A @ F \<and> all_free F \<and> (A = [] \<or> (\<exists>A' k. A = A' @ [(k, True)]))"
proof (induction P rule: rev_induct)
  case (snoc x P)
  obtain n u where x: "x = (n, u)" by (cases x)
  show ?case
  proof (cases u)
    case True
    then have "P @ [x] = (P @ [(n, True)]) @ []" by (simp add: x)
    then show ?thesis by (metis all_free_simps(1))
  next
    case False
    obtain A F where "P = A @ F" "all_free F" "A = [] \<or> (\<exists>A' k. A = A' @ [(k, True)])" using snoc by blast
    then have "P @ [x] = A @ (F @ [x])" "all_free (F @ [x])" using False by (simp_all add: x)
    then show ?thesis using \<open>A = [] \<or> _\<close> by blast
  qed
qed simp

lemma split_free_prefix: "\<exists>G B. Q = G @ B \<and> all_free G \<and> (B = [] \<or> (\<exists>k B'. B = (k, True) # B'))"
proof (induction Q)
  case (Cons x Q)
  obtain n u where x: "x = (n, u)" by (cases x)
  show ?case
  proof (cases u)
    case True
    then show ?thesis using x by (intro exI [of _ "[]"] exI [of _ "x # Q"]) simp
  next
    case False
    obtain G B where g: "Q = G @ B" "all_free G" "B = [] \<or> (\<exists>k B'. B = (k, True) # B')" using Cons by blast
    then show ?thesis using False x by (intro exI [of _ "x # G"] exI [of _ B]) simp
  qed
qed simp

text \<open>The neighbours of a maximal stretch of free chunks are used, counting the sentinels.\<close>

lemma used_before:
  assumes "zone_ok z (A @ M) l" and "A = [] \<or> (\<exists>A' k. A = A' @ [(k, True)])"
  shows "\<exists>q k. chunk_head (zmap z) q k True \<and> q + k = heapKlass + extent A \<and>
    (A = [] \<longrightarrow> q = 0) \<and> (A \<noteq> [] \<longrightarrow> q = heapKlass + extent A - fst (last A))"
proof (cases "A = []")
  case True
  then show ?thesis using chunk_ok_head [OF zone_okD(4) [OF assms(1)]]
    by (intro exI [of _ 0] exI [of _ 1]) (simp add: heapKlass_def)
next
  case False
  then obtain A' k where A: "A = A' @ [(k, True)]" using assms(2) by blast
  have "chunks (zmap z) heapKlass (A @ M) (heapEnd z)" using zone_okD(3) [OF assms(1)] .
  then obtain m where "chunks (zmap z) heapKlass A' m" "chunk_ok (zmap z) m k True"
    by (auto simp: A chunks_append)
  then show ?thesis using chunks_extent [of "zmap z" heapKlass A' m]
    by (intro exI [of _ m] exI [of _ k]) (simp add: A chunk_ok_head)
qed

lemma used_after:
  assumes "zone_ok z (M @ B) l" and "B = [] \<or> (\<exists>k B'. B = (k, True) # B')"
  shows "\<exists>k. chunk_head (zmap z) (heapKlass + extent M) k True"
proof (cases "B = []")
  case True
  then show ?thesis using chunk_ok_head [OF zone_okD(5) [OF assms(1)]] zone_okD(10) [OF assms(1)] by auto
next
  case False
  then obtain k B' where B: "B = (k, True) # B'" using assms(2) by blast
  have "chunks (zmap z) heapKlass (M @ B) (heapEnd z)" using zone_okD(3) [OF assms(1)] .
  then obtain m where "chunks (zmap z) heapKlass M m" "chunk_ok (zmap z) m k True"
    by (auto simp: B chunks_append)
  then show ?thesis using chunks_extent [of "zmap z" heapKlass M m] chunk_ok_head by blast
qed

lemma prev_of_stretch:
  assumes "chunks c s F m" and "chunk_head c q k True" and "q + k = s"
  shows "chunk_prev c m = ret (if F = [] then q else m - fst (last F))"
proof (cases F rule: rev_cases)
  case Nil
  then show ?thesis using chunk_head_prev [OF assms(2)] chunks_extent [OF assms(1)] assms(3) by simp
next
  case (snoc G y)
  obtain i w where y: "y = (i, w)" by (cases y)
  obtain m' where "chunk_ok c m' i w" "m = m' + i" using assms(1) snoc by (auto simp: y chunks_append)
  then show ?thesis using chunk_head_prev [OF chunk_ok_head] snoc y by simp
qed

text \<open>The first half of \<^verbatim>\<open>combine\<close>: the free neighbours are taken out of their lists.\<close>

lemma combine_neighbours:
  assumes "zone_ok z L l" and "L = A @ F @ (n, False) # G @ B" and "all_free F" and "all_free G"
    and "A = [] \<or> (\<exists>A' k. A = A' @ [(k, True)])" and "B = [] \<or> (\<exists>k B'. B = (k, True) # B')"
  defines "s \<equiv> heapKlass + extent A" and "m \<equiv> heapKlass + extent (A @ F)" and "e \<equiv> heapKlass + extent (A @ F @ (n, False) # G)"
  shows "\<exists>z1 z2. (if m = heapKlass then ret (m, z)
            else bindR (chunk_prev (zmap z) m) (\<lambda>p.
                 bindR (combine_prev z p) (\<lambda>(u, z1).
                 bindR (chunk_next (zmap z1) u) (\<lambda>cm1. ret (cm1, z1))))) = ret (s, z1) \<and>
    combine_next z1 (m + n) = ret (e, z2) \<and> absorbed z (places s F \<union> places (m + n) G) l z2"
proof -
  note Z = zone_okD [OF assms(1)]
  have ch: "chunks (zmap z) heapKlass A s" "chunks (zmap z) s F m" "chunk_ok (zmap z) m n False"
    "chunks (zmap z) (m + n) G e" "chunks (zmap z) e B (heapEnd z)"
    using Z(3) unfolding assms(2) s_def m_def e_def by (simp_all add: chunks_append_iff add.assoc)
  have le: "heapKlass \<le> s" "s \<le> m" "m + n \<le> e" "e \<le> heapEnd z" "1 \<le> n"
    using ch chunks_le by (blast, blast, blast, blast, simp add: chunk_ok_def chunk_head_def)
  obtain q k where q: "chunk_head (zmap z) q k True" "q + k = s" "A = [] \<longrightarrow> q = 0"
    using used_before [of z A "F @ (n, False) # G @ B" l] assms(1,2,5) by (auto simp: s_def)
  obtain j where j: "chunk_head (zmap z) e j True"
    using used_after [of z "A @ F @ (n, False) # G" B l] assms(1,2,6) by (auto simp: e_def)
  have fr: "free_chunks L = frees heapKlass A \<union> places s F \<union> {(m, n)} \<union> places (m + n) G \<union> frees e B"
    using assms(3,4) by (auto simp: assms(2) chunk_sets s_def m_def e_def all_free_sets add.assoc)
  have mem: "Chunk_at (addr z p) \<in> set (l (list_of z i))" if "(p, i) \<in> places s F \<union> places (m + n) G" for p i
    using that by (subst Z(7)) (auto simp: fr image_iff)
  have prev: "\<exists>z1. combine_prev z (if F = [] then q else m - fst (last F)) = ret (q, z1) \<and> absorbed z (places s F) l z1"
    by (rule combine_prev_ok [OF ch(2) assms(3) q(1,2) Z(6)]) (use mem le in auto)
  have first: "\<exists>z1. (if m = heapKlass then ret (m, z)
            else bindR (chunk_prev (zmap z) m) (\<lambda>p.
                 bindR (combine_prev z p) (\<lambda>(u, z1).
                 bindR (chunk_next (zmap z1) u) (\<lambda>cm1. ret (cm1, z1))))) = ret (s, z1) \<and> absorbed z (places s F) l z1"
  proof (cases "m = heapKlass")
    case True
    have "F = []"
    proof (cases F)
      case (Cons y F')
      then have "1 \<le> fst y" "s + fst y \<le> m" using ch(2) chunks_le by (cases y; force simp: chunk_ok_def chunk_head_def)+
      then show ?thesis using True le(1) by simp
    qed simp
    then show ?thesis using True le absorbed_refl [OF Z(6)] by (intro exI [of _ z]) simp
  next
    case False
    obtain z1 where z1: "combine_prev z (if F = [] then q else m - fst (last F)) = ret (q, z1)" "absorbed z (places s F) l z1"
      using prev by blast
    have "chunk_head (zmap z1) q k True"
    proof (subst chunk_head_frame [of q k "zmap z1" "zmap z" True])
      fix x assume x: "q \<le> x" "x < q + k"
      have "x \<notin> fst ` places s F" using not_in_places [OF ch(2)] x(2) q(2) by force
      then show "at (zmap z1) x = at (zmap z) x"
        using z1(2) x(1) chunk_head_bytes(1) [OF q(1)] by (simp add: absorbed_def)
    qed (use z1(2) q(1) in \<open>simp_all add: absorbed_def\<close>)
    then have "chunk_next (zmap z1) q = ret s" using chunk_head_size(4) q(2) by blast
    then show ?thesis using False prev_of_stretch [OF ch(2) q(1,2)] z1 by (intro exI [of _ z1]) simp
  qed
  then obtain z1 where z1: "(if m = heapKlass then ret (m, z)
            else bindR (chunk_prev (zmap z) m) (\<lambda>p.
                 bindR (combine_prev z p) (\<lambda>(u, z1).
                 bindR (chunk_next (zmap z1) u) (\<lambda>cm1. ret (cm1, z1))))) = ret (s, z1)" "absorbed z (places s F) l z1"
    by blast
  note shape = same_shape_eqs [OF absorbed_shape [OF z1(2)]]
  have same: "at (zmap z1) x = at (zmap z) x" if "m + n \<le> x" for x
  proof -
    have "x \<notin> fst ` places s F" using not_in_places [OF ch(2)] that le(5) by force
    then show ?thesis using z1(2) that le by (simp add: absorbed_def heapKlass_def)
  qed
  have len: "length (zmap z1) = length (zmap z)" using z1(2) by (simp add: absorbed_def)
  have "\<exists>z2. combine_next z1 (m + n) = ret (e, z2) \<and> absorbed z1 (places (m + n) G) (purge l (nodes z (places s F))) z2"
  proof (rule combine_next_ok [OF _ assms(4)])
    show "chunks (zmap z1) (m + n) G e" by (rule chunks_frame [OF ch(4)]) (use same len in simp_all)
    show "chunk_head (zmap z1) e j True"
      using chunk_head_frame [of e j "zmap z1" "zmap z" True] j same le len by simp
    show "linked (lists z1) (purge l (nodes z (places s F)))" using z1(2) by (simp add: absorbed_def)
    show "heapKlass \<le> m + n" "e \<le> heapEnd z1" using le by (simp_all add: shape)
    fix p i assume pi: "(p, i) \<in> places (m + n) G"
    then have "p \<notin> fst ` places s F" using not_in_places [OF ch(2)] not_in_places [OF ch(4)] le(5) by force
    then show "Chunk_at (addr z1 p) \<in> set (purge l (nodes z (places s F)) (list_of z1 i))"
      using mem [of p i] pi by (simp add: shape)
  qed
  then obtain z2 where z2: "combine_next z1 (m + n) = ret (e, z2)" "absorbed z1 (places (m + n) G) (purge l (nodes z (places s F))) z2"
    by blast
  show ?thesis using z1(1) z2(1) absorbed_trans [OF z1(2) z2(2)] by (intro exI [of _ z1] exI [of _ z2] conjI)
qed

lemma zone_ok_unabsorbed:
  assumes "zone_ok z L l" and "absorbed z {} l z'"
  shows "zone_ok z' L l"
proof -
  note Z = zone_okD [OF assms(1)]
  note shape = same_shape_eqs [OF absorbed_shape [OF assms(2)]]
  have z': "z' = z\<lparr> zmap := zmap z', lists := lists z' \<rparr>" "length (zmap z') = length (zmap z)"
    "\<And>x. 0 \<le> x \<Longrightarrow> at (zmap z') x = at (zmap z) x" using assms(2) by (simp_all add: absorbed_def)
  have "map_ok z' L"
    unfolding map_ok_def shape
  proof (intro conjI)
    show "chunks (zmap z') heapKlass L (heapEnd z)"
      by (rule chunks_frame [OF Z(3)]) (use z'(2,3) in \<open>simp_all add: heapKlass_def\<close>)
    show "chunk_ok (zmap z') 0 1 True"
      using chunk_ok_frame [of 0 1 "zmap z'" "zmap z" True] Z(4) z'(2,3) by simp
    have "0 < heapEnd z" using Z(1,11) by (simp add: zone_shape_def)
    then show "chunk_ok (zmap z') (heapEnd z) 1 True"
      using chunk_ok_frame [of "heapEnd z" 1 "zmap z'" "zmap z" True] Z(5) z'(2,3) by simp
    show "length (zmap z') = nat (mapSize z + 2)" using Z(2) z'(2) by simp
  qed
  moreover have "lists_ok z' (free_chunks L) l"
    using lists_ok_absorbed [OF Z(8) assms(2)] frees_place(5) [OF Z(3)] by (simp add: nodes_def chunk_sets)
  moreover have "bytesUsed z' = bytesUsed z" "lastCombine z' = lastCombine z" by (subst z'(1), simp)+
  ultimately show ?thesis using assms(1) shape by (simp add: zone_ok_def)
qed

text \<open>The second half: the stretch becomes one free chunk in the list of its size.\<close>

lemma combine_merge:
  assumes "zone_ok z L l" and "L = A @ M @ B" and "all_free M" and "M \<noteq> []"
    and "absorbed z (places (heapKlass + extent A) M) l z1"
  defines "s \<equiv> heapKlass + extent A" and "N \<equiv> extent M"
  shows "\<exists>c big z2. markUnused (zmap z1) s N = ret c \<and> addToFreeList (z1\<lparr> zmap := c \<rparr>) s = ret (big, z2) \<and>
    z2 = z\<lparr> zmap := c, lists := lists z2 \<rparr> \<and> chunk_size c s = ret N \<and>
    zone_ok (z2\<lparr> lastCombine := s \<rparr>) (A @ (N, False) # B)
      ((purge l (nodes z (places s M)))(list_of z N := Chunk_at (addr z s) # purge l (nodes z (places s M)) (list_of z N)))"
proof -
  note Z = zone_okD [OF assms(1)]
  note abs = assms(5) [folded s_def]
  note shape = same_shape_eqs [OF absorbed_shape [OF abs]]
  let ?l = "purge l (nodes z (places s M))" and ?e = "s + N"
  have ch: "chunks (zmap z) heapKlass A s" "chunks (zmap z) s M ?e" "chunks (zmap z) ?e B (heapEnd z)"
    using Z(3) unfolding assms(2) s_def N_def by (simp_all add: chunks_append_iff add.assoc)
  have pos: "heapKlass \<le> s" "?e \<le> heapEnd z" using chunks_le [OF ch(1)] chunks_le [OF ch(3)] .
  have N: "1 \<le> N"
  proof (cases M)
    case (Cons y M')
    then have "1 \<le> fst y" "s + fst y \<le> ?e" using ch(2) chunks_le by (cases y; force simp: chunk_ok_def chunk_head_def)+
    then show ?thesis by simp
  qed (use assms(4) in simp)
  have big: "N < 2 ^ 21" using Z(1,11) pos by (simp add: zone_shape_def heapKlass_def)
  have len: "length (zmap z1) = length (zmap z)" using abs by (simp add: absorbed_def)
  have fr1: "at (zmap z1) x = at (zmap z) x" if "0 \<le> x" "\<not> (s \<le> x \<and> x < ?e)" for x
  proof -
    have "x \<notin> fst ` places s M" using not_in_places [OF ch(2)] that(2) by force
    then show ?thesis using abs that(1) by (simp add: absorbed_def)
  qed
  have "\<exists>c. markSize (zmap z1) s N False = ret c \<and> length c = length (zmap z1) \<and> chunk_ok c s N False \<and>
    (\<forall>q. 0 \<le> q \<longrightarrow> q < int (length (zmap z1)) \<longrightarrow> \<not> (s \<le> q \<and> q < s + N) \<longrightarrow> at c q = at (zmap z1) q)"
    by (rule markSize_ret) (use pos N big len Z(11,12) in \<open>simp_all add: heapKlass_def\<close>)
  then obtain c where c: "markUnused (zmap z1) s N = ret c" "length c = length (zmap z)" "chunk_ok c s N False"
    "\<And>x. 0 \<le> x \<Longrightarrow> x < int (length (zmap z)) \<Longrightarrow> \<not> (s \<le> x \<and> x < ?e) \<Longrightarrow> at c x = at (zmap z) x"
    using fr1 len by (auto simp: markUnused_def)
  let ?z = "z1\<lparr> zmap := c \<rparr>"
  have lz: "int (length (zmap z)) = heapEnd z + 1" using Z(11,12) by simp
  have lists: "lists_ok z1 (free_chunks L - places s M) ?l"
  proof (rule lists_ok_absorbed [OF Z(8) abs])
    show "places s M \<subseteq> free_chunks L" using assms(3) by (auto simp: assms(2) chunk_sets s_def all_free_sets)
    show "n = k" if "(p, n) \<in> free_chunks L" "(p, k) \<in> free_chunks L" for p n k
      using frees_place(5) [OF Z(3)] that by (simp add: chunk_sets)
  qed
  have fc: "free_chunks L - places s M = frees heapKlass A \<union> frees ?e B"
  proof -
    have "p < s" if "(p, n) \<in> frees heapKlass A" for p n using frees_place [OF ch(1) that] by simp
    moreover have "?e \<le> p" if "(p, n) \<in> frees ?e B" for p n using frees_place [OF ch(3) that] by simp
    moreover have "s \<le> p \<and> p < ?e" if "(p, n) \<in> places s M" for p n using not_in_places [OF ch(2) that] .
    moreover have "free_chunks L = frees heapKlass A \<union> places s M \<union> frees ?e B"
      using assms(3) by (auto simp: assms(2) chunk_sets s_def N_def all_free_sets add.assoc)
    ultimately show ?thesis by fastforce
  qed
  have "lists_ok ?z (free_chunks L - places s M) ?l"
    using lists by (simp add: lists_ok_def nodes_def addr_def list_of_def)
  moreover have "s \<notin> fst ` (free_chunks L - places s M)"
  proof -
    have "p \<noteq> s" if "(p, n) \<in> frees heapKlass A \<union> frees ?e B" for p n
      using that frees_place [OF ch(1)] frees_place [OF ch(3)] N by fastforce
    then show ?thesis unfolding fc by force
  qed
  ultimately have "\<exists>z'. addToFreeList ?z s = ret (nfree ?z < N, z') \<and> z' = ?z\<lparr> lists := lists z' \<rparr> \<and>
    lists_ok z' (insert (s, N) (free_chunks L - places s M)) (?l(list_of ?z N := Chunk_at (addr ?z s) # ?l (list_of ?z N)))"
    using c(3) pos N Z(13) by (intro addToFreeList_ret) (simp_all add: heapEnd_def mapSize_def shape)
  then obtain z2 where z2: "addToFreeList ?z s = ret (nfree ?z < N, z2)" "z2 = ?z\<lparr> lists := lists z2 \<rparr>"
    "lists_ok z2 (insert (s, N) (free_chunks L - places s M)) (?l(list_of z N := Chunk_at (addr z s) # ?l (list_of z N)))"
    using same_shape_eqs(3,4) [of z1 ?z] shape by auto
  have z1: "z1 = z\<lparr> zmap := zmap z1, lists := lists z1 \<rparr>" using abs by (simp add: absorbed_def)
  have z2z: "z2 = z\<lparr> zmap := c, lists := lists z2 \<rparr>" by (subst z2(2), subst z1) simp
  have zm: "zmap z2 = c" by (subst z2z) simp
  let ?y = "z2\<lparr> lastCombine := s \<rparr>" and ?L = "A @ (N, False) # B"
  have sh: "same_shape z ?y" by (subst z2z) (simp add: same_shape_def)
  note shape' = same_shape_eqs [OF sh]
  have "map_ok ?y ?L"
    unfolding map_ok_def shape'
  proof (intro conjI)
    have "chunks c heapKlass A s" by (rule chunks_frame [OF ch(1)]) (use c(2,4) pos lz N in \<open>auto simp: heapKlass_def\<close>)
    moreover have "chunks c ?e B (heapEnd z)" by (rule chunks_frame [OF ch(3)]) (use c(2,4) pos lz N in \<open>auto simp: heapKlass_def\<close>)
    ultimately show "chunks (zmap ?y) heapKlass ?L (heapEnd z)" using c(3) by (auto simp: zm chunks_append)
    have "at c 0 = at (zmap z) 0" using c(4) [of 0] pos lz N by (simp add: heapKlass_def)
    then have "at c x = at (zmap z) x" if "0 \<le> x" "x < 0 + 1" for x using that by (cases "x = 0") simp_all
    then have "chunk_ok c 0 1 True" using chunk_ok_frame [of 0 1 c "zmap z" True] Z(4) c(2) by simp
    then show "chunk_ok (zmap ?y) 0 1 True" by (simp add: zm)
    show "chunk_ok (zmap ?y) (heapEnd z) 1 True"
      using chunk_ok_frame [of "heapEnd z" 1 c "zmap z" True] Z(5) c(2,4) pos lz N by (simp add: zm heapKlass_def)
    show "length (zmap ?y) = nat (mapSize z + 2)" using Z(2) c(2) by (simp add: zm)
  qed
  moreover have "lists_ok ?y (free_chunks ?L) (?l(list_of z N := Chunk_at (addr z s) # ?l (list_of z N)))"
  proof -
    have "free_chunks ?L = insert (s, N) (free_chunks L - places s M)"
      unfolding fc by (auto simp: chunk_sets s_def N_def add.assoc)
    then show ?thesis using z2(3) by (simp add: lists_ok_def nodes_def addr_def list_of_def)
  qed
  moreover have "bytesUsed ?y = used_blocks ?L * blockSize ?y"
    using Z(9) assms(3) by (subst z2z) (simp add: shape' assms(2) used_blocks_free)
  moreover have "\<exists>n u. (lastCombine ?y, n, u) \<in> set (spans heapKlass ?L)"
    by (intro exI [of _ N] exI [of _ False]) (simp add: spans_append s_def)
  moreover have "zone_shape ?y" using Z(1) shape' by simp
  ultimately have "zone_ok ?y ?L (?l(list_of z N := Chunk_at (addr z s) # ?l (list_of z N)))"
    unfolding zone_ok_def by blast
  then show ?thesis using c(1) z2(1) z2z chunk_head_size(2) [OF chunk_ok_head [OF c(3)]] by blast
qed

lemma combine_ok:
  assumes "zone_ok z L l" and "L = P @ (n, False) # Q" and "p = heapKlass + extent P"
    and "l (list_of z n) = xs @ Chunk_at (addr z p) # ys"
  shows "\<exists>A F G B X z' l'. P = A @ F \<and> Q = G @ B \<and> all_free F \<and> all_free G \<and>
    combine z (Chunk_at (addr z p)) = ret (hd (filter (\<lambda>y. y \<notin> X) ys @ [list_of z n]), extent F + n + extent G, z') \<and>
    zone_ok z' (A @ (extent F + n + extent G, False) # B) l' \<and>
    z' = z\<lparr> zmap := zmap z', lists := lists z', lastCombine := lastCombine z' \<rparr> \<and>
    (n \<le> nfree z \<longrightarrow> (\<exists>zs. l' (list_of z n) = zs @ filter (\<lambda>y. y \<notin> X) ys))"
proof -
  note Z = zone_okD [OF assms(1)]
  obtain A F where AF: "P = A @ F" "all_free F" "A = [] \<or> (\<exists>A' k. A = A' @ [(k, True)])" using split_free_suffix by blast
  obtain G B where GB: "Q = G @ B" "all_free G" "B = [] \<or> (\<exists>k B'. B = (k, True) # B')" using split_free_prefix by blast
  define s e N where "s = heapKlass + extent A" and "e = p + n + extent G" and "N = extent F + n + extent G"
  have L: "L = A @ F @ (n, False) # G @ B" using assms(2) AF(1) GB(1) by simp
  have p: "p = heapKlass + extent (A @ F)" "p = s + extent F" using assms(3) AF(1) by (simp_all add: s_def add.assoc)
  have e: "e = heapKlass + extent (A @ F @ (n, False) # G)" using p by (simp add: e_def)
  obtain z1 z2 where z12: "(if p = heapKlass then ret (p, z)
            else bindR (chunk_prev (zmap z) p) (\<lambda>p.
                 bindR (combine_prev z p) (\<lambda>(u, z1).
                 bindR (chunk_next (zmap z1) u) (\<lambda>cm1. ret (cm1, z1))))) = ret (s, z1)"
      "combine_next z1 (p + n) = ret (e, z2)" "absorbed z (places s F \<union> places (p + n) G) l z2"
    using combine_neighbours [OF assms(1) L AF(2) GB(2) AF(3) GB(3)] unfolding p(1) [symmetric] e [symmetric] s_def [symmetric]
    by blast
  let ?PL = "places s F \<union> places (p + n) G"
  let ?X = "nodes z ?PL" and ?x = "Chunk_at (addr z p)" and ?f = "list_of z n"
  note shape = same_shape_eqs [OF absorbed_shape [OF z12(3)]]
  have ch: "chunks (zmap z) heapKlass A s" "chunks (zmap z) s F p" "chunk_ok (zmap z) p n False"
    "chunks (zmap z) (p + n) G e" "chunks (zmap z) e B (heapEnd z)"
    using Z(3) unfolding L s_def e p(1) by (simp_all add: chunks_append_iff add.assoc)
  have le: "heapKlass \<le> s" "s \<le> p" "p + n \<le> e" "e \<le> heapEnd z" "1 \<le> n" "n < 2 ^ 21"
    using ch chunks_le by (blast, blast, blast, blast, simp add: chunk_ok_def chunk_head_def, simp add: chunk_ok_def chunk_head_def)
  note h = chunk_ok_head [OF ch(3)]
  have out: "p \<notin> fst ` ?PL"
    using not_in_places [OF ch(2)] not_in_places [OF ch(4)] le(5) by fastforce
  have xin: "?x \<in> set (l ?f)" by (simp add: assms(4))
  have dist: "distinct (xs @ ?x # ys)" using linkedD(2) [OF Z(6), of ?f] assms(4) by simp
  have lk2: "linked (lists z2) (purge l ?X)" using z12(3) by (simp add: absorbed_def)
  have split2: "purge l ?X ?f = filter (\<lambda>y. y \<notin> ?X) xs @ ?x # filter (\<lambda>y. y \<notin> ?X) ys"
    using out by (simp add: purge_def assms(4))
  have nx: "next_of (lists z2) ?x = hd (filter (\<lambda>y. y \<notin> ?X) ys @ [?f])" (is "_ = ?c'")
    using fl.nxt_element [OF lk2 split2] .
  have pre: "node_addr ?x = ret (addr z p)" "mapAddr z (addr z p) = ret p" "p < heapEnd z" "chunk_next (zmap z) p = ret (p + n)"
    using mapAddr_addr [OF Z(1), of p] le chunk_head_size(4) [OF h] by (simp_all add: node_addr_def)
  show ?thesis
  proof (cases "F = [] \<and> G = []")
    case True
    then have t: "s = p" "e = p + n" "?PL = {}" "N = n" by (simp_all add: p(2) e_def N_def)
    then have ab: "absorbed z {} l z2" using z12(3) by simp
    have ok: "zone_ok z2 L l" using zone_ok_unabsorbed [OF assms(1) ab] .
    have L': "L = A @ (N, False) # B" using True L t(4) by simp
    have "chunks (zmap z2) heapKlass L (heapEnd z)" using zone_okD(3) [OF ok] shape by simp
    then have "chunk_ok (zmap z2) p N False" unfolding L' by (simp add: chunks_append_iff s_def [symmetric] t(1))
    then have "chunk_size (zmap z2) p = ret N" using chunk_head_size(2) chunk_ok_head by blast
    then have "combine z ?x = ret (?c', N, z2)"
      unfolding combine_def using z12(1,2) pre le nx t by (simp add: shape)
    moreover have "z2 = z\<lparr> zmap := zmap z2, lists := lists z2 \<rparr>" using ab by (simp add: absorbed_def)
    then have "z2 = z\<lparr> zmap := zmap z2, lists := lists z2, lastCombine := lastCombine z2 \<rparr>" by (metis zone.surjective zone.update_convs(11) zone.simps(11))
    moreover have "nodes z {} = {}" by (simp add: nodes_def)
    then have "l ?f = (xs @ [?x]) @ filter (\<lambda>y. y \<notin> ?X) ys" using t(3) assms(4) by simp
    ultimately show ?thesis using AF(1,2) GB(1,2) ok L'
      by (intro exI [of _ A] exI [of _ F] exI [of _ G] exI [of _ B] exI [of _ ?X] exI [of _ z2] exI [of _ l]) (auto simp: N_def)
  next
    case False
    let ?M = "F @ (n, False) # G"
    have "chunk_head (zmap z2) p n False"
    proof (subst chunk_head_frame [of p n "zmap z2" "zmap z"])
      fix x assume x: "p \<le> x" "x < p + n"
      then have "x \<notin> fst ` ?PL" using not_in_places [OF ch(2)] not_in_places [OF ch(4)] by fastforce
      then show "at (zmap z2) x = at (zmap z) x" using z12(3) x(1) le by (simp add: absorbed_def heapKlass_def)
    qed (use z12(3) h in \<open>simp_all add: absorbed_def\<close>)
    then obtain z3 c3 where z3: "removeFromFreeList z2 p = ret z3" "chunk_invalidate (zmap z3) p = ret c3"
      "absorbed z2 {(p, n)} (purge l ?X) (z3\<lparr> zmap := c3 \<rparr>)"
      using absorb_one [of z2 p n False "purge l ?X" ?f] le pre(3) lk2 xin out by (auto simp: shape)
    have "?PL \<union> {(p, n)} = places s ?M" using p(2) by auto
    then have ab: "absorbed z (places s ?M) l (z3\<lparr> zmap := c3 \<rparr>)"
      using absorbed_trans [OF z12(3) z3(3)] by simp
    have "extent ?M = N" by (simp add: N_def)
    then obtain c big z4 where z4: "markUnused c3 s N = ret c" "addToFreeList (z3\<lparr> zmap := c \<rparr>) s = ret (big, z4)"
      "z4 = z\<lparr> zmap := c, lists := lists z4 \<rparr>" "chunk_size c s = ret N"
      "zone_ok (z4\<lparr> lastCombine := s \<rparr>) (A @ (N, False) # B)
        ((purge l (nodes z (places s ?M)))(list_of z N := Chunk_at (addr z s) # purge l (nodes z (places s ?M)) (list_of z N)))"
      using combine_merge [of z L l A ?M B "z3\<lparr> zmap := c3 \<rparr>", folded s_def] assms(1) L AF(2) GB(2) ab by auto
    let ?z = "z4\<lparr> lastCombine := s \<rparr>"
    have grow: "s < p \<or> p + n < e"
    proof -
      have "1 \<le> extent F'" if "chunks c a F' b" "F' \<noteq> []" for c a F' b
        using that
      proof (cases F')
        case (Cons y F'')
        then have "1 \<le> fst y" "a + fst y \<le> b" using that chunks_le by (cases y; force simp: chunk_ok_def chunk_head_def)+
        then show ?thesis using chunks_extent [OF that(1)] by simp
      qed simp
      then show ?thesis using False ch(2,4) p(2) by (fastforce simp: e_def)
    qed
    have zc: "zmap z4 = c" "heapEnd z4 = heapEnd z" by (subst z4(3), simp add: heapEnd_def mapSize_def)+
    have "s < e" "e - s = N" using le by (simp_all add: e_def p(2) N_def)
    then have "combine z ?x = ret (?c', N, ?z)"
      unfolding combine_def using z12(1,2) pre le nx z3(1,2) z4(1,2,4) grow zc by (auto simp: heapEnd_def mapSize_def)
    moreover have "?z = z\<lparr> zmap := zmap ?z, lists := lists ?z, lastCombine := lastCombine ?z \<rparr>" by (subst z4(3)) (simp add: zc)
    moreover have "\<exists>zs. ((purge l (nodes z (places s ?M)))(list_of z N := Chunk_at (addr z s) # purge l (nodes z (places s ?M)) (list_of z N))) ?f =
      zs @ filter (\<lambda>y. y \<notin> ?X) ys" if "n \<le> nfree z"
    proof -
      have "n < N" using grow le(2,3) by (auto simp: e_def p(2) N_def)
      then have "list_of z N \<noteq> ?f" using that le(5) by (auto simp: list_of_def nat_eq_iff)
      moreover have "nodes z (places s ?M) = insert ?x ?X" by (simp add: nodes_def image_Un p(2))
      moreover have "filter (\<lambda>y. y \<noteq> ?x \<and> y \<notin> ?X) ys = filter (\<lambda>y. y \<notin> ?X) ys"
        using dist by (intro filter_cong) auto
      ultimately show ?thesis by (simp add: purge_def assms(4))
    qed
    ultimately show ?thesis using AF(1,2) GB(1,2) z4(5)
      by (intro exI [of _ A] exI [of _ F] exI [of _ G] exI [of _ B] exI [of _ ?X] exI [of _ ?z]
          exI [of _ "(purge l (nodes z (places s ?M)))(list_of z N := Chunk_at (addr z s) # purge l (nodes z (places s ?M)) (list_of z N))"])
        (simp add: N_def)
  qed
qed

section \<open>Combining all lists\<close>

text \<open>Only the map, the rings and the last combination differ; the flag may have been set.\<close>

definition same_counters :: "zone \<Rightarrow> zone \<Rightarrow> bool" where
  "same_counters z z' \<longleftrightarrow> same_shape z z' \<and> bytesUsed z' = bytesUsed z \<and> total_bytes z' = total_bytes z \<and> ifrag z' = ifrag z"

lemma same_counters_refl [simp]: "same_counters z z"
  by (simp add: same_counters_def)

lemma same_counters_trans: "same_counters a b \<Longrightarrow> same_counters b c \<Longrightarrow> same_counters a c"
  by (simp add: same_counters_def same_shape_def)

lemma same_countersI:
  "z' = z\<lparr> zmap := c, lists := r, lastCombine := p \<rparr> \<Longrightarrow> same_counters z z' \<and> combineOnDeallocation z' = combineOnDeallocation z"
  by (simp add: same_counters_def same_shape_def)

definition sizes_below :: "int \<Rightarrow> (int \<times> bool) list \<Rightarrow> bool" where
  "sizes_below w L \<longleftrightarrow> (\<forall>(p, k)\<in>free_chunks L. k \<le> w)"

lemma free_element:
  assumes "zone_ok z L l" and "x \<in> set (l f)"
  shows "\<exists>p n P Q. x = Chunk_at (addr z p) \<and> (p, n) \<in> free_chunks L \<and> list_of z n = f \<and> L = P @ (n, False) # Q \<and> p = heapKlass + extent P"
proof -
  obtain p n where p: "x = Chunk_at (addr z p)" "(p, n) \<in> free_chunks L" "list_of z n = f"
    using assms(2) zone_okD(7) [OF assms(1)] by (auto simp: nodes_def)
  then show ?thesis using spans_split [of p n False heapKlass L] by (auto simp: free_chunks_def)
qed

lemma combine_step:
  assumes "zone_ok z L l" and "l (List_head i) = xs @ c # ys" and "sizes_below (max b w) L"
  shows "\<exists>N z' L' l' zs ys'. combine z c = ret (hd (ys' @ [List_head i]), N, z') \<and> c \<noteq> hd (ys' @ [List_head i]) \<and>
    length ys' \<le> length ys \<and> zone_ok z' L' l' \<and> l' (List_head i) = zs @ ys' \<and> same_counters z z' \<and>
    used_chunks L' = used_chunks L \<and> sizes_below (max (if b < N then N else b) w) L'"
proof -
  let ?f = "List_head i"
  note Z = zone_okD [OF assms(1)]
  obtain p n P Q where p: "c = Chunk_at (addr z p)" "(p, n) \<in> free_chunks L" "list_of z n = ?f"
    "L = P @ (n, False) # Q" "p = heapKlass + extent P"
    using free_element [OF assms(1), of c ?f] assms(2) by auto
  have n: "n \<le> nfree z" using p(3) by (simp add: list_of_def split: if_splits)
  have "l (list_of z n) = xs @ Chunk_at (addr z p) # ys" using assms(2) p(1,3) by simp
  from combine_ok [where l = l, OF assms(1) p(4,5) this, unfolded p(3)] obtain A F G B X z' l' where
    r: "P = A @ F" "Q = G @ B" "all_free F" "all_free G"
      "combine z (Chunk_at (addr z p)) = ret (hd (filter (\<lambda>y. y \<notin> X) ys @ [?f]), extent F + n + extent G, z')"
      "zone_ok z' (A @ (extent F + n + extent G, False) # B) l'"
      "z' = z\<lparr> zmap := zmap z', lists := lists z', lastCombine := lastCombine z' \<rparr>"
      "n \<le> nfree z \<longrightarrow> (\<exists>zs. l' ?f = zs @ filter (\<lambda>y. y \<notin> X) ys)" by blast
  obtain zs where zs: "l' ?f = zs @ filter (\<lambda>y. y \<notin> X) ys" using r(8) n by blast
  let ?L = "A @ (extent F + n + extent G, False) # B"
  have d: "distinct (xs @ c # ys)" using linkedD(2) [OF Z(6), of ?f] assms(2) by simp
  have "hd (filter (\<lambda>y. y \<notin> X) ys @ [?f]) \<in> set ys \<union> {?f}"
    by (cases "filter (\<lambda>y. y \<notin> X) ys") (auto simp: filter_eq_Cons_iff)
  then have "c \<noteq> hd (filter (\<lambda>y. y \<notin> X) ys @ [?f])" using d by (auto simp: p(1))
  moreover have "used_chunks ?L = used_chunks L"
    using r(1-4) by (auto simp: p(4) chunk_sets all_free_sets algebra_simps)
  moreover have "free_chunks ?L \<subseteq> insert (heapKlass + extent A, extent F + n + extent G) (free_chunks L)"
    using r(1-4) by (auto simp: p(4) chunk_sets algebra_simps)
  then have "sizes_below (max (if b < extent F + n + extent G then extent F + n + extent G else b) w) ?L"
    using assms(3) by (fastforce simp: sizes_below_def)
  moreover have "same_counters z z'" using same_countersI [OF r(7)] by simp
  ultimately show ?thesis using r(5,6) zs p(1) by (metis (no_types, lifting) length_filter_le)
qed

lemma combine_list_ok:
  assumes "zone_ok z L l" and "l (List_head i) = xs @ ys" and "sizes_below (max b w) L"
  shows "\<exists>b' z' L' l'. combine_list z (List_head i) (hd (ys @ [List_head i])) b = ret (b', z') \<and> zone_ok z' L' l' \<and>
    same_counters z z' \<and> used_chunks L' = used_chunks L \<and> sizes_below (max b' w) L'"
  using assms
proof (induction "length ys" arbitrary: z L l xs ys b rule: less_induct)
  case less
  let ?f = "List_head i"
  show ?case
  proof (cases ys)
    case Nil
    then show ?thesis using less.prems by (subst combine_list.simps) auto
  next
    case (Cons c ys1)
    have cf: "c \<noteq> ?f"
      using linkedD(3,4) [OF zone_okD(6) [OF less.prems(1)], of c ?f] less.prems(2) by (auto simp: Cons)
    obtain N z1 L1 l1 zs ys' where s: "combine z c = ret (hd (ys' @ [?f]), N, z1)" "c \<noteq> hd (ys' @ [?f])"
      "length ys' \<le> length ys1" "zone_ok z1 L1 l1" "l1 ?f = zs @ ys'" "same_counters z z1"
      "used_chunks L1 = used_chunks L" "sizes_below (max (if b < N then N else b) w) L1"
      using combine_step [OF less.prems(1) less.prems(2) [unfolded Cons] less.prems(3)] by blast
    have "length ys' < length ys" using s(3) by (simp add: Cons)
    from less.hyps [OF this s(4,5,8)] obtain b' z' L' l' where
      i: "combine_list z1 ?f (hd (ys' @ [?f])) (if b < N then N else b) = ret (b', z')" "zone_ok z' L' l'"
        "same_counters z1 z'" "used_chunks L' = used_chunks L1" "sizes_below (max b' w) L'" by blast
    have "combine_list z ?f (hd (ys @ [?f])) b = ret (b', z')"
      using cf s(1,2) i(1) by (subst combine_list.simps) (simp add: Cons)
    then show ?thesis using i(2,4,5) s(7) same_counters_trans [OF s(6) i(3)] by auto
  qed
qed

lemma combine_lists_ok:
  assumes "zone_ok z L l" and "sizes_below (max b w) L" and "\<forall>i\<in>set is. i < 30"
  shows "\<exists>b' z' L' l'. combine_lists z is b = ret (b', z') \<and> zone_ok z' L' l' \<and>
    same_counters z z' \<and> used_chunks L' = used_chunks L \<and> sizes_below (max b' w) L'"
  using assms
proof (induction "is" arbitrary: z L l b)
  case Nil
  then show ?case by auto
next
  case (Cons i "is")
  have "next_of (lists z) (List_head i) = hd (l (List_head i) @ [List_head i])"
    using fl.nxt_anchor [OF zone_okD(6) [OF Cons.prems(1)], of "List_head i"] Cons.prems(3) by (simp add: is_anchor_def)
  moreover obtain b1 z1 L1 l1 where
    1: "combine_list z (List_head i) (hd (l (List_head i) @ [List_head i])) b = ret (b1, z1)" "zone_ok z1 L1 l1"
      "same_counters z z1" "used_chunks L1 = used_chunks L" "sizes_below (max b1 w) L1"
    using combine_list_ok [OF Cons.prems(1), of i "[]" "l (List_head i)" b w] Cons.prems(2) by auto
  moreover obtain b' z' L' l' where "combine_lists z1 is b1 = ret (b', z')" "zone_ok z' L' l'"
      "same_counters z1 z'" "used_chunks L' = used_chunks L1" "sizes_below (max b' w) L'"
    using Cons.IH [OF 1(2,5)] Cons.prems(3) by auto
  ultimately show ?case using same_counters_trans [of z z1 z'] by auto
qed

lemma combineAll_ok:
  assumes "zone_ok z L l" and "sizes_below w L" and "0 \<le> w"
  shows "\<exists>b z' L' l'. combineAll z = ret (b, z') \<and> zone_ok z' L' l' \<and> same_counters z z' \<and> combineOnDeallocation z' \<and>
    used_chunks L' = used_chunks L \<and> sizes_below (max b w) L'"
proof -
  have "sizes_below (max 0 w) L" using assms(2,3) by simp
  moreover have "\<forall>i\<in>set [0..<nat (nfree z)]. i < 30" using zone_okD(13) [OF assms(1)] by auto
  ultimately obtain b z' L' l' where
    r: "combine_lists z [0..<nat (nfree z)] 0 = ret (b, z')" "zone_ok z' L' l'" "same_counters z z'"
      "used_chunks L' = used_chunks L" "sizes_below (max b w) L'" using combine_lists_ok [OF assms(1)] by blast
  let ?z = "z'\<lparr> combineOnDeallocation := True \<rparr>"
  have "zone_ok ?z L' l'"
    using r(2) by (simp add: zone_ok_def map_ok_def lists_ok_def zone_shape_def mapSize_def heapEnd_def nodes_def addr_def list_of_def)
  moreover have "same_counters z ?z" using r(3) by (simp add: same_counters_def same_shape_def)
  ultimately show ?thesis using r by (auto simp: combineAll_def)
qed

section \<open>Taking a chunk\<close>

lemma map_ok_replace:
  assumes "zone_ok z (A @ M @ B) l" and "length c = length (zmap z)"
  defines "s \<equiv> heapKlass + extent A" and "e \<equiv> heapKlass + extent (A @ M)"
  assumes "chunks c s M' e" and "\<And>x. 0 \<le> x \<Longrightarrow> x < int (length c) \<Longrightarrow> \<not> (s \<le> x \<and> x < e) \<Longrightarrow> at c x = at (zmap z) x"
  shows "map_ok (z\<lparr> zmap := c \<rparr>) (A @ M' @ B)"
proof -
  note Z = zone_okD [OF assms(1)]
  have ch: "chunks (zmap z) heapKlass A s" "chunks (zmap z) s M e" "chunks (zmap z) e B (heapEnd z)"
    using Z(3) unfolding s_def e_def by (simp_all add: chunks_append_iff add.assoc)
  have pos: "heapKlass \<le> s" "s \<le> e" "e \<le> heapEnd z" using chunks_le [OF ch(1)] chunks_le [OF ch(2)] chunks_le [OF ch(3)] .
  have lc: "int (length c) = heapEnd z + 1" using Z(11,12) assms(2) by simp
  have fr: "at c x = at (zmap z) x" if "0 \<le> x" "x \<le> heapEnd z" "x < s \<or> e \<le> x" for x
    using assms(6) [of x] that lc by auto
  have shape: "heapEnd (z\<lparr> zmap := c \<rparr>) = heapEnd z" "mapSize (z\<lparr> zmap := c \<rparr>) = mapSize z" by (simp_all add: heapEnd_def mapSize_def)
  have "chunks c heapKlass A s" by (rule chunks_frame [OF ch(1)]) (use fr pos assms(2) in \<open>auto simp: heapKlass_def\<close>)
  moreover have "chunks c e B (heapEnd z)" by (rule chunks_frame [OF ch(3)]) (use fr pos assms(2) in \<open>auto simp: heapKlass_def\<close>)
  ultimately have "chunks c heapKlass (A @ M' @ B) (heapEnd z)" using assms(5) by (auto simp: chunks_append)
  moreover have "at c 0 = at (zmap z) 0" using fr [of 0] pos by (simp add: heapKlass_def)
  then have "at c x = at (zmap z) x" if "0 \<le> x" "x < 0 + 1" for x using that by (cases "x = 0") simp_all
  then have "chunk_ok c 0 1 True" using chunk_ok_frame [of 0 1 c "zmap z" True] Z(4) assms(2) by simp
  moreover have "at c x = at (zmap z) x" if "heapEnd z \<le> x" "x < heapEnd z + 1" for x
    using fr [of "heapEnd z"] that pos by (cases "x = heapEnd z") (simp_all add: heapKlass_def)
  then have "chunk_ok c (heapEnd z) 1 True"
    using chunk_ok_frame [of "heapEnd z" 1 c "zmap z" True] Z(5) assms(2) by simp
  ultimately show ?thesis using Z(2) assms(2) by (simp add: map_ok_def shape)
qed

lemma small_fit_ok:
  assumes "linked r l" and "0 \<le> blocks" and "n \<le> 30"
  shows "(\<exists>b. small_fit r n blocks = (None, b, r) \<and> (\<forall>k. blocks < k \<longrightarrow> k \<le> n \<longrightarrow> l (List_head (nat (k - 1))) = [])) \<or>
    (\<exists>x b. small_fit r n blocks = (Some x, b, list_remove x r) \<and> blocks < b \<and> b \<le> n \<and> x \<in> set (l (List_head (nat (b - 1)))))"
  using assms
proof (induction r n blocks rule: small_fit.induct)
  case (1 r n blocks)
  let ?b = "blocks + 1" and ?f = "List_head (nat (blocks + 1 - 1))"
  show ?case
  proof (cases "?b \<le> n")
    case False
    then show ?thesis by (subst small_fit.simps) auto
  next
    case True
    have f: "is_anchor ?f" using True 1(3,4) by (simp add: is_anchor_def)
    show ?thesis
    proof (cases "list_isEmpty ?f r")
      case e: True
      then have g: "list_get ?f r = (None, r)" by (simp add: list_get_def)
      have empty: "l ?f = []" using fl.empty_iff [OF 1(2), of ?f] f e by (simp add: list_isEmpty_def)
      have s: "small_fit r n blocks = small_fit r n ?b" using True g by (subst small_fit.simps) simp
      have "(\<exists>b. small_fit r n ?b = (None, b, r) \<and> (\<forall>k. ?b < k \<longrightarrow> k \<le> n \<longrightarrow> l (List_head (nat (k - 1))) = [])) \<or>
        (\<exists>x b. small_fit r n ?b = (Some x, b, list_remove x r) \<and> ?b < b \<and> b \<le> n \<and> x \<in> set (l (List_head (nat (b - 1)))))"
        by (rule 1(1) [OF refl True g [symmetric] refl 1(2)]) (use 1(3,4) in simp_all)
      then show ?thesis
      proof (elim disjE exE conjE)
        fix b assume b: "small_fit r n ?b = (None, b, r)" "\<forall>k. ?b < k \<longrightarrow> k \<le> n \<longrightarrow> l (List_head (nat (k - 1))) = []"
        have "l (List_head (nat (k - 1))) = []" if "blocks < k" "k \<le> n" for k
          using b(2) that empty by (cases "k = ?b") auto
        then show ?thesis using s b(1) by auto
      next
        fix x b assume "small_fit r n ?b = (Some x, b, list_remove x r)" "?b < b" "b \<le> n" "x \<in> set (l (List_head (nat (b - 1))))"
        then have "small_fit r n blocks = (Some x, b, list_remove x r) \<and> blocks < b \<and> b \<le> n \<and> x \<in> set (l (List_head (nat (b - 1))))"
          using s by simp
        then show ?thesis by blast
      qed
    next
      case e: False
      let ?x = "next_of r ?f"
      have g: "list_get ?f r = (Some ?x, list_remove ?x r)" using e by (simp add: list_get_def Let_def)
      have "?x \<in> set (l ?f)" using fl.get_first(1) [OF 1(2), of ?f] f e by (metis list.set_intros(1) list_isEmpty_def mem_Collect_eq)
      then have "small_fit r n blocks = (Some ?x, ?b, list_remove ?x r) \<and> blocks < ?b \<and> ?b \<le> n \<and> ?x \<in> set (l (List_head (nat (?b - 1))))"
        using True g by (subst small_fit.simps) simp
      then show ?thesis by blast
    qed
  qed
qed

lemma big_fit_ok:
  assumes "linked r l" and "l Big_list = xs @ ys"
  shows "\<exists>c. big_fit r w (hd (ys @ [Big_list])) = ret c \<and>
    (c = Big_list \<and> (\<forall>x\<in>set ys. size_of r x < w) \<or> c \<in> set ys \<and> w \<le> size_of r c)"
  using assms(2)
proof (induction ys arbitrary: xs)
  case Nil
  then show ?case by (subst big_fit.simps) simp
next
  case (Cons y ys)
  have y: "y \<noteq> Big_list" using linkedD(4) [OF assms(1), of y Big_list] Cons.prems by (auto simp: is_anchor_def)
  have nx: "next_of r y = hd (ys @ [Big_list])" using fl.nxt_element [OF assms(1) Cons.prems] .
  show ?case
  proof (cases "size_of r y < w")
    case True
    have "l Big_list = (xs @ [y]) @ ys" using Cons.prems by simp
    from Cons.IH [OF this] obtain c where "big_fit r w (hd (ys @ [Big_list])) = ret c"
      "c = Big_list \<and> (\<forall>x\<in>set ys. size_of r x < w) \<or> c \<in> set ys \<and> w \<le> size_of r c" by blast
    moreover have "big_fit r w y = big_fit r w (next_of r y)" using True y by (subst big_fit.simps) simp
    ultimately show ?thesis using True by (auto simp: nx)
  next
    case False
    then show ?thesis by (subst big_fit.simps) auto
  qed
qed

lemma take_fit_ok:
  assumes "zone_ok z L l" and "1 \<le> w"
  shows "(\<exists>b. take_fit (lists z) (nfree z) w = ret (None, b, lists z) \<and> sizes_below (w - 1) L) \<or>
    (\<exists>p n. take_fit (lists z) (nfree z) w = ret (Some (Chunk_at (addr z p)), n, node_remove (Chunk_at (addr z p)) (lists z)) \<and>
       (p, n) \<in> free_chunks L \<and> w \<le> n)"
proof -
  note Z = zone_okD [OF assms(1)]
  have lo: "lists_ok z (free_chunks L) l" using Z(8) .
  from small_fit_ok [OF Z(6), of "w - 1" "nfree z"] assms(2) Z(13) consider
    (none) b where "small_fit (lists z) (nfree z) (w - 1) = (None, b, lists z)"
      "\<forall>k. w - 1 < k \<longrightarrow> k \<le> nfree z \<longrightarrow> l (List_head (nat (k - 1))) = []"
    | (some) x b where "small_fit (lists z) (nfree z) (w - 1) = (Some x, b, list_remove x (lists z))" "w - 1 < b" "b \<le> nfree z"
        "x \<in> set (l (List_head (nat (b - 1))))"
    by auto
  then show ?thesis
  proof cases
    case some
    obtain p n where p: "x = Chunk_at (addr z p)" "(p, n) \<in> free_chunks L" "list_of z n = List_head (nat (b - 1))"
      using free_element [OF assms(1) some(4)] by blast
    have "1 \<le> n" using frees_place(3) [OF Z(3)] p(2) by (auto simp: chunk_sets)
    then have "n = b" using p(3) some(2) assms(2) by (auto simp: list_of_def nat_eq_iff split: if_splits)
    then show ?thesis using some p by (auto simp: take_fit_def list_remove_def)
  next
    case none
    have nh: "next_of (lists z) Big_list = hd (l Big_list @ [Big_list])"
      using fl.nxt_anchor [OF Z(6), of Big_list] by (simp add: is_anchor_def)
    from big_fit_ok [OF Z(6), of "[]" "l Big_list" w] obtain c where
      c: "big_fit (lists z) w (hd (l Big_list @ [Big_list])) = ret c"
      "c = Big_list \<and> (\<forall>x\<in>set (l Big_list). size_of (lists z) x < w) \<or> c \<in> set (l Big_list) \<and> w \<le> size_of (lists z) c" by auto
    show ?thesis
    proof (cases "c = Big_list")
      case True
      then have small: "\<forall>x\<in>set (l Big_list). size_of (lists z) x < w"
        using c(2) linkedD(4) [OF Z(6), of Big_list Big_list] by (auto simp: is_anchor_def)
      have "k \<le> w - 1" if pk: "(p, k) \<in> free_chunks L" for p k
      proof -
        have mem: "Chunk_at (addr z p) \<in> set (l (list_of z k))" using pk by (subst Z(7)) (auto simp: nodes_def)
        have k1: "1 \<le> k" using frees_place(3) [OF Z(3)] pk by (auto simp: chunk_sets)
        show ?thesis
        proof (cases "k \<le> nfree z")
          case True
          then have "l (List_head (nat (k - 1))) \<noteq> []" using mem by (auto simp: list_of_def)
          then show ?thesis using none(2) True by force
        next
          case False
          then have "size_of (lists z) (Chunk_at (addr z p)) = k" using lo pk by (auto simp: lists_ok_def)
          then show ?thesis using small mem False by (auto simp: list_of_def)
        qed
      qed
      then have "sizes_below (w - 1) L" by (auto simp: sizes_below_def)
      then show ?thesis using none(1) nh c(1) True by (auto simp: take_fit_def)
    next
      case False
      then have cb: "c \<in> set (l Big_list)" "w \<le> size_of (lists z) c" using c(2) by auto
      obtain p n where p: "c = Chunk_at (addr z p)" "(p, n) \<in> free_chunks L" "list_of z n = Big_list"
        using free_element [OF assms(1) cb(1)] by blast
      have "size_of (lists z) c = n" using lo p by (auto simp: lists_ok_def list_of_def split: if_splits)
      then show ?thesis using none(1) nh c(1) False cb(2) p by (auto simp: take_fit_def list_remove_def)
    qed
  qed
qed

lemma lists_ok_cong: "same_shape z z' \<Longrightarrow> lists z' = lists z \<Longrightarrow> lists_ok z' F l = lists_ok z F l"
  by (simp add: lists_ok_def same_shape_eqs)

lemma map_ok_cong: "same_shape z z' \<Longrightarrow> zmap z' = zmap z \<Longrightarrow> map_ok z' L = map_ok z L"
  by (simp add: map_ok_def same_shape_eqs)

lemma zone_okI:
  assumes "zone_ok z L l" and "same_shape z z'" and "map_ok z' L'" and "lists_ok z' (free_chunks L') l'"
    and "bytesUsed z' = used_blocks L' * blockSize z" and "\<exists>n u. (lastCombine z', n, u) \<in> set (spans heapKlass L')"
  shows "zone_ok z' L' l'"
  using assms same_shape_eqs [OF assms(2)] zone_okD(1) [OF assms(1)] by (simp add: zone_ok_def)

text \<open>Splitting or retagging a chunk keeps the starts of the others.\<close>

lemma starts_kept:
  assumes "(q, k, v) \<in> set (spans s (A @ (n, u) # B))" and "extent M = n" and "M \<noteq> []"
  shows "\<exists>k v. (q, k, v) \<in> set (spans s (A @ M @ B))"
proof -
  obtain k v M' where "M = (k, v) # M'" using assms(3) by (cases M) auto
  then show ?thesis using assms(1,2) by (fastforce simp: spans_append add.assoc)
qed

lemma use_chunk_ok:
  assumes "zone_ok z L l" and "(p, n) \<in> free_chunks L" and "1 \<le> w" and "w \<le> n"
  shows "\<exists>z' L' l'. use_chunk (z\<lparr> lists := node_remove (Chunk_at (addr z p)) (lists z) \<rparr>) (addr z p) n w = ret z' \<and>
    zone_ok (z'\<lparr> bytesUsed := bytesUsed z' + w * blockSize z \<rparr>) L' l' \<and> same_counters z z' \<and>
    used_chunks L' = insert (p, w) (used_chunks L) \<and> (p, w) \<notin> used_chunks L"
proof -
  note Z = zone_okD [OF assms(1)]
  have fresh: "(p, w) \<notin> used_chunks L"
    using spans_disjoint [OF Z(3), of p n False p w True] assms(2-4) by (auto simp: used_chunks_def free_chunks_def)
  let ?x = "Chunk_at (addr z p)"
  let ?z = "z\<lparr> lists := node_remove ?x (lists z) \<rparr>" and ?l = "purge l (nodes z {(p, n)})" and ?F = "free_chunks L - {(p, n)}"
  obtain A B where L: "L = A @ [(n, False)] @ B" "p = heapKlass + extent A"
    using spans_split [of p n False heapKlass L] assms(2) by (auto simp: free_chunks_def)
  have ch: "chunks (zmap z) heapKlass A p" "chunk_ok (zmap z) p n False" "chunks (zmap z) (p + n) B (heapEnd z)"
    using Z(3) unfolding L by (simp_all add: chunks_append_iff add.assoc)
  have pos: "heapKlass \<le> p" "p + n \<le> heapEnd z" "p < heapEnd z" using chunks_le [OF ch(1)] chunks_le [OF ch(3)] assms by simp_all
  have len: "int (length (zmap z)) = heapEnd z + 1" using Z(11,12) by simp
  have bound: "n < 2 ^ 21" using ch(2) by (simp add: chunk_ok_def chunk_head_def)
  have mem: "?x \<in> set (l (list_of z n))" using assms(2) by (subst Z(7)) (auto simp: nodes_def)
  have "absorbed z {(p, n)} l ?z"
    using linked_purge [OF Z(6) mem] by (simp add: absorbed_def nodes_def)
  then have lo: "lists_ok ?z ?F ?l"
    using lists_ok_absorbed [OF Z(8)] assms(2) frees_place(5) [OF Z(3)] by (simp add: chunk_sets)
  have "\<exists>c. markSize (zmap z) p w True = ret c \<and> length c = length (zmap z) \<and> chunk_ok c p w True \<and>
    (\<forall>q. 0 \<le> q \<longrightarrow> q < int (length (zmap z)) \<longrightarrow> \<not> (p \<le> q \<and> q < p + w) \<longrightarrow> at c q = at (zmap z) q)"
    by (rule markSize_ret) (use assms pos bound len in \<open>simp_all add: heapKlass_def\<close>)
  then obtain c where c: "markUsed (zmap z) p w = ret c" "length c = length (zmap z)" "chunk_ok c p w True"
    "\<And>q. 0 \<le> q \<Longrightarrow> q < int (length (zmap z)) \<Longrightarrow> \<not> (p \<le> q \<and> q < p + w) \<Longrightarrow> at c q = at (zmap z) q"
    by (auto simp: markUsed_def)
  have pre: "mapAddr ?z (addr z p) = ret p" "chunk_size (zmap z) p = ret n"
    using mapAddr_addr [OF Z(1) pos(1,3)] same_shape_eqs(10) [of z ?z] chunk_head_size(2) [OF chunk_ok_head [OF ch(2)]] by simp_all
  have lc: "\<exists>n u. (lastCombine z, n, u) \<in> set (spans heapKlass L)" using assms(1) by (simp add: zone_ok_def)
  have fA: "(p, k) \<notin> frees heapKlass A" "(p, k) \<notin> frees (p + n) B" for k
    using frees_place(2,3) [OF ch(1), of p k] frees_place(1) [OF ch(3), of p k] assms(3,4) by fastforce+
  show ?thesis
  proof (cases "w < n")
    case True
    have nx: "chunk_next c p = ret (p + w)" using chunk_head_size(4) [OF chunk_ok_head [OF c(3)]] .
    have "\<exists>d. markSize c (p + w) (n - w) False = ret d \<and> length d = length c \<and> chunk_ok d (p + w) (n - w) False \<and>
      (\<forall>q. 0 \<le> q \<longrightarrow> q < int (length c) \<longrightarrow> \<not> (p + w \<le> q \<and> q < p + w + (n - w)) \<longrightarrow> at d q = at c q)"
      by (rule markSize_ret) (use True assms pos bound len c(2) in \<open>simp_all add: heapKlass_def\<close>)
    then obtain d where d: "markUnused c (p + w) (n - w) = ret d" "length d = length (zmap z)" "chunk_ok d (p + w) (n - w) False"
      "\<And>q. 0 \<le> q \<Longrightarrow> q < int (length (zmap z)) \<Longrightarrow> \<not> (p + w \<le> q \<and> q < p + n) \<Longrightarrow> at d q = at c q"
      using c(2) by (auto simp: markUnused_def)
    have dp: "chunk_ok d p w True"
      using chunk_ok_frame [of p w d c True] c(2,3) d(2,4) pos len assms by (simp add: heapKlass_def)
    have m: "map_ok (z\<lparr> zmap := d \<rparr>) (A @ [(w, True), (n - w, False)] @ B)"
    proof (rule map_ok_replace [OF assms(1) [unfolded L(1)] d(2)], goal_cases)
      case 1
      then show ?case using dp d(3) L(2) by simp
    next
      case (2 x)
      then have "x < p \<or> p + n \<le> x" "x < int (length (zmap z))" using L(2) d(2) by (auto simp: add.assoc)
      then have "\<not> (p + w \<le> x \<and> x < p + n)" "\<not> (p \<le> x \<and> x < p + w)" "x < int (length (zmap z))"
        using assms(3) True by auto
      then show ?case using d(4) [of x] c(4) [of x] 2(1) by simp
    qed
    let ?y = "?z\<lparr> zmap := d \<rparr>" and ?L = "A @ [(w, True), (n - w, False)] @ B"
    have sy: "same_shape z ?y" by (simp add: same_shape_def)
    note shape = same_shape_eqs [OF sy]
    have "lists_ok ?y ?F ?l" using lo lists_ok_cong [of ?z ?y ?F ?l] by (simp add: same_shape_def)
    moreover have "p + w \<notin> fst ` ?F"
    proof -
      have "\<not> (p + w, k) \<in> frees heapKlass A" "\<not> (p + w, k) \<in> frees (p + n) B" for k
        using frees_place(2,3) [OF ch(1), of "p + w" k] frees_place(1) [OF ch(3), of "p + w" k] assms(3) True by fastforce+
      then show ?thesis using assms(3) by (auto simp: chunk_sets L)
    qed
    ultimately have "\<exists>z'. addToFreeList ?y (p + w) = ret (nfree ?y < n - w, z') \<and> z' = ?y\<lparr> lists := lists z' \<rparr> \<and>
      lists_ok z' (insert (p + w, n - w) ?F) (?l(list_of ?y (n - w) := Chunk_at (addr ?y (p + w)) # ?l (list_of ?y (n - w))))"
      using d(3) pos assms True Z(13) by (intro addToFreeList_ret) (simp_all add: shape)
    then obtain z' l' where z': "addToFreeList ?y (p + w) = ret (nfree ?y < n - w, z')" "z' = ?y\<lparr> lists := lists z' \<rparr>"
      "lists_ok z' (insert (p + w, n - w) ?F) l'" by blast
    have zz: "z' = z\<lparr> zmap := d, lists := lists z' \<rparr>" by (subst z'(2)) simp
    have cnt: "same_counters z z'" by (subst zz) (simp add: same_counters_def same_shape_def)
    let ?v = "z'\<lparr> bytesUsed := bytesUsed z' + w * blockSize z \<rparr>"
    have f: "zmap ?v = d" "lastCombine ?v = lastCombine z" "bytesUsed z' = bytesUsed z" by (subst zz, simp)+
    have sv: "same_shape z ?v" using cnt by (simp add: same_counters_def same_shape_def)
    have "free_chunks ?L = insert (p + w, n - w) ?F"
      using fA by (auto simp: chunk_sets L add.assoc)
    then have lv: "lists_ok ?v (free_chunks ?L) l'" using z'(3) lists_ok_cong [of z' ?v] by (simp add: same_shape_def)
    have "zone_ok ?v ?L l'"
    proof (rule zone_okI [OF assms(1) sv _ lv])
      have "same_shape (z\<lparr> zmap := d \<rparr>) ?v" using sv by (simp add: same_shape_def)
      then show "map_ok ?v ?L" using map_ok_cong [of "z\<lparr> zmap := d \<rparr>" ?v ?L] m f(1) by simp
      show "bytesUsed ?v = used_blocks ?L * blockSize z" using Z(9) f(3) by (simp add: L algebra_simps)
      show "\<exists>n u. (lastCombine ?v, n, u) \<in> set (spans heapKlass ?L)"
        using lc starts_kept [of "lastCombine z" _ _ heapKlass A n False B "[(w, True), (n - w, False)]"] by (auto simp: f(2) L(1))
    qed
    moreover have "use_chunk ?z (addr z p) n w = ret z'"
      using pre c(1) True nx d(1) z'(1) by (simp add: use_chunk_def)
    moreover have "used_chunks ?L = insert (p, w) (used_chunks L)" by (auto simp: chunk_sets L add.assoc)
    ultimately show ?thesis using cnt fresh by blast
  next
    case False
    then have wn: "w = n" using assms(4) by simp
    let ?y = "?z\<lparr> zmap := c \<rparr>" and ?L = "A @ [(w, True)] @ B"
    let ?v = "?y\<lparr> bytesUsed := bytesUsed ?y + w * blockSize z \<rparr>"
    have m: "map_ok (z\<lparr> zmap := c \<rparr>) ?L"
    proof (rule map_ok_replace [OF assms(1) [unfolded L(1)] c(2)], goal_cases)
      case 1
      then show ?case using c(3) L(2) wn by simp
    next
      case (2 x)
      then have "x < p \<or> p + n \<le> x" "x < int (length (zmap z))" using L(2) c(2) by (auto simp: add.assoc)
      then show ?case using c(4) [of x] 2(1) wn by auto
    qed
    have sv: "same_shape z ?v" by (simp add: same_shape_def)
    have "free_chunks ?L = ?F" using fA by (auto simp: chunk_sets L wn)
    then have lv: "lists_ok ?v (free_chunks ?L) ?l" using lo lists_ok_cong [of ?z ?v] by (simp add: same_shape_def)
    have "zone_ok ?v ?L ?l"
    proof (rule zone_okI [OF assms(1) sv _ lv])
      have "same_shape (z\<lparr> zmap := c \<rparr>) ?v" by (simp add: same_shape_def)
      then show "map_ok ?v ?L" using map_ok_cong [of "z\<lparr> zmap := c \<rparr>" ?v ?L] m by simp
      show "bytesUsed ?v = used_blocks ?L * blockSize z" using Z(9) by (simp add: L algebra_simps)
      show "\<exists>n u. (lastCombine ?v, n, u) \<in> set (spans heapKlass ?L)"
        using lc starts_kept [of "lastCombine z" _ _ heapKlass A n False B "[(w, True)]"] by (auto simp: L(1) wn)
    qed
    moreover have "use_chunk ?z (addr z p) n w = ret ?y" using pre c(1) False by (simp add: use_chunk_def)
    moreover have "used_chunks ?L = insert (p, w) (used_chunks L)" by (auto simp: chunk_sets L wn)
    moreover have "same_counters z ?y" by (simp add: same_counters_def same_shape_def)
    ultimately show ?thesis using fresh by blast
  qed
qed

section \<open>Allocation\<close>

lemma whole_blocks:
  assumes "zone_shape z"
  shows "w * blockSize z mod blockSize z = 0" and "drop_bit (log2BS z) (w * blockSize z) = w"
proof -
  have "drop_bit (log2BS z) (w * 2 ^ log2BS z) = w" by (simp add: drop_bit_eq_div)
  then show "drop_bit (log2BS z) (w * blockSize z) = w" using assms by (simp add: zone_shape_def)
qed simp

text \<open>The outcome of an allocation of \<open>w\<close> blocks, up to the counters.\<close>

definition allocated :: "zone \<Rightarrow> (int \<times> bool) list \<Rightarrow> int \<Rightarrow> int option \<Rightarrow> zone \<Rightarrow> bool" where
  "allocated z L w res z' \<longleftrightarrow> same_counters z z' \<and>
     (case res of
        None \<Rightarrow> \<exists>L' l'. zone_ok z' L' l' \<and> used_chunks L' = used_chunks L \<and> sizes_below (w - 1) L'
      | Some a \<Rightarrow> \<exists>p L' l'. a = addr z p \<and> zone_ok (z'\<lparr> bytesUsed := bytesUsed z' + w * blockSize z \<rparr>) L' l' \<and>
          used_chunks L' = insert (p, w) (used_chunks L) \<and> (p, w) \<notin> used_chunks L)"

lemma allocFromLists_step:
  assumes "zone_ok z L l" and "1 \<le> w" and "bs = blockSize z" and "combineOnDeallocation z \<or> \<not> sizes_below (w - 1) L"
  shows "\<exists>res z'. allocFromLists z (w * bs) = ret (res, z') \<and> allocated z L w res z'"
proof -
  note Z = zone_okD [OF assms(1)]
  have pre: "w * bs mod blockSize z = 0" "drop_bit (log2BS z) (w * bs) = w" "0 < w"
    using whole_blocks [OF Z(1), of w] assms(2,3) by simp_all
  from take_fit_ok [OF assms(1,2)] show ?thesis
  proof (elim disjE exE conjE)
    fix b assume b: "take_fit (lists z) (nfree z) w = ret (None, b, lists z)" "sizes_below (w - 1) L"
    then have "combineOnDeallocation z" using assms(4) by simp
    then have "allocFromLists z (w * bs) = ret (None, z)" using b(1) pre by (subst allocFromLists.simps) simp
    moreover have "allocated z L w None z" using assms(1) b(2) by (auto simp: allocated_def)
    ultimately show ?thesis by blast
  next
    fix p n assume p: "take_fit (lists z) (nfree z) w = ret (Some (Chunk_at (addr z p)), n, node_remove (Chunk_at (addr z p)) (lists z))"
      "(p, n) \<in> free_chunks L" "w \<le> n"
    from use_chunk_ok [OF assms(1) p(2) assms(2) p(3)] obtain z' L' l' where
      u: "use_chunk (z\<lparr> lists := node_remove (Chunk_at (addr z p)) (lists z) \<rparr>) (addr z p) n w = ret z'"
        "zone_ok (z'\<lparr> bytesUsed := bytesUsed z' + w * blockSize z \<rparr>) L' l'" "same_counters z z'"
        "used_chunks L' = insert (p, w) (used_chunks L)" "(p, w) \<notin> used_chunks L" by blast
    have "allocFromLists z (w * bs) = ret (Some (addr z p), z')"
      using p(1) u(1) pre by (subst allocFromLists.simps) (simp add: node_addr_def)
    moreover have "allocated z L w (Some (addr z p)) z'" using u(2-5) by (auto simp: allocated_def)
    ultimately show ?thesis by blast
  qed
qed

lemma allocFromLists_ok:
  assumes "zone_ok z L l" and "1 \<le> w"
  shows "\<exists>res z'. allocFromLists z (w * blockSize z) = ret (res, z') \<and> allocated z L w res z'"
proof (cases "combineOnDeallocation z \<or> \<not> sizes_below (w - 1) L")
  case True
  then show ?thesis using allocFromLists_step [OF assms refl] by blast
next
  case False
  note Z = zone_okD [OF assms(1)]
  have pre: "w * blockSize z mod blockSize z = 0" "drop_bit (log2BS z) (w * blockSize z) = w" "0 < w"
    using whole_blocks [OF Z(1), of w] assms(2) by simp_all
  obtain b where b: "take_fit (lists z) (nfree z) w = ret (None, b, lists z)"
    using take_fit_ok [OF assms] False by (force simp: sizes_below_def)
  have "sizes_below (w - 1) L" using False by simp
  from combineAll_ok [OF assms(1) this] assms(2) obtain big z1 L1 l1 where
    c: "combineAll z = ret (big, z1)" "zone_ok z1 L1 l1" "same_counters z z1" "combineOnDeallocation z1"
      "used_chunks L1 = used_chunks L" "sizes_below (max big (w - 1)) L1" by auto
  have sh: "same_shape z z1" using c(3) by (simp add: same_counters_def)
  note shape = same_shape_eqs [OF sh]
  have step: "allocFromLists z (w * blockSize z) =
    (if w \<le> big then allocFromLists z1 (w * blockSize z) else ret (None, z1))"
    using b pre False c(1) by (subst allocFromLists.simps) simp
  show ?thesis
  proof (cases "w \<le> big")
    case True
    have "\<exists>res z'. allocFromLists z1 (w * blockSize z) = ret (res, z') \<and> allocated z1 L1 w res z'"
      by (rule allocFromLists_step [OF c(2) assms(2)]) (use c(4) shape in simp_all)
    then obtain res z' where r: "allocFromLists z1 (w * blockSize z) = ret (res, z')" "allocated z1 L1 w res z'" by blast
    have "allocated z L w res z'"
      using r(2) same_counters_trans [OF c(3)] c(5) unfolding allocated_def shape by (auto split: option.splits)
    then show ?thesis using step True r(1) by auto
  next
    case False
    then have "sizes_below (w - 1) L1" using c(6) by (simp add: max_def split: if_splits)
    then have "allocated z L w None z1" using c(2,3,5) by (auto simp: allocated_def)
    then show ?thesis using step False by auto
  qed
qed

lemma allocate_ok:
  assumes "zone_ok z L l" and "0 < n"
  shows "\<exists>res z' L' l'. allocate z n = ret (res, z') \<and> zone_ok z' L' l' \<and> same_shape z z' \<and>
    (case res of
       None \<Rightarrow> used_chunks L' = used_chunks L \<and> bytesUsed z' = bytesUsed z \<and> ifrag z' = ifrag z \<and> (\<forall>(p, k)\<in>free_chunks L'. k * blockSize z < n)
     | Some a \<Rightarrow> \<exists>p w. a = addr z p \<and> (w - 1) * blockSize z < n \<and> n \<le> w * blockSize z \<and>
         used_chunks L' = insert (p, w) (used_chunks L) \<and> (\<forall>(q, k)\<in>used_chunks L. p + w \<le> q \<or> q + k \<le> p) \<and>
         bytesUsed z' = bytesUsed z + w * blockSize z \<and> total_bytes z' = total_bytes z + w * blockSize z \<and>
         ifrag z' = ifrag z + (w * blockSize z - n))"
proof -
  note Z = zone_okD [OF assms(1)]
  let ?b = "blockSize z"
  define w where "w = (n + ?b - 1) div ?b"
  have b: "?b = 2 ^ log2BS z" "0 < ?b" using Z(1) by (simp_all add: zone_shape_def)
  have "w * ?b + (n + ?b - 1) mod ?b = n + ?b - 1" by (simp add: w_def)
  moreover have "0 \<le> (n + ?b - 1) mod ?b" "(n + ?b - 1) mod ?b < ?b" using b(2) by simp_all
  ultimately have wn: "(w - 1) * ?b < n" "n \<le> w * ?b" by (simp_all add: algebra_simps)
  have w: "1 \<le> w"
  proof (rule ccontr)
    assume "\<not> 1 \<le> w"
    then have "w * ?b \<le> 0" using b(2) by (simp add: mult_nonpos_nonneg)
    then show False using wn(2) assms(2) by simp
  qed
  have rounded: "push_bit (log2BS z) (drop_bit (log2BS z) (n + ?b - 1)) = w * ?b"
    by (simp add: push_bit_eq_mult drop_bit_eq_div w_def b(1))
  from allocFromLists_ok [OF assms(1) w] obtain res z1 where
    r: "allocFromLists z (w * ?b) = ret (res, z1)" "allocated z L w res z1" by blast
  show ?thesis
  proof (cases res)
    case None
    then obtain L' l' where a: "same_counters z z1" "zone_ok z1 L' l'" "used_chunks L' = used_chunks L" "sizes_below (w - 1) L'"
      using r(2) by (auto simp: allocated_def)
    have "k * ?b < n" if "(p, k) \<in> free_chunks L'" for p k
    proof -
      have "k \<le> w - 1" using a(4) that by (auto simp: sizes_below_def)
      then have "k * ?b \<le> (w - 1) * ?b" using b(2) by (intro mult_right_mono) simp_all
      then show ?thesis using wn(1) by simp
    qed
    moreover have "allocate z n = ret (None, z1)" using assms(2) r(1) None rounded by (simp add: allocate_def)
    moreover have "bytesUsed z1 = bytesUsed z" "ifrag z1 = ifrag z" "same_shape z z1" using a(1) by (simp_all add: same_counters_def)
    ultimately show ?thesis using a(2,3)
      by (intro exI [of _ None] exI [of _ z1] exI [of _ L'] exI [of _ l'] conjI) (auto simp only: option.case)
  next
    case (Some a)
    then obtain p L' l' where a: "same_counters z z1" "a = addr z p" "zone_ok (z1\<lparr> bytesUsed := bytesUsed z1 + w * ?b \<rparr>) L' l'"
      "used_chunks L' = insert (p, w) (used_chunks L)" "(p, w) \<notin> used_chunks L"
      using r(2) by (auto simp: allocated_def)
    let ?z = "z1\<lparr> bytesUsed := bytesUsed z1 + w * ?b, total_bytes := total_bytes z1 + w * ?b, ifrag := ifrag z1 + (w * ?b - n) \<rparr>"
    have "allocate z n = ret (Some a, ?z)" using assms(2) r(1) Some rounded by (simp add: allocate_def Let_def)
    moreover have "zone_ok ?z L' l'"
      using a(3) by (simp add: zone_ok_def map_ok_def lists_ok_def zone_shape_def mapSize_def heapEnd_def nodes_def addr_def list_of_def)
    moreover have "same_shape z ?z" using a(1) by (simp add: same_counters_def same_shape_def)
    moreover have "a = addr z p \<and> (w - 1) * ?b < n \<and> n \<le> w * ?b \<and> used_chunks L' = insert (p, w) (used_chunks L) \<and>
      (\<forall>(q, k)\<in>used_chunks L. p + w \<le> q \<or> q + k \<le> p) \<and> bytesUsed ?z = bytesUsed z + w * ?b \<and>
      total_bytes ?z = total_bytes z + w * ?b \<and> ifrag ?z = ifrag z + (w * ?b - n)"
    proof (intro conjI ballI)
      fix x assume x: "x \<in> used_chunks L"
      obtain q k where q: "x = (q, k)" by (cases x)
      have "p + w \<le> q \<or> q + k \<le> p"
        using spans_disjoint [OF zone_okD(3) [OF a(3)], of p w True q k True] a(4,5) x by (auto simp: used_chunks_def q)
      then show "case x of (q, k) \<Rightarrow> p + w \<le> q \<or> q + k \<le> p" by (simp add: q)
    qed (use a(1) in \<open>simp_all add: same_counters_def a(2,4) wn\<close>)
    ultimately show ?thesis
      by (intro exI [of _ "Some a"] exI [of _ ?z] exI [of _ L'] exI [of _ l'] conjI) (auto simp only: option.case)
  qed
qed

text \<open>
  Deallocating a used stretch ends without a fault and takes exactly that stretch out of the used
  ones, whether or not the freed block is combined with its neighbours.
\<close>

lemma deallocate_ok:
  assumes "zone_ok z L l" and "(p, n) \<in> used_chunks L"
  shows "\<exists>z' L' l'. deallocate z (addr z p) b = ret z' \<and> zone_ok z' L' l' \<and> used_chunks L' = used_chunks L - {(p, n)} \<and>
    same_shape z z' \<and> bytesUsed z' = bytesUsed z - n * blockSize z \<and> ifrag z' = ifrag z - (n * blockSize z - b)"
proof -
  note Z = zone_okD [OF assms(1)]
  obtain A B where L: "L = A @ [(n, True)] @ B" "p = heapKlass + extent A"
    using spans_split [of p n True heapKlass L] assms(2) by (auto simp: used_chunks_def)
  have ch: "chunks (zmap z) heapKlass A p" "chunk_ok (zmap z) p n True" "chunks (zmap z) (p + n) B (heapEnd z)"
    using Z(3) unfolding L by (simp_all add: chunks_append_iff add.assoc)
  have pos: "heapKlass \<le> p" "p + n \<le> heapEnd z" "1 \<le> n" "n < 2 ^ 21"
    using chunks_le [OF ch(1)] chunks_le [OF ch(3)] ch(2) by (simp_all add: chunk_ok_def chunk_head_def)
  have len: "int (length (zmap z)) = heapEnd z + 1" using Z(11,12) by simp
  have "\<exists>c. markSize (zmap z) p n False = ret c \<and> length c = length (zmap z) \<and> chunk_ok c p n False \<and>
    (\<forall>q. 0 \<le> q \<longrightarrow> q < int (length (zmap z)) \<longrightarrow> \<not> (p \<le> q \<and> q < p + n) \<longrightarrow> at c q = at (zmap z) q)"
    by (rule markSize_ret) (use pos len in \<open>simp_all add: heapKlass_def\<close>)
  then obtain c where c: "markUnused (zmap z) p n = ret c" "length c = length (zmap z)" "chunk_ok c p n False"
    "\<And>q. 0 \<le> q \<Longrightarrow> q < int (length (zmap z)) \<Longrightarrow> \<not> (p \<le> q \<and> q < p + n) \<Longrightarrow> at c q = at (zmap z) q"
    by (auto simp: markUnused_def)
  let ?L = "A @ [(n, False)] @ B" and ?bs = "n * blockSize z"
  have m: "map_ok (z\<lparr> zmap := c \<rparr>) ?L"
  proof (rule map_ok_replace [OF assms(1) [unfolded L(1)] c(2)], goal_cases)
    case 1
    then show ?case using c(3) L(2) by simp
  next
    case (2 x)
    then have "x < p \<or> p + n \<le> x" "x < int (length (zmap z))" using L(2) c(2) by (auto simp: add.assoc)
    then show ?case using c(4) [of x] 2(1) by auto
  qed
  let ?z1 = "z\<lparr> bytesUsed := bytesUsed z - ?bs, ifrag := ifrag z - (?bs - b), zmap := c \<rparr>"
  have s1: "same_shape z ?z1" by (simp add: same_shape_def)
  note shape = same_shape_eqs [OF s1]
  have "lists_ok ?z1 (free_chunks L) l" using Z(8) lists_ok_cong [of z ?z1] s1 by simp
  moreover have "(p, k) \<notin> free_chunks L" for k
  proof
    assume k: "(p, k) \<in> free_chunks L"
    then have "1 \<le> k" using frees_place(3) [OF Z(3)] by (simp add: chunk_sets)
    then show False using spans_disjoint [OF Z(3), of p n True p k False] assms(2) k pos(3)
      by (simp add: used_chunks_def free_chunks_def)
  qed
  then have "p \<notin> fst ` free_chunks L" by auto
  ultimately have "\<exists>z2. addToFreeList ?z1 p = ret (nfree ?z1 < n, z2) \<and> z2 = ?z1\<lparr> lists := lists z2 \<rparr> \<and>
    lists_ok z2 (insert (p, n) (free_chunks L)) (l(list_of ?z1 n := Chunk_at (addr ?z1 p) # l (list_of ?z1 n)))"
    using c(3) pos Z(13) by (intro addToFreeList_ret) (simp_all add: shape)
  then obtain z2 where z2: "addToFreeList ?z1 p = ret (nfree z < n, z2)" "z2 = ?z1\<lparr> lists := lists z2 \<rparr>"
    "lists_ok z2 (insert (p, n) (free_chunks L)) (l(list_of z n := Chunk_at (addr z p) # l (list_of z n)))"
    by (auto simp: shape)
  let ?l = "l(list_of z n := Chunk_at (addr z p) # l (list_of z n))"
  have f: "zmap z2 = c" "bytesUsed z2 = bytesUsed z - ?bs" "ifrag z2 = ifrag z - (?bs - b)" "lastCombine z2 = lastCombine z"
    by (subst z2(2), simp)+
  have s2: "same_shape z z2" by (subst z2(2)) (simp add: same_shape_def)
  note shape2 = same_shape_eqs [OF s2]
  have ok2: "zone_ok z2 ?L ?l"
  proof (rule zone_okI [OF assms(1) s2])
    have "same_shape (z\<lparr> zmap := c \<rparr>) z2" using s2 by (simp add: same_shape_def)
    then show "map_ok z2 ?L" using map_ok_cong [of "z\<lparr> zmap := c \<rparr>" z2 ?L] m f(1) by simp
    have "free_chunks ?L = insert (p, n) (free_chunks L)" by (auto simp: chunk_sets L)
    then show "lists_ok z2 (free_chunks ?L) ?l" using z2(3) by simp
    show "bytesUsed z2 = used_blocks ?L * blockSize z" using Z(9) f(2) by (simp add: L algebra_simps)
    have "\<exists>n u. (lastCombine z, n, u) \<in> set (spans heapKlass L)" using assms(1) by (simp add: zone_ok_def)
    then show "\<exists>n u. (lastCombine z2, n, u) \<in> set (spans heapKlass ?L)"
      using starts_kept [of "lastCombine z" _ _ heapKlass A n True B "[(n, False)]"] by (auto simp: f(4) L(1))
  qed
  have used: "used_chunks ?L = used_chunks L - {(p, n)}"
  proof -
    have "(p, k) \<notin> useds heapKlass A" "(p, k) \<notin> useds (p + n) B" for k
      using chunks_spans [OF ch(1), of p k True] chunks_spans [OF ch(3), of p k True] pos(3) by (auto simp: useds_def)
    then show ?thesis by (auto simp: chunk_sets L)
  qed
  have pre: "mapAddr z (addr z p) = ret p" "chunk_size (zmap z) p = ret n" "push_bit (log2BS z) n = ?bs"
    using mapAddr_addr [OF Z(1), of p] pos chunk_head_size(2) [OF chunk_ok_head [OF ch(2)]] Z(1)
    by (simp_all add: zone_shape_def push_bit_eq_mult)
  have step: "deallocate z (addr z p) b =
    (if combineOnDeallocation z2 \<or> nfree z < n then bindR (combine z2 (Chunk_at (addr z p))) (\<lambda>(_, _, z3). ret z3) else ret z2)"
    using pre c(1) z2(1) by (simp add: deallocate_def Let_def)
  show ?thesis
  proof (cases "combineOnDeallocation z2 \<or> nfree z < n")
    case False
    then show ?thesis using step ok2 used f(2,3) s2 by auto
  next
    case True
    have "?l (list_of z2 n) = [] @ Chunk_at (addr z2 p) # l (list_of z n)" by (simp add: shape2)
    from combine_ok [OF ok2 _ L(2) this] obtain A' F G B' X z' l' where
      r: "A = A' @ F" "B = G @ B'" "all_free F" "all_free G"
      "combine z2 (Chunk_at (addr z2 p)) = ret (hd (filter (\<lambda>y. y \<notin> X) (l (list_of z n)) @ [list_of z2 n]), extent F + n + extent G, z')"
      "zone_ok z' (A' @ (extent F + n + extent G, False) # B') l'"
      "z' = z2\<lparr> zmap := zmap z', lists := lists z', lastCombine := lastCombine z' \<rparr>" by auto
    have "used_chunks (A' @ (extent F + n + extent G, False) # B') = used_chunks ?L"
      using r(1-4) by (auto simp: chunk_sets all_free_sets algebra_simps)
    moreover have "bytesUsed z' = bytesUsed z2" "ifrag z' = ifrag z2" by (subst r(7), simp)+
    moreover have "deallocate z (addr z p) b = ret z'" using step True r(5) by (simp add: shape2)
    moreover have "same_shape z2 z'" by (subst r(7)) (simp add: same_shape_def)
    ultimately show ?thesis using r(6) used f(2,3) same_shape_trans [OF s2]
      by (intro exI [of _ z'] exI [of _ "A' @ (extent F + n + extent G, False) # B'"] exI [of _ l']) simp
  qed
qed

end
