(* ===== verification/ZoneHistory.thy ===== *)
theory ZoneHistory
  imports ZoneAlloc
begin

text \<open>
  A new zone is well-formed and empty, and every history of allocations and deallocations from there
  keeps the blocks it has handed out apart (\<^verbatim>\<open>vm/code/ZoneHeap.cpp\<close>).
\<close>

section \<open>Construction\<close>

declare log2_loop.simps [simp del] small_fit.simps [simp del]

lemma clear_lists_fields:
  "next_of (clear_lists n r) x = (case x of List_head i \<Rightarrow> if i < n then x else next_of r x | _ \<Rightarrow> next_of r x)"
  "prev_of (clear_lists n r) x = (case x of List_head i \<Rightarrow> if i < n then x else prev_of r x | _ \<Rightarrow> prev_of r x)"
  by (induction n) (auto simp: clear_lists_def list_clear_def node_initialize_def split: node.splits)

lemma linked_clear: "linked (list_clear Big_list (clear_lists 30 r)) (\<lambda>_. [])"
  by (auto simp: linked_def is_anchor_def list_clear_def node_initialize_def clear_lists_fields split: node.splits)

lemma zone_clear_ok:
  assumes "zone_shape z" and "nfree z = 30" and "length (zmap z) = nat (mapSize z + 2)"
  shows "\<exists>z' l. zone_clear z = ret z' \<and> zone_ok z' [(mapSize z, False)] l \<and> same_shape z z' \<and> bytesUsed z' = 0 \<and> ifrag z' = 0"
proof -
  let ?n = "mapSize z" and ?m0 = "zmap z"
  have n: "1 \<le> ?n" "?n < 2 ^ 21" "int (length ?m0) = ?n + 2" using assms by (simp_all add: zone_shape_def)
  obtain c1 where c1: "markSize ?m0 1 ?n False = ret c1" "length c1 = length ?m0" "chunk_ok c1 1 ?n False"
    using markSize_ret [of 1 ?n ?m0 False] n by auto
  obtain c2 where c2: "markSize c1 (1 + ?n) 1 True = ret c2" "length c2 = length ?m0" "chunk_ok c2 (1 + ?n) 1 True"
    "\<And>q. 0 \<le> q \<Longrightarrow> q < ?n + 2 \<Longrightarrow> \<not> (1 + ?n \<le> q \<and> q < 1 + ?n + 1) \<Longrightarrow> at c2 q = at c1 q"
    using markSize_ret [of "1 + ?n" 1 c1 True] n c1(2) by auto
  obtain c3 where c3: "markSize c2 0 1 True = ret c3" "length c3 = length ?m0" "chunk_ok c3 0 1 True"
    "\<And>q. 0 \<le> q \<Longrightarrow> q < ?n + 2 \<Longrightarrow> \<not> (0 \<le> q \<and> q < 0 + 1) \<Longrightarrow> at c3 q = at c2 q"
    using markSize_ret [of 0 1 c2 True] n c2(2) by auto
  have k1: "chunk_ok c3 1 ?n False"
    using chunk_ok_frame [of 1 ?n c3 c1 False] c1 c2(2,4) c3(2,4) by simp
  have k2: "chunk_ok c3 (1 + ?n) 1 True"
    using chunk_ok_frame [of "1 + ?n" 1 c3 c2 True] c2(2,3) c3(2,4) n by simp
  let ?r = "list_clear Big_list (clear_lists 30 (lists z))"
  let ?z = "z\<lparr> bytesUsed := 0, total_bytes := 0, ifrag := 0, lists := ?r, zmap := c3 \<rparr>"
  have s: "same_shape z ?z" by (simp add: same_shape_def)
  note shape = same_shape_eqs [OF s]
  have "lists_ok ?z {} (\<lambda>_. [])" using linked_clear by (simp add: lists_ok_def nodes_def)
  then have "\<exists>z'. addToFreeList ?z 1 = ret (nfree ?z < ?n, z') \<and> z' = ?z\<lparr> lists := lists z' \<rparr> \<and>
    lists_ok z' (insert (1, ?n) {}) ((\<lambda>_. [])(list_of ?z ?n := Chunk_at (addr ?z 1) # []))"
    using k1 n assms(2) addToFreeList_ret [of ?z 1 ?n "{}" "\<lambda>_. []"] by (simp add: shape heapKlass_def heapEnd_def)
  then obtain z1 l where z1: "addToFreeList ?z 1 = ret (nfree ?z < ?n, z1)" "z1 = ?z\<lparr> lists := lists z1 \<rparr>"
    "lists_ok z1 {(1, ?n)} l" by blast
  let ?v = "z1\<lparr> combineOnDeallocation := False, lastCombine := heapKlass \<rparr>"
  have f: "zmap z1 = c3" "bytesUsed z1 = 0" "ifrag z1 = 0" by (subst z1(2), simp)+
  have sv: "same_shape z ?v" by (subst z1(2)) (simp add: same_shape_def)
  note shape' = same_shape_eqs [OF sv]
  have "zone_clear z = ret ?v"
    unfolding zone_clear_def Let_def using c1(1) c2(1) c3(1) z1(1) assms(2)
    by (simp add: markUnused_def markUsed_def heapKlass_def heapEnd_def mapSize_def)
  moreover have "zone_ok ?v [(?n, False)] l"
  proof -
    have "map_ok ?v [(?n, False)]"
      unfolding map_ok_def shape' using k1 k2 c3(2,3) assms(3) n by (simp add: f heapEnd_def heapKlass_def)
    moreover have "free_chunks [(?n, False)] = {(1, ?n)}" by (simp add: chunk_sets heapKlass_def)
    then have "lists_ok ?v (free_chunks [(?n, False)]) l"
      using z1(3) lists_ok_cong [of z1 ?v] by (simp add: same_shape_def)
    moreover have "(lastCombine ?v, ?n, False) \<in> set (spans heapKlass [(?n, False)])" by simp
    ultimately show ?thesis using assms(1) f unfolding zone_ok_def shape' by (intro conjI exI) (assumption | simp)+
  qed
  ultimately show ?thesis using sv f by (intro exI [of _ ?v] exI [of _ l]) simp
qed

lemma log2_loop_power: "log2_loop (2 ^ k) j = j + k"
proof (induction k arbitrary: j)
  case (Suc k)
  have "drop_bit 1 (2 ^ Suc k) = (2 ^ k :: int)" by (simp add: drop_bit_eq_div)
  moreover have "(1::int) < 2 ^ Suc k" by (rule one_less_power) simp_all
  ultimately show ?case using Suc.IH [of "j + 1"] by (subst log2_loop.simps) simp
qed (simp add: log2_loop.simps)

lemma ZoneHeap_new_ok:
  assumes "bs = 2 ^ k" and "0 < N" and "N < 2 ^ 21" and "length m = nat (N + 2)"
  shows "\<exists>z l. ZoneHeap_new (N * bs) bs raw m r = ret z \<and> zone_ok z [(N, False)] l \<and> blockSize z = bs \<and> zsize z = N * bs \<and>
    raw \<le> zbase z \<and> zbase z + zsize z < raw + N * bs + bs \<and> bytesUsed z = 0 \<and> ifrag z = 0"
proof -
  let ?b = "(raw + bs - 1) div bs * bs"
  have pos: "0 < bs" using assms(1) by simp
  let ?z = "\<lparr> zsize = N * bs, blockSize = bs, nfree = 30, log2BS = log2_loop bs 0, bytesUsed = 0, total_bytes = 0,
       ifrag = 0, zbase = ?b, zmap = m, lists = r, lastCombine = heapKlass, combineOnDeallocation = False \<rparr>"
  have lg: "log2_loop bs 0 = k" using log2_loop_power [of k 0] assms(1) by simp
  have "bs AND (bs - 1) = take_bit k bs" using assms(1) by (simp add: take_bit_eq_mask mask_eq_exp_minus_1)
  also have "\<dots> = 0" by (simp add: assms(1) take_bit_eq_mod)
  finally have a: "bs AND (bs - 1) = 0" .
  have "drop_bit k (N * 2 ^ k) = N" by (simp add: drop_bit_eq_div)
  then have ms: "mapSize ?z = N" unfolding mapSize_def by (simp add: lg flip: assms(1))
  have shape: "zone_shape ?z"
    unfolding zone_shape_def ms using assms(2,3) by (simp add: lg flip: assms(1))
  have "\<exists>z' l. zone_clear ?z = ret z' \<and> zone_ok z' [(mapSize ?z, False)] l \<and> same_shape ?z z' \<and> bytesUsed z' = 0 \<and> ifrag z' = 0"
    by (rule zone_clear_ok [OF shape]) (simp_all add: ms assms(4))
  then obtain z' l where z': "zone_clear ?z = ret z'" "zone_ok z' [(N, False)] l" "same_shape ?z z'" "bytesUsed z' = 0" "ifrag z' = 0"
    unfolding ms by blast
  have "?b + (raw + bs - 1) mod bs = raw + bs - 1" by simp
  moreover have "0 \<le> (raw + bs - 1) mod bs" "(raw + bs - 1) mod bs < bs" using pos by simp_all
  ultimately have "raw \<le> ?b" "?b < raw + bs" by linarith+
  moreover have "ZoneHeap_new (N * bs) bs raw m r = ret z'"
    using a z'(1) by (simp add: ZoneHeap_new_def)
  ultimately show ?thesis using z'(2-5) by (intro exI [of _ z'] exI [of _ l]) (simp add: same_shape_def)
qed

section \<open>Histories of a zone\<close>

text \<open>
  What a client can do with a zone: create it, allocate, and deallocate what it got. The set holds the
  blocks handed out and not returned, as (address, bytes asked for).
\<close>

inductive zone_history :: "zone \<Rightarrow> (int \<times> int) set \<Rightarrow> bool" where
  created: "bs = 2 ^ k \<Longrightarrow> 0 < N \<Longrightarrow> N < 2 ^ 21 \<Longrightarrow> length m = nat (N + 2) \<Longrightarrow>
    ZoneHeap_new (N * bs) bs raw m r = ret z \<Longrightarrow> zone_history z {}"
| got: "zone_history z U \<Longrightarrow> allocate z n = ret (Some a, z') \<Longrightarrow> zone_history z' (insert (a, n) U)"
| refused: "zone_history z U \<Longrightarrow> allocate z n = ret (None, z') \<Longrightarrow> zone_history z' U"
| returned: "zone_history z U \<Longrightarrow> (a, n) \<in> U \<Longrightarrow> deallocate z a n = ret z' \<Longrightarrow> zone_history z' (U - {(a, n)})"

definition blocks_of :: "zone \<Rightarrow> int \<Rightarrow> int" where
  "blocks_of z n = (n + blockSize z - 1) div blockSize z"

definition place_of :: "zone \<Rightarrow> int \<Rightarrow> int" where
  "place_of z a = heapKlass + drop_bit (log2BS z) (a - zbase z)"

definition live :: "zone \<Rightarrow> (int \<times> int) set \<Rightarrow> bool" where
  "live z U \<longleftrightarrow> finite U \<and> inj_on fst U \<and> (\<forall>(a, n)\<in>U. addr z (place_of z a) = a \<and> 0 < n) \<and>
     ifrag z = bytesUsed z - (\<Sum>(a, n)\<in>U. n) \<and>
     (\<exists>L l. zone_ok z L l \<and> used_chunks L = (\<lambda>(a, n). (place_of z a, blocks_of z n)) ` U)"

lemma blocks_of_unique:
  assumes "0 < blockSize z" and "(w - 1) * blockSize z < n" and "n \<le> w * blockSize z"
  shows "blocks_of z n = w"
proof -
  define b m where "b = blockSize z" and "m = (w - 1) * blockSize z"
  have wm: "w * b = m + b" by (simp add: b_def m_def left_diff_distrib)
  then have "n + b - 1 = b * w + (n - 1 - m)" by (simp add: mult.commute)
  moreover have "0 \<le> n - 1 - m" using assms(2) by (simp add: m_def)
  moreover have "n - 1 - m < b" using assms(3) wm by (simp add: b_def)
  ultimately show ?thesis unfolding blocks_of_def b_def [symmetric] by (intro int_div_pos_eq)
qed

lemma place_of_addr: "place_of z (addr z p) = p"
  by (simp add: place_of_def addr_def drop_bit_push_bit)

lemma same_shape_places:
  "same_shape z z' \<Longrightarrow> place_of z' = place_of z \<and> blocks_of z' = blocks_of z \<and> addr z' = addr z"
  unfolding same_shape_def place_of_def [abs_def] blocks_of_def [abs_def] addr_def [abs_def] by simp

lemma positive_allocation: "allocate z n = ret r \<Longrightarrow> 0 < n"
  by (cases "0 < n") (simp_all add: allocate_def)

lemma live_history: "zone_history z U \<Longrightarrow> live z U"
proof (induction rule: zone_history.induct)
  case (created bs k N m raw r z)
  then obtain z' l where "ZoneHeap_new (N * bs) bs raw m r = ret z'" "zone_ok z' [(N, False)] l" "bytesUsed z' = 0" "ifrag z' = 0"
    using ZoneHeap_new_ok [of bs k N m raw r] by blast
  then show ?case using created(5)
    by (auto simp: live_def chunk_sets intro!: exI [of _ "[(N, False)]"] exI [of _ l])
next
  case (got z U n a z')
  obtain L l where L: "zone_ok z L l" "used_chunks L = (\<lambda>(a, n). (place_of z a, blocks_of z n)) ` U"
    and U: "finite U" "inj_on fst U" "\<forall>(a, n)\<in>U. addr z (place_of z a) = a \<and> 0 < n" "ifrag z = bytesUsed z - (\<Sum>(a, n)\<in>U. n)"
    using got.IH by (auto simp: live_def)
  have n: "0 < n" using positive_allocation [OF got.hyps(2)] .
  obtain L' l' p w where a: "zone_ok z' L' l'" "same_shape z z'" "a = addr z p" "(w - 1) * blockSize z < n" "n \<le> w * blockSize z"
    "used_chunks L' = insert (p, w) (used_chunks L)" "\<forall>(q, k)\<in>used_chunks L. p + w \<le> q \<or> q + k \<le> p"
    "bytesUsed z' = bytesUsed z + w * blockSize z" "ifrag z' = ifrag z + (w * blockSize z - n)"
    using allocate_ok [OF L(1) n] got.hyps(2) by auto
  note S = same_shape_places [OF a(2)]
  have b: "0 < blockSize z" using zone_okD(1) [OF L(1)] by (simp add: zone_shape_def)
  have w: "blocks_of z n = w" using blocks_of_unique [OF b a(4,5)] .
  have "1 \<le> w"
  proof (rule ccontr)
    assume "\<not> 1 \<le> w"
    then have "w * blockSize z \<le> 0" using b by (simp add: mult_nonpos_nonneg)
    then show False using a(5) n by simp
  qed
  moreover have "1 \<le> k" if "(p, k) \<in> used_chunks L" for k
    using chunks_spans [OF zone_okD(3) [OF L(1)], of p k True] that by (auto simp: used_chunks_def)
  ultimately have "(p, k) \<notin> used_chunks L" for k using a(7) by fastforce
  then have fresh: "a \<notin> fst ` U" unfolding L(2) using a(3) by (force simp: place_of_addr image_iff)
  then have "(\<Sum>(a, n)\<in>insert (a, n) U. n) = n + (\<Sum>(a, n)\<in>U. n)" using U(1) by (subst sum.insert) force+
  then show ?case
    using a U fresh n L(2) w unfolding live_def by (intro conjI exI [of _ L'] exI [of _ l']) (auto simp: S place_of_addr)
next
  case (refused z U n z')
  obtain L l where L: "zone_ok z L l" "used_chunks L = (\<lambda>(a, n). (place_of z a, blocks_of z n)) ` U"
    and U: "finite U" "inj_on fst U" "\<forall>(a, n)\<in>U. addr z (place_of z a) = a \<and> 0 < n" "ifrag z = bytesUsed z - (\<Sum>(a, n)\<in>U. n)"
    using refused.IH by (auto simp: live_def)
  have n: "0 < n" using positive_allocation [OF refused.hyps(2)] .
  obtain L' l' where a: "zone_ok z' L' l'" "same_shape z z'" "used_chunks L' = used_chunks L" "bytesUsed z' = bytesUsed z" "ifrag z' = ifrag z"
    using allocate_ok [OF L(1) n] refused.hyps(2) by auto
  note S = same_shape_places [OF a(2)]
  show ?case using a U L(2) unfolding live_def by (intro conjI exI [of _ L'] exI [of _ l']) (simp_all add: S)
next
  case (returned z U a n z')
  obtain L l where L: "zone_ok z L l" "used_chunks L = (\<lambda>(a, n). (place_of z a, blocks_of z n)) ` U"
    and U: "finite U" "inj_on fst U" "\<forall>(a, n)\<in>U. addr z (place_of z a) = a \<and> 0 < n" "ifrag z = bytesUsed z - (\<Sum>(a, n)\<in>U. n)"
    using returned.IH by (auto simp: live_def)
  let ?f = "\<lambda>(a, n). (place_of z a, blocks_of z n)"
  have a: "addr z (place_of z a) = a" "(place_of z a, blocks_of z n) \<in> used_chunks L"
    using U(3) returned.hyps(2) by (auto simp: L(2))
  obtain L' l' where r: "zone_ok z' L' l'" "used_chunks L' = used_chunks L - {(place_of z a, blocks_of z n)}" "same_shape z z'"
    "bytesUsed z' = bytesUsed z - blocks_of z n * blockSize z" "ifrag z' = ifrag z - (blocks_of z n * blockSize z - n)"
    using deallocate_ok [OF L(1) a(2), of n] returned.hyps(3) unfolding a(1) by auto
  note S = same_shape_places [OF r(3)]
  have inj: "inj_on ?f U"
  proof (rule inj_onI)
    fix x y assume xy: "x \<in> U" "y \<in> U" "?f x = ?f y"
    have inv: "addr z (place_of z (fst v)) = fst v" if "v \<in> U" for v using U(3) that by (cases v) auto
    have "place_of z (fst x) = place_of z (fst y)" using xy(3) by (cases x; cases y) simp
    then have "addr z (place_of z (fst x)) = addr z (place_of z (fst y))" by (simp only:)
    then have "fst x = fst y" unfolding inv [OF xy(1)] inv [OF xy(2)] .
    then show "x = y" using U(2) xy(1,2) by (simp add: inj_onD)
  qed
  have "?f ` (U - {(a, n)}) = ?f ` U - ?f ` {(a, n)}"
    by (rule inj_on_image_set_diff [OF inj]) (use returned.hyps(2) in auto)
  then have "used_chunks L' = ?f ` (U - {(a, n)})" using r(2) by (simp add: L(2))
  moreover have "(\<Sum>(a, n)\<in>U. n) = n + (\<Sum>(a, n)\<in>U - {(a, n)}. n)" using U(1) returned.hyps(2) by (subst sum.remove) auto
  moreover have "inj_on fst (U - {(a, n)})" using U(2) by (rule inj_on_subset) blast
  ultimately show ?case using r U(1,3,4) unfolding live_def
    by (intro conjI exI [of _ L'] exI [of _ l']) (auto simp: S)
qed


definition blank_rings :: rings where
  "blank_rings = \<lparr> next_of = \<lambda>x. x, prev_of = \<lambda>x. x, size_of = \<lambda>_. 0 \<rparr>"

lemma new_zone_witness:
  "\<exists>z l. ZoneHeap_new 256 64 1000 (replicate 6 0) blank_rings = ret z \<and> zone_ok z [(4, False)] l"
  using ZoneHeap_new_ok [of 64 6 4 "replicate 6 0" 1000 blank_rings] by auto




end
