(* ===== verification/LookupKeys.thy ===== *)
theory LookupKeys
  imports Oops
begin

text \<open>
  The keys of the code table and of the lookup cache
  (\<^verbatim>\<open>vm/lookup/LookupKey\<close>): a class together with a selector, for a normal send, or with a
  method, for a super send or a block. What a key reads of the objects it names, which the
  object memory provides, is the record \<open>objects\<close>; the identity hash of an object is
  assigned once and stays the same (\<open>hash_markOop_stable\<close> of \<open>Oops\<close>), so it is a function
  of the object here.
\<close>

record lookup_key =
  key_klass :: oop
  selector_or_method :: oop

record objects =
  identity_hash :: "oop \<Rightarrow> 32 word"
  is_klass :: "oop \<Rightarrow> bool"
  isSymbol :: "oop \<Rightarrow> bool"
  is_method :: "oop \<Rightarrow> bool"
  is_blockMethod :: "oop \<Rightarrow> bool"
  method_selector :: "oop \<Rightarrow> oop"
  klass_lookup :: "oop \<Rightarrow> oop \<Rightarrow> oop"
  superKlass :: "oop \<Rightarrow> oop"

definition LookupKey :: "oop \<Rightarrow> oop \<Rightarrow> lookup_key" where
  "LookupKey k s = \<lparr>key_klass = k, selector_or_method = s\<rparr>"

definition key_clear :: "lookup_key \<Rightarrow> lookup_key" where
  "key_clear key = key\<lparr>key_klass := 0, selector_or_method := 0\<rparr>"

definition no_key :: lookup_key where
  "no_key = key_clear (LookupKey 0 0)"

definition key_initialize :: "oop \<Rightarrow> oop \<Rightarrow> lookup_key \<Rightarrow> lookup_key" where
  "key_initialize k s key = key\<lparr>key_klass := k, selector_or_method := s\<rparr>"

definition key_equal :: "lookup_key \<Rightarrow> lookup_key \<Rightarrow> bool" where
  "key_equal key p \<longleftrightarrow>
     key_klass key = key_klass p \<and> selector_or_method key = selector_or_method p"

definition key_hash :: "('a objects_scheme) \<Rightarrow> lookup_key \<Rightarrow> 32 word" where
  "key_hash ob key =
     identity_hash ob (key_klass key) XOR identity_hash ob (selector_or_method key)"

definition is_super_type :: "('a objects_scheme) \<Rightarrow> lookup_key \<Rightarrow> bool" where
  "is_super_type ob key \<longleftrightarrow>
     is_method ob (selector_or_method key) \<and> \<not> is_blockMethod ob (selector_or_method key)"

definition is_normal_type :: "('a objects_scheme) \<Rightarrow> lookup_key \<Rightarrow> bool" where
  "is_normal_type ob key \<longleftrightarrow> \<not> is_method ob (selector_or_method key)"

definition is_block_type :: "('a objects_scheme) \<Rightarrow> lookup_key \<Rightarrow> bool" where
  "is_block_type ob key \<longleftrightarrow>
     is_method ob (selector_or_method key) \<and> is_blockMethod ob (selector_or_method key)"

definition key_method :: "('a objects_scheme) \<Rightarrow> lookup_key \<Rightarrow> oop run" where
  "key_method ob key = bindR (guard (is_method ob (selector_or_method key)) ''Wrong lookup type'')
     (\<lambda>_. ret (selector_or_method key))"

definition key_selector :: "('a objects_scheme) \<Rightarrow> lookup_key \<Rightarrow> oop run" where
  "key_selector ob key =
     (if is_normal_type ob key then ret (selector_or_method key)
      else bindR (key_method ob key) (\<lambda>m. ret (method_selector ob m)))"

definition key_verify :: "('a objects_scheme) \<Rightarrow> lookup_key \<Rightarrow> bool" where
  "key_verify ob key = (let
     flag = True;
     flag = (if \<not> is_klass ob (key_klass key) then False else flag);
     flag = (if \<not> isSymbol ob (selector_or_method key) \<and> \<not> is_method ob (selector_or_method key)
             then False else flag)
     in flag)"

definition switch_pointer :: "oop \<Rightarrow> oop \<Rightarrow> oop \<Rightarrow> oop" where
  "switch_pointer from to p = (if p = from then to else p)"

definition key_switch_pointers :: "oop \<Rightarrow> oop \<Rightarrow> lookup_key \<Rightarrow> lookup_key" where
  "key_switch_pointers from to key =
     key\<lparr>key_klass := switch_pointer from to (key_klass key),
         selector_or_method := switch_pointer from to (selector_or_method key)\<rparr>"

definition key_oops_do :: "(oop \<Rightarrow> oop) \<Rightarrow> lookup_key \<Rightarrow> lookup_key" where
  "key_oops_do f key =
     (let key = key\<lparr>key_klass := f (key_klass key)\<rparr>
      in key\<lparr>selector_or_method := f (selector_or_method key)\<rparr>)"

definition oop_relocate :: "oop \<Rightarrow> oop" where
  "oop_relocate p = p"

definition key_relocate :: "lookup_key \<Rightarrow> lookup_key" where
  "key_relocate key =
     key\<lparr>key_klass := oop_relocate (key_klass key),
         selector_or_method := oop_relocate (selector_or_method key)\<rparr>"

section \<open>Properties of keys\<close>

lemma key_relocate_id [simp]: "key_relocate key = key"
  by (simp add: key_relocate_def oop_relocate_def)

lemma key_equal_iff [simp]: "key_equal key p \<longleftrightarrow> key = p"
  by (auto simp: key_equal_def)

lemma no_key_fields [simp]: "key_klass no_key = 0" "selector_or_method no_key = 0"
  by (simp_all add: no_key_def key_clear_def)

lemma LookupKey_fields [simp]:
  "key_klass (LookupKey k s) = k" "selector_or_method (LookupKey k s) = s"
  by (simp_all add: LookupKey_def)

lemma LookupKey_eta [simp]: "LookupKey (key_klass key) (selector_or_method key) = key"
  by (simp add: LookupKey_def)

lemma LookupKey_inject [simp]: "LookupKey k s = LookupKey k' s' \<longleftrightarrow> k = k' \<and> s = s'"
  by (simp add: LookupKey_def)

lemma key_verify_iff:
  "key_verify ob key \<longleftrightarrow> is_klass ob (key_klass key) \<and>
     (isSymbol ob (selector_or_method key) \<or> is_method ob (selector_or_method key))"
  by (auto simp: key_verify_def)

text \<open>Every key has exactly one of the three types, and its selector is always defined.\<close>

lemma key_type_exclusive:
  "is_normal_type ob key \<longleftrightarrow> \<not> is_super_type ob key \<and> \<not> is_block_type ob key"
  "\<not> (is_super_type ob key \<and> is_block_type ob key)"
  by (auto simp: is_normal_type_def is_super_type_def is_block_type_def)

lemma key_selector_returns:
  "key_selector ob key = ret (if is_normal_type ob key then selector_or_method key
                               else method_selector ob (selector_or_method key))"
  by (simp add: key_selector_def key_method_def is_normal_type_def)

text \<open>A switch of pointers and a walk over the oops of a key are the same map on its fields.\<close>

lemma key_switch_is_oops_do: "key_switch_pointers from to = key_oops_do (switch_pointer from to)"
  by (auto simp: key_switch_pointers_def key_oops_do_def Let_def)

end
