(* ===== verification/Histories.thy ===== *)
theory Histories
  imports Prelude
begin

text \<open>
  Histories of operations on a component and their abstract counterpart. \<open>history step legal
  spec s m s' m'\<close> holds when some sequence of operations, each legal at its point, leads the
  component from \<open>s\<close> to \<open>s'\<close> while the specification goes from \<open>m\<close> to \<open>m'\<close>. The locale
  \<open>implements\<close> is the contract of an implementation: in related states a legal operation
  returns, and its result is related to that of the specification.
\<close>

inductive history ::
  "('o \<Rightarrow> 's \<Rightarrow> 's run) \<Rightarrow> ('o \<Rightarrow> 's \<Rightarrow> 'm \<Rightarrow> bool) \<Rightarrow> ('o \<Rightarrow> 'm \<Rightarrow> 'm) \<Rightarrow> 's \<Rightarrow> 'm \<Rightarrow> 's \<Rightarrow> 'm \<Rightarrow> bool"
  for step legal spec s m where
  history_start: "history step legal spec s m s m"
| history_step: "history step legal spec s m s1 m1 \<Longrightarrow> legal c s1 m1 \<Longrightarrow> step c s1 = ret s2 \<Longrightarrow>
    history step legal spec s m s2 (spec c m1)"

locale implements =
  fixes step :: "'o \<Rightarrow> 's \<Rightarrow> 's run"
    and legal :: "'o \<Rightarrow> 's \<Rightarrow> 'm \<Rightarrow> bool"
    and spec :: "'o \<Rightarrow> 'm \<Rightarrow> 'm"
    and abs :: "'s \<Rightarrow> 'm \<Rightarrow> bool"
  assumes step_ok: "abs s m \<Longrightarrow> legal c s m \<Longrightarrow> \<exists>s'. step c s = ret s' \<and> abs s' (spec c m)"
begin

lemma step_abs: "abs s m \<Longrightarrow> legal c s m \<Longrightarrow> step c s = ret s' \<Longrightarrow> abs s' (spec c m)"
  using step_ok [of s m c] by auto

lemma history_abs: "history step legal spec s m s' m' \<Longrightarrow> abs s m \<Longrightarrow> abs s' m'"
  by (induction rule: history.induct) (auto intro: step_abs)

lemma history_progress:
  "history step legal spec s m s' m' \<Longrightarrow> abs s m \<Longrightarrow> legal c s' m' \<Longrightarrow>
    \<exists>s''. step c s' = ret s'' \<and> history step legal spec s m s'' (spec c m')"
  using step_ok [OF history_abs] history_step by metis

end

end
