(* ===== verification/CodeTable.thy ===== *)
theory CodeTable
  imports LookupKeys Histories
begin

text \<open>
  The code table (\<^verbatim>\<open>vm/code/CodeTable\<close>): a hash table from keys to native methods. A bucket is
  one tagged word, 0 when empty, the address of a native method plus one, or the address of
  a chain of links in the C heap. The table of buckets and the C heap of links are one
  record; an access outside either is the fault \<open>Out_Of_Bounds\<close>. The two addresses that
  \<^verbatim>\<open>new_c_heap_array\<close> returns to an \<open>add\<close> are arguments of it.

  The abstract table is a map from keys to native methods. \<open>table_represents\<close> relates the two, the
  table implements the map in the sense of \<open>Histories\<close>, and
  \<open>code_table_represents_map\<close> says that after any history of operations every lookup gives
  what the map gives.
\<close>

section \<open>The table\<close>

record code_link =
  link_nativeMethod :: oop
  link_next :: "32 word"

type_synonym c_heap = "32 word \<Rightarrow> code_link option"

record code_table =
  tableSize :: "32 word"
  buckets :: "32 word list"
  links :: c_heap

definition codeTableSize :: "32 word" where
  "codeTableSize = 2048"

text \<open>The key stored in a native method (\<^verbatim>\<open>NativeMethod::_lookupKey\<close>).\<close>

record native_methods = objects +
  lookupKey_of :: "oop \<Rightarrow> lookup_key"

subsection \<open>Entries\<close>

definition entry_is_empty :: "32 word \<Rightarrow> bool" where
  "entry_is_empty e \<longleftrightarrow> e = 0"

definition entry_is_nativeMethod :: "32 word \<Rightarrow> bool" where
  "entry_is_nativeMethod e \<longleftrightarrow> e AND 1 \<noteq> 0"

definition entry_get_nativeMethod :: "32 word \<Rightarrow> oop" where
  "entry_get_nativeMethod e = e - 1"

definition entry_set_nativeMethod :: "oop \<Rightarrow> 32 word run" where
  "entry_set_nativeMethod nm =
     bindR (guard (unat nm mod 4 = 0) ''not word-aligned'') (\<lambda>_. ret (nm + 1))"

definition entry_get_link :: "32 word \<Rightarrow> 32 word" where
  "entry_get_link e = e"

definition entry_set_link :: "32 word \<Rightarrow> 32 word run" where
  "entry_set_link l = bindR (guard (unat l mod 4 = 0) ''not word-aligned'') (\<lambda>_. ret l)"

subsection \<open>Operations\<close>

definition bucket_index :: "code_table \<Rightarrow> 32 word \<Rightarrow> nat" where
  "bucket_index ct h = unat (h AND (tableSize ct - 1))"

definition bucketFor :: "code_table \<Rightarrow> 32 word \<Rightarrow> 32 word run" where
  "bucketFor ct h =
     (if bucket_index ct h < length (buckets ct) then ret (buckets ct ! bucket_index ct h)
      else raise Out_Of_Bounds)"

definition set_bucket :: "code_table \<Rightarrow> 32 word \<Rightarrow> 32 word \<Rightarrow> code_table" where
  "set_bucket ct h e = ct\<lparr>buckets := (buckets ct)[bucket_index ct h := e]\<rparr>"

definition deref :: "c_heap \<Rightarrow> 32 word \<Rightarrow> code_link run" where
  "deref lk p = (case lk p of None \<Rightarrow> raise Out_Of_Bounds | Some l \<Rightarrow> ret l)"

definition new_link :: "oop \<Rightarrow> 32 word \<Rightarrow> 32 word \<Rightarrow> c_heap \<Rightarrow> c_heap" where
  "new_link nm n a lk = lk(a \<mapsto> \<lparr>link_nativeMethod = nm, link_next = n\<rparr>)"

definition CodeTable_clear :: "code_table \<Rightarrow> code_table" where
  "CodeTable_clear ct =
     fold (\<lambda>i ct. ct\<lparr>buckets := (buckets ct)[i := 0]\<rparr>) [0..<unat (tableSize ct)] ct"

definition CodeTable_new :: "32 word \<Rightarrow> 32 word list \<Rightarrow> c_heap \<Rightarrow> code_table" where
  "CodeTable_new sz raw lk =
     CodeTable_clear \<lparr>tableSize = sz, buckets = take (unat sz) raw, links = lk\<rparr>"

partial_function (option) lookup_chain ::
  "native_methods \<Rightarrow> c_heap \<Rightarrow> 32 word \<Rightarrow> lookup_key \<Rightarrow> oop run" where
  "lookup_chain ob lk l L =
     (if l = 0 then ret 0
      else bindR (deref lk l) (\<lambda>c.
        if key_equal (lookupKey_of ob (link_nativeMethod c)) L then ret (link_nativeMethod c)
        else lookup_chain ob lk (link_next c) L))"

definition CodeTable_lookup ::
  "native_methods \<Rightarrow> code_table \<Rightarrow> lookup_key \<Rightarrow> oop run" where
  "CodeTable_lookup ob ct L =
     bindR (bucketFor ct (key_hash ob L)) (\<lambda>bucket.
       if entry_is_empty bucket then ret 0
       else if entry_is_nativeMethod bucket then
         (if key_equal (lookupKey_of ob (entry_get_nativeMethod bucket)) L
          then ret (entry_get_nativeMethod bucket) else ret 0)
       else lookup_chain ob (links ct) (entry_get_link bucket) L)"

definition bucket_add ::
  "oop \<Rightarrow> 32 word \<Rightarrow> 32 word \<Rightarrow> code_table \<Rightarrow> 32 word \<Rightarrow> 32 word \<Rightarrow> code_table run" where
  "bucket_add nm a b ct h bucket =
     (if entry_is_empty bucket then
        bindR (entry_set_nativeMethod nm) (\<lambda>e. ret (set_bucket ct h e))
      else if entry_is_nativeMethod bucket then
        (let lk = new_link (entry_get_nativeMethod bucket) 0 a (links ct);
             lk = new_link nm a b lk
         in bindR (entry_set_link b) (\<lambda>e. ret (set_bucket (ct\<lparr>links := lk\<rparr>) h e)))
      else
        (let lk = new_link nm (entry_get_link bucket) a (links ct)
         in bindR (entry_set_link a) (\<lambda>e. ret (set_bucket (ct\<lparr>links := lk\<rparr>) h e))))"

definition CodeTable_add ::
  "native_methods \<Rightarrow> oop \<Rightarrow> 32 word \<Rightarrow> 32 word \<Rightarrow> code_table \<Rightarrow> code_table run" where
  "CodeTable_add ob nm a b ct =
     bindR (CodeTable_lookup ob ct (lookupKey_of ob nm)) (\<lambda>old.
       if old \<noteq> 0 then raise (Fatal ''adding duplicate key to code table'')
       else let h = key_hash ob (lookupKey_of ob nm) in
         bindR (bucketFor ct h) (bucket_add nm a b ct h))"

definition CodeTable_addIfAbsent ::
  "native_methods \<Rightarrow> oop \<Rightarrow> 32 word \<Rightarrow> 32 word \<Rightarrow> code_table \<Rightarrow> code_table run" where
  "CodeTable_addIfAbsent ob nm a b ct =
     bindR (CodeTable_lookup ob ct (lookupKey_of ob nm)) (\<lambda>old.
       if old = 0 then CodeTable_add ob nm a b ct else ret ct)"

definition CodeTable_is_present ::
  "native_methods \<Rightarrow> oop \<Rightarrow> code_table \<Rightarrow> bool run" where
  "CodeTable_is_present ob nm ct =
     bindR (CodeTable_lookup ob ct (lookupKey_of ob nm)) (\<lambda>found. ret (found = nm))"

partial_function (option) remove_after :: "oop \<Rightarrow> c_heap \<Rightarrow> 32 word \<Rightarrow> c_heap run" where
  "remove_after nm lk current =
     bindR (deref lk current) (\<lambda>c.
       if link_next c = 0 then raise (Fatal ''trying to remove NativeMethod that is not present'')
       else bindR (deref lk (link_next c)) (\<lambda>d.
         if link_nativeMethod d = nm
         then ret (lk(current \<mapsto> c\<lparr>link_next := link_next d\<rparr>, link_next c := None))
         else remove_after nm lk (link_next c)))"

definition bucket_remove :: "oop \<Rightarrow> code_table \<Rightarrow> 32 word \<Rightarrow> 32 word \<Rightarrow> code_table run" where
  "bucket_remove nm ct h bucket =
     (if entry_is_empty bucket
      then raise (Fatal ''trying to remove NativeMethod that is not present'')
      else if entry_is_nativeMethod bucket then ret (set_bucket ct h 0)
      else bindR (deref (links ct) (entry_get_link bucket)) (\<lambda>c.
        if link_nativeMethod c = nm then
          bindR (entry_set_link (link_next c)) (\<lambda>e.
            ret (set_bucket (ct\<lparr>links := (links ct)(entry_get_link bucket := None)\<rparr>) h e))
        else bindR (remove_after nm (links ct) (entry_get_link bucket)) (\<lambda>lk.
          ret (ct\<lparr>links := lk\<rparr>))))"

definition CodeTable_remove :: "native_methods \<Rightarrow> oop \<Rightarrow> code_table \<Rightarrow> code_table run" where
  "CodeTable_remove ob nm ct =
     (let h = key_hash ob (lookupKey_of ob nm)
      in bindR (bucketFor ct h) (bucket_remove nm ct h))"

section \<open>Chains of links\<close>

definition nm_at :: "c_heap \<Rightarrow> 32 word \<Rightarrow> oop" where
  "nm_at lk p = link_nativeMethod (the (lk p))"

fun link_chain :: "c_heap \<Rightarrow> 32 word \<Rightarrow> 32 word list \<Rightarrow> bool" where
  "link_chain lk p [] \<longleftrightarrow> p = 0"
| "link_chain lk p (a # as) \<longleftrightarrow> p = a \<and> p \<noteq> 0 \<and> unat p mod 4 = 0 \<and> lk p \<noteq> None \<and>
     link_chain lk (link_next (the (lk p))) as"

lemma chain_ConsE:
  assumes "link_chain lk p (a # as)"
  obtains c where "a = p" "p \<noteq> 0" "unat p mod 4 = 0" "lk p = Some c" "link_chain lk (link_next c) as"
proof -
  obtain c where "lk p = Some c" using assms by auto
  then show thesis by (intro that [of c]) (use assms in auto)
qed

lemma link_chain_cong: "(\<And>a. a \<in> set ps \<Longrightarrow> lk' a = lk a) \<Longrightarrow> link_chain lk' p ps = link_chain lk p ps"
  by (induction ps arbitrary: p) auto

lemma chain_dom: "link_chain lk p ps \<Longrightarrow> set ps \<subseteq> dom lk"
  by (induction ps arbitrary: p) auto

lemma link_chain_aligned: "link_chain lk p ps \<Longrightarrow> unat p mod 4 = 0"
  by (cases ps) auto

lemma lookup_chain_ok:
  "link_chain lk p ps \<Longrightarrow> lookup_chain ob lk p L =
     ret (case find (\<lambda>nm. lookupKey_of ob nm = L) (map (nm_at lk) ps) of None \<Rightarrow> 0 | Some nm \<Rightarrow> nm)"
proof (induction ps arbitrary: p)
  case Nil
  then show ?case by (subst lookup_chain.simps) simp
next
  case (Cons a as)
  obtain c where c: "p \<noteq> 0" "lk p = Some c" "link_chain lk (link_next c) as" "a = p"
    using Cons.prems by (rule chain_ConsE)
  then have n: "nm_at lk a = link_nativeMethod c" by (simp add: nm_at_def)
  show ?case
    by (subst lookup_chain.simps) (simp add: deref_def c(1,2) n Cons.IH [OF c(3)])
qed

text \<open>Unlinking from a chain: the rest of the chain stays, the freed link leaves the heap.\<close>

lemma remove_after_ok:
  assumes "link_chain lk p ps" "distinct ps" "nm \<in> set (map (nm_at lk) (tl ps))" "ps \<noteq> []"
    and "distinct (map (nm_at lk) ps)"
  shows "\<exists>lk' ps'. remove_after nm lk p = ret lk' \<and> link_chain lk' p ps' \<and> ps' \<noteq> [] \<and> hd ps' = p \<and>
    distinct ps' \<and> set ps' \<subseteq> set ps \<and>
    map (nm_at lk') ps' = hd (map (nm_at lk) ps) # filter (\<lambda>n. n \<noteq> nm) (tl (map (nm_at lk) ps)) \<and>
    (\<forall>a. a \<notin> set ps \<longrightarrow> lk' a = lk a)"
  using assms
proof (induction ps arbitrary: p)
  case Nil
  then show ?case by simp
next
  case (Cons a as)
  then obtain b bs where as: "as = b # bs" by (cases as) auto
  obtain c where c: "a = p" "p \<noteq> 0" "unat p mod 4 = 0" "lk p = Some c" "link_chain lk (link_next c) as"
    using Cons.prems(1) by (rule chain_ConsE)
  obtain d where d: "b = link_next c" "link_next c \<noteq> 0" "unat (link_next c) mod 4 = 0"
    "lk (link_next c) = Some d" "link_chain lk (link_next d) bs"
    using c(5) unfolding as by (rule chain_ConsE)
  note cd = c(4) d(4) [folded d(1)] c(1) d(1) [symmetric] d(2) [folded d(1)] d(5) c(2,3)
  have neq: "p \<noteq> b" "p \<notin> set bs" "b \<notin> set bs" using Cons.prems(2) as cd(3) by auto
  show ?case
  proof (cases "nm_at lk b = nm")
    case True
    define lk' where "lk' = lk(p \<mapsto> c\<lparr>link_next := link_next d\<rparr>, b := None)"
    have r: "remove_after nm lk p = ret lk'"
      using True cd by (subst remove_after.simps) (simp add: deref_def nm_at_def lk'_def)
    have keep: "lk' x = lk x" if "x \<in> set bs \<or> x \<notin> set (a # as)" for x
      using that neq cd(3) as by (auto simp: lk'_def)
    have p: "lk' p = Some (c\<lparr>link_next := link_next d\<rparr>)" using neq by (simp add: lk'_def)
    have "link_chain lk' (link_next d) bs \<longleftrightarrow> link_chain lk (link_next d) bs"
      by (rule link_chain_cong, rule keep) simp
    then have ch: "link_chain lk' p (p # bs)" using cd(6-8) p by simp
    have "map (nm_at lk') bs = map (nm_at lk) bs" using keep by (simp add: nm_at_def)
    moreover have "nm \<notin> set (map (nm_at lk) bs)"
      using Cons.prems(5) unfolding as True [symmetric] by simp
    then have "filter (\<lambda>n. n \<noteq> nm) (map (nm_at lk) bs) = map (nm_at lk) bs"
      by (intro filter_True) auto
    moreover have "nm_at lk' p = nm_at lk p" using cd(1) p by (simp add: nm_at_def)
    ultimately have m: "map (nm_at lk') (p # bs) =
        hd (map (nm_at lk) (a # as)) # filter (\<lambda>n. n \<noteq> nm) (tl (map (nm_at lk) (a # as)))"
      unfolding as cd(3) using True by simp
    have "\<forall>x. x \<notin> set (a # as) \<longrightarrow> lk' x = lk x" using keep by blast
    moreover have "distinct (p # bs)" "set (p # bs) \<subseteq> set (a # as)" "p # bs \<noteq> []" "hd (p # bs) = p"
      using Cons.prems(2) neq unfolding as cd(3) by auto
    ultimately show ?thesis using r ch m
      by (intro exI [of _ lk'] exI [of _ "p # bs"] conjI)
  next
    case False
    have prem: "link_chain lk b as" using c(5) d(1) by simp
    have prems: "distinct as" "nm \<in> set (map (nm_at lk) (tl as))" "as \<noteq> []" "distinct (map (nm_at lk) as)"
      using Cons.prems(2,3,5) as False by auto
    from Cons.IH [OF prem prems] obtain lk' ps' where IH: "remove_after nm lk b = ret lk'" "link_chain lk' b ps'" "ps' \<noteq> []"
      "hd ps' = b" "distinct ps'" "set ps' \<subseteq> set as"
      "map (nm_at lk') ps' = hd (map (nm_at lk) as) # filter (\<lambda>n. n \<noteq> nm) (tl (map (nm_at lk) as))"
      "\<forall>a. a \<notin> set as \<longrightarrow> lk' a = lk a"
      by (elim exE conjE)
    have r: "remove_after nm lk p = ret lk'"
      using False cd IH(1) by (subst remove_after.simps) (simp add: deref_def nm_at_def)
    have p: "lk' p = lk p" using IH(8) as neq by auto
    then have "nm_at lk' p = nm_at lk p" by (simp add: nm_at_def)
    then have m: "map (nm_at lk') (p # ps') =
        hd (map (nm_at lk) (a # as)) # filter (\<lambda>n. n \<noteq> nm) (tl (map (nm_at lk) (a # as)))"
      using IH(7) False unfolding as cd(3) by simp
    have ch: "link_chain lk' p (p # ps')" using IH(2) cd(1,4,7,8) p by simp
    have pn: "p \<notin> set ps'" using IH(6) neq unfolding as by auto
    have "\<forall>x. x \<notin> set (a # as) \<longrightarrow> lk' x = lk x" using IH(8) by simp
    moreover have "distinct (p # ps')" "set (p # ps') \<subseteq> set (a # as)" "p # ps' \<noteq> []" "hd (p # ps') = p"
      using IH(5,6) pn unfolding cd(3) by auto
    ultimately show ?thesis using r ch m
      by (intro exI [of _ lk'] exI [of _ "p # ps'"] conjI)
  qed
qed

section \<open>Buckets\<close>

text \<open>The native methods \<open>xs\<close> and the links \<open>ps\<close> of the bucket with contents \<open>e\<close>.\<close>

definition bucket_holds :: "c_heap \<Rightarrow> 32 word \<Rightarrow> 32 word list \<Rightarrow> oop list \<Rightarrow> bool" where
  "bucket_holds lk e ps xs \<longleftrightarrow>
     xs = [] \<and> ps = [] \<and> e = 0 \<or>
     (\<exists>nm. xs = [nm] \<and> ps = [] \<and> e = nm + 1 \<and> unat nm mod 4 = 0) \<or>
     ps \<noteq> [] \<and> link_chain lk e ps \<and> distinct ps \<and> xs = map (nm_at lk) ps"

lemma bucket_holds_cases [consumes 1, case_names empty single chain]:
  assumes "bucket_holds lk e ps xs"
  obtains "xs = []" "ps = []" "e = 0"
  | nm where "xs = [nm]" "ps = []" "e = nm + 1" "unat nm mod 4 = 0"
  | "ps \<noteq> []" "link_chain lk e ps" "distinct ps" "xs = map (nm_at lk) ps"
  using assms that unfolding bucket_holds_def by (elim disjE exE conjE) simp_all

lemma bucket_holds_intros [simp, intro]:
  "bucket_holds lk 0 [] []"
  "unat nm mod 4 = 0 \<Longrightarrow> bucket_holds lk (nm + 1) [] [nm]"
  unfolding bucket_holds_def by auto

lemma bucket_holds_chain: "link_chain lk e ps \<Longrightarrow> distinct ps \<Longrightarrow> bucket_holds lk e ps (map (nm_at lk) ps)"
  unfolding bucket_holds_def by (cases ps) auto

lemma bucket_holds_cong:
  assumes "\<And>a. a \<in> set ps \<Longrightarrow> lk' a = lk a"
  shows "bucket_holds lk' e ps xs = bucket_holds lk e ps xs"
proof -
  have m: "map (nm_at lk') ps = map (nm_at lk) ps" using assms by (auto simp: nm_at_def)
  have "link_chain lk' e ps = link_chain lk e ps" using assms by (rule link_chain_cong)
  then show ?thesis unfolding bucket_holds_def m by simp
qed

lemma bucket_holds_dom: "bucket_holds lk e ps xs \<Longrightarrow> set ps \<subseteq> dom lk"
  by (cases lk e ps xs rule: bucket_holds_cases) (simp_all add: chain_dom)

lemma even_word_iff_unat: "even (w :: 32 word) \<longleftrightarrow> even (unat w)"
  by transfer (simp add: even_nat_iff take_bit_int_eq_self_iff even_take_bit_eq)

lemma aligned_low_bit: "unat (w :: 32 word) mod 4 = 0 \<Longrightarrow> w AND 1 = 0"
proof -
  assume a: "unat w mod 4 = 0"
  have "even (unat w)" using a by presburger
  then have "even w" by (simp add: even_word_iff_unat)
  then show ?thesis by (simp add: and_one_eq even_iff_mod_2_eq_zero)
qed

lemma aligned_succ_tag:
  assumes "unat (w :: 32 word) mod 4 = 0"
  shows "(w + 1) AND 1 \<noteq> 0" "w + 1 \<noteq> 0"
proof -
  have "even (unat w)" using assms by presburger
  then have "even w" by (simp add: even_word_iff_unat)
  then have "odd (w + 1)" by simp
  then have "(w + 1) mod 2 = 1" unfolding odd_iff_mod_2_eq_one .
  then show *: "(w + 1) AND 1 \<noteq> 0" by (simp only: and_one_eq) simp
  then show "w + 1 \<noteq> 0" by auto
qed

lemma entry_cases:
  "unat w mod 4 = 0 \<Longrightarrow> \<not> entry_is_empty (w + 1) \<and> entry_is_nativeMethod (w + 1) \<and>
     entry_get_nativeMethod (w + 1) = w"
  "unat w mod 4 = 0 \<Longrightarrow> \<not> entry_is_nativeMethod w"
  using aligned_succ_tag [of w] aligned_low_bit [of w]
  by (simp_all add: entry_is_empty_def entry_is_nativeMethod_def entry_get_nativeMethod_def)
section \<open>The table as a map\<close>

text \<open>
  \<open>P i\<close> and \<open>X i\<close> are the links and the native methods of bucket \<open>i\<close>. No two buckets share a
  link, every native method stands in the bucket of its key, and no two have one key.
\<close>

definition table_ok ::
  "native_methods \<Rightarrow> code_table \<Rightarrow> (nat \<Rightarrow> 32 word list) \<Rightarrow> (nat \<Rightarrow> oop list) \<Rightarrow> bool" where
  "table_ok ob ct P X \<longleftrightarrow>
     tableSize ct \<noteq> 0 \<and> length (buckets ct) = unat (tableSize ct) \<and>
     (\<forall>i < length (buckets ct). bucket_holds (links ct) (buckets ct ! i) (P i) (X i)) \<and>
     (\<forall>i < length (buckets ct). \<forall>j < length (buckets ct). i \<noteq> j \<longrightarrow> set (P i) \<inter> set (P j) = {}) \<and>
     (\<forall>i < length (buckets ct). distinct (map (lookupKey_of ob) (X i)) \<and>
       (\<forall>nm \<in> set (X i). nm \<noteq> 0 \<and> unat nm mod 4 = 0 \<and>
         bucket_index ct (key_hash ob (lookupKey_of ob nm)) = i))"

definition map_of_buckets ::
  "native_methods \<Rightarrow> code_table \<Rightarrow> (nat \<Rightarrow> oop list) \<Rightarrow> lookup_key \<Rightarrow> oop option" where
  "map_of_buckets ob ct X L =
     find (\<lambda>nm. lookupKey_of ob nm = L) (X (bucket_index ct (key_hash ob L)))"

definition table_represents :: "native_methods \<Rightarrow> code_table \<Rightarrow> (lookup_key \<Rightarrow> oop option) \<Rightarrow> bool" where
  "table_represents ob ct m \<longleftrightarrow> (\<exists>P X. table_ok ob ct P X \<and> m = map_of_buckets ob ct X)"

lemma bucket_index_less: "tableSize ct \<noteq> 0 \<Longrightarrow> bucket_index ct h < unat (tableSize ct)"
proof -
  assume "tableSize ct \<noteq> 0"
  then have "unat (tableSize ct - 1) < unat (tableSize ct)"
    by (simp add: unat_minus_one unat_gt_0)
  moreover have "h AND (tableSize ct - 1) \<le> tableSize ct - 1" by (rule word_and_le1)
  ultimately show ?thesis unfolding bucket_index_def word_le_nat_alt by linarith
qed

lemma bucket_index_cong: "tableSize ct' = tableSize ct \<Longrightarrow> bucket_index ct' h = bucket_index ct h"
  by (simp add: bucket_index_def)

lemma bucketFor_ok:
  "table_ok ob ct P X \<Longrightarrow> bucketFor ct h = ret (buckets ct ! bucket_index ct h)"
  using bucket_index_less by (simp add: bucketFor_def table_ok_def)

lemma bucket_ok:
  assumes "table_ok ob ct P X"
  shows "bucket_holds (links ct) (buckets ct ! bucket_index ct h)
    (P (bucket_index ct h)) (X (bucket_index ct h))"
  using assms bucket_index_less [of ct h] by (simp add: table_ok_def)

lemma lookup_ok:
  assumes "table_ok ob ct P X"
  shows "CodeTable_lookup ob ct L =
    ret (case map_of_buckets ob ct X L of None \<Rightarrow> 0 | Some nm \<Rightarrow> nm)"
  using bucket_ok [OF assms, of "key_hash ob L"]
proof (cases rule: bucket_holds_cases)
  case empty
  then show ?thesis
    by (simp add: CodeTable_lookup_def bucketFor_ok [OF assms] entry_is_empty_def map_of_buckets_def)
next
  case (single nm)
  then show ?thesis using entry_cases(1) [OF single(4)]
    by (simp add: CodeTable_lookup_def bucketFor_ok [OF assms] map_of_buckets_def)
next
  case chain
  then have "buckets ct ! bucket_index ct (key_hash ob L) \<noteq> 0"
    by (cases "P (bucket_index ct (key_hash ob L))") auto
  then show ?thesis using entry_cases(2) [OF link_chain_aligned [OF chain(2)]] lookup_chain_ok [OF chain(2)]
    by (simp add: CodeTable_lookup_def bucketFor_ok [OF assms] map_of_buckets_def entry_is_empty_def
        entry_get_link_def chain(4))
qed

lemma table_okD:
  assumes "table_ok ob ct P X"
  shows "i < length (buckets ct) \<Longrightarrow> bucket_holds (links ct) (buckets ct ! i) (P i) (X i)"
    and "i < length (buckets ct) \<Longrightarrow> j < length (buckets ct) \<Longrightarrow> i \<noteq> j \<Longrightarrow> set (P i) \<inter> set (P j) = {}"
    and "i < length (buckets ct) \<Longrightarrow> distinct (map (lookupKey_of ob) (X i))"
    and "i < length (buckets ct) \<Longrightarrow> nm \<in> set (X i) \<Longrightarrow> nm \<noteq> 0 \<and> unat nm mod 4 = 0 \<and>
      bucket_index ct (key_hash ob (lookupKey_of ob nm)) = i"
  using assms unfolding table_ok_def by simp_all

text \<open>Replacing one bucket by links of its own or fresh ones.\<close>

lemma table_ok_update:
  assumes ok: "table_ok ob ct P X" and i: "i < length (buckets ct)"
    and holds: "bucket_holds lk e ps xs"
    and own: "set ps \<inter> (dom (links ct) - set (P i)) = {}"
    and frame: "\<And>a. a \<in> dom (links ct) \<Longrightarrow> a \<notin> set (P i) \<Longrightarrow> lk a = links ct a"
    and keys: "distinct (map (lookupKey_of ob) xs)"
    and mem: "\<And>nm. nm \<in> set xs \<Longrightarrow> nm \<noteq> 0 \<and> unat nm mod 4 = 0 \<and>
      bucket_index ct (key_hash ob (lookupKey_of ob nm)) = i"
  shows "table_ok ob (ct\<lparr>links := lk, buckets := (buckets ct)[i := e]\<rparr>) (P(i := ps)) (X(i := xs))"
proof -
  have dom: "set (P j) \<subseteq> dom (links ct)" if "j < length (buckets ct)" for j
    using table_okD(1) [OF ok that] by (rule bucket_holds_dom)
  have other: "set (P j) \<inter> set (P i) = {}" if "j < length (buckets ct)" "j \<noteq> i" for j
    using table_okD(2) [OF ok that(1) i that(2)] .
  have keep: "lk a = links ct a" if "j < length (buckets ct)" "j \<noteq> i" "a \<in> set (P j)" for a j
    using frame dom [OF that(1)] other [OF that(1,2)] that(3) by blast
  have h: "bucket_holds lk (buckets ct ! j) (P j) (X j)" if "j < length (buckets ct)" "j \<noteq> i" for j
  proof -
    have "bucket_holds (links ct) (buckets ct ! j) (P j) (X j)" using table_okD(1) [OF ok that(1)] .
    then show ?thesis using bucket_holds_cong [of "P j" lk "links ct"] keep [OF that] by simp
  qed
  have apart: "set ps \<inter> set (P j) = {}" if "j < length (buckets ct)" "j \<noteq> i" for j
    using own dom [OF that(1)] other [OF that] by blast
  let ?ct = "ct\<lparr>links := lk, buckets := (buckets ct)[i := e]\<rparr>"
  have idx: "bucket_index ?ct h = bucket_index ct h" for h by (simp add: bucket_index_def)
  have len: "length (buckets ?ct) = length (buckets ct)" by simp
  show ?thesis
    unfolding table_ok_def len idx
  proof (intro conjI allI impI)
    show "tableSize ?ct \<noteq> 0" "length (buckets ct) = unat (tableSize ?ct)"
      using ok by (simp_all add: table_ok_def)
  next
    fix j assume j: "j < length (buckets ct)"
    show "bucket_holds (links ?ct) (buckets ?ct ! j) ((P(i := ps)) j) ((X(i := xs)) j)"
      using holds h [OF j] i by (cases "j = i") simp_all
    have "distinct (map (lookupKey_of ob) (X j))" "\<forall>nm \<in> set (X j). nm \<noteq> 0 \<and> unat nm mod 4 = 0 \<and>
        bucket_index ct (key_hash ob (lookupKey_of ob nm)) = j"
      using table_okD(3,4) [OF ok j] by blast+
    then show "distinct (map (lookupKey_of ob) ((X(i := xs)) j))"
      "\<forall>nm \<in> set ((X(i := xs)) j). nm \<noteq> 0 \<and> unat nm mod 4 = 0 \<and>
        bucket_index ct (key_hash ob (lookupKey_of ob nm)) = j"
      using keys mem by (cases "j = i", simp_all only: fun_upd_apply if_True if_False refl)
        (simp_all add: ball_simps)
  next
    fix j k assume jk: "j < length (buckets ct)" "k < length (buckets ct)" "j \<noteq> k"
    have "set (P j) \<inter> set (P k) = {}" using table_okD(2) [OF ok jk] .
    then show "set ((P(i := ps)) j) \<inter> set ((P(i := ps)) k) = {}"
      using apart [OF jk(1)] apart [OF jk(2)] jk(3) by (auto simp only: fun_upd_apply split: if_splits)
  qed
qed
subsection \<open>The operations on the map\<close>

definition fresh_links :: "code_table \<Rightarrow> 32 word \<Rightarrow> 32 word \<Rightarrow> bool" where
  "fresh_links ct a b \<longleftrightarrow> a \<noteq> b \<and>
     a \<noteq> 0 \<and> unat a mod 4 = 0 \<and> links ct a = None \<and> b \<noteq> 0 \<and> unat b mod 4 = 0 \<and> links ct b = None"

lemma map_of_buckets_eq_None:
  assumes "map_of_buckets ob ct X L = None"
  shows "L \<notin> lookupKey_of ob ` set (X (bucket_index ct (key_hash ob L)))"
  using assms by (auto simp: map_of_buckets_def find_None_iff)

lemma map_of_buckets_cons:
  assumes "i = bucket_index ct (key_hash ob (lookupKey_of ob nm))"
  shows "map_of_buckets ob ct (X(i := nm # X i)) = (map_of_buckets ob ct X)(lookupKey_of ob nm \<mapsto> nm)"
  by (rule ext) (auto simp: map_of_buckets_def assms)

lemma find_SomeD: "find Q xs = Some x \<Longrightarrow> x \<in> set xs \<and> Q x"
  by (auto simp: find_Some_iff)

lemma find_filter_key:
  assumes "distinct (map f xs)" "x \<in> set xs"
  shows "find (\<lambda>y. f y = k) (filter (\<lambda>y. y \<noteq> x) xs) =
    (if k = f x then None else find (\<lambda>y. f y = k) xs)"
  using assms
proof (induction xs)
  case (Cons y ys)
  show ?case
  proof (cases "x = y")
    case True
    then have "x \<notin> set ys" "f x \<notin> f ` set ys" using Cons.prems(1) by auto
    then have "filter (\<lambda>y. y \<noteq> x) ys = ys" "find (\<lambda>y. f y = f x) ys = None"
      by (auto simp: filter_id_conv find_None_iff) (metis imageI)
    with True show ?thesis by simp
  next
    case False
    then show ?thesis using Cons by auto
  qed
qed simp

lemma map_of_buckets_filter:
  assumes "i = bucket_index ct (key_hash ob (lookupKey_of ob nm))"
    and "distinct (map (lookupKey_of ob) (X i))" "nm \<in> set (X i)"
  shows "map_of_buckets ob ct (X(i := filter (\<lambda>n. n \<noteq> nm) (X i))) =
    (map_of_buckets ob ct X)(lookupKey_of ob nm := None)"
  by (rule ext) (use assms in \<open>auto simp: map_of_buckets_def find_filter_key\<close>)

lemma map_of_buckets_update:
  "map_of_buckets ob (ct\<lparr>links := lk, buckets := bs\<rparr>) X = map_of_buckets ob ct X"
  by (rule ext) (simp add: map_of_buckets_def bucket_index_def)

lemma set_bucket_links:
  "set_bucket (ct\<lparr>links := lk\<rparr>) h e =
     ct\<lparr>links := lk, buckets := (buckets ct)[bucket_index ct h := e]\<rparr>"
  "set_bucket ct h e = ct\<lparr>links := links ct, buckets := (buckets ct)[bucket_index ct h := e]\<rparr>"
  by (simp_all add: set_bucket_def bucket_index_def)

lemma new_link_chain:
  assumes "link_chain lk e ps" "lk a = None" "a \<noteq> 0" "unat a mod 4 = 0"
  shows "link_chain (new_link nm e a lk) a (a # ps)" "map (nm_at (new_link nm e a lk)) ps = map (nm_at lk) ps"
    "nm_at (new_link nm e a lk) a = nm"
proof -
  have "a \<notin> set ps" using chain_dom [OF assms(1)] assms(2) by auto
  then have keep: "new_link nm e a lk x = lk x" if "x \<in> set ps" for x
    using that by (auto simp: new_link_def)
  have "link_chain (new_link nm e a lk) e ps = link_chain lk e ps" by (rule link_chain_cong, rule keep)
  then show "link_chain (new_link nm e a lk) a (a # ps)" using assms by (simp add: new_link_def)
  show "map (nm_at (new_link nm e a lk)) ps = map (nm_at lk) ps" using keep by (simp add: nm_at_def)
  show "nm_at (new_link nm e a lk) a = nm" by (simp add: nm_at_def new_link_def)
qed

text \<open>The three shapes a bucket takes when a native method is put in front.\<close>

lemma add_bucket:
  assumes "bucket_holds (links ct) e ps xs" "fresh_links ct a b" "unat nm mod 4 = 0"
    and nz: "\<And>x. x \<in> set xs \<Longrightarrow> unat x mod 4 = 0"
  shows "\<exists>lk e' ps'. bucket_holds lk e' ps' (nm # xs) \<and>
    set ps' \<subseteq> set ps \<union> {a, b} \<and> (\<forall>x. x \<noteq> a \<and> x \<noteq> b \<longrightarrow> lk x = links ct x) \<and>
    bucket_add nm a b ct h e = ret (ct\<lparr>links := lk, buckets := (buckets ct)[bucket_index ct h := e']\<rparr>)"
  using assms(1)
proof (cases rule: bucket_holds_cases)
  case empty
  then show ?thesis using assms(3)
    by (intro exI [of _ "links ct"] exI [of _ "nm + 1"] exI [of _ "[]"])
      (simp add: bucket_add_def entry_is_empty_def entry_set_nativeMethod_def set_bucket_links(2))
next
  case (single old)
  let ?lk = "new_link nm a b (new_link old 0 a (links ct))"
  have f: "links ct a = None" "a \<noteq> 0" "unat a mod 4 = 0" "links ct b = None" "b \<noteq> 0"
    "unat b mod 4 = 0" "a \<noteq> b" using assms(2) by (simp_all add: fresh_links_def)
  have "link_chain (links ct) 0 []" by simp
  note c1 = new_link_chain [OF this f(1-3), of old]
  have "new_link old 0 a (links ct) b = None" using f(4,7) by (simp add: new_link_def)
  note c2 = new_link_chain [OF c1(1) this f(5,6), of nm]
  have "bucket_holds ?lk b [b, a] (map (nm_at ?lk) [b, a])"
    using c2(1) f(7) by (intro bucket_holds_chain) auto
  moreover have "map (nm_at ?lk) [b, a] = [nm, old]" using c1(3) c2(2,3) by simp
  ultimately have "bucket_holds ?lk b [b, a] (nm # xs)" using single(1) by simp
  then show ?thesis using entry_cases(1) [OF single(4)] f single
    by (intro exI [of _ ?lk] exI [of _ b] exI [of _ "[b, a]"])
      (simp add: bucket_add_def entry_set_link_def set_bucket_links(1) new_link_def Let_def)
next
  case chain
  let ?lk = "new_link nm e a (links ct)"
  have f: "links ct a = None" "a \<noteq> 0" "unat a mod 4 = 0" using assms(2) by (simp_all add: fresh_links_def)
  note c = new_link_chain [OF chain(2) f, of nm]
  have new: "a \<notin> set ps" using chain_dom [OF chain(2)] f(1) by auto
  have "e \<noteq> 0" using chain(1,2) by (cases ps) auto
  have "bucket_holds ?lk a (a # ps) (map (nm_at ?lk) (a # ps))"
    using c(1) new chain(3) by (intro bucket_holds_chain) auto
  moreover have "map (nm_at ?lk) (a # ps) = nm # xs" using c(2,3) chain(4) by simp
  ultimately have "bucket_holds ?lk a (a # ps) (nm # xs)" by simp
  then show ?thesis using entry_cases(2) [OF link_chain_aligned [OF chain(2)]] f \<open>e \<noteq> 0\<close>
    by (intro exI [of _ ?lk] exI [of _ a] exI [of _ "a # ps"])
      (auto simp: bucket_add_def entry_set_link_def set_bucket_links(1) new_link_def Let_def
        entry_is_empty_def entry_get_link_def)
qed

lemma add_ok:
  assumes "table_represents ob ct m" "m (lookupKey_of ob nm) = None" "nm \<noteq> 0" "unat nm mod 4 = 0"
    and fresh: "fresh_links ct a b"
  shows "\<exists>ct'. CodeTable_add ob nm a b ct = ret ct' \<and> table_represents ob ct' (m(lookupKey_of ob nm \<mapsto> nm))"
proof -
  obtain P X where ok: "table_ok ob ct P X" and m: "m = map_of_buckets ob ct X"
    using assms(1) by (auto simp: table_represents_def)
  let ?h = "key_hash ob (lookupKey_of ob nm)"
  define i where "i = bucket_index ct ?h"
  have i: "i < length (buckets ct)"
    using ok bucket_index_less by (simp add: i_def table_ok_def)
  have al: "unat x mod 4 = 0" if "x \<in> set (X i)" for x using table_okD(4) [OF ok i that] by simp
  obtain lk e ps where new: "bucket_holds lk e ps (nm # X i)" "set ps \<subseteq> set (P i) \<union> {a, b}"
    "\<forall>x. x \<noteq> a \<and> x \<noteq> b \<longrightarrow> lk x = links ct x"
    and run: "CodeTable_add ob nm a b ct =
      ret (ct\<lparr>links := lk, buckets := (buckets ct)[i := e]\<rparr>)"
  proof -
    have "CodeTable_lookup ob ct (lookupKey_of ob nm) = ret 0"
      using lookup_ok [OF ok] assms(2) m by simp
    then have "CodeTable_add ob nm a b ct = bucket_add nm a b ct ?h (buckets ct ! i)"
      by (simp add: CodeTable_add_def bucketFor_ok [OF ok] i_def Let_def)
    moreover have "\<exists>lk e' ps'. bucket_holds lk e' ps' (nm # X i) \<and>
      set ps' \<subseteq> set (P i) \<union> {a, b} \<and> (\<forall>x. x \<noteq> a \<and> x \<noteq> b \<longrightarrow> lk x = links ct x) \<and>
      bucket_add nm a b ct ?h (buckets ct ! i) =
        ret (ct\<lparr>links := lk, buckets := (buckets ct)[bucket_index ct ?h := e']\<rparr>)"
      by (rule add_bucket [OF table_okD(1) [OF ok i] fresh assms(4) al])
    ultimately show ?thesis using that unfolding i_def [symmetric] by auto
  qed
  have "table_ok ob (ct\<lparr>links := lk, buckets := (buckets ct)[i := e]\<rparr>) (P(i := ps)) (X(i := nm # X i))"
  proof (rule table_ok_update [OF ok i new(1)])
    show "set ps \<inter> (dom (links ct) - set (P i)) = {}"
      using new(2) fresh by (auto simp: fresh_links_def)
    show "lk x = links ct x" if "x \<in> dom (links ct)" for x
    proof -
      have "x \<noteq> a" "x \<noteq> b" using that fresh by (auto simp: fresh_links_def)
      then show ?thesis using new(3) by simp
    qed
    show "distinct (map (lookupKey_of ob) (nm # X i))"
      using table_okD(3) [OF ok i] map_of_buckets_eq_None [of ob ct X "lookupKey_of ob nm"] assms(2) m
      by (simp add: i_def)
    show "x \<noteq> 0 \<and> unat x mod 4 = 0 \<and> bucket_index ct (key_hash ob (lookupKey_of ob x)) = i"
      if "x \<in> set (nm # X i)" for x
      using that table_okD(4) [OF ok i] assms(3,4) by (auto simp: i_def)
  qed
  then show ?thesis
    unfolding table_represents_def using run m map_of_buckets_cons [OF i_def, of X]
    by (intro exI [of _ "ct\<lparr>links := lk, buckets := (buckets ct)[i := e]\<rparr>"] conjI
        exI [of _ "P(i := ps)"] exI [of _ "X(i := nm # X i)"])
      (simp_all add: map_of_buckets_update)
qed

lemma add_duplicate:
  assumes "table_represents ob ct m" "m (lookupKey_of ob nm) = Some old"
  shows "CodeTable_add ob nm a b ct = raise (Fatal ''adding duplicate key to code table'')"
proof -
  obtain P X where ok: "table_ok ob ct P X" and m: "m = map_of_buckets ob ct X"
    using assms(1) by (auto simp: table_represents_def)
  let ?i = "bucket_index ct (key_hash ob (lookupKey_of ob nm))"
  have i: "?i < length (buckets ct)" using ok bucket_index_less by (simp add: table_ok_def)
  have "old \<in> set (X ?i)" using assms(2) find_SomeD unfolding m map_of_buckets_def by fast
  then have "old \<noteq> 0" using table_okD(4) [OF ok i] by simp
  then show ?thesis using lookup_ok [OF ok] assms(2) m by (simp add: CodeTable_add_def)
qed

lemma represents_lookup:
  assumes "table_represents ob ct m"
  shows "CodeTable_lookup ob ct L = ret (case m L of None \<Rightarrow> 0 | Some nm \<Rightarrow> nm)"
  using assms lookup_ok unfolding table_represents_def by blast

lemma represents_Some:
  assumes "table_represents ob ct m" "m L = Some nm"
  shows "nm \<noteq> 0" "unat nm mod 4 = 0" "lookupKey_of ob nm = L"
proof -
  obtain P X where ok: "table_ok ob ct P X" and m: "m = map_of_buckets ob ct X"
    using assms(1) by (auto simp: table_represents_def)
  let ?i = "bucket_index ct (key_hash ob L)"
  have i: "?i < length (buckets ct)" using ok bucket_index_less by (simp add: table_ok_def)
  have "nm \<in> set (X ?i) \<and> lookupKey_of ob nm = L"
    using assms(2) find_SomeD unfolding m map_of_buckets_def by fast
  then show "nm \<noteq> 0" "unat nm mod 4 = 0" "lookupKey_of ob nm = L"
    using table_okD(4) [OF ok i] by simp_all
qed

text \<open>Taking a native method out of its bucket.\<close>

lemma remove_bucket:
  assumes "bucket_holds (links ct) e ps xs" "nm \<in> set xs" "distinct xs"
    and al: "\<And>x. x \<in> set xs \<Longrightarrow> unat x mod 4 = 0"
    and h: "bucket_index ct h < length (buckets ct)" "e = buckets ct ! bucket_index ct h"
  shows "\<exists>lk e' ps'. bucket_holds lk e' ps' (filter (\<lambda>n. n \<noteq> nm) xs) \<and> set ps' \<subseteq> set ps \<and>
    (\<forall>x. x \<notin> set ps \<longrightarrow> lk x = links ct x) \<and>
    bucket_remove nm ct h e =
      ret (ct\<lparr>links := lk, buckets := (buckets ct)[bucket_index ct h := e']\<rparr>)"
  using assms(1)
proof (cases rule: bucket_holds_cases)
  case empty
  then show ?thesis using assms(2) by simp
next
  case (single old)
  then show ?thesis using assms(2) entry_cases(1) [OF single(4)]
    by (intro exI [of _ "links ct"] exI [of _ 0] exI [of _ "[]"])
      (simp add: bucket_remove_def set_bucket_links(2))
next
  case chain
  then obtain p as where ps: "ps = p # as" by (cases ps) auto
  obtain c where c: "p = e" "e \<noteq> 0" "links ct e = Some c" "link_chain (links ct) (link_next c) as"
    using chain(2) unfolding ps by (rule chain_ConsE) simp
  note e = entry_cases(2) [OF link_chain_aligned [OF chain(2)]]
  have xs: "xs = link_nativeMethod c # map (nm_at (links ct)) as"
    using chain(4) c by (simp add: ps nm_at_def)
  show ?thesis
  proof (cases "link_nativeMethod c = nm")
    case True
    let ?lk = "(links ct)(e := None)"
    have "p \<notin> set as" using chain(3) ps by simp
    then have keep: "?lk x = links ct x" if "x \<in> set as" for x using that c(1) by auto
    have ch: "link_chain ?lk (link_next c) as" using link_chain_cong [of as ?lk "links ct"] keep c(4) by simp
    have fl: "filter (\<lambda>n. n \<noteq> nm) xs = map (nm_at ?lk) as"
    proof -
      have "nm \<notin> set (map (nm_at (links ct)) as)" using assms(3) xs True by auto
      then have "filter (\<lambda>n. n \<noteq> nm) xs = map (nm_at (links ct)) as"
        using True unfolding xs by (simp add: filter_id_conv) (metis imageI)
      then show ?thesis using keep by (simp add: nm_at_def)
    qed
    have "bucket_holds ?lk (link_next c) as (filter (\<lambda>n. n \<noteq> nm) xs)"
      unfolding fl using ch chain(3) ps by (intro bucket_holds_chain) simp_all
    then show ?thesis
      using True e c link_chain_aligned [OF c(4)] ps
      by (intro exI [of _ ?lk] exI [of _ "link_next c"] exI [of _ as])
        (auto simp: bucket_remove_def entry_is_empty_def entry_get_link_def deref_def
          entry_set_link_def set_bucket_links(1))
  next
    case False
    have prems: "distinct ps" "nm \<in> set (map (nm_at (links ct)) (tl ps))" "ps \<noteq> []"
      "distinct (map (nm_at (links ct)) ps)"
      using chain assms(2,3) False xs ps by auto
    from remove_after_ok [OF chain(2) prems] obtain lk ps' where r:
      "remove_after nm (links ct) e = ret lk" "link_chain lk e ps'" "ps' \<noteq> []" "hd ps' = e"
      "distinct ps'" "set ps' \<subseteq> set ps"
      "map (nm_at lk) ps' = hd (map (nm_at (links ct)) ps) #
         filter (\<lambda>n. n \<noteq> nm) (tl (map (nm_at (links ct)) ps))"
      "\<forall>a. a \<notin> set ps \<longrightarrow> lk a = links ct a" by (elim exE conjE)
    have "map (nm_at lk) ps' = filter (\<lambda>n. n \<noteq> nm) xs"
      using r(7) chain(4) False xs ps by simp
    then have "bucket_holds lk e ps' (filter (\<lambda>n. n \<noteq> nm) xs)"
      using bucket_holds_chain [OF r(2,5)] by simp
    moreover have "(buckets ct)[bucket_index ct h := e] = buckets ct" using h by simp
    ultimately show ?thesis
      using False e c r(1,6,8)
      by (intro exI [of _ lk] exI [of _ e] exI [of _ ps'])
        (simp add: bucket_remove_def entry_is_empty_def entry_get_link_def deref_def)
  qed
qed

lemma remove_ok:
  assumes "table_represents ob ct m" "m (lookupKey_of ob nm) = Some nm"
  shows "\<exists>ct'. CodeTable_remove ob nm ct = ret ct' \<and> table_represents ob ct' (m(lookupKey_of ob nm := None))"
proof -
  obtain P X where ok: "table_ok ob ct P X" and m: "m = map_of_buckets ob ct X"
    using assms(1) by (auto simp: table_represents_def)
  let ?h = "key_hash ob (lookupKey_of ob nm)"
  define i where "i = bucket_index ct ?h"
  have i: "i < length (buckets ct)"
    using ok bucket_index_less by (simp add: i_def table_ok_def)
  have mem: "nm \<in> set (X i)"
    using assms(2) find_SomeD unfolding m map_of_buckets_def i_def by fast
  have al: "unat x mod 4 = 0" if "x \<in> set (X i)" for x using table_okD(4) [OF ok i that] by simp
  have dist: "distinct (X i)" using table_okD(3) [OF ok i] by (simp add: distinct_map)
  have "\<exists>lk e' ps'. bucket_holds lk e' ps' (filter (\<lambda>n. n \<noteq> nm) (X i)) \<and> set ps' \<subseteq> set (P i) \<and>
    (\<forall>x. x \<notin> set (P i) \<longrightarrow> lk x = links ct x) \<and> bucket_remove nm ct ?h (buckets ct ! i) =
      ret (ct\<lparr>links := lk, buckets := (buckets ct)[bucket_index ct ?h := e']\<rparr>)"
    by (rule remove_bucket [OF table_okD(1) [OF ok i] mem dist al]) (use i in \<open>simp_all add: i_def\<close>)
  then obtain lk e ps where new: "bucket_holds lk e ps (filter (\<lambda>n. n \<noteq> nm) (X i))" "set ps \<subseteq> set (P i)"
    "\<forall>x. x \<notin> set (P i) \<longrightarrow> lk x = links ct x"
    and run: "bucket_remove nm ct ?h (buckets ct ! i) =
      ret (ct\<lparr>links := lk, buckets := (buckets ct)[i := e]\<rparr>)" unfolding i_def by auto
  have "CodeTable_remove ob nm ct = ret (ct\<lparr>links := lk, buckets := (buckets ct)[i := e]\<rparr>)"
    using run by (simp add: CodeTable_remove_def bucketFor_ok [OF ok] i_def Let_def)
  moreover have "table_ok ob (ct\<lparr>links := lk, buckets := (buckets ct)[i := e]\<rparr>) (P(i := ps))
    (X(i := filter (\<lambda>n. n \<noteq> nm) (X i)))"
  proof (rule table_ok_update [OF ok i new(1)])
    show "set ps \<inter> (dom (links ct) - set (P i)) = {}" using new(2) by auto
    show "lk x = links ct x" if "x \<notin> set (P i)" for x using that new(3) by simp
    show "distinct (map (lookupKey_of ob) (filter (\<lambda>n. n \<noteq> nm) (X i)))"
      using table_okD(3) [OF ok i] by (rule distinct_map_filter)
    show "x \<noteq> 0 \<and> unat x mod 4 = 0 \<and> bucket_index ct (key_hash ob (lookupKey_of ob x)) = i"
      if "x \<in> set (filter (\<lambda>n. n \<noteq> nm) (X i))" for x
      using that table_okD(4) [OF ok i] by auto
  qed
  ultimately show ?thesis
    using m map_of_buckets_filter [where X = X, OF i_def table_okD(3) [OF ok i] mem]
    unfolding table_represents_def
    by (intro exI [of _ "ct\<lparr>links := lk, buckets := (buckets ct)[i := e]\<rparr>"] conjI
        exI [of _ "P(i := ps)"] exI [of _ "X(i := filter (\<lambda>n. n \<noteq> nm) (X i))"])
      (simp_all add: map_of_buckets_update)
qed

lemma clear_buckets: "n \<le> length (buckets ct) \<Longrightarrow>
  fold (\<lambda>i ct. ct\<lparr>buckets := (buckets ct)[i := 0]\<rparr>) [0..<n] ct =
    ct\<lparr>buckets := replicate n 0 @ drop n (buckets ct)\<rparr>"
proof (induction n)
  case (Suc n)
  then have "(replicate n 0 @ drop n (buckets ct))[n := 0] = replicate (Suc n) 0 @ drop (Suc n) (buckets ct)"
    by (simp add: list_update_append replicate_append_same [symmetric] Cons_nth_drop_Suc [symmetric])
  with Suc show ?case by simp
qed simp

lemma clear_ok:
  assumes "tableSize ct \<noteq> 0" "length (buckets ct) = unat (tableSize ct)"
  shows "table_represents ob (CodeTable_clear ct) Map.empty"
proof -
  have c: "CodeTable_clear ct = ct\<lparr>buckets := replicate (unat (tableSize ct)) 0\<rparr>"
    using assms(2) by (simp add: CodeTable_clear_def clear_buckets)
  have "table_ok ob (CodeTable_clear ct) (\<lambda>_. []) (\<lambda>_. [])"
    unfolding table_ok_def c using assms(1) by simp
  moreover have "Map.empty = map_of_buckets ob (CodeTable_clear ct) (\<lambda>_. [])"
    by (rule ext) (simp add: map_of_buckets_def)
  ultimately show ?thesis unfolding table_represents_def by blast
qed

lemma represents_clear: "table_represents ob ct m \<Longrightarrow> table_represents ob (CodeTable_clear ct) Map.empty"
  by (rule clear_ok) (auto simp: table_represents_def table_ok_def)

lemma new_ok: "sz \<noteq> 0 \<Longrightarrow> unat sz \<le> length raw \<Longrightarrow> table_represents ob (CodeTable_new sz raw lk) Map.empty"
  unfolding CodeTable_new_def by (rule clear_ok) simp_all

section \<open>Histories of the table\<close>

datatype table_op =
    Table_add oop "32 word" "32 word"
  | Table_addIfAbsent oop "32 word" "32 word"
  | Table_remove oop
  | Table_clear

fun table_step :: "native_methods \<Rightarrow> table_op \<Rightarrow> code_table \<Rightarrow> code_table run" where
  "table_step ob (Table_add nm a b) ct = CodeTable_add ob nm a b ct"
| "table_step ob (Table_addIfAbsent nm a b) ct = CodeTable_addIfAbsent ob nm a b ct"
| "table_step ob (Table_remove nm) ct = CodeTable_remove ob nm ct"
| "table_step ob Table_clear ct = ret (CodeTable_clear ct)"

fun table_legal :: "native_methods \<Rightarrow> table_op \<Rightarrow> code_table \<Rightarrow> (lookup_key \<Rightarrow> oop option) \<Rightarrow> bool" where
  "table_legal ob (Table_add nm a b) ct m \<longleftrightarrow>
     m (lookupKey_of ob nm) = None \<and> nm \<noteq> 0 \<and> unat nm mod 4 = 0 \<and> fresh_links ct a b"
| "table_legal ob (Table_addIfAbsent nm a b) ct m \<longleftrightarrow>
     nm \<noteq> 0 \<and> unat nm mod 4 = 0 \<and> fresh_links ct a b"
| "table_legal ob (Table_remove nm) ct m \<longleftrightarrow> m (lookupKey_of ob nm) = Some nm"
| "table_legal ob Table_clear ct m \<longleftrightarrow> True"

fun table_spec :: "native_methods \<Rightarrow> table_op \<Rightarrow> (lookup_key \<Rightarrow> oop option) \<Rightarrow> lookup_key \<Rightarrow> oop option" where
  "table_spec ob (Table_add nm a b) m = m(lookupKey_of ob nm \<mapsto> nm)"
| "table_spec ob (Table_addIfAbsent nm a b) m =
     (if m (lookupKey_of ob nm) = None then m(lookupKey_of ob nm \<mapsto> nm) else m)"
| "table_spec ob (Table_remove nm) m = m(lookupKey_of ob nm := None)"
| "table_spec ob Table_clear m = Map.empty"

lemma addIfAbsent_ok:
  assumes "table_represents ob ct m" "nm \<noteq> 0" "unat nm mod 4 = 0" "fresh_links ct a b"
  shows "\<exists>ct'. CodeTable_addIfAbsent ob nm a b ct = ret ct' \<and>
    table_represents ob ct' (if m (lookupKey_of ob nm) = None then m(lookupKey_of ob nm \<mapsto> nm) else m)"
proof (cases "m (lookupKey_of ob nm)")
  case None
  then show ?thesis using add_ok [OF assms(1) None assms(2-4)] represents_lookup [OF assms(1)]
    by (simp add: CodeTable_addIfAbsent_def)
next
  case (Some old)
  then show ?thesis using represents_Some [OF assms(1) Some] represents_lookup [OF assms(1)] assms(1)
    by (simp add: CodeTable_addIfAbsent_def)
qed

lemma is_present_ok:
  assumes "table_represents ob ct m" "nm \<noteq> 0"
  shows "CodeTable_is_present ob nm ct = ret (m (lookupKey_of ob nm) = Some nm)"
  using represents_lookup [OF assms(1), of "lookupKey_of ob nm"] assms(2)
  by (auto simp: CodeTable_is_present_def split: option.splits)

interpretation ct: implements "table_step ob" "table_legal ob" "table_spec ob" "table_represents ob" for ob
proof
  fix ct m c assume r: "table_represents ob ct m" and l: "table_legal ob c ct m"
  show "\<exists>ct'. table_step ob c ct = ret ct' \<and> table_represents ob ct' (table_spec ob c m)"
    using l by (cases c) (simp_all add: add_ok [OF r] addIfAbsent_ok [OF r] remove_ok [OF r]
        represents_clear [OF r])
qed


definition sample_methods :: native_methods where
  "sample_methods = \<lparr>identity_hash = (\<lambda>p. p), is_klass = (\<lambda>_. True), isSymbol = (\<lambda>_. True),
     is_method = (\<lambda>_. False), is_blockMethod = (\<lambda>_. False), method_selector = (\<lambda>_. 0),
     klass_lookup = (\<lambda>_ _. 0), superKlass = (\<lambda>_. 0), lookupKey_of = (\<lambda>nm. LookupKey nm 0)\<rparr>"

definition sample_table :: code_table where
  "sample_table = \<lparr>tableSize = 1, buckets = [32],
     links = Map.empty(32 \<mapsto> \<lparr>link_nativeMethod = 8, link_next = 0\<rparr>, 36 \<mapsto> \<lparr>link_nativeMethod = 16, link_next = 32\<rparr>,
       36 := None)\<rparr>"

lemma sample_history:
  "history (table_step sample_methods) (table_legal sample_methods) (table_spec sample_methods)
     (CodeTable_new 1 [77] Map.empty) Map.empty sample_table [LookupKey 8 0 \<mapsto> 8]"
proof -
  let ?ob = sample_methods
  let ?t1 = "\<lparr>tableSize = 1, buckets = [9], links = Map.empty\<rparr>"
  let ?t2 = "\<lparr>tableSize = 1, buckets = [36], links = [32 \<mapsto> \<lparr>link_nativeMethod = 8, link_next = 0\<rparr>,
    36 \<mapsto> \<lparr>link_nativeMethod = 16, link_next = 32\<rparr>]\<rparr>"
  note defs = sample_methods_def CodeTable_add_def CodeTable_lookup_def bucketFor_def bucket_index_def
    entry_is_empty_def entry_is_nativeMethod_def entry_get_nativeMethod_def entry_get_link_def
    bucket_add_def bucket_remove_def entry_set_nativeMethod_def entry_set_link_def set_bucket_def
    deref_def new_link_def CodeTable_remove_def CodeTable_new_def CodeTable_clear_def fresh_links_def
    key_hash_def sample_table_def Let_def
  let ?H = "history (table_step ?ob) (table_legal ?ob) (table_spec ?ob) (CodeTable_new 1 [77] Map.empty) Map.empty"
  have h1: "?H ?t1 (table_spec ?ob (Table_add 8 32 36) Map.empty)"
    by (rule history_step [OF history_start]) (simp_all add: defs)
  have h2: "?H ?t2 (table_spec ?ob (Table_add 16 32 36) (table_spec ?ob (Table_add 8 32 36) Map.empty))"
    by (rule history_step [OF h1]) (simp_all add: defs)
  have h3: "?H sample_table (table_spec ?ob (Table_remove 16)
      (table_spec ?ob (Table_add 16 32 36) (table_spec ?ob (Table_add 8 32 36) Map.empty)))"
    by (rule history_step [OF h2]) (simp_all add: defs)
  have "table_spec ?ob (Table_remove 16) (table_spec ?ob (Table_add 16 32 36)
    (table_spec ?ob (Table_add 8 32 36) Map.empty)) = [LookupKey 8 0 \<mapsto> 8]"
    by (rule ext) (simp add: sample_methods_def)
  with h3 show ?thesis by simp
qed


end
