(* ===== verification/JumpTable.thy ===== *)
theory JumpTable
  imports Oops Histories
begin

text \<open>
  The jump table (\<^verbatim>\<open>vm/code/JumpTable\<close>): entries of 8 bytes, each an instruction byte, a
  destination relative to the byte after it, and a state byte. The table is a block of such
  entries, the free ones linked from \<open>firstFree\<close> through their destinations; a native method
  with blocks owns a block of entries of its own that its entry in the table links to. The
  memory maps the address of an entry to its contents, and the address of the block that
  \<^verbatim>\<open>os::exec_memory\<close> returns to an allocation is an argument of it. An access outside the
  allocated entries is the fault \<open>Out_Of_Bounds\<close>.
\<close>

section \<open>Identifiers\<close>

record jump_id =
  id_major :: "16 word"
  id_minor :: "16 word"

definition max_id_value :: "16 word" where
  "max_id_value = ucast (nthMask 16)"

definition JumpTableID :: jump_id where
  "JumpTableID = \<lparr>id_major = max_id_value, id_minor = max_id_value\<rparr>"

definition JumpTableID_major :: "16 word \<Rightarrow> jump_id" where
  "JumpTableID_major m = \<lparr>id_major = m, id_minor = max_id_value\<rparr>"

definition JumpTableID_minor :: "16 word \<Rightarrow> 16 word \<Rightarrow> jump_id" where
  "JumpTableID_minor m n = \<lparr>id_major = m, id_minor = n\<rparr>"

definition has_minor :: "jump_id \<Rightarrow> bool" where
  "has_minor i \<longleftrightarrow> id_minor i \<noteq> max_id_value"

definition id_is_block :: "jump_id \<Rightarrow> bool" where
  "id_is_block i \<longleftrightarrow> id_minor i > 0"

definition id_is_valid :: "jump_id \<Rightarrow> bool" where
  "id_is_valid i \<longleftrightarrow> id_major i \<noteq> max_id_value"

definition id_sub :: "jump_id \<Rightarrow> 16 word \<Rightarrow> jump_id" where
  "id_sub i n = JumpTableID_minor (id_major i) n"

section \<open>Entries\<close>

record jump_entry =
  jump_instr :: "8 word"
  jump_field :: "32 word"
  jump_state :: "8 word"

type_synonym jump_memory = "32 word \<Rightarrow> jump_entry option"

definition halt_instruction :: "8 word" where "halt_instruction = 0xF4"
definition jump_instruction :: "8 word" where "jump_instruction = 0xE9"

definition nativeMethod_entry :: "8 word" where "nativeMethod_entry = 0"
definition block_closure_entry :: "8 word" where "block_closure_entry = 1"
definition link_entry :: "8 word" where "link_entry = 2"
definition unused_entry :: "8 word" where "unused_entry = 3"

definition jump_inst_size :: "32 word" where "jump_inst_size = 1 + 4"

definition state_addr :: "32 word \<Rightarrow> 32 word" where
  "state_addr this = this + jump_inst_size"

definition jump_entry_size :: "32 word" where
  "jump_entry_size = ((1 + jump_inst_size) + 3) AND NOT 3"

definition entry_at :: "jump_memory \<Rightarrow> 32 word \<Rightarrow> jump_entry run" where
  "entry_at mem a = (case mem a of None \<Rightarrow> raise Out_Of_Bounds | Some e \<Rightarrow> ret e)"

definition fill_entry :: "32 word \<Rightarrow> 8 word \<Rightarrow> 32 word \<Rightarrow> 8 word \<Rightarrow> jump_memory \<Rightarrow> jump_memory run" where
  "fill_entry this instr dest st mem =
     bindR (entry_at mem this) (\<lambda>_.
       bindR (guard (isSmallIntegerOop this) ''misaligned'') (\<lambda>_.
         ret (mem(this \<mapsto> \<lparr>jump_instr = instr, jump_field = dest, jump_state = st\<rparr>))))"

definition initialize_as_unused :: "32 word \<Rightarrow> 32 word \<Rightarrow> jump_memory \<Rightarrow> jump_memory run" where
  "initialize_as_unused this index = fill_entry this halt_instruction index unused_entry"

definition initialize_as_link :: "32 word \<Rightarrow> 32 word \<Rightarrow> jump_memory \<Rightarrow> jump_memory run" where
  "initialize_as_link this l = fill_entry this halt_instruction l link_entry"

definition initialize_NativeMethod_stub :: "32 word \<Rightarrow> 32 word \<Rightarrow> jump_memory \<Rightarrow> jump_memory run" where
  "initialize_NativeMethod_stub this dest =
     fill_entry this jump_instruction (dest - state_addr this) nativeMethod_entry"

text \<open>\<open>cbe\<close> is the address of the stub routine \<^verbatim>\<open>StubRoutines::compile_block_entry()\<close>.\<close>

definition initialize_block_closure_stub :: "32 word \<Rightarrow> 32 word \<Rightarrow> jump_memory \<Rightarrow> jump_memory run" where
  "initialize_block_closure_stub cbe this =
     fill_entry this jump_instruction (cbe - state_addr this) block_closure_entry"

definition is_NativeMethod_stub :: "jump_entry \<Rightarrow> bool" where
  "is_NativeMethod_stub e \<longleftrightarrow> jump_state e = nativeMethod_entry"

definition is_block_closure_stub :: "jump_entry \<Rightarrow> bool" where
  "is_block_closure_stub e \<longleftrightarrow> jump_state e = block_closure_entry"

definition is_link :: "jump_entry \<Rightarrow> bool" where
  "is_link e \<longleftrightarrow> jump_state e = link_entry"

definition entry_is_unused :: "jump_entry \<Rightarrow> bool" where
  "entry_is_unused e \<longleftrightarrow> jump_state e = unused_entry"

definition entry_link :: "jump_memory \<Rightarrow> 32 word \<Rightarrow> 32 word run" where
  "entry_link mem this = bindR (entry_at mem this) (\<lambda>e. ret (jump_field e))"

definition destination :: "jump_memory \<Rightarrow> 32 word \<Rightarrow> 32 word run" where
  "destination mem this = bindR (entry_at mem this) (\<lambda>e. ret (jump_field e + state_addr this))"

definition set_destination :: "32 word \<Rightarrow> 32 word \<Rightarrow> jump_memory \<Rightarrow> jump_memory run" where
  "set_destination this dest mem =
     bindR (entry_at mem this) (\<lambda>e. ret (mem(this \<mapsto> e\<lparr>jump_field := dest - state_addr this\<rparr>)))"

definition next_free :: "jump_memory \<Rightarrow> 32 word \<Rightarrow> 32 word run" where
  "next_free mem this = bindR (entry_at mem this) (\<lambda>e.
     bindR (guard (entry_is_unused e) ''must be a unused entry'') (\<lambda>_. ret (jump_field e)))"

text \<open>\<open>findnm\<close> is \<^verbatim>\<open>Universe::code->findNativeMethod\<close>.\<close>

definition entry_method :: "(32 word \<Rightarrow> oop) \<Rightarrow> jump_memory \<Rightarrow> 32 word \<Rightarrow> oop run" where
  "entry_method findnm mem this = bindR (entry_at mem this) (\<lambda>e.
     bindR (guard (is_NativeMethod_stub e) ''must be a nativeMethod_stub'') (\<lambda>_.
       bindR (destination mem this) (\<lambda>d. ret (findnm d))))"

definition block_has_nativeMethod :: "32 word \<Rightarrow> jump_memory \<Rightarrow> 32 word \<Rightarrow> bool run" where
  "block_has_nativeMethod cbe mem this = bindR (entry_at mem this) (\<lambda>e.
     bindR (guard (is_block_closure_stub e) ''must be a block_closure_stub'') (\<lambda>_.
       bindR (destination mem this) (\<lambda>d. ret (d \<noteq> cbe))))"

definition block_nativeMethod :: "32 word \<Rightarrow> (32 word \<Rightarrow> oop) \<Rightarrow> jump_memory \<Rightarrow> 32 word \<Rightarrow> oop run" where
  "block_nativeMethod cbe findnm mem this =
     bindR (block_has_nativeMethod cbe mem this) (\<lambda>b.
       if b then bindR (destination mem this) (\<lambda>d. ret (findnm d)) else ret 0)"

definition previous_stub :: "32 word \<Rightarrow> 32 word" where
  "previous_stub this = this - jump_entry_size"

definition next_stub :: "32 word \<Rightarrow> 32 word" where
  "next_stub this = this + jump_entry_size"

partial_function (option) parent_loop :: "jump_memory \<Rightarrow> 32 word \<Rightarrow> 32 word \<Rightarrow> (32 word \<times> 32 word) run" where
  "parent_loop mem result index =
     bindR (entry_at mem (previous_stub result)) (\<lambda>e.
       if is_block_closure_stub e then parent_loop mem (previous_stub result) (index + 1)
       else ret (previous_stub result, index + 1))"

definition parent_entry :: "jump_memory \<Rightarrow> 32 word \<Rightarrow> (32 word \<times> 32 word) run" where
  "parent_entry mem this = bindR (entry_at mem this) (\<lambda>e.
     bindR (guard (is_block_closure_stub e) ''must be a block_closure_stub'') (\<lambda>_.
       parent_loop mem this 0))"

definition parent_nativeMethod ::
  "(32 word \<Rightarrow> oop) \<Rightarrow> jump_memory \<Rightarrow> 32 word \<Rightarrow> (oop \<times> 32 word) run" where
  "parent_nativeMethod findnm mem this = bindR (parent_entry mem this) (\<lambda>(p, index).
     bindR (entry_method findnm mem p) (\<lambda>nm. ret (nm, index)))"

section \<open>The table\<close>

record jump_table =
  jt_memory :: jump_memory
  firstFree :: "32 word"
  jt_entries :: "32 word"
  jt_length :: "32 word"
  usedIDs :: "32 word"

definition jump_entry_for_at :: "32 word \<Rightarrow> 32 word \<Rightarrow> 32 word" where
  "jump_entry_for_at entries index = entries + index * jump_entry_size"

definition major_at :: "jump_table \<Rightarrow> 16 word \<Rightarrow> 32 word" where
  "major_at jt index = jump_entry_for_at (jt_entries jt) (ucast index)"

text \<open>The block of zeroed entries that \<^verbatim>\<open>os::exec_memory\<close> maps at \<open>block\<close>.\<close>

definition allocate_jump_entries :: "32 word \<Rightarrow> nat \<Rightarrow> jump_memory \<Rightarrow> jump_memory" where
  "allocate_jump_entries block sz mem =
     fold (\<lambda>i mem. mem(jump_entry_for_at block (of_nat i) \<mapsto>
       \<lparr>jump_instr = 0, jump_field = 0, jump_state = 0\<rparr>)) [0..<sz] mem"

fun for_each :: "(nat \<Rightarrow> jump_memory \<Rightarrow> jump_memory run) \<Rightarrow> nat list \<Rightarrow> jump_memory \<Rightarrow> jump_memory run" where
  "for_each body [] mem = ret mem"
| "for_each body (i # is) mem = bindR (body i mem) (for_each body is)"

definition JumpTable_init :: "jump_table \<Rightarrow> jump_table run" where
  "JumpTable_init jt = bindR
     (for_each (\<lambda>i. initialize_as_unused (major_at jt (of_nat i)) (of_nat i + 1))
       [0..<unat (jt_length jt)] (jt_memory jt)) (\<lambda>mem. ret (jt\<lparr>jt_memory := mem\<rparr>))"

definition JumpTable_new :: "32 word \<Rightarrow> 32 word \<Rightarrow> jump_memory \<Rightarrow> jump_table run" where
  "JumpTable_new sz block mem =
     bindR (guard (sz < 32 * 1024) ''must change code to handle >32K entries'') (\<lambda>_.
       JumpTable_init \<lparr>jt_memory = allocate_jump_entries block (unat sz) mem, firstFree = 0,
         jt_entries = block, jt_length = sz, usedIDs = 0\<rparr>)"

definition newID :: "jump_table \<Rightarrow> (32 word \<times> jump_table) run" where
  "newID jt = (let i = firstFree jt in
     if i \<ge> jt_length jt - 2 then raise (Fatal ''grow not implemented'')
     else bindR (next_free (jt_memory jt) (major_at jt (ucast (firstFree jt)))) (\<lambda>f.
       ret (i, jt\<lparr>firstFree := f, usedIDs := usedIDs jt + 1\<rparr>)))"

definition peekID :: "jump_table \<Rightarrow> 32 word" where
  "peekID jt = firstFree jt"

definition JumpTable_allocate ::
  "32 word \<Rightarrow> nat \<Rightarrow> 32 word \<Rightarrow> jump_table \<Rightarrow> (jump_id \<times> jump_table) run" where
  "JumpTable_allocate cbe n block jt =
     bindR (newID jt) (\<lambda>(i, jt).
       let entry = major_at jt (ucast i) in
       bindR (entry_at (jt_memory jt) entry) (\<lambda>e.
       bindR (guard (entry_is_unused e) ''cannot allocate used jump entry'') (\<lambda>_.
       if n = 1 then
         bindR (initialize_NativeMethod_stub entry 0 (jt_memory jt)) (\<lambda>mem.
           ret (JumpTableID_major (ucast i), jt\<lparr>jt_memory := mem\<rparr>))
       else
         bindR (initialize_NativeMethod_stub (jump_entry_for_at block 0) 0
             (allocate_jump_entries block n (jt_memory jt))) (\<lambda>mem.
         bindR (for_each (\<lambda>i. initialize_block_closure_stub cbe (jump_entry_for_at block (of_nat i)))
             [1..<n] mem) (\<lambda>mem.
         bindR (initialize_as_link entry block mem) (\<lambda>mem.
           ret (JumpTableID_minor (ucast i) 0, jt\<lparr>jt_memory := mem\<rparr>)))))))"

definition JumpTable_at :: "jump_table \<Rightarrow> jump_id \<Rightarrow> 32 word run" where
  "JumpTable_at jt i = bindR (guard (id_is_valid i) ''invalid ID'') (\<lambda>_.
     if \<not> has_minor i then ret (major_at jt (id_major i))
     else bindR (entry_link (jt_memory jt) (major_at jt (id_major i))) (\<lambda>l.
       ret (jump_entry_for_at l (ucast (id_minor i)))))"

text \<open>
  The memory that \<^verbatim>\<open>free\<close> is given: \<open>blocks\<close> says how many entries were mapped at an address.
\<close>

definition free_entries :: "32 word \<Rightarrow> nat \<Rightarrow> jump_memory \<Rightarrow> jump_memory" where
  "free_entries block sz mem =
     fold (\<lambda>i mem. mem(jump_entry_for_at block (of_nat i) := None)) [0..<sz] mem"

definition freeID :: "(32 word \<Rightarrow> nat) \<Rightarrow> 32 word \<Rightarrow> jump_table \<Rightarrow> jump_table run" where
  "freeID blocks index jt =
     bindR (guard (0 \<le> sint index \<and> index < jt_length jt \<and> index \<noteq> firstFree jt) ''invalid ID'') (\<lambda>_.
     bindR (entry_at (jt_memory jt) (major_at jt (ucast index))) (\<lambda>e.
     let mem = (if is_link e then free_entries (jump_field e) (blocks (jump_field e)) (jt_memory jt)
                else jt_memory jt)
     in bindR (initialize_as_unused (major_at jt (ucast index)) (firstFree jt) mem) (\<lambda>mem.
        let jt = jt\<lparr>jt_memory := mem, firstFree := index, usedIDs := usedIDs jt - 1\<rparr>
        in bindR (guard (0 \<le> sint (usedIDs jt)) ''freed too many IDs'') (\<lambda>_. ret jt))))"

section \<open>Addresses of entries\<close>

definition slot :: "32 word \<Rightarrow> nat \<Rightarrow> 32 word" where
  "slot b i = jump_entry_for_at b (of_nat i)"

definition fits :: "32 word \<Rightarrow> nat \<Rightarrow> bool" where
  "fits b n \<longleftrightarrow> unat b mod 8 = 0 \<and> unat b + 8 * n \<le> 2 ^ 32"

definition span :: "32 word \<Rightarrow> nat \<Rightarrow> 32 word set" where
  "span b n = slot b ` {..<n}"

lemma jump_entry_size_8: "jump_entry_size = 8"
  by (simp add: jump_entry_size_def jump_inst_size_def)

lemma slot_0: "slot b 0 = b"
  by (simp add: slot_def jump_entry_for_at_def)

lemma unat_slot: "fits b n \<Longrightarrow> i < n \<Longrightarrow> unat (slot b i) = unat b + 8 * i"
proof -
  assume a: "fits b n" "i < n"
  then have "8 * i < 2 ^ 32" "unat b + 8 * i < 2 ^ 32" by (auto simp: fits_def)
  then have "unat (of_nat i * 8 :: 32 word) = 8 * i"
    by (simp add: unat_word_ariths unat_of_nat)
  with \<open>unat b + 8 * i < 2 ^ 32\<close> show ?thesis
    by (simp add: slot_def jump_entry_for_at_def jump_entry_size_8 unat_word_ariths)
qed

lemma slot_inject: "fits b n \<Longrightarrow> i < n \<Longrightarrow> j < n \<Longrightarrow> slot b i = slot b j \<longleftrightarrow> i = j"
proof -
  assume a: "fits b n" "i < n" "j < n"
  have "i = j" if "slot b i = slot b j"
    using unat_slot [OF a(1,2)] unat_slot [OF a(1,3)] unfolding that by linarith
  then show ?thesis by blast
qed

lemma slot_in_span [simp, intro]: "i < n \<Longrightarrow> slot b i \<in> span b n"
  by (simp add: span_def)

lemma small_integer_aligned: "isSmallIntegerOop p \<longleftrightarrow> unat p mod 4 = 0"
proof -
  have "tag p = 0 \<longleftrightarrow> unat (take_bit 2 p) = 0" by (simp only: tag_take unsigned_eq_0_iff)
  also have "\<dots> \<longleftrightarrow> unat p mod 4 = 0" by (simp only: unsigned_take_bit_eq) (simp add: take_bit_eq_mod)
  finally show ?thesis by (simp add: isSmallIntegerOop_def INTEGER_TAG_def)
qed

lemma slot_aligned:
  assumes "fits b n" "i < n"
  shows "isSmallIntegerOop (slot b i)"
proof -
  have "unat b mod 8 = 0" using assms(1) by (simp add: fits_def)
  then have "(unat b + 8 * i) mod 4 = 0" by presburger
  then show ?thesis by (simp only: small_integer_aligned unat_slot [OF assms])
qed

lemma previous_slot: "previous_stub (slot b (Suc k)) = slot b k"
  by (simp add: previous_stub_def slot_def jump_entry_for_at_def jump_entry_size_8 algebra_simps)

lemma next_slot: "next_stub (slot b k) = slot b (Suc k)"
  by (simp add: next_stub_def slot_def jump_entry_for_at_def jump_entry_size_8 algebra_simps)

lemma major_slot:
  assumes "i < 2 ^ 15"
  shows "major_at jt (ucast (of_nat i :: 32 word)) = slot (jt_entries jt) i"
    "major_at jt (of_nat i) = slot (jt_entries jt) i"
proof -
  have "unat (of_nat i :: 16 word) = i" using assms by (simp add: unat_of_nat)
  then have *: "(ucast (of_nat i :: 16 word) :: 32 word) = of_nat i"
    using assms by (simp add: word_unat_eq_iff unat_of_nat unsigned_ucast_eq take_bit_nat_eq_self)
  have "(ucast (of_nat i :: 32 word) :: 16 word) = of_nat i" 
    using assms by (simp add: word_unat_eq_iff unat_of_nat unsigned_ucast_eq take_bit_nat_eq_self)
  with * show "major_at jt (ucast (of_nat i :: 32 word)) = slot (jt_entries jt) i"
    "major_at jt (of_nat i) = slot (jt_entries jt) i"
    by (simp_all add: major_at_def slot_def)
qed

section \<open>Entries and blocks\<close>

lemma destination_set:
  assumes "set_destination this dest mem = ret mem'"
  shows "destination mem' this = ret dest"
  using assms by (auto simp: set_destination_def destination_def entry_at_def bindR_eq_ret
      split: option.splits)

definition closure_block :: "jump_memory \<Rightarrow> 32 word \<Rightarrow> nat \<Rightarrow> bool" where
  "closure_block mem b n \<longleftrightarrow>
     (\<exists>e. mem (slot b 0) = Some e \<and> is_NativeMethod_stub e) \<and>
     (\<forall>k. 0 < k \<and> k < n \<longrightarrow> (\<exists>e. mem (slot b k) = Some e \<and> is_block_closure_stub e))"

lemma stub_states [simp]:
  "is_NativeMethod_stub e \<Longrightarrow> \<not> is_block_closure_stub e"
  "is_NativeMethod_stub e \<Longrightarrow> \<not> is_link e"
  "entry_is_unused e \<Longrightarrow> \<not> is_link e"
  by (auto simp: is_NativeMethod_stub_def is_block_closure_stub_def is_link_def entry_is_unused_def
      nativeMethod_entry_def block_closure_entry_def link_entry_def unused_entry_def)

lemma parent_loop_ok:
  assumes "closure_block mem b n" "k < n"
  shows "parent_loop mem (slot b (Suc k)) index = ret (slot b 0, index + of_nat (Suc k))"
  using assms
proof (induction k arbitrary: index)
  case 0
  then obtain e where "mem (slot b 0) = Some e" "is_NativeMethod_stub e" by (auto simp: closure_block_def)
  then show ?case by (subst parent_loop.simps) (simp add: previous_slot entry_at_def)
next
  case (Suc k)
  then obtain e where "mem (slot b (Suc k)) = Some e" "is_block_closure_stub e"
    by (auto simp: closure_block_def)
  then show ?case
    using Suc by (subst parent_loop.simps) (simp add: previous_slot entry_at_def algebra_simps)
qed

lemma parent_entry_ok:
  assumes "closure_block mem b n" "0 < k" "k < n"
  shows "parent_entry mem (slot b k) = ret (b, of_nat k)"
proof -
  obtain j where k: "k = Suc j" using assms(2) by (cases k) auto
  obtain e where "mem (slot b k) = Some e" "is_block_closure_stub e"
    using assms by (auto simp: closure_block_def)
  then show ?thesis
    using parent_loop_ok [OF assms(1), of j 0] assms(3)
    by (simp add: parent_entry_def entry_at_def k slot_0)
qed
section \<open>The invariant of the table\<close>

text \<open>
  The abstract table gives, for every identifier in use, the block of entries its own entry
  links to, if any. \<open>free_list\<close> is the list of free indices in the order of the links.
\<close>

type_synonym jump_map = "nat \<Rightarrow> (32 word \<times> nat) option option"

fun free_list :: "jump_memory \<Rightarrow> 32 word \<Rightarrow> nat \<Rightarrow> 32 word \<Rightarrow> nat list \<Rightarrow> bool" where
  "free_list mem E L p [] \<longleftrightarrow> p = of_nat L"
| "free_list mem E L p (i # is) \<longleftrightarrow> p = of_nat i \<and> i < L \<and>
     (\<exists>e. mem (slot E i) = Some e \<and> entry_is_unused e \<and> free_list mem E L (jump_field e) is)"

fun alloc_holds :: "jump_memory \<Rightarrow> 32 word \<Rightarrow> (32 word \<times> nat) option \<Rightarrow> bool" where
  "alloc_holds mem a None \<longleftrightarrow> (\<exists>e. mem a = Some e \<and> is_NativeMethod_stub e)"
| "alloc_holds mem a (Some (b, n)) \<longleftrightarrow> 1 < n \<and> n < 2 ^ 16 \<and> fits b n \<and>
     (\<exists>e. mem a = Some e \<and> is_link e \<and> jump_field e = b) \<and> closure_block mem b n"

fun region :: "(32 word \<times> nat) option option \<Rightarrow> 32 word set" where
  "region (Some (Some (b, n))) = span b n"
| "region _ = {}"

definition jump_ok :: "jump_table \<Rightarrow> jump_map \<Rightarrow> nat list \<Rightarrow> bool" where
  "jump_ok jt m fs \<longleftrightarrow>
     2 \<le> unat (jt_length jt) \<and> unat (jt_length jt) < 2 ^ 15 \<and>
     fits (jt_entries jt) (unat (jt_length jt)) \<and>
     free_list (jt_memory jt) (jt_entries jt) (unat (jt_length jt)) (firstFree jt) fs \<and>
     distinct fs \<and> dom m \<subseteq> {..<unat (jt_length jt)} \<and> set fs = {..<unat (jt_length jt)} - dom m \<and>
     unat (usedIDs jt) = card (dom m) \<and>
     (\<forall>i a. m i = Some a \<longrightarrow> alloc_holds (jt_memory jt) (slot (jt_entries jt) i) a) \<and>
     (\<forall>i. region (m i) \<inter> span (jt_entries jt) (unat (jt_length jt)) = {}) \<and>
     (\<forall>i j. i \<noteq> j \<longrightarrow> region (m i) \<inter> region (m j) = {})"

text \<open>The last two indices are never given out and stay at the end of the free list.\<close>

definition jump_represents :: "jump_table \<Rightarrow> jump_map \<Rightarrow> bool" where
  "jump_represents jt m \<longleftrightarrow>
     (\<exists>fs. jump_ok jt m (fs @ [unat (jt_length jt) - 2, unat (jt_length jt) - 1]))"

lemma free_list_cong:
  "(\<And>i. i \<in> set fs \<Longrightarrow> mem' (slot E i) = mem (slot E i)) \<Longrightarrow>
    free_list mem' E L p fs = free_list mem E L p fs"
  by (induction fs arbitrary: p) auto

lemma alloc_holds_cong:
  assumes "mem' a = mem a" "\<And>x. x \<in> region (Some r) \<Longrightarrow> mem' x = mem x"
  shows "alloc_holds mem' a r = alloc_holds mem a r"
proof (cases r)
  case (Some bn)
  then obtain b n where r: "r = Some (b, n)" by (cases bn) auto
  have "mem' (slot b k) = mem (slot b k)" if "k < n" for k using assms(2) that r by simp
  then have "closure_block mem' b n = closure_block mem b n" if "1 < n"
    using that unfolding closure_block_def by auto
  then show ?thesis using assms(1) r by auto
qed (use assms in simp)

lemma jump_okD:
  assumes "jump_ok jt m fs"
  shows "fits (jt_entries jt) (unat (jt_length jt))"
    and "dom m \<subseteq> {..<unat (jt_length jt)}"
    and "\<forall>i. region (m i) \<inter> span (jt_entries jt) (unat (jt_length jt)) = {}"
    and "\<forall>i j. i \<noteq> j \<longrightarrow> region (m i) \<inter> region (m j) = {}"
    and "\<forall>i a. m i = Some a \<longrightarrow> alloc_holds (jt_memory jt) (slot (jt_entries jt) i) a"
    and "free_list (jt_memory jt) (jt_entries jt) (unat (jt_length jt)) (firstFree jt) fs"
    and "set fs = {..<unat (jt_length jt)} - dom m" "distinct fs"
    and "unat (usedIDs jt) = card (dom m)"
    and "unat (jt_length jt) < 2 ^ 15" "2 \<le> unat (jt_length jt)"
  using assms unfolding jump_ok_def by - (elim conjE, assumption)+

lemma disjointD: "A \<inter> B = {} \<Longrightarrow> x \<in> A \<Longrightarrow> x \<notin> B"
  by auto

lemma disjointD2: "A \<inter> B = {} \<Longrightarrow> x \<in> B \<Longrightarrow> x \<notin> A"
  by auto

text \<open>What an operation on the entry \<open>i\<close> has to show.\<close>

lemma jump_ok_update:
  assumes ok: "jump_ok jt m fs" and i: "i < unat (jt_length jt)"
    and free: "free_list mem (jt_entries jt) (unat (jt_length jt)) f fs'" "distinct fs'"
    and set: "set fs' = {..<unat (jt_length jt)} - dom (m(i := r))"
    and used: "unat u = card (dom (m(i := r)))"
    and frame: "\<And>x. x \<noteq> slot (jt_entries jt) i \<Longrightarrow> x \<notin> region (m i) \<Longrightarrow> x \<notin> region r \<Longrightarrow>
      mem x = jt_memory jt x"
    and holds: "\<And>a. r = Some a \<Longrightarrow> alloc_holds mem (slot (jt_entries jt) i) a"
    and apart: "region r \<inter> span (jt_entries jt) (unat (jt_length jt)) = {}"
      "\<And>j. j \<noteq> i \<Longrightarrow> region r \<inter> region (m j) = {}"
  shows "jump_ok (jt\<lparr>jt_memory := mem, firstFree := f, usedIDs := u\<rparr>) (m(i := r)) fs'"
proof -
  let ?E = "jt_entries jt" and ?L = "unat (jt_length jt)"
  note E = jump_okD(1) [OF ok] and dom = jump_okD(2) [OF ok]
    and off = jump_okD(3) [OF ok, rule_format] and dis = jump_okD(4) [OF ok, rule_format]
    and old = jump_okD(5) [OF ok, rule_format]
  have keep: "alloc_holds mem (slot ?E j) a" if "m j = Some a" "j \<noteq> i" for j a
  proof -
    have j: "j < ?L" using dom that(1) by blast
    have "slot ?E j \<noteq> slot ?E i" using slot_inject [OF E j i] that(2) by simp
    moreover have "slot ?E j \<notin> region (m i)" by (rule disjointD2 [OF off slot_in_span [OF j]])
    moreover have "slot ?E j \<notin> region r" by (rule disjointD2 [OF apart(1) slot_in_span [OF j]])
    ultimately have "mem (slot ?E j) = jt_memory jt (slot ?E j)" by (rule frame)
    moreover have "mem x = jt_memory jt x" if x: "x \<in> region (Some a)" for x
    proof (rule frame)
      have x: "x \<in> region (m j)" using x \<open>m j = Some a\<close> by simp
      show "x \<notin> region (m i)" by (rule disjointD [OF dis [OF \<open>j \<noteq> i\<close>] x])
      show "x \<notin> region r" by (rule disjointD2 [OF apart(2) [OF \<open>j \<noteq> i\<close>] x])
      have "x \<notin> span ?E ?L" by (rule disjointD [OF off x])
      then show "x \<noteq> slot ?E i" using slot_in_span [OF i, of ?E] by metis
    qed
    ultimately have "alloc_holds mem (slot ?E j) a = alloc_holds (jt_memory jt) (slot ?E j) a"
      by (rule alloc_holds_cong)
    then show ?thesis using old [OF that(1)] by (rule iffD2)
  qed
  have "dom (m(i := r)) \<subseteq> {..<?L}" using dom i by auto
  moreover have "alloc_holds mem (slot ?E j) a" if "(m(i := r)) j = Some a" for j a
    using that keep [of j a] holds [of a] by (cases "j = i") simp_all
  moreover have "region ((m(i := r)) j) \<inter> span ?E ?L = {}" for j
    using off [of j] apart(1) by (cases "j = i") simp_all
  moreover have "region ((m(i := r)) j) \<inter> region ((m(i := r)) k) = {}" if "j \<noteq> k" for j k
    using dis [OF that] apart(2) [of j] apart(2) [of k] that
    by (cases "j = i"; cases "k = i") (simp_all add: Int_commute)
  ultimately show ?thesis
    using jump_okD(1,10,11) [OF ok] free set used unfolding jump_ok_def by simp
qed
section \<open>The operations keep the invariant\<close>

lemma fill_entry_ok:
  "mem this \<noteq> None \<Longrightarrow> isSmallIntegerOop this \<Longrightarrow> fill_entry this instr dest st mem =
     ret (mem(this \<mapsto> \<lparr>jump_instr = instr, jump_field = dest, jump_state = st\<rparr>))"
  by (auto simp: fill_entry_def entry_at_def)

lemma for_each_fill:
  assumes "fits b n" "set is \<subseteq> {..<n}" "\<forall>i \<in> set is. mem (slot b i) \<noteq> None"
    and "\<And>i. i \<in> set is \<Longrightarrow> body i = fill_entry (slot b i) instr (d i) st"
  shows "\<exists>mem'. for_each body is mem = ret mem' \<and>
    (\<forall>i \<in> set is. mem' (slot b i) = Some \<lparr>jump_instr = instr, jump_field = d i, jump_state = st\<rparr>) \<and>
    (\<forall>x. x \<notin> slot b ` set is \<longrightarrow> mem' x = mem x)"
  using assms(2-4)
proof (induction "is" arbitrary: mem)
  case (Cons i "is")
  define mem1 where "mem1 = mem(slot b i \<mapsto> \<lparr>jump_instr = instr, jump_field = d i, jump_state = st\<rparr>)"
  have i: "i < n" using Cons.prems(1) by simp
  have body: "body i mem = ret mem1"
    using Cons.prems(2,3) slot_aligned [OF assms(1) i] by (simp add: fill_entry_ok mem1_def)
  have "\<forall>j \<in> set is. mem1 (slot b j) \<noteq> None" using Cons.prems(2) by (simp add: mem1_def)
  with Cons obtain mem' where IH: "for_each body is mem1 = ret mem'"
    "\<forall>i \<in> set is. mem' (slot b i) = Some \<lparr>jump_instr = instr, jump_field = d i, jump_state = st\<rparr>"
    "\<forall>x. x \<notin> slot b ` set is \<longrightarrow> mem' x = mem1 x" by force
  have "mem' (slot b i) = Some \<lparr>jump_instr = instr, jump_field = d i, jump_state = st\<rparr>"
  proof (cases "slot b i \<in> slot b ` set is")
    case True
    then have "i \<in> set is" using slot_inject [OF assms(1) i] Cons.prems(1) by auto
    with IH(2) show ?thesis by simp
  qed (use IH(3) in \<open>simp add: mem1_def\<close>)
  with IH body show ?case by (intro exI [of _ mem']) (simp add: mem1_def)
qed simp

lemma fold_entries:
  "fold (\<lambda>i mem. mem(slot b i := v)) is mem x = (if x \<in> slot b ` set is then v else mem x)"
  by (induction "is" arbitrary: mem) auto

lemma allocate_jump_entries_apply:
  "allocate_jump_entries b n mem x = (if x \<in> span b n
     then Some \<lparr>jump_instr = 0, jump_field = 0, jump_state = 0\<rparr> else mem x)"
  by (simp only: allocate_jump_entries_def slot_def [symmetric] fold_entries span_def)
    (simp add: atLeast0LessThan)

lemma free_entries_apply:
  "free_entries b n mem x = (if x \<in> span b n then None else mem x)"
  by (simp only: free_entries_def slot_def [symmetric] fold_entries span_def)
    (simp add: atLeast0LessThan)

lemma free_list_from_init:
  assumes "\<forall>i < L. mem (slot E i) = Some \<lparr>jump_instr = h, jump_field = of_nat i + 1, jump_state = unused_entry\<rparr>"
  shows "k \<le> L \<Longrightarrow> free_list mem E L (of_nat (L - k)) [L - k..<L]"
proof (induction k)
  case (Suc k)
  then have i: "L - Suc k < L" "Suc (L - Suc k) = L - k" by simp_all
  then have "[L - Suc k..<L] = (L - Suc k) # [L - k..<L]" using upt_conv_Cons [OF i(1)] by simp
  moreover have "of_nat (L - Suc k) + 1 = (of_nat (L - k) :: 32 word)"
    using i(2) by (metis of_nat_Suc add.commute)
  ultimately show ?case using assms i(1) Suc by (simp add: entry_is_unused_def)
qed simp

lemma JumpTable_new_ok:
  assumes "2 \<le> unat sz" "unat sz < 2 ^ 15" "fits block (unat sz)"
  shows "\<exists>jt. JumpTable_new sz block mem = ret jt \<and> jump_represents jt Map.empty"
proof -
  let ?L = "unat sz"
  let ?m0 = "allocate_jump_entries block ?L mem"
  let ?jt = "\<lparr>jt_memory = ?m0, firstFree = 0, jt_entries = block, jt_length = sz, usedIDs = 0\<rparr>"
  have "\<exists>mem'. for_each (\<lambda>i. initialize_as_unused (major_at ?jt (of_nat i)) (of_nat i + 1)) [0..<?L] ?m0 = ret mem' \<and>
    (\<forall>i \<in> set [0..<?L]. mem' (slot block i) =
       Some \<lparr>jump_instr = halt_instruction, jump_field = of_nat i + 1, jump_state = unused_entry\<rparr>) \<and>
    (\<forall>x. x \<notin> slot block ` set [0..<?L] \<longrightarrow> mem' x = ?m0 x)"
    by (rule for_each_fill [OF assms(3)])
      (use assms(2) in \<open>auto simp: allocate_jump_entries_apply initialize_as_unused_def major_slot\<close>)
  then obtain mem' where loop: "for_each (\<lambda>i. initialize_as_unused (major_at ?jt (of_nat i)) (of_nat i + 1))
      [0..<?L] ?m0 = ret mem'"
    and e: "\<forall>i < ?L. mem' (slot block i) =
       Some \<lparr>jump_instr = halt_instruction, jump_field = of_nat i + 1, jump_state = unused_entry\<rparr>" by auto
  have "sz < 32 * 1024" using assms(2) by (simp add: word_less_nat_alt)
  then have run: "JumpTable_new sz block mem = ret (?jt\<lparr>jt_memory := mem'\<rparr>)"
    using loop by (simp add: JumpTable_new_def JumpTable_init_def)
  have "free_list mem' block ?L 0 [0..<?L]" using free_list_from_init [OF e, of ?L] by simp
  then have ok: "jump_ok (?jt\<lparr>jt_memory := mem'\<rparr>) Map.empty [0..<?L]"
    unfolding jump_ok_def using assms by (simp add: atLeast0LessThan)
  have "[0..<?L] = [0..<?L - 2] @ [?L - 2, ?L - 1]"
  proof -
    have "[0..<Suc (Suc k)] = [0..<k] @ [k, Suc k]" for k by simp
    from this [of "?L - 2"] show ?thesis
      using assms(1) by (simp only: Suc_diff_le [symmetric] One_nat_def numeral_2_eq_2) simp
  qed
  then have "jump_represents (?jt\<lparr>jt_memory := mem'\<rparr>) Map.empty"
    unfolding jump_represents_def using ok by (intro exI [of _ "[0..<?L - 2]"]) simp
  with run show ?thesis by blast
qed

definition fresh_block :: "jump_table \<Rightarrow> 32 word \<Rightarrow> nat \<Rightarrow> bool" where
  "fresh_block jt block n \<longleftrightarrow> 0 < n \<and> n < 2 ^ 16 \<and>
     (n = 1 \<or> fits block n \<and> (\<forall>x \<in> span block n. jt_memory jt x = None))"

lemma free_list_mapped: "free_list mem E L p fs \<Longrightarrow> i \<in> set fs \<Longrightarrow> mem (slot E i) \<noteq> None"
  by (induction fs arbitrary: p) auto

lemma alloc_holds_mapped: "alloc_holds mem a r \<Longrightarrow> mem a \<noteq> None"
  by (cases r) auto

lemma jump_ok_mapped:
  assumes "jump_ok jt m fs"
  shows "i < unat (jt_length jt) \<Longrightarrow> jt_memory jt (slot (jt_entries jt) i) \<noteq> None"
    and "x \<in> region (m i) \<Longrightarrow> jt_memory jt x \<noteq> None"
proof -
  assume i: "i < unat (jt_length jt)"
  show "jt_memory jt (slot (jt_entries jt) i) \<noteq> None"
  proof (cases "m i")
    case None
    then have "i \<in> set fs" using i jump_okD(7) [OF assms] by auto
    then show ?thesis using free_list_mapped [OF jump_okD(6) [OF assms]] by simp
  next
    case (Some a)
    then show ?thesis using jump_okD(5) [OF assms] alloc_holds_mapped by blast
  qed
next
  assume x: "x \<in> region (m i)"
  then obtain b n where m: "m i = Some (Some (b, n))" by (cases "m i" rule: region.cases) auto
  then have "closure_block (jt_memory jt) b n" "1 < n" using jump_okD(5) [OF assms] by fastforce+
  moreover obtain k where "x = slot b k" "k < n" using x m by (auto simp: span_def)
  ultimately show "jt_memory jt x \<noteq> None" unfolding closure_block_def
    by (cases "k = 0") auto
qed

lemma newID_ok:
  assumes "jump_ok jt m fs"
  shows "fs = [] \<or> unat (jt_length jt) \<le> hd fs + 2 \<Longrightarrow> newID jt = raise (Fatal ''grow not implemented'')"
    and "fs = i # is \<Longrightarrow> i + 2 < unat (jt_length jt) \<Longrightarrow> \<exists>e.
      jt_memory jt (slot (jt_entries jt) i) = Some e \<and> entry_is_unused e \<and> firstFree jt = of_nat i \<and>
      free_list (jt_memory jt) (jt_entries jt) (unat (jt_length jt)) (jump_field e) is \<and>
      newID jt = ret (of_nat i, jt\<lparr>firstFree := jump_field e, usedIDs := usedIDs jt + 1\<rparr>)"
proof -
  let ?L = "unat (jt_length jt)"
  note L = jump_okD(10,11) [OF assms]
  have two: "unat (jt_length jt - 2) = ?L - 2" using L(2) by (simp add: unat_sub word_le_nat_alt)
  note fl = jump_okD(6) [OF assms]
  have small: "unat (of_nat j :: 32 word) = j" if "j \<le> ?L" for j
    using that L(1) by (simp add: unat_of_nat)
  {
    assume "fs = [] \<or> ?L \<le> hd fs + 2"
    moreover have "firstFree jt = of_nat (if fs = [] then ?L else hd fs)" "fs \<noteq> [] \<longrightarrow> hd fs < ?L"
      using fl by (cases fs; simp)+
    ultimately have "jt_length jt - 2 \<le> firstFree jt"
      using two small [of "hd fs"] small [of ?L] by (auto simp: word_le_nat_alt)
    then show "newID jt = raise (Fatal ''grow not implemented'')" by (simp add: newID_def)
  next
    assume fs: "fs = i # is" and i: "i + 2 < ?L"
    obtain e where e: "jt_memory jt (slot (jt_entries jt) i) = Some e" "entry_is_unused e" "firstFree jt = of_nat i"
      "free_list (jt_memory jt) (jt_entries jt) ?L (jump_field e) is"
      using fl unfolding fs by auto
    have "\<not> jt_length jt - 2 \<le> firstFree jt" using e(3) small [of i] i two by (simp add: word_le_nat_alt)
    moreover have "major_at jt (ucast (firstFree jt)) = slot (jt_entries jt) i"
      using i L(1) e(3) major_slot(1) [of i jt] by simp
    ultimately have "newID jt = ret (of_nat i, jt\<lparr>firstFree := jump_field e, usedIDs := usedIDs jt + 1\<rparr>)"
      using e by (simp add: newID_def next_free_def entry_at_def)
    with e show "\<exists>e. jt_memory jt (slot (jt_entries jt) i) = Some e \<and> entry_is_unused e \<and> firstFree jt = of_nat i \<and>
      free_list (jt_memory jt) (jt_entries jt) ?L (jump_field e) is \<and>
      newID jt = ret (of_nat i, jt\<lparr>firstFree := jump_field e, usedIDs := usedIDs jt + 1\<rparr>)" by blast
  }
qed

text \<open>The memory that an allocation leaves, for one entry and for a block.\<close>

lemma allocate_single:
  assumes "jt_memory jt (slot (jt_entries jt) i) = Some e" "entry_is_unused e" "i < unat (jt_length jt)"
    and "fits (jt_entries jt) (unat (jt_length jt))" "unat (jt_length jt) < 2 ^ 15"
    and "newID jt = ret (of_nat i, jt1)" "jt_memory jt1 = jt_memory jt" "jt_entries jt1 = jt_entries jt"
  shows "\<exists>mem. JumpTable_allocate cbe 1 block jt = ret (JumpTableID_major (of_nat i), jt1\<lparr>jt_memory := mem\<rparr>) \<and>
    alloc_holds mem (slot (jt_entries jt) i) None \<and>
    (\<forall>x. x \<noteq> slot (jt_entries jt) i \<longrightarrow> mem x = jt_memory jt x)"
proof -
  have i: "i < 2 ^ 15" using assms(3,5) by simp
  have "(ucast (of_nat i :: 32 word) :: 16 word) = of_nat i"
    using i by (simp add: word_unat_eq_iff unat_of_nat unsigned_ucast_eq take_bit_nat_eq_self)
  then show ?thesis
    using assms major_slot(1) [OF i, of jt1] slot_aligned [OF assms(4,3)]
    by (intro exI [of _ "(jt_memory jt)(slot (jt_entries jt) i \<mapsto> \<lparr>jump_instr = jump_instruction,
        jump_field = - state_addr (slot (jt_entries jt) i), jump_state = nativeMethod_entry\<rparr>)"])
      (simp add: JumpTable_allocate_def entry_at_def initialize_NativeMethod_stub_def fill_entry_ok
        is_NativeMethod_stub_def Let_def)
qed

lemma allocate_block:
  assumes e: "jt_memory jt (slot (jt_entries jt) i) = Some e" "entry_is_unused e" and i: "i < unat (jt_length jt)"
    and E: "fits (jt_entries jt) (unat (jt_length jt))" "unat (jt_length jt) < 2 ^ 15"
    and new: "newID jt = ret (of_nat i, jt1)" "jt_memory jt1 = jt_memory jt" "jt_entries jt1 = jt_entries jt"
    and n: "1 < n" "n < 2 ^ 16" "fits block n" and off: "slot (jt_entries jt) i \<notin> span block n"
  shows "\<exists>mem. JumpTable_allocate cbe n block jt = ret (JumpTableID_minor (of_nat i) 0, jt1\<lparr>jt_memory := mem\<rparr>) \<and>
    alloc_holds mem (slot (jt_entries jt) i) (Some (block, n)) \<and>
    (\<forall>x. x \<noteq> slot (jt_entries jt) i \<longrightarrow> x \<notin> span block n \<longrightarrow> mem x = jt_memory jt x)"
proof -
  let ?a = "slot (jt_entries jt) i"
  let ?m0 = "allocate_jump_entries block n (jt_memory jt)"
  have i': "i < 2 ^ 15" using i E(2) by simp
  have uc: "(ucast (of_nat i :: 32 word) :: 16 word) = of_nat i"
    using i' by (simp add: word_unat_eq_iff unat_of_nat unsigned_ucast_eq take_bit_nat_eq_self)
  have b0: "slot block 0 \<in> span block n" using n(1) by simp
  obtain m1 where m1: "initialize_NativeMethod_stub (jump_entry_for_at block 0) 0 ?m0 = ret m1"
    "\<exists>e. m1 (slot block 0) = Some e \<and> is_NativeMethod_stub e" "\<forall>x. x \<noteq> slot block 0 \<longrightarrow> m1 x = ?m0 x"
    using b0 slot_aligned [OF n(3), of 0] n(1)
    by (simp add: initialize_NativeMethod_stub_def fill_entry_ok allocate_jump_entries_apply slot_def
        is_NativeMethod_stub_def)
  have "\<exists>m2. for_each (\<lambda>i. initialize_block_closure_stub cbe (jump_entry_for_at block (of_nat i))) [1..<n] m1 = ret m2 \<and>
    (\<forall>k \<in> set [1..<n]. m2 (slot block k) = Some \<lparr>jump_instr = jump_instruction,
       jump_field = cbe - state_addr (slot block k), jump_state = block_closure_entry\<rparr>) \<and>
    (\<forall>x. x \<notin> slot block ` set [1..<n] \<longrightarrow> m2 x = m1 x)"
  proof (rule for_each_fill [OF n(3)])
    show "\<forall>k \<in> set [1..<n]. m1 (slot block k) \<noteq> None"
    proof
      fix k assume "k \<in> set [1..<n]"
      then have k: "k < n" "k \<noteq> 0" by auto
      then have "slot block k \<noteq> slot block 0" using slot_inject [OF n(3) k(1), of 0] by simp
      then show "m1 (slot block k) \<noteq> None" using m1(3) k by (simp add: allocate_jump_entries_apply)
    qed
  qed (auto simp: initialize_block_closure_stub_def slot_def)
  then obtain m2 where m2: "for_each (\<lambda>i. initialize_block_closure_stub cbe (jump_entry_for_at block (of_nat i)))
      [1..<n] m1 = ret m2"
    "\<forall>k \<in> set [1..<n]. m2 (slot block k) = Some \<lparr>jump_instr = jump_instruction,
       jump_field = cbe - state_addr (slot block k), jump_state = block_closure_entry\<rparr>"
    "\<forall>x. x \<notin> slot block ` set [1..<n] \<longrightarrow> m2 x = m1 x" by blast
  have out: "x \<notin> slot block ` set [1..<n] \<and> x \<noteq> slot block 0" if "x \<notin> span block n" for x
    using that n(1) by (auto simp: span_def)
  have m2a: "m2 ?a = Some e"
    using m2(3) m1(3) out [OF off] off e(1) by (simp add: allocate_jump_entries_apply)
  define mem where "mem = m2(?a \<mapsto> \<lparr>jump_instr = halt_instruction, jump_field = block, jump_state = link_entry\<rparr>)"
  have link: "initialize_as_link ?a block m2 = ret mem"
    using m2a slot_aligned [OF E(1) i] by (simp add: initialize_as_link_def fill_entry_ok mem_def)
  have run: "JumpTable_allocate cbe n block jt = ret (JumpTableID_minor (of_nat i) 0, jt1\<lparr>jt_memory := mem\<rparr>)"
    using e new n(1) m1(1) m2(1) link uc major_slot(1) [OF i', of jt1]
    by (simp add: JumpTable_allocate_def entry_at_def)
  have inblock: "mem x = m2 x" if "x \<in> span block n" for x using that off by (auto simp: mem_def)
  have "slot block 0 \<notin> slot block ` set [1..<n]" using slot_inject [OF n(3)] n(1) by force
  then have "closure_block mem block n"
    using m1(2) m2(2,3) inblock [OF b0] inblock [OF slot_in_span]
    unfolding closure_block_def by (auto simp: is_block_closure_stub_def)
  then have "alloc_holds mem ?a (Some (block, n))" using n by (simp add: mem_def is_link_def)
  moreover have "mem x = jt_memory jt x" if "x \<noteq> ?a" "x \<notin> span block n" for x
    using that out [OF that(2)] m2(3) m1(3) by (simp add: mem_def allocate_jump_entries_apply)
  ultimately show ?thesis using run by blast
qed

definition jump_target :: "nat \<Rightarrow> 32 word \<Rightarrow> (32 word \<times> nat) option" where
  "jump_target n block = (if n = 1 then None else Some (block, n))"

definition jump_id_of :: "nat \<Rightarrow> (32 word \<times> nat) option \<Rightarrow> jump_id" where
  "jump_id_of i a = (if a = None then JumpTableID_major (of_nat i) else JumpTableID_minor (of_nat i) 0)"

lemma record_order:
  "jt\<lparr>firstFree := f, usedIDs := u, jt_memory := mem\<rparr> = jt\<lparr>jt_memory := mem, firstFree := f, usedIDs := u\<rparr>"
  by simp

lemma jump_allocate_ok:
  assumes ok: "jump_ok jt m fs" and fresh: "fresh_block jt block n"
  shows "fs = [] \<or> unat (jt_length jt) \<le> hd fs + 2 \<Longrightarrow>
      JumpTable_allocate cbe n block jt = raise (Fatal ''grow not implemented'')"
    and "fs = i # is \<Longrightarrow> i + 2 < unat (jt_length jt) \<Longrightarrow> \<exists>jt'.
      JumpTable_allocate cbe n block jt = ret (jump_id_of i (jump_target n block), jt') \<and>
      jump_ok jt' (m(i \<mapsto> jump_target n block)) is \<and> jt_length jt' = jt_length jt \<and>
      jt_entries jt' = jt_entries jt"
proof -
  assume "fs = [] \<or> unat (jt_length jt) \<le> hd fs + 2"
  then show "JumpTable_allocate cbe n block jt = raise (Fatal ''grow not implemented'')"
    using newID_ok(1) [OF ok] by (simp add: JumpTable_allocate_def)
next
  assume fs: "fs = i # is" and i2: "i + 2 < unat (jt_length jt)"
  let ?L = "unat (jt_length jt)" and ?a = "slot (jt_entries jt) i"
  have i: "i < ?L" using i2 by simp
  obtain e where e: "jt_memory jt ?a = Some e" "entry_is_unused e" "firstFree jt = of_nat i"
    "free_list (jt_memory jt) (jt_entries jt) ?L (jump_field e) is"
    "newID jt = ret (of_nat i, jt\<lparr>firstFree := jump_field e, usedIDs := usedIDs jt + 1\<rparr>)"
    using newID_ok(2) [OF ok fs i2] by blast
  let ?jt = "jt\<lparr>firstFree := jump_field e, usedIDs := usedIDs jt + 1\<rparr>"
  let ?r = "jump_target n block"
  have mi: "m i = None" using fs jump_okD(7) [OF ok] by auto
  have off: "region (Some ?r) \<inter> span (jt_entries jt) ?L = {}"
  proof -
    have "jt_memory jt x \<noteq> None" if "x \<in> span (jt_entries jt) ?L" for x
      using that jump_ok_mapped(1) [OF ok] unfolding span_def by blast
    then show ?thesis using fresh
      by (auto simp: jump_target_def fresh_block_def simp del: not_None_eq)
  qed
  have "\<exists>mem. JumpTable_allocate cbe n block jt = ret (jump_id_of i ?r, ?jt\<lparr>jt_memory := mem\<rparr>) \<and>
    alloc_holds mem ?a ?r \<and> (\<forall>x. x \<noteq> ?a \<longrightarrow> x \<notin> region (Some ?r) \<longrightarrow> mem x = jt_memory jt x)"
  proof (cases "n = 1")
    case True
    then show ?thesis
      using allocate_single [OF e(1,2) i jump_okD(1,10) [OF ok] e(5), of cbe block]
      by (auto simp: jump_target_def jump_id_of_def)
  next
    case False
    then have n: "1 < n" "n < 2 ^ 16" "fits block n" using fresh by (auto simp: fresh_block_def)
    have "?a \<notin> span block n"
      using disjointD2 [OF off slot_in_span [OF i]] False by (simp add: jump_target_def)
    then show ?thesis
      using allocate_block [OF e(1,2) i jump_okD(1,10) [OF ok] e(5) _ _ n, of cbe] False
      by (auto simp: jump_target_def jump_id_of_def)
  qed
  then obtain mem where run: "JumpTable_allocate cbe n block jt = ret (jump_id_of i ?r, ?jt\<lparr>jt_memory := mem\<rparr>)"
    and holds: "alloc_holds mem ?a ?r"
    and frame: "\<forall>x. x \<noteq> ?a \<longrightarrow> x \<notin> region (Some ?r) \<longrightarrow> mem x = jt_memory jt x" by blast
  have keep: "mem (slot (jt_entries jt) j) = jt_memory jt (slot (jt_entries jt) j)" if "j \<in> set is" for j
  proof -
    have j: "j < ?L" "j \<noteq> i" using that fs jump_okD(7,8) [OF ok] by auto
    then have "slot (jt_entries jt) j \<noteq> ?a" using slot_inject [OF jump_okD(1) [OF ok] j(1) i] by simp
    moreover have "slot (jt_entries jt) j \<notin> region (Some ?r)"
      by (rule disjointD2 [OF off slot_in_span [OF j(1)]])
    ultimately show ?thesis using frame by simp
  qed
  have "jump_ok (jt\<lparr>jt_memory := mem, firstFree := jump_field e, usedIDs := usedIDs jt + 1\<rparr>)
    (m(i := Some ?r)) is"
  proof (rule jump_ok_update [OF ok i])
    show "free_list mem (jt_entries jt) ?L (jump_field e) is"
      using e(4) free_list_cong [of "is" mem "jt_entries jt" "jt_memory jt"] keep by simp
    show "distinct is" using jump_okD(8) [OF ok] fs by simp
    show "set is = {..<?L} - dom (m(i := Some ?r))"
      using jump_okD(7,8) [OF ok] fs by auto
    have "card (dom m) < ?L"
      using psubset_card_mono [of "{..<?L}" "dom m"] jump_okD(2) [OF ok] mi i by auto
    then have "unat (usedIDs jt + 1) = card (dom m) + 1"
      using jump_okD(9,10) [OF ok] by (simp add: unat_word_ariths)
    moreover have "finite (dom m)" using jump_okD(2) [OF ok] finite_subset by blast
    ultimately show "unat (usedIDs jt + 1) = card (dom (m(i := Some ?r)))" using mi by (simp add: domIff)
    show "region (Some ?r) \<inter> region (m j) = {}" for j
      using fresh jump_ok_mapped(2) [OF ok, of _ j]
      by (auto simp: jump_target_def fresh_block_def simp del: not_None_eq)
  qed (use frame holds off in auto)
  then show "\<exists>jt'. JumpTable_allocate cbe n block jt = ret (jump_id_of i ?r, jt') \<and>
      jump_ok jt' (m(i \<mapsto> ?r)) is \<and> jt_length jt' = jt_length jt \<and> jt_entries jt' = jt_entries jt"
    unfolding run by (intro exI [of _ "?jt\<lparr>jt_memory := mem\<rparr>"]) (simp add: record_order)
qed

lemma free_ok:
  assumes ok: "jump_ok jt m fs" and mi: "m i = Some a" and blocks: "\<And>b n. a = Some (b, n) \<Longrightarrow> blocks b = n"
  shows "\<exists>jt'. freeID blocks (of_nat i) jt = ret jt' \<and> jump_ok jt' (m(i := None)) (i # fs) \<and>
    jt_length jt' = jt_length jt \<and> jt_entries jt' = jt_entries jt"
proof -
  let ?L = "unat (jt_length jt)" and ?a = "slot (jt_entries jt) i"
  note L = jump_okD(10) [OF ok]
  have i: "i < ?L" using jump_okD(2) [OF ok] mi by blast
  have i': "i < 2 ^ 15" using i L by simp
  have ui: "unat (of_nat i :: 32 word) = i" using i' by (simp add: unat_of_nat)
  have "0 \<le> sint (of_nat i :: 32 word)" using sint_small [of "of_nat i :: 32 word"] ui i' by simp
  moreover have "of_nat i < jt_length jt" using ui i by (simp add: word_less_nat_alt)
  moreover have "of_nat i \<noteq> firstFree jt"
  proof -
    have "i \<notin> set fs" using jump_okD(7) [OF ok] mi by auto
    then have "\<exists>j. firstFree jt = of_nat j \<and> j \<noteq> i \<and> j \<le> ?L"
      using jump_okD(6) [OF ok] i
      by (intro exI [of _ "if fs = [] then ?L else hd fs"]) (cases fs; auto)
    then obtain j where j: "firstFree jt = of_nat j" "j \<noteq> i" "j \<le> ?L" by blast
    have "unat (of_nat j :: 32 word) = j" using j(3) L by (simp add: unat_of_nat)
    then show ?thesis using j(1,2) ui by metis
  qed
  moreover obtain e where e: "jt_memory jt ?a = Some e"
    "is_link e \<longleftrightarrow> a \<noteq> None" "\<And>b n. a = Some (b, n) \<Longrightarrow> jump_field e = b"
    using jump_okD(5) [OF ok, rule_format, OF mi] by (cases a) auto
  define mem where "mem = (case a of None \<Rightarrow> jt_memory jt | Some (b, n) \<Rightarrow> free_entries b n (jt_memory jt))"
  have a_off: "?a \<notin> region (m i)" by (rule disjointD2 [OF jump_okD(3) [OF ok, rule_format] slot_in_span [OF i]])
  have mem_eq: "mem x = (if x \<in> region (m i) then None else jt_memory jt x)" for x
    using mi by (auto simp: mem_def free_entries_apply split: option.split)
  define mem' where "mem' = mem(?a \<mapsto> \<lparr>jump_instr = halt_instruction, jump_field = firstFree jt, jump_state = unused_entry\<rparr>)"
  have ma: "mem ?a \<noteq> None" using e(1) a_off mem_eq by simp
  have fin: "finite (dom m)" using jump_okD(2) [OF ok] finite_subset by blast
  have card: "card (dom m) \<le> ?L" "0 < card (dom m)"
    using card_mono [of "{..<?L}" "dom m"] jump_okD(2) [OF ok] fin mi by (auto simp: card_gt_0_iff)
  then have used: "unat (usedIDs jt - 1) = card (dom m) - 1"
    using jump_okD(9) [OF ok] by (metis unat_gt_0 unat_minus_one not_gr_zero)
  then have "0 \<le> sint (usedIDs jt - 1)" using sint_small [of "usedIDs jt - 1"] card L by simp
  ultimately have run: "freeID blocks (of_nat i) jt =
      ret (jt\<lparr>jt_memory := mem', firstFree := of_nat i, usedIDs := usedIDs jt - 1\<rparr>)"
    using e ma blocks major_slot(1) [OF i'] slot_aligned [OF jump_okD(1) [OF ok] i]
    by (cases a) (auto simp: freeID_def entry_at_def initialize_as_unused_def fill_entry_ok mem_def mem'_def)
  have "jump_ok (jt\<lparr>jt_memory := mem', firstFree := of_nat i, usedIDs := usedIDs jt - 1\<rparr>) (m(i := None)) (i # fs)"
  proof (rule jump_ok_update [OF ok i])
    have keep: "mem' (slot (jt_entries jt) j) = jt_memory jt (slot (jt_entries jt) j)" if "j \<in> set fs" for j
    proof -
      have j: "j < ?L" "j \<noteq> i" using that jump_okD(7) [OF ok] mi by auto
      have "slot (jt_entries jt) j \<notin> region (m i)"
        by (rule disjointD2 [OF jump_okD(3) [OF ok, rule_format] slot_in_span [OF j(1)]])
      moreover have "slot (jt_entries jt) j \<noteq> ?a"
        using slot_inject [OF jump_okD(1) [OF ok] j(1) i] j(2) by simp
      ultimately show ?thesis by (simp add: mem'_def mem_eq)
    qed
    have "free_list mem' (jt_entries jt) ?L (firstFree jt) fs"
      using jump_okD(6) [OF ok] free_list_cong [of fs mem' "jt_entries jt" "jt_memory jt"] keep by simp
    then show "free_list mem' (jt_entries jt) ?L (of_nat i) (i # fs)"
      using i by (simp add: mem'_def entry_is_unused_def)
    show "distinct (i # fs)" using jump_okD(7,8) [OF ok] mi by auto
    show "set (i # fs) = {..<?L} - dom (m(i := None))" using jump_okD(7) [OF ok] i by auto
    show "unat (usedIDs jt - 1) = card (dom (m(i := None)))" using used fin mi by (simp add: domI)
    show "mem' x = jt_memory jt x" if "x \<noteq> ?a" "x \<notin> region (m i)" for x
      using that by (simp add: mem'_def mem_eq)
  qed simp_all
  then show ?thesis unfolding run
    by (intro exI [of _ "jt\<lparr>jt_memory := mem', firstFree := of_nat i, usedIDs := usedIDs jt - 1\<rparr>"]) simp
qed
section \<open>Identifiers and their entries\<close>

fun entry_id :: "nat \<Rightarrow> (32 word \<times> nat) option \<Rightarrow> nat \<Rightarrow> jump_id" where
  "entry_id i None k = JumpTableID_major (of_nat i)"
| "entry_id i (Some _) k = JumpTableID_minor (of_nat i) (of_nat k)"

fun entry_count :: "(32 word \<times> nat) option \<Rightarrow> nat" where
  "entry_count None = 1"
| "entry_count (Some (b, n)) = n"

fun entry_address :: "jump_table \<Rightarrow> nat \<Rightarrow> (32 word \<times> nat) option \<Rightarrow> nat \<Rightarrow> 32 word" where
  "entry_address jt i None k = slot (jt_entries jt) i"
| "entry_address jt i (Some (b, n)) k = slot b k"

lemma not_max_id:
  assumes "n < 65535"
  shows "of_nat n \<noteq> max_id_value"
proof
  have "unat max_id_value = 65535"
    by (simp add: max_id_value_def nthMask_def nthBit_def BITS_PER_WORD_def)
  moreover assume "of_nat n = max_id_value"
  ultimately have "unat (of_nat n :: 16 word) = 65535" by simp
  moreover have "unat (of_nat n :: 16 word) = n" using assms by (simp add: unat_of_nat)
  ultimately show False using assms by simp
qed

lemma at_ok:
  assumes ok: "jump_ok jt m fs" and a: "m i = Some a" and k: "k < entry_count a"
  shows "JumpTable_at jt (entry_id i a k) = ret (entry_address jt i a k)"
    and "k = 0 \<Longrightarrow> \<exists>e. jt_memory jt (entry_address jt i a k) = Some e \<and> is_NativeMethod_stub e"
    and "k \<noteq> 0 \<Longrightarrow> \<exists>e. jt_memory jt (entry_address jt i a k) = Some e \<and> is_block_closure_stub e"
    and "k \<noteq> 0 \<Longrightarrow> parent_entry (jt_memory jt) (entry_address jt i a k) =
      ret (entry_address jt i a 0, of_nat k)"
proof -
  have "i < unat (jt_length jt)" using jump_okD(2) [OF ok] a by blast
  then have i: "i < 2 ^ 15" using jump_okD(10) [OF ok] by simp
  then have valid: "of_nat i \<noteq> max_id_value" by (intro not_max_id) simp
  note h = jump_okD(5) [OF ok, rule_format, OF a]
  have "JumpTable_at jt (entry_id i a k) = ret (entry_address jt i a k) \<and>
    (k = 0 \<longrightarrow> (\<exists>e. jt_memory jt (entry_address jt i a k) = Some e \<and> is_NativeMethod_stub e)) \<and>
    (k \<noteq> 0 \<longrightarrow> (\<exists>e. jt_memory jt (entry_address jt i a k) = Some e \<and> is_block_closure_stub e)) \<and>
    (k \<noteq> 0 \<longrightarrow> parent_entry (jt_memory jt) (entry_address jt i a k) = ret (entry_address jt i a 0, of_nat k))"
  proof (cases a)
    case None
    then show ?thesis using h k valid major_slot(2) [OF i]
      by (simp add: JumpTable_at_def JumpTableID_major_def id_is_valid_def has_minor_def)
  next
    case (Some bn)
    then obtain b n where bn: "a = Some (b, n)" by (cases bn) auto
    obtain e where e: "jt_memory jt (slot (jt_entries jt) i) = Some e" "jump_field e = b"
      and cb: "closure_block (jt_memory jt) b n" and n: "n < 2 ^ 16" using h bn by auto
    have k': "k < n" using k bn by simp
    then have minor: "of_nat k \<noteq> max_id_value" using n by (intro not_max_id) simp
    have "(ucast (of_nat k :: 16 word) :: 32 word) = of_nat k"
      using k' n by (simp add: word_unat_eq_iff unat_of_nat unsigned_ucast_eq take_bit_nat_eq_self)
    then have "JumpTable_at jt (entry_id i a k) = ret (slot b k)"
      using e valid minor major_slot(2) [OF i] bn
      by (simp add: JumpTable_at_def JumpTableID_minor_def id_is_valid_def has_minor_def entry_link_def
          entry_at_def slot_def)
    moreover have "parent_entry (jt_memory jt) (slot b k) = ret (slot b 0, of_nat k)" if "k \<noteq> 0"
      using parent_entry_ok [OF cb _ k'] that by (simp add: slot_0)
    ultimately show ?thesis using cb k' bn unfolding closure_block_def by auto
  qed
  then show "JumpTable_at jt (entry_id i a k) = ret (entry_address jt i a k)"
    "k = 0 \<Longrightarrow> \<exists>e. jt_memory jt (entry_address jt i a k) = Some e \<and> is_NativeMethod_stub e"
    "k \<noteq> 0 \<Longrightarrow> \<exists>e. jt_memory jt (entry_address jt i a k) = Some e \<and> is_block_closure_stub e"
    "k \<noteq> 0 \<Longrightarrow> parent_entry (jt_memory jt) (entry_address jt i a k) =
      ret (entry_address jt i a 0, of_nat k)" by blast+
qed

lemma entry_address_region:
  "a \<noteq> None \<Longrightarrow> k < entry_count a \<Longrightarrow> entry_address jt i a k \<in> region (Some a)"
  by (cases a) auto

lemma entry_address_inject:
  assumes ok: "jump_ok jt m fs" and a: "m i = Some a" "m j = Some c"
    and k: "k < entry_count a" "l < entry_count c"
    and eq: "entry_address jt i a k = entry_address jt j c l"
  shows "i = j \<and> k = l"
proof -
  let ?L = "unat (jt_length jt)"
  have ij: "i < ?L" "j < ?L" using jump_okD(2) [OF ok] a by blast+
  note E = jump_okD(1) [OF ok]
  have off: "entry_address jt p q r \<notin> span (jt_entries jt) ?L" if "m p = Some q" "q \<noteq> None" "r < entry_count q" for p q r
    using disjointD [OF jump_okD(3) [OF ok, rule_format, of p]] entry_address_region [OF that(2,3)] that(1) by metis
  consider "a = None" "c = None" | "a = None" "c \<noteq> None" | "a \<noteq> None" "c = None" | "a \<noteq> None" "c \<noteq> None" by blast
  then show ?thesis
  proof cases
    case 1
    then show ?thesis using eq k slot_inject [OF E ij] by simp
  next
    case 2
    then show ?thesis using off [OF a(2) _ k(2)] eq slot_in_span [OF ij(1), of "jt_entries jt"] by simp
  next
    case 3
    then show ?thesis using off [OF a(1) _ k(1)] eq slot_in_span [OF ij(2), of "jt_entries jt"] by simp
  next
    case 4
    have "i = j"
    proof (rule ccontr)
      assume "i \<noteq> j"
      note dis = jump_okD(4) [OF ok, rule_format, OF this]
      then show False using disjointD [OF dis, of "entry_address jt i a k"] entry_address_region [OF 4(1) k(1)]
          entry_address_region [OF 4(2) k(2)] a eq by metis
    qed
    then obtain b n where bn: "a = Some (b, n)" "c = Some (b, n)" using 4 a by (cases a) auto
    have "fits b n" using jump_okD(5) [OF ok, rule_format, OF a(1)] bn by simp
    then show ?thesis using slot_inject [of b n k l] eq k bn \<open>i = j\<close> by simp
  qed
qed

lemma closure_block_field:
  assumes "closure_block mem b n" "mem x = Some e"
  shows "closure_block (mem(x \<mapsto> e\<lparr>jump_field := v\<rparr>)) b n"
proof -
  have [simp]: "is_NativeMethod_stub (e\<lparr>jump_field := v\<rparr>) = is_NativeMethod_stub e"
    "is_block_closure_stub (e\<lparr>jump_field := v\<rparr>) = is_block_closure_stub e"
    by (simp_all add: is_NativeMethod_stub_def is_block_closure_stub_def)
  show ?thesis using assms unfolding closure_block_def by fastforce
qed

lemma set_destination_ok:
  assumes ok: "jump_ok jt m fs" and a: "m i = Some a" and k: "k < entry_count a"
  shows "\<exists>mem. set_destination (entry_address jt i a k) dest (jt_memory jt) = ret mem \<and>
    jump_ok (jt\<lparr>jt_memory := mem\<rparr>) m fs \<and>
    (\<forall>x. x \<noteq> entry_address jt i a k \<longrightarrow> mem x = jt_memory jt x)"
proof -
  let ?x = "entry_address jt i a k"
  have i: "i < unat (jt_length jt)" using jump_okD(2) [OF ok] a by blast
  obtain e where e: "jt_memory jt ?x = Some e" using at_ok(2,3) [OF ok a k] by (cases "k = 0") auto
  define mem where "mem = (jt_memory jt)(?x \<mapsto> e\<lparr>jump_field := dest - state_addr ?x\<rparr>)"
  have run: "set_destination ?x dest (jt_memory jt) = ret mem"
    using e by (simp add: set_destination_def entry_at_def mem_def)
  have frame: "mem x = jt_memory jt x" if "x \<noteq> ?x" for x using that by (simp add: mem_def)
  have out: "?x \<noteq> slot (jt_entries jt) j" if "j < unat (jt_length jt)" "a \<noteq> None" for j
    using disjointD [OF jump_okD(3) [OF ok, rule_format, of i]] entry_address_region [OF that(2) k] a
      slot_in_span [OF that(1), of "jt_entries jt"] by metis
  have holds: "alloc_holds mem (slot (jt_entries jt) i) a"
  proof (cases a)
    case None
    then show ?thesis using at_ok(2) [OF ok a, of 0] e k by (simp add: mem_def is_NativeMethod_stub_def)
  next
    case (Some bn)
    then obtain b n where bn: "a = Some (b, n)" by (cases bn) auto
    note h = jump_okD(5) [OF ok, rule_format, OF a]
    have "closure_block mem b n"
      using h bn unfolding mem_def by (intro closure_block_field e) simp
    moreover have "mem (slot (jt_entries jt) i) = jt_memory jt (slot (jt_entries jt) i)"
      using out [OF i] bn by (intro frame) auto
    ultimately show ?thesis using h bn by simp
  qed
  have keep: "mem (slot (jt_entries jt) j) = jt_memory jt (slot (jt_entries jt) j)" if "j \<in> set fs" for j
  proof (rule frame)
    have j: "j < unat (jt_length jt)" "j \<noteq> i" using that jump_okD(7) [OF ok] a by auto
    show "slot (jt_entries jt) j \<noteq> ?x"
    proof (cases "a = None")
      case True
      then show ?thesis using slot_inject [OF jump_okD(1) [OF ok] j(1) i] j(2) by simp
    qed (use out [OF j(1)] in metis)
  qed
  have same: "m(i := m i) = m" by simp
  have "jump_ok (jt\<lparr>jt_memory := mem, firstFree := firstFree jt, usedIDs := usedIDs jt\<rparr>) (m(i := m i)) fs"
  proof (rule jump_ok_update [OF ok i])
    show "free_list mem (jt_entries jt) (unat (jt_length jt)) (firstFree jt) fs"
      using jump_okD(6) [OF ok] free_list_cong [of fs mem "jt_entries jt" "jt_memory jt"] keep by simp
    show "mem x = jt_memory jt x" if "x \<noteq> slot (jt_entries jt) i" "x \<notin> region (m i)" for x
      using that entry_address_region [OF _ k] a by (intro frame) (cases a; auto)
    show "region (m i) \<inter> region (m j) = {}" if "j \<noteq> i" for j
      using jump_okD(4) [OF ok, rule_format, of i j] that by simp
    show "region (m i) \<inter> span (jt_entries jt) (unat (jt_length jt)) = {}"
      using jump_okD(3) [OF ok] by blast
  qed (use jump_okD(7,8,9) [OF ok] same holds a in auto)
  then show ?thesis using run frame unfolding same by (intro exI [of _ mem]) simp
qed
section \<open>Histories of the table\<close>

text \<open>
  An allocation names the identifier it takes, which is the first free one; a change of
  destination names the entry \<open>k\<close> of an identifier.
\<close>

datatype jump_op =
    Jump_allocate "32 word" nat "32 word" nat
  | Jump_free "32 word \<Rightarrow> nat" nat
  | Jump_set_destination jump_id "32 word"

fun jump_step :: "jump_op \<Rightarrow> jump_table \<Rightarrow> jump_table run" where
  "jump_step (Jump_allocate cbe n block i) jt = bindR (JumpTable_allocate cbe n block jt) (\<lambda>(_, jt). ret jt)"
| "jump_step (Jump_free blocks i) jt = freeID blocks (of_nat i) jt"
| "jump_step (Jump_set_destination jid dest) jt = bindR (JumpTable_at jt jid) (\<lambda>a.
     bindR (set_destination a dest (jt_memory jt)) (\<lambda>mem. ret (jt\<lparr>jt_memory := mem\<rparr>)))"

fun jump_legal :: "jump_op \<Rightarrow> jump_table \<Rightarrow> jump_map \<Rightarrow> bool" where
  "jump_legal (Jump_allocate cbe n block i) jt m \<longleftrightarrow> fresh_block jt block n \<and>
     card (dom m) + 2 < unat (jt_length jt) \<and> unat (peekID jt) = i"
| "jump_legal (Jump_free blocks i) jt m \<longleftrightarrow>
     (\<exists>a. m i = Some a \<and> (\<forall>b n. a = Some (b, n) \<longrightarrow> blocks b = n))"
| "jump_legal (Jump_set_destination jid dest) jt m \<longleftrightarrow>
     (\<exists>i a k. m i = Some a \<and> k < entry_count a \<and> jid = entry_id i a k)"

fun jump_spec :: "jump_op \<Rightarrow> jump_map \<Rightarrow> jump_map" where
  "jump_spec (Jump_allocate cbe n block i) m = m(i \<mapsto> jump_target n block)"
| "jump_spec (Jump_free blocks i) m = m(i := None)"
| "jump_spec (Jump_set_destination jid dest) m = m"

lemma represents_allocate:
  assumes r: "jump_represents jt m" and fresh: "fresh_block jt block n"
  shows "card (dom m) + 2 < unat (jt_length jt) \<Longrightarrow> m (unat (peekID jt)) = None \<and>
      unat (peekID jt) + 2 < unat (jt_length jt) \<and>
      (\<exists>jt'. JumpTable_allocate cbe n block jt = ret (jump_id_of (unat (peekID jt)) (jump_target n block), jt') \<and>
        jump_represents jt' (m(unat (peekID jt) \<mapsto> jump_target n block)))"
    and "\<not> card (dom m) + 2 < unat (jt_length jt) \<Longrightarrow>
      JumpTable_allocate cbe n block jt = raise (Fatal ''grow not implemented'')"
proof -
  let ?L = "unat (jt_length jt)"
  obtain fs where ok: "jump_ok jt m (fs @ [?L - 2, ?L - 1])" using r by (auto simp: jump_represents_def)
  note L = jump_okD(10,11) [OF ok]
  have dom: "dom m = {..<?L} - set (fs @ [?L - 2, ?L - 1])"
    using jump_okD(2,7) [OF ok] by auto
  have sub: "set (fs @ [?L - 2, ?L - 1]) \<subseteq> {..<?L}" using jump_okD(7) [OF ok] by blast
  then have "card (dom m) = ?L - length (fs @ [?L - 2, ?L - 1])"
    using dom distinct_card [OF jump_okD(8) [OF ok]] by (simp add: card_Diff_subset del: set_append)
  moreover have "length (fs @ [?L - 2, ?L - 1]) \<le> ?L"
    using card_mono [OF _ sub] distinct_card [OF jump_okD(8) [OF ok]] by simp
  ultimately have card: "card (dom m) + length fs + 2 = ?L" by simp
  {
    assume "card (dom m) + 2 < ?L"
    then obtain i "is" where fs: "fs = i # is" using card by (cases fs) auto
    have "i < ?L" "i \<noteq> ?L - 1" "i \<noteq> ?L - 2" using sub jump_okD(8) [OF ok] fs by auto
    then have i: "i + 2 < ?L" by linarith
    have p: "unat (peekID jt) = i"
      using jump_okD(6) [OF ok] fs i L by (simp add: peekID_def unat_of_nat)
    have "m i = None" using dom fs by auto
    moreover obtain jt' where "JumpTable_allocate cbe n block jt = ret (jump_id_of i (jump_target n block), jt')"
      "jump_ok jt' (m(i \<mapsto> jump_target n block)) (is @ [?L - 2, ?L - 1])" "jt_length jt' = jt_length jt"
      using jump_allocate_ok(2) [OF ok fresh _ i] fs by auto
    ultimately show "m (unat (peekID jt)) = None \<and> unat (peekID jt) + 2 < ?L \<and>
      (\<exists>jt'. JumpTable_allocate cbe n block jt = ret (jump_id_of (unat (peekID jt)) (jump_target n block), jt') \<and>
        jump_represents jt' (m(unat (peekID jt) \<mapsto> jump_target n block)))"
      using i unfolding p jump_represents_def by auto
  next
    assume "\<not> card (dom m) + 2 < ?L"
    then have "length fs = 0" using card by linarith
    then have "fs = []" by simp
    then show "JumpTable_allocate cbe n block jt = raise (Fatal ''grow not implemented'')"
      using jump_allocate_ok(1) [OF ok fresh] L(2) by simp
  }
qed

lemma represents_set_destination:
  assumes r: "jump_represents jt m" and a: "m i = Some a" "k < entry_count a"
  shows "\<exists>jt'. jump_step (Jump_set_destination (entry_id i a k) dest) jt = ret jt' \<and> jump_represents jt' m \<and>
    jt_entries jt' = jt_entries jt \<and>
    destination (jt_memory jt') (entry_address jt i a k) = ret dest \<and>
    (\<forall>x. x \<noteq> entry_address jt i a k \<longrightarrow> jt_memory jt' x = jt_memory jt x)"
proof -
  let ?L = "unat (jt_length jt)"
  obtain fs where ok: "jump_ok jt m (fs @ [?L - 2, ?L - 1])" using r by (auto simp: jump_represents_def)
  obtain mem where mem: "set_destination (entry_address jt i a k) dest (jt_memory jt) = ret mem"
    "jump_ok (jt\<lparr>jt_memory := mem\<rparr>) m (fs @ [?L - 2, ?L - 1])"
    "\<forall>x. x \<noteq> entry_address jt i a k \<longrightarrow> mem x = jt_memory jt x"
    using set_destination_ok [OF ok a, of dest] by blast
  show ?thesis
    using at_ok(1) [OF ok a] mem destination_set [OF mem(1)] unfolding jump_represents_def
    by (intro exI [of _ "jt\<lparr>jt_memory := mem\<rparr>"]) auto
qed

lemma represents_free:
  assumes r: "jump_represents jt m" and a: "m i = Some a" "\<And>b n. a = Some (b, n) \<Longrightarrow> blocks b = n"
  shows "\<exists>jt'. freeID blocks (of_nat i) jt = ret jt' \<and> jump_represents jt' (m(i := None))"
proof -
  let ?L = "unat (jt_length jt)"
  obtain fs where ok: "jump_ok jt m (fs @ [?L - 2, ?L - 1])" using r by (auto simp: jump_represents_def)
  obtain jt' where "freeID blocks (of_nat i) jt = ret jt'" "jt_length jt' = jt_length jt"
    "jump_ok jt' (m(i := None)) ((i # fs) @ [?L - 2, ?L - 1])"
    using free_ok [of _ _ _ _ _ blocks, OF ok a] by auto
  then show ?thesis unfolding jump_represents_def by metis
qed

interpretation jt: implements jump_step jump_legal jump_spec jump_represents
proof
  fix jt m c assume r: "jump_represents jt m" and l: "jump_legal c jt m"
  show "\<exists>jt'. jump_step c jt = ret jt' \<and> jump_represents jt' (jump_spec c m)"
  proof (cases c)
    case (Jump_allocate cbe n block i)
    then show ?thesis using represents_allocate(1) [OF r, of block n cbe] l by auto
  next
    case (Jump_free blocks i)
    then show ?thesis using represents_free [OF r] l by auto
  next
    case (Jump_set_destination jid dest)
    then obtain i a k where "m i = Some a" "k < entry_count a" "jid = entry_id i a k" using l by auto
    then show ?thesis using represents_set_destination [OF r, of i a k dest] Jump_set_destination by auto
  qed
qed


text \<open>
  Clearing the zone calls \<^verbatim>\<open>init\<close> again, which rebuilds the links of all entries but leaves the
  head of the free list and the count of used identifiers as they were.
\<close>

lemma JumpTable_init_keeps_free:
  "JumpTable_init jt = ret jt' \<Longrightarrow> firstFree jt' = firstFree jt \<and> usedIDs jt' = usedIDs jt"
  by (auto simp: JumpTable_init_def bindR_eq_ret)

definition free_entry :: "32 word \<Rightarrow> jump_entry" where
  "free_entry f = \<lparr>jump_instr = halt_instruction, jump_field = f, jump_state = unused_entry\<rparr>"

definition sample_jump_table :: jump_table where
  "sample_jump_table = \<lparr>jt_memory = Map.empty(4096 \<mapsto> free_entry 1, 4104 \<mapsto> free_entry 2,
     4112 \<mapsto> free_entry 3, 4120 \<mapsto> free_entry 4), firstFree = 0, jt_entries = 4096, jt_length = 4, usedIDs = 0\<rparr>"

lemma sample_jump_new: "JumpTable_new 4 4096 Map.empty = ret sample_jump_table"
proof -
  have tag0: "isSmallIntegerOop 4096" "isSmallIntegerOop 4104" "isSmallIntegerOop 4112" "isSmallIntegerOop 4120"
    by (simp_all add: small_integer_aligned)
  have upt: "[0..<4] = [0, 1, 2, 3 :: nat]" by (simp add: upt_rec)
  have maj: "major_at jt 0 = jt_entries jt" "major_at jt 1 = jt_entries jt + 8" "major_at jt 2 = jt_entries jt + 16"
    "major_at jt 3 = jt_entries jt + 24" for jt
    by (simp_all add: major_at_def jump_entry_for_at_def jump_entry_size_8)
  show ?thesis
    unfolding JumpTable_new_def JumpTable_init_def allocate_jump_entries_def sample_jump_table_def
    by (simp add: upt maj initialize_as_unused_def fill_entry_def entry_at_def tag0
        jump_entry_for_at_def jump_entry_size_8 free_entry_def fun_eq_iff)
qed


end
