(* ===== verification/LookupCache.thy ===== *)
theory LookupCache
  imports CodeTable JumpTable
begin

text \<open>
  Lookup results and the lookup cache (\<^verbatim>\<open>vm/lookup/LookupResult\<close>, \<^verbatim>\<open>CacheElement\<close>,
  \<^verbatim>\<open>LookupCache\<close>). The cache has a primary array indexed by the hash of the key and a smaller
  secondary array indexed by the primary index; both are lists here. What a miss consults is
  the record \<open>system\<close>: the objects, the code table, the jump-table entry of each native
  method, whether the sweeper runs or a VM operation is active, and the compiler, which is
  a function from a key and a method to the native methods and the code table it leaves and the
  native method it returns, null when it fails; \<open>compile_from_database\<close> stands for the removal
  of a scope from the inlining database, its compilation and the retirement of the native
  method it replaces (whose flush of the key finds nothing after a miss). The theorems are
  about the default of the flag \<^verbatim>\<open>UseInliningDatabaseEagerly\<close>, false. Tracing is output.
\<close>

section \<open>Lookup results\<close>

record lookup_result =
  result_value :: oop

record system =
  methods :: native_methods
  code_table :: code_table
  entry_point_of :: "oop \<Rightarrow> oop"
  method_at_entry :: "oop \<Rightarrow> oop"
  method_of :: "oop \<Rightarrow> oop"
  sweeper_running :: bool
  in_vm_operation :: bool
  CompiledCodeOnly :: bool
  UseInliningDatabase :: bool
  UseInliningDatabaseEagerly :: bool
  theCompiler :: bool
  in_inlining_database :: "lookup_key \<Rightarrow> bool"
  compile_from_database :: "lookup_key \<Rightarrow> native_methods \<Rightarrow> code_table \<Rightarrow> native_methods \<times> code_table \<times> oop"
  optimize :: "lookup_key \<Rightarrow> oop \<Rightarrow> native_methods \<Rightarrow> code_table \<Rightarrow> native_methods \<times> code_table \<times> oop"

definition result_clear :: "lookup_result \<Rightarrow> lookup_result" where
  "result_clear r = r\<lparr>result_value := 0\<rparr>"

definition no_result :: lookup_result where
  "no_result = result_clear \<lparr>result_value = 0\<rparr>"

definition result_is_empty :: "lookup_result \<Rightarrow> bool" where
  "result_is_empty r \<longleftrightarrow> result_value r = 0"

definition result_is_method :: "lookup_result \<Rightarrow> bool" where
  "result_is_method r \<longleftrightarrow> isMemOop (result_value r)"

definition result_is_entry :: "lookup_result \<Rightarrow> bool" where
  "result_is_entry r \<longleftrightarrow> \<not> result_is_method r"

definition set_method :: "system \<Rightarrow> oop \<Rightarrow> lookup_result \<Rightarrow> lookup_result run" where
  "set_method sys m r =
     bindR (guard (is_method (methods sys) m) ''must be method'') (\<lambda>_. ret (r\<lparr>result_value := m\<rparr>))"

definition set_nativeMethod :: "system \<Rightarrow> oop \<Rightarrow> lookup_result \<Rightarrow> lookup_result run" where
  "set_nativeMethod sys nm r =
     bindR (guard (isSmallIntegerOop nm) ''NativeMethod must be aligned'')
       (\<lambda>_. ret (r\<lparr>result_value := entry_point_of sys nm\<rparr>))"

definition LookupResult_method :: "system \<Rightarrow> oop \<Rightarrow> lookup_result run" where
  "LookupResult_method sys m = set_method sys m \<lparr>result_value = 0\<rparr>"

definition LookupResult_nativeMethod :: "system \<Rightarrow> oop \<Rightarrow> lookup_result run" where
  "LookupResult_nativeMethod sys nm = set_nativeMethod sys nm \<lparr>result_value = 0\<rparr>"

definition result_entry :: "lookup_result \<Rightarrow> oop run" where
  "result_entry r = bindR (guard (\<not> result_is_empty r) ''cannot be empty'')
     (\<lambda>_. ret (if result_is_entry r then result_value r else 0))"

definition get_nativeMethod :: "system \<Rightarrow> lookup_result \<Rightarrow> oop run" where
  "get_nativeMethod sys r =
     bindR (result_entry r) (\<lambda>e. ret (if e \<noteq> 0 then method_at_entry sys e else 0))"

definition result_method :: "system \<Rightarrow> lookup_result \<Rightarrow> oop run" where
  "result_method sys r = bindR (guard (\<not> result_is_empty r) ''cannot be empty'') (\<lambda>_.
     if result_is_method r then ret (result_value r)
     else bindR (get_nativeMethod sys r) (\<lambda>nm. ret (method_of sys nm)))"

definition method_or_null :: "system \<Rightarrow> lookup_result \<Rightarrow> oop run" where
  "method_or_null sys r =
     (if result_is_empty r then ret 0
      else if result_is_method r then ret (result_value r)
      else bindR (get_nativeMethod sys r) (\<lambda>nm. ret (method_of sys nm)))"

definition matches_method :: "system \<Rightarrow> oop \<Rightarrow> lookup_result \<Rightarrow> bool run" where
  "matches_method sys m r =
     (if result_is_empty r then ret False
      else if result_is_method r then bindR (result_method sys r) (\<lambda>x. ret (x = m))
      else ret False)"

definition matches_nativeMethod :: "system \<Rightarrow> oop \<Rightarrow> lookup_result \<Rightarrow> bool run" where
  "matches_nativeMethod sys nm r =
     (if result_is_empty r then ret False
      else if result_is_entry r
      then bindR (result_entry r) (\<lambda>e. ret (method_at_entry sys e = nm))
      else ret False)"

section \<open>The cache\<close>

record cache_element =
  elem_key :: lookup_key
  elem_result :: lookup_result

definition elem_clear :: "cache_element \<Rightarrow> cache_element" where
  "elem_clear e = e\<lparr>elem_key := key_initialize 0 0 (elem_key e), elem_result := result_clear (elem_result e)\<rparr>"

definition elem_initialize :: "lookup_key \<Rightarrow> lookup_result \<Rightarrow> cache_element \<Rightarrow> cache_element" where
  "elem_initialize k r e = e\<lparr>elem_key := k, elem_result := r\<rparr>"

definition elem_verify :: "system \<Rightarrow> cache_element \<Rightarrow> unit run" where
  "elem_verify sys e =
     (if key_klass (elem_key e) \<noteq> 0 \<or> selector_or_method (elem_key e) \<noteq> 0 then
        if result_is_empty (elem_result e) then raise (Fatal ''LookupCache verify failed'')
        else bindR (CodeTable_lookup (methods sys) (code_table sys) (elem_key e)) (\<lambda>nm.
          if result_is_method (elem_result e) \<and> nm \<noteq> 0
          then raise (Fatal ''has interpreted method in lookupTable but should have NativeMethod'')
          else bindR
            (if result_is_entry (elem_result e) then
               bindR (get_nativeMethod sys (elem_result e)) (\<lambda>x.
                 if x \<noteq> nm then raise (Fatal ''NativeMethod does not match codeTable NativeMethod'')
                 else ret ())
             else ret ()) (\<lambda>_.
            if UseInliningDatabaseEagerly sys \<and> result_is_method (elem_result e) \<and>
               in_inlining_database sys (elem_key e)
            then raise (Fatal ''interpreted method in lookupTable despite inlining DB entry'')
            else ret ()))
      else ret ())"

record lookup_cache =
  primary :: "cache_element list"
  secondary :: "cache_element list"
  number_of_primary_hits :: int
  number_of_secondary_hits :: int
  number_of_misses :: int

definition primary_cache_size :: nat where
  "primary_cache_size = 16 * 1024"

definition secondary_cache_size :: nat where
  "secondary_cache_size = 2 * 1024"

definition sizeof_CacheElement :: "32 word" where
  "sizeof_CacheElement = 16"

definition hash_value :: "lookup_key \<Rightarrow> 32 word" where
  "hash_value key = (key_klass key XOR selector_or_method key) div sizeof_CacheElement"

definition primary_index :: "lookup_key \<Rightarrow> nat" where
  "primary_index key = unat (hash_value key) mod primary_cache_size"

definition secondary_index :: "lookup_key \<Rightarrow> nat" where
  "secondary_index key = primary_index key mod secondary_cache_size"

definition clear_statistics :: "lookup_cache \<Rightarrow> lookup_cache" where
  "clear_statistics lc = lc\<lparr>number_of_primary_hits := 0, number_of_secondary_hits := 0, number_of_misses := 0\<rparr>"

definition flush_all :: "lookup_cache \<Rightarrow> lookup_cache" where
  "flush_all lc =
     lc\<lparr>primary := map elem_clear (primary lc), secondary := map elem_clear (secondary lc),
       number_of_primary_hits := 0, number_of_secondary_hits := 0, number_of_misses := 0\<rparr>"

definition flush :: "lookup_key \<Rightarrow> lookup_cache \<Rightarrow> lookup_cache" where
  "flush key lc =
     (let p = primary_index key; s = secondary_index key in
      if key_equal (elem_key (primary lc ! p)) key then
        lc\<lparr>primary := (primary lc)[p := secondary lc ! s],
           secondary := (secondary lc)[s := elem_clear (secondary lc ! s)]\<rparr>
      else if key_equal (elem_key (secondary lc ! s)) key then
        lc\<lparr>secondary := (secondary lc)[s := elem_clear (secondary lc ! s)]\<rparr>
      else lc)"

definition swap_elements :: "nat \<Rightarrow> nat \<Rightarrow> lookup_cache \<Rightarrow> lookup_cache" where
  "swap_elements p s lc =
     lc\<lparr>primary := (primary lc)[p := secondary lc ! s], secondary := (secondary lc)[s := primary lc ! p]\<rparr>"

definition lookup_probe :: "system \<Rightarrow> lookup_key \<Rightarrow> lookup_cache \<Rightarrow> (lookup_result \<times> lookup_cache) run" where
  "lookup_probe sys key lc =
     bindR (guard (key_verify (methods sys) key) ''Lookupkey: verify failed'') (\<lambda>_.
       let p = primary_index key; s = secondary_index key in
       if key_equal (elem_key (primary lc ! p)) key then ret (elem_result (primary lc ! p), lc)
       else if key_equal (elem_key (secondary lc ! s)) key then
         (let lc = swap_elements p s lc in ret (elem_result (primary lc ! p), lc))
       else ret (no_result, lc))"

definition compile_method :: "lookup_key \<Rightarrow> oop \<Rightarrow> system \<Rightarrow> (oop \<times> system) run" where
  "compile_method key m sys =
     (if \<not> in_vm_operation sys then
        (let (ob, ct, nm) = optimize sys key m (methods sys) (code_table sys);
            sys = sys\<lparr>methods := ob, code_table := ct\<rparr> in
         bindR (guard (nm \<noteq> 0) ''NativeMethod must be there'') (\<lambda>_.
         bindR (CodeTable_lookup (methods sys) (code_table sys) key) (\<lambda>found.
         bindR (guard (found \<noteq> 0) ''NativeMethod must be there'') (\<lambda>_. ret (nm, sys)))))
      else ret (0, sys))"

definition database_compile :: "lookup_key \<Rightarrow> bool \<Rightarrow> system \<Rightarrow> oop \<times> system" where
  "database_compile key compile sys =
     (if UseInliningDatabase sys \<and> UseInliningDatabaseEagerly sys \<and> compile \<and> in_inlining_database sys key then
        (let (ob, ct, nm) = compile_from_database sys key (methods sys) (code_table sys)
         in (nm, sys\<lparr>methods := ob, code_table := ct\<rparr>))
      else (0, sys))"

definition cache_miss_lookup :: "lookup_key \<Rightarrow> bool \<Rightarrow> system \<Rightarrow> (lookup_result \<times> system) run" where
  "cache_miss_lookup key compile sys =
     (let compile = (if compile \<and> sweeper_running sys then False else compile);
          (found, sys) = database_compile key compile sys in
      if found \<noteq> 0 then bindR (LookupResult_nativeMethod sys found) (\<lambda>r. ret (r, sys)) else
      bindR (CodeTable_lookup (methods sys) (code_table sys) key) (\<lambda>nm.
        if nm \<noteq> 0 then bindR (LookupResult_nativeMethod sys nm) (\<lambda>r. ret (r, sys))
        else
          bindR (if is_normal_type (methods sys) key
                 then bindR (key_selector (methods sys) key) (\<lambda>s.
                   ret (klass_lookup (methods sys) (key_klass key) s))
                 else key_method (methods sys) key) (\<lambda>method.
            if method = 0 then ret (no_result, sys)
            else
              bindR (if CompiledCodeOnly sys \<and> compile then compile_method key method sys
                     else ret (0, sys)) (\<lambda>(nm, sys).
                if nm \<noteq> 0 then bindR (LookupResult_nativeMethod sys nm) (\<lambda>r. ret (r, sys))
                else bindR (LookupResult_method sys method) (\<lambda>r. ret (r, sys))))))"

definition cache_lookup ::
  "lookup_key \<Rightarrow> bool \<Rightarrow> system \<Rightarrow> lookup_cache \<Rightarrow> (lookup_result \<times> system \<times> lookup_cache) run" where
  "cache_lookup key compile sys lc =
     bindR (guard (key_verify (methods sys) key) ''Lookupkey: verify failed'') (\<lambda>_.
       let p = primary_index key; s = secondary_index key in
       if key_equal (elem_key (primary lc ! p)) key then
         ret (elem_result (primary lc ! p), sys,
           lc\<lparr>number_of_primary_hits := number_of_primary_hits lc + 1\<rparr>)
       else if key_equal (elem_key (secondary lc ! s)) key then
         (let lc = swap_elements p s (lc\<lparr>number_of_secondary_hits := number_of_secondary_hits lc + 1\<rparr>)
          in ret (elem_result (primary lc ! p), sys, lc))
       else
         (let lc = lc\<lparr>number_of_misses := number_of_misses lc + 1\<rparr> in
          bindR (cache_miss_lookup key compile sys) (\<lambda>(r, sys).
            if \<not> result_is_empty r then
              if UseInliningDatabaseEagerly sys \<and> result_is_method r \<and> in_inlining_database sys key
              then bindR (guard (theCompiler sys) ''should only happen during compilation'') (\<lambda>_. ret (r, sys, lc))
              else (let lc = lc\<lparr>secondary := (secondary lc)[s := primary lc ! p]\<rparr>;
                   lc = lc\<lparr>primary := (primary lc)[p := elem_initialize key r (primary lc ! p)]\<rparr>
               in bindR (elem_verify sys (primary lc ! p)) (\<lambda>_. ret (r, sys, lc)))
            else ret (r, sys, lc))))"

definition ic_lookup ::
  "oop \<Rightarrow> oop \<Rightarrow> system \<Rightarrow> lookup_cache \<Rightarrow> (lookup_result \<times> system \<times> lookup_cache) run" where
  "ic_lookup receiver_klass sm sys lc = cache_lookup (LookupKey receiver_klass sm) True sys lc"

definition ic_normal_lookup ::
  "oop \<Rightarrow> oop \<Rightarrow> system \<Rightarrow> lookup_cache \<Rightarrow> (lookup_result \<times> system \<times> lookup_cache) run" where
  "ic_normal_lookup receiver_klass selector sys lc = ic_lookup receiver_klass selector sys lc"

definition method_lookup :: "oop \<Rightarrow> oop \<Rightarrow> system \<Rightarrow> oop run" where
  "method_lookup receiver_klass selector sys =
     (let key = LookupKey receiver_klass selector in
      bindR (key_selector (methods sys) key) (\<lambda>s. ret (klass_lookup (methods sys) (key_klass key) s)))"

definition ic_super_lookup ::
  "oop \<Rightarrow> oop \<Rightarrow> oop \<Rightarrow> system \<Rightarrow> lookup_cache \<Rightarrow> (lookup_result \<times> system \<times> lookup_cache) run" where
  "ic_super_lookup receiver_klass super selector sys lc =
     bindR (method_lookup super selector sys) (\<lambda>m. ic_lookup receiver_klass m sys lc)"

definition compile_time_normal_lookup ::
  "oop \<Rightarrow> oop \<Rightarrow> system \<Rightarrow> lookup_cache \<Rightarrow> (oop \<times> system \<times> lookup_cache) run" where
  "compile_time_normal_lookup receiver_klass selector sys lc =
     bindR (cache_lookup (LookupKey receiver_klass selector) False sys lc) (\<lambda>(r, sys, lc).
       bindR (method_or_null sys r) (\<lambda>m. ret (m, sys, lc)))"

definition compile_time_super_lookup ::
  "oop \<Rightarrow> oop \<Rightarrow> system \<Rightarrow> lookup_cache \<Rightarrow> (oop \<times> system \<times> lookup_cache) run" where
  "compile_time_super_lookup receiver_klass selector sys lc =
     bindR (method_lookup (superKlass (methods sys) receiver_klass) selector sys) (\<lambda>m.
       if m = 0 then ret (0, sys, lc)
       else bindR (cache_lookup (LookupKey receiver_klass m) False sys lc) (\<lambda>(r, sys, lc).
         bindR (method_or_null sys r) (\<lambda>m. ret (m, sys, lc))))"

definition interpreter_normal_lookup ::
  "oop \<Rightarrow> oop \<Rightarrow> system \<Rightarrow> lookup_cache \<Rightarrow> (lookup_result \<times> system \<times> lookup_cache) run" where
  "interpreter_normal_lookup receiver_klass selector sys lc =
     cache_lookup (LookupKey receiver_klass selector) True sys lc"

text \<open>\<open>holder\<close> is the class that holds the sending method, found from the interpreter's frame.\<close>

definition interpreter_super_lookup :: "oop \<Rightarrow> oop \<Rightarrow> system \<Rightarrow> lookup_result run" where
  "interpreter_super_lookup holder selector sys =
     (if holder = 0 then raise (Fatal ''sending method holder not found'')
      else bindR (method_lookup (superKlass (methods sys) holder) selector sys) (\<lambda>m.
        LookupResult_method sys m))"

definition lookup_key_lookup ::
  "lookup_key \<Rightarrow> system \<Rightarrow> lookup_cache \<Rightarrow> (lookup_result \<times> system \<times> lookup_cache) run" where
  "lookup_key_lookup key sys lc = ic_lookup (key_klass key) (selector_or_method key) sys lc"

definition normal_lookup ::
  "oop \<Rightarrow> oop \<Rightarrow> system \<Rightarrow> lookup_cache \<Rightarrow> (oop \<times> system \<times> lookup_cache) run" where
  "normal_lookup receiver_klass selector sys lc =
     bindR (ic_normal_lookup receiver_klass selector sys lc) (\<lambda>(r, sys, lc).
       bindR (guard (result_value r \<noteq> 0) ''message not understood not implemented yet for compiled code'')
         (\<lambda>_. ret (result_value r, sys, lc)))"

fun verify_elements :: "system \<Rightarrow> cache_element list \<Rightarrow> unit run" where
  "verify_elements sys [] = ret ()"
| "verify_elements sys (e # es) = bindR (elem_verify sys e) (\<lambda>_. verify_elements sys es)"

definition cache_verify :: "system \<Rightarrow> lookup_cache \<Rightarrow> unit run" where
  "cache_verify sys lc =
     bindR (verify_elements sys (primary lc)) (\<lambda>_. verify_elements sys (secondary lc))"

section \<open>What a lookup without the cache answers\<close>

definition answer :: "system \<Rightarrow> (lookup_key \<Rightarrow> oop option) \<Rightarrow> lookup_key \<Rightarrow> oop" where
  "answer sys m key = (case m key of
       Some nm \<Rightarrow> entry_point_of sys nm
     | None \<Rightarrow> if is_normal_type (methods sys) key
               then klass_lookup (methods sys) (key_klass key) (selector_or_method key)
               else selector_or_method key)"

text \<open>
  What the lookup relies on: the entry point of a native method is an aligned address that
  leads back to it, a class lookup answers null or a method, methods are tagged, and the
  compiler, unless it fails, enters what it compiles for a key under that key alone.
\<close>

definition entry_ok :: "system \<Rightarrow> oop \<Rightarrow> bool" where
  "entry_ok sys nm \<longleftrightarrow> entry_point_of sys nm \<noteq> 0 \<and> isSmallIntegerOop (entry_point_of sys nm) \<and>
     method_at_entry sys (entry_point_of sys nm) = nm"

definition compiler_ok :: "system \<Rightarrow> bool" where
  "compiler_ok sys \<longleftrightarrow> (\<forall>ob ct m key meth ob' ct' nm. table_represents ob ct m \<longrightarrow> m key = None \<longrightarrow>
     optimize sys key meth ob ct = (ob', ct', nm) \<longrightarrow> nm \<noteq> 0 \<longrightarrow>
     (\<exists>g. ob' = ob\<lparr>lookupKey_of := g\<rparr>) \<and> table_represents ob' ct' (m(key \<mapsto> nm)) \<and> entry_ok sys nm)"

definition compiler_returns :: "system \<Rightarrow> bool \<Rightarrow> lookup_key \<Rightarrow> bool" where
  "compiler_returns sys c key \<longleftrightarrow> (CompiledCodeOnly sys \<and> c \<and> \<not> sweeper_running sys \<and> \<not> in_vm_operation sys \<longrightarrow>
     (\<forall>meth. snd (snd (optimize sys key meth (methods sys) (code_table sys))) \<noteq> 0))"

definition same_but_code :: "system \<Rightarrow> system \<Rightarrow> bool" where
  "same_but_code sys sys' \<longleftrightarrow>
     (\<exists>g ct. sys' = sys\<lparr>methods := (methods sys)\<lparr>lookupKey_of := g\<rparr>, code_table := ct\<rparr>)"

definition system_ok :: "system \<Rightarrow> (lookup_key \<Rightarrow> oop option) \<Rightarrow> bool" where
  "system_ok sys m \<longleftrightarrow> table_represents (methods sys) (code_table sys) m \<and>
     (\<forall>L nm. m L = Some nm \<longrightarrow> entry_ok sys nm) \<and>
     (\<forall>k s. klass_lookup (methods sys) k s \<noteq> 0 \<longrightarrow> is_method (methods sys) (klass_lookup (methods sys) k s)) \<and>
     (\<forall>x. is_method (methods sys) x \<longrightarrow> isMemOop x) \<and>
     \<not> is_klass (methods sys) 0 \<and> \<not> UseInliningDatabaseEagerly sys \<and> compiler_ok sys"

lemma tags_differ: "isMemOop x \<Longrightarrow> x \<noteq> 0" "isSmallIntegerOop x \<Longrightarrow> \<not> isMemOop x"
  by (auto simp: isMemOop_def isSmallIntegerOop_def tag_take MEMOOP_TAG_def INTEGER_TAG_def)

lemma system_okD:
  assumes "system_ok sys m"
  shows "table_represents (methods sys) (code_table sys) m" "m L = Some nm \<Longrightarrow> entry_ok sys nm"
    "klass_lookup (methods sys) k s \<noteq> 0 \<Longrightarrow> is_method (methods sys) (klass_lookup (methods sys) k s)"
    "is_method (methods sys) x \<Longrightarrow> isMemOop x" "\<not> is_klass (methods sys) 0" "compiler_ok sys"
    "\<not> UseInliningDatabaseEagerly sys"
  using assms unfolding system_ok_def by simp_all

lemma answer_method:
  assumes "system_ok sys m" "m key = None" "answer sys m key \<noteq> 0"
  shows "is_method (methods sys) (answer sys m key)" "isMemOop (answer sys m key)"
proof -
  show "is_method (methods sys) (answer sys m key)"
    using assms system_okD(3) [OF assms(1)]
    by (auto simp: answer_def is_normal_type_def split: if_splits)
  then show "isMemOop (answer sys m key)" by (rule system_okD(4) [OF assms(1)])
qed

lemma result_method_ok:
  "is_method (methods sys) x \<Longrightarrow> LookupResult_method sys x = ret \<lparr>result_value = x\<rparr>"
  by (simp add: LookupResult_method_def set_method_def)

lemma result_nativeMethod_ok:
  "table_represents (methods sys) ct m \<Longrightarrow> m L = Some nm \<Longrightarrow>
    LookupResult_nativeMethod sys nm = ret \<lparr>result_value = entry_point_of sys nm\<rparr>"
  using represents_Some(2) [of "methods sys" ct m L nm]
  by (simp add: LookupResult_nativeMethod_def set_nativeMethod_def small_integer_aligned)

definition compiles :: "system \<Rightarrow> bool \<Rightarrow> bool" where
  "compiles sys c \<longleftrightarrow> CompiledCodeOnly sys \<and> c \<and> \<not> sweeper_running sys \<and> \<not> in_vm_operation sys"

lemma same_but_code_refl [simp]: "same_but_code sys sys"
  unfolding same_but_code_def
  by (rule exI [of _ "lookupKey_of (methods sys)"], rule exI [of _ "code_table sys"]) simp

lemma answer_same: "same_but_code sys sys' \<Longrightarrow> m' k = m k \<Longrightarrow> answer sys' m' k = answer sys m k"
  by (elim same_but_code_def [THEN iffD1, elim_format] exE)
    (simp add: answer_def is_normal_type_def split: option.split)

lemma compiles_returns: "compiler_returns sys c key \<Longrightarrow> compiles sys c \<Longrightarrow>
    optimize sys key meth (methods sys) (code_table sys) = (ob, ct, nm) \<Longrightarrow> nm \<noteq> 0"
  by (auto simp: compiler_returns_def compiles_def) (metis snd_conv)

lemma miss_ok:
  assumes ok: "system_ok sys m" and cr: "compiler_returns sys c key"
  shows "\<exists>sys' m'. cache_miss_lookup key c sys = ret (\<lparr>result_value = answer sys' m' key\<rparr>, sys') \<and>
    system_ok sys' m' \<and> same_but_code sys sys' \<and>
    (if m key = None \<and> answer sys m key \<noteq> 0 \<and> compiles sys c then \<exists>nm. m' = m(key \<mapsto> nm) else m' = m \<and> sys' = sys)"
proof -
  note r = system_okD(1) [OF ok]
  have db: "database_compile key b sys = (0, sys)" for b
    using system_okD(7) [OF ok] by (simp add: database_compile_def)
  have found: "CodeTable_lookup (methods sys) (code_table sys) key = ret (case m key of None \<Rightarrow> 0 | Some nm \<Rightarrow> nm)"
    by (rule represents_lookup [OF r])
  show ?thesis
  proof (cases "m key")
    case (Some nm)
    have "nm \<noteq> 0" using represents_Some(1) [OF r Some] .
    then have "cache_miss_lookup key c sys = ret (\<lparr>result_value = answer sys m key\<rparr>, sys)"
      using found result_nativeMethod_ok [OF r Some] Some by (simp add: cache_miss_lookup_def answer_def db)
    then show ?thesis using ok Some by (intro exI [of _ sys] exI [of _ m]) auto
  next
    case None
    have meth: "(if is_normal_type (methods sys) key
        then bindR (key_selector (methods sys) key) (\<lambda>s. ret (klass_lookup (methods sys) (key_klass key) s))
        else key_method (methods sys) key) = ret (answer sys m key)"
      using None by (simp add: answer_def key_selector_def key_method_def is_normal_type_def)
    show ?thesis
    proof (cases "answer sys m key \<noteq> 0 \<and> compiles sys c")
      case False
      have "cache_miss_lookup key c sys = ret (\<lparr>result_value = answer sys m key\<rparr>, sys)"
        using found None meth False result_method_ok [OF answer_method(1) [OF ok None]]
        by (auto simp: cache_miss_lookup_def no_result_def result_clear_def compiles_def compile_method_def Let_def db)
      then show ?thesis using ok None False by (intro exI [of _ sys] exI [of _ m]) auto
    next
      case True
      obtain ob ct nm where opt: "optimize sys key (answer sys m key) (methods sys) (code_table sys) = (ob, ct, nm)"
        by (metis prod_cases3)
      have nm: "nm \<noteq> 0" using compiles_returns [OF cr _ opt] True by simp
      let ?sys = "sys\<lparr>methods := ob, code_table := ct\<rparr>" and ?m = "m(key \<mapsto> nm)"
      obtain g where ob: "ob = (methods sys)\<lparr>lookupKey_of := g\<rparr>" and r': "table_represents ob ct ?m"
        and e: "entry_ok sys nm"
        using system_okD(6) [OF ok, unfolded compiler_ok_def, rule_format, OF r None opt nm] by blast
      have "CodeTable_lookup ob ct key = ret nm" using represents_lookup [OF r', of key] by simp
      then have comp: "compile_method key (answer sys m key) sys = ret (nm, ?sys)"
        using True opt nm by (simp add: compile_method_def compiles_def)
      have "LookupResult_nativeMethod ?sys nm = ret \<lparr>result_value = answer ?sys ?m key\<rparr>"
        using result_nativeMethod_ok [of ?sys ct ?m key nm] r' by (simp add: answer_def)
      then have "cache_miss_lookup key c sys = ret (\<lparr>result_value = answer ?sys ?m key\<rparr>, ?sys)"
        using found None meth True comp nm by (simp add: cache_miss_lookup_def compiles_def Let_def db)
      moreover have "same_but_code sys ?sys" using ob by (auto simp: same_but_code_def)
      moreover have "system_ok ?sys ?m"
        using ok r' e ob unfolding system_ok_def compiler_ok_def entry_ok_def by simp
      ultimately show ?thesis using None True by (intro exI [of _ ?sys] exI [of _ ?m]) auto
    qed
  qed
qed
section \<open>Coherence\<close>

text \<open>
  An element is empty or holds a key, with the answer for it. In a coherent cache the key
  moreover stands at its own index and is not in both of its places. Lookups keep a cache
  coherent; a flush of one key keeps the answers right but may leave a key at a foreign index.
\<close>

definition elem_right :: "(lookup_key \<Rightarrow> oop) \<Rightarrow> cache_element \<Rightarrow> bool" where
  "elem_right A e \<longleftrightarrow> elem_key e = no_key \<or>
     A (elem_key e) \<noteq> 0 \<and> elem_result e = \<lparr>result_value = A (elem_key e)\<rparr>"

definition cache_sized :: "lookup_cache \<Rightarrow> bool" where
  "cache_sized lc \<longleftrightarrow> length (primary lc) = primary_cache_size \<and> length (secondary lc) = secondary_cache_size"

definition answers_right :: "(lookup_key \<Rightarrow> oop) \<Rightarrow> lookup_cache \<Rightarrow> bool" where
  "answers_right A lc \<longleftrightarrow> cache_sized lc \<and> (\<forall>e \<in> set (primary lc) \<union> set (secondary lc). elem_right A e)"

definition coherent :: "(lookup_key \<Rightarrow> oop) \<Rightarrow> lookup_cache \<Rightarrow> bool" where
  "coherent A lc \<longleftrightarrow> answers_right A lc \<and>
     (\<forall>p < primary_cache_size. elem_key (primary lc ! p) = no_key \<or> primary_index (elem_key (primary lc ! p)) = p) \<and>
     (\<forall>s < secondary_cache_size. elem_key (secondary lc ! s) = no_key \<or>
        secondary_index (elem_key (secondary lc ! s)) = s \<and>
        elem_key (primary lc ! primary_index (elem_key (secondary lc ! s))) \<noteq> elem_key (secondary lc ! s))"

lemma index_less [simp]: "primary_index key < primary_cache_size" "secondary_index key < secondary_cache_size"
  by (simp_all add: primary_index_def secondary_index_def primary_cache_size_def secondary_cache_size_def)

lemma answers_rightD:
  assumes "answers_right A lc"
  shows "length (primary lc) = primary_cache_size" "length (secondary lc) = secondary_cache_size"
    "p < primary_cache_size \<Longrightarrow> elem_right A (primary lc ! p)"
    "s < secondary_cache_size \<Longrightarrow> elem_right A (secondary lc ! s)"
  using assms by (auto simp: answers_right_def cache_sized_def)

lemma coherentD:
  assumes "coherent A lc"
  shows "answers_right A lc"
    "p < primary_cache_size \<Longrightarrow> elem_key (primary lc ! p) = no_key \<or> primary_index (elem_key (primary lc ! p)) = p"
    "s < secondary_cache_size \<Longrightarrow> elem_key (secondary lc ! s) = no_key \<or>
        secondary_index (elem_key (secondary lc ! s)) = s \<and>
        elem_key (primary lc ! primary_index (elem_key (secondary lc ! s))) \<noteq> elem_key (secondary lc ! s)"
  using assms unfolding coherent_def by simp_all

lemma elem_clear_fields [simp]:
  "elem_key (elem_clear e) = no_key" "elem_right A (elem_clear e)"
  by (simp_all add: elem_clear_def key_initialize_def no_key_def key_clear_def LookupKey_def elem_right_def)

lemma answers_right_store:
  assumes "answers_right A lc" "elem_right A e" "elem_right A e'"
  shows "answers_right A (lc\<lparr>primary := (primary lc)[p := e], secondary := (secondary lc)[s := e']\<rparr>)"
  using assms set_update_subset_insert [of "primary lc" p e] set_update_subset_insert [of "secondary lc" s e']
  by (auto simp: answers_right_def cache_sized_def)

lemma flush_all_coherent: "cache_sized lc \<Longrightarrow> coherent A (flush_all lc)"
  by (auto simp: coherent_def answers_right_def cache_sized_def flush_all_def)

lemma answers_right_flush: "answers_right A lc \<Longrightarrow> answers_right A (flush key lc)"
proof -
  assume a: "answers_right A lc"
  note D = answers_rightD [OF a]
  have "answers_right A (lc\<lparr>primary := (primary lc)[p := secondary lc ! s],
      secondary := (secondary lc)[s := elem_clear (secondary lc ! s)]\<rparr>)" if "s < secondary_cache_size" for p s
    using answers_right_store [OF a D(4) [OF that]] by simp
  moreover have "answers_right A (lc\<lparr>secondary := (secondary lc)[s := elem_clear (secondary lc ! s)]\<rparr>)" for s
    using a by (auto simp: answers_right_def cache_sized_def dest!: subsetD [OF set_update_subset_insert])
  ultimately show ?thesis using a by (simp add: flush_def Let_def)
qed

text \<open>Installing an element in front, the element it displaces moving to the secondary array.\<close>

definition install :: "lookup_key \<Rightarrow> cache_element \<Rightarrow> lookup_cache \<Rightarrow> lookup_cache" where
  "install key e lc = lc\<lparr>primary := (primary lc)[primary_index key := e],
     secondary := (secondary lc)[secondary_index key := primary lc ! primary_index key]\<rparr>"

lemma coherent_counters [simp]:
  "coherent A (lc\<lparr>number_of_primary_hits := n\<rparr>) = coherent A lc"
  "coherent A (lc\<lparr>number_of_secondary_hits := n\<rparr>) = coherent A lc"
  "coherent A (lc\<lparr>number_of_misses := n\<rparr>) = coherent A lc"
  by (simp_all add: coherent_def answers_right_def cache_sized_def)

lemma elem_right_cong: "elem_right A e \<Longrightarrow> (elem_key e \<noteq> no_key \<Longrightarrow> A' (elem_key e) = A (elem_key e)) \<Longrightarrow>
    elem_right A' e"
  by (auto simp: elem_right_def)

lemma coherent_install:
  assumes c: "coherent A lc" and e: "elem_key e = key" "elem_right A' e" "key \<noteq> no_key"
    and new: "elem_key (primary lc ! primary_index key) \<noteq> key"
    and agree: "\<And>k. k \<noteq> key \<Longrightarrow> A' k = A k"
  shows "coherent A' (install key e lc)"
proof -
  let ?p = "primary_index key" and ?s = "secondary_index key"
  note D = answers_rightD [OF coherentD(1) [OF c]]
  have prim: "elem_key (primary lc ! q) \<noteq> key" if "q < primary_cache_size" for q
    using coherentD(2) [OF c that] new e(3) by (cases "q = ?p") auto
  have sec: "elem_key (secondary lc ! t) \<noteq> key" if "t < secondary_cache_size" "t \<noteq> ?s" for t
    using coherentD(3) [OF c that(1)] that(2) e(3) by auto
  have rp: "elem_right A' (primary lc ! q)" if "q < primary_cache_size" for q
    by (rule elem_right_cong [OF D(3) [OF that]]) (rule agree [OF prim [OF that]])
  have rs: "elem_right A' (secondary lc ! t)" if "t < secondary_cache_size" "t \<noteq> ?s" for t
    by (rule elem_right_cong [OF D(4) [OF that(1)]]) (rule agree [OF sec [OF that]])
  have nth_p: "primary (install key e lc) ! q = (if q = ?p then e else primary lc ! q)"
    if "q < primary_cache_size" for q using that D(1) by (simp add: install_def nth_list_update)
  have nth_s: "secondary (install key e lc) ! t = (if t = ?s then primary lc ! ?p else secondary lc ! t)"
    if "t < secondary_cache_size" for t using that D(2) by (simp add: install_def nth_list_update)
  have sized: "cache_sized (install key e lc)" using D(1,2) by (simp add: cache_sized_def install_def)
  show ?thesis
    unfolding coherent_def answers_right_def
  proof (intro conjI allI impI ballI sized)
    fix x assume "x \<in> set (primary (install key e lc)) \<union> set (secondary (install key e lc))"
    then consider (p) q where "q < primary_cache_size" "x = primary (install key e lc) ! q"
      | (s) t where "t < secondary_cache_size" "x = secondary (install key e lc) ! t"
      using sized by (auto simp: cache_sized_def in_set_conv_nth)
    then show "elem_right A' x"
    proof cases
      case p
      then show ?thesis using rp [of q] e(2) by (simp add: nth_p)
    next
      case s
      then show ?thesis using rp [of ?p] rs [of t] by (simp add: nth_s)
    qed
  next
    fix q assume q: "q < primary_cache_size"
    show "elem_key (primary (install key e lc) ! q) = no_key \<or>
        primary_index (elem_key (primary (install key e lc) ! q)) = q"
      using coherentD(2) [OF c q] e(1) by (simp add: nth_p [OF q])
  next
    fix t assume t: "t < secondary_cache_size"
    let ?x = "secondary (install key e lc) ! t"
    show "elem_key ?x = no_key \<or> secondary_index (elem_key ?x) = t \<and>
        elem_key (primary (install key e lc) ! primary_index (elem_key ?x)) \<noteq> elem_key ?x"
    proof (cases "t = ?s")
      case True
      then have x: "?x = primary lc ! ?p" using nth_s [OF t] by simp
      have "secondary_index k = t" if "primary_index k = ?p" for k
        using that True by (simp add: secondary_index_def)
      then show ?thesis using coherentD(2) [OF c, of ?p] new e(1) unfolding x by (auto simp: nth_p)
    next
      case False
      then have x: "?x = secondary lc ! t" using nth_s [OF t] by simp
      have "primary_index k \<noteq> ?p" if "secondary_index k = t" for k
        using that False by (auto simp: secondary_index_def)
      then show ?thesis using coherentD(3) [OF c t] unfolding x by (auto simp: nth_p)
    qed
  qed
qed

lemma swap_is_install:
  "swap_elements (primary_index key) (secondary_index key) lc =
     install key (secondary lc ! secondary_index key) lc"
  by (simp add: swap_elements_def install_def)

lemma verify_ok:
  assumes ok: "system_ok sys m" and e: "elem_right (answer sys m) e"
  shows "elem_verify sys e = ret ()"
proof (cases "elem_key e = no_key")
  case False
  then have nz: "answer sys m (elem_key e) \<noteq> 0" and r: "elem_result e = \<lparr>result_value = answer sys m (elem_key e)\<rparr>"
    using e by (auto simp: elem_right_def)
  have found: "CodeTable_lookup (methods sys) (code_table sys) (elem_key e) =
      ret (case m (elem_key e) of None \<Rightarrow> 0 | Some nm \<Rightarrow> nm)"
    by (rule represents_lookup [OF system_okD(1) [OF ok]])
  show ?thesis
  proof (cases "m (elem_key e)")
    case None
    then show ?thesis using nz r found answer_method(2) [OF ok None nz] system_okD(7) [OF ok]
      by (simp add: elem_verify_def result_is_empty_def result_is_method_def result_is_entry_def)
  next
    case (Some nm)
    have "entry_ok sys nm" by (rule system_okD(2) [OF ok Some])
    then show ?thesis using r found Some tags_differ(2) system_okD(7) [OF ok]
      by (simp add: elem_verify_def result_is_empty_def result_is_method_def result_is_entry_def
          entry_ok_def answer_def get_nativeMethod_def result_entry_def)
  qed
qed (simp add: elem_verify_def)

lemma lookup_coherent:
  assumes ok: "system_ok sys m" and c: "coherent (answer sys m) lc" and key: "key_verify (methods sys) key"
    and cr: "compiler_returns sys cmp key"
  shows "\<exists>sys' m' lc'. cache_lookup key cmp sys lc = ret (\<lparr>result_value = answer sys' m' key\<rparr>, sys', lc') \<and>
    system_ok sys' m' \<and> coherent (answer sys' m') lc' \<and> same_but_code sys sys' \<and>
    (m' = m \<and> sys' = sys \<or> compiles sys cmp \<and> m key = None \<and> (\<exists>nm. m' = m(key \<mapsto> nm)))"
proof -
  let ?p = "primary_index key" and ?s = "secondary_index key"
  note D = answers_rightD [OF coherentD(1) [OF c]]
  have nk: "key \<noteq> no_key" using key system_okD(5) [OF ok] by (auto simp: key_verify_iff)
  consider (primary) "elem_key (primary lc ! ?p) = key"
    | (secondary) "elem_key (primary lc ! ?p) \<noteq> key" "elem_key (secondary lc ! ?s) = key"
    | (miss) "elem_key (primary lc ! ?p) \<noteq> key" "elem_key (secondary lc ! ?s) \<noteq> key" by blast
  then show ?thesis
  proof cases
    case primary
    then have "elem_result (primary lc ! ?p) = \<lparr>result_value = answer sys m key\<rparr>"
      using D(3) [of ?p] nk by (simp add: elem_right_def)
    then show ?thesis using primary key ok c
      by (intro exI [of _ sys] exI [of _ m] exI [of _ "lc\<lparr>number_of_primary_hits := number_of_primary_hits lc + 1\<rparr>"])
        (simp add: cache_lookup_def Let_def)
  next
    case secondary
    let ?lc = "lc\<lparr>number_of_secondary_hits := number_of_secondary_hits lc + 1\<rparr>"
    have r: "elem_result (secondary lc ! ?s) = \<lparr>result_value = answer sys m key\<rparr>"
      using D(4) [of ?s] nk secondary by (simp add: elem_right_def)
    have "coherent (answer sys m) (install key (secondary ?lc ! ?s) ?lc)"
      using c D(4) [of ?s] secondary nk by (intro coherent_install) simp_all
    moreover have "primary (install key (secondary ?lc ! ?s) ?lc) ! ?p = secondary lc ! ?s"
      using D(1) by (simp add: install_def)
    ultimately show ?thesis using secondary key ok r
      by (intro exI [of _ sys] exI [of _ m] exI [of _ "install key (secondary ?lc ! ?s) ?lc"])
        (simp add: cache_lookup_def Let_def swap_is_install)
  next
    case miss
    obtain sys' m' where ml: "cache_miss_lookup key cmp sys = ret (\<lparr>result_value = answer sys' m' key\<rparr>, sys')"
      "system_ok sys' m'" "same_but_code sys sys'"
      "if m key = None \<and> answer sys m key \<noteq> 0 \<and> compiles sys cmp then \<exists>nm. m' = m(key \<mapsto> nm) else m' = m \<and> sys' = sys"
      using miss_ok [OF ok cr] by blast
    have alt: "m' = m \<and> sys' = sys \<or> compiles sys cmp \<and> m key = None \<and> (\<exists>nm. m' = m(key \<mapsto> nm))"
      using ml(4) by (auto split: if_splits)
    have agree: "answer sys' m' k = answer sys m k" if "k \<noteq> key" for k
    proof (rule answer_same [OF ml(3)])
      show "m' k = m k" using alt that by (elim disjE conjE exE) simp_all
    qed
    let ?lc = "lc\<lparr>number_of_misses := number_of_misses lc + 1\<rparr>"
    show ?thesis
    proof (cases "answer sys' m' key = 0")
      case True
      have "m' = m \<and> sys' = sys"
      proof (rule ccontr)
        assume "\<not> ?thesis"
        then obtain nm where "m' key = Some nm" using alt by auto
        then show False using system_okD(2) [OF ml(2), of key nm] True by (simp add: answer_def entry_ok_def)
      qed
      then show ?thesis using True ml(1) miss key ok c
        by (intro exI [of _ sys] exI [of _ m] exI [of _ ?lc])
          (simp add: cache_lookup_def Let_def result_is_empty_def)
    next
      case False
      let ?e = "elem_initialize key \<lparr>result_value = answer sys' m' key\<rparr> (primary lc ! ?p)"
      have e: "elem_key ?e = key" "elem_right (answer sys' m') ?e"
        using False by (simp_all add: elem_initialize_def elem_right_def)
      have "coherent (answer sys' m') (install key ?e ?lc)"
        using c e nk miss agree by (intro coherent_install [where A = "answer sys m"]) simp_all
      moreover have "elem_verify sys' ?e = ret ()" using verify_ok [OF ml(2) e(2)] .
      ultimately show ?thesis using False ml alt miss key D(1) system_okD(7) [OF ml(2)]
        by (intro exI [of _ sys'] exI [of _ m'] exI [of _ "install key ?e ?lc"])
          (simp add: cache_lookup_def Let_def result_is_empty_def install_def)
    qed
  qed
qed
section \<open>Histories of the cache\<close>

text \<open>The lookup of the code table and of the class, with no cache in front.\<close>

definition uncached_lookup :: "lookup_key \<Rightarrow> system \<Rightarrow> lookup_result run" where
  "uncached_lookup key sys = bindR (cache_miss_lookup key False sys) (\<lambda>(r, _). ret r)"

lemma uncached_ok: "system_ok sys m \<Longrightarrow> uncached_lookup key sys = ret \<lparr>result_value = answer sys m key\<rparr>"
  using miss_ok [of sys m False key] by (auto simp: uncached_lookup_def compiles_def compiler_returns_def)

lemma verify_elements_ok:
  "system_ok sys m \<Longrightarrow> \<forall>e \<in> set es. elem_right (answer sys m) e \<Longrightarrow> verify_elements sys es = ret ()"
  by (induction es) (simp_all add: verify_ok)

lemma cache_verify_ok:
  "system_ok sys m \<Longrightarrow> answers_right (answer sys m) lc \<Longrightarrow> cache_verify sys lc = ret ()"
  by (simp add: cache_verify_def verify_elements_ok answers_right_def)

text \<open>
  A lookup, with or without leave to compile, and a change of the system (a method is
  redefined, a class changed, objects moved) followed by a flush of the whole cache.
\<close>

datatype cache_op = Cache_lookup lookup_key bool | Cache_change system

fun cache_step :: "cache_op \<Rightarrow> system \<times> lookup_cache \<Rightarrow> (system \<times> lookup_cache) run" where
  "cache_step (Cache_lookup key c) (sys, lc) = bindR (cache_lookup key c sys lc) (\<lambda>(_, sys, lc). ret (sys, lc))"
| "cache_step (Cache_change sys') (sys, lc) = ret (sys', flush_all lc)"

fun cache_legal :: "cache_op \<Rightarrow> system \<times> lookup_cache \<Rightarrow> unit \<Rightarrow> bool" where
  "cache_legal (Cache_lookup key c) (sys, lc) u \<longleftrightarrow>
     key_verify (methods sys) key \<and> compiler_returns sys c key"
| "cache_legal (Cache_change sys') (sys, lc) u \<longleftrightarrow> (\<exists>m. system_ok sys' m)"

definition cache_ok :: "system \<times> lookup_cache \<Rightarrow> unit \<Rightarrow> bool" where
  "cache_ok s u \<longleftrightarrow> (\<exists>m. system_ok (fst s) m \<and> coherent (answer (fst s) m) (snd s))"

interpretation lc: implements cache_step cache_legal "\<lambda>_ _. ()" cache_ok
proof
  fix s u c assume s: "cache_ok s u" and l: "cache_legal c s u"
  obtain sys lc where sl: "s = (sys, lc)" by (cases s)
  obtain m where m: "system_ok sys m" "coherent (answer sys m) lc" using s sl by (auto simp: cache_ok_def)
  show "\<exists>s'. cache_step c s = ret s' \<and> cache_ok s' ()"
  proof (cases c)
    case (Cache_lookup key cmp)
    then have "key_verify (methods sys) key" "compiler_returns sys cmp key" using l sl by simp_all
    from lookup_coherent [OF m this] show ?thesis
      using Cache_lookup sl by (auto simp: cache_ok_def)
  next
    case (Cache_change sys')
    then obtain m' where "system_ok sys' m'" using l sl by auto
    moreover have "cache_sized lc" using coherentD(1) [OF m(2)] by (simp add: answers_right_def)
    ultimately show ?thesis using Cache_change sl flush_all_coherent by (auto simp: cache_ok_def)
  qed
qed


section \<open>Flushing one key\<close>

lemma flush_right:
  assumes c: "coherent A lc" and key: "key \<noteq> no_key" and agree: "\<And>k. k \<noteq> key \<Longrightarrow> A' k = A k"
  shows "answers_right A' (flush key lc)" 
proof -
  let ?p = "primary_index key" and ?s = "secondary_index key"
  note D = answers_rightD [OF coherentD(1) [OF c]]
  have prim: "elem_right A' (primary lc ! q)" if "q < primary_cache_size" "elem_key (primary lc ! q) \<noteq> key" for q
    by (rule elem_right_cong [OF D(3) [OF that(1)]]) (rule agree [OF that(2)])
  have sec: "elem_right A' (secondary lc ! t)" if "t < secondary_cache_size" "elem_key (secondary lc ! t) \<noteq> key" for t
    by (rule elem_right_cong [OF D(4) [OF that(1)]]) (rule agree [OF that(2)])
  have pq: "elem_key (primary lc ! q) \<noteq> key" if "q < primary_cache_size" "q \<noteq> ?p" for q
    using coherentD(2) [OF c that(1)] that(2) key by auto
  have st: "elem_key (secondary lc ! t) \<noteq> key" if "t < secondary_cache_size"
    "t \<noteq> ?s \<or> elem_key (primary lc ! ?p) = key" for t
    using coherentD(3) [OF c that(1)] that(2) key by auto
  have sized: "cache_sized (flush key lc)" using D(1,2) by (simp add: cache_sized_def flush_def Let_def)
  have "elem_right A' (primary (flush key lc) ! q)" if q: "q < primary_cache_size" for q
    using q D(1) pq [OF q] st [of ?s] prim [OF q] sec [of ?s]
    by (auto simp: flush_def Let_def nth_list_update)
  moreover have "elem_right A' (secondary (flush key lc) ! t)" if t: "t < secondary_cache_size" for t
    using t D(2) st [OF t] sec [OF t] by (auto simp: flush_def Let_def nth_list_update)
  ultimately show ?thesis using sized
    by (auto simp: answers_right_def cache_sized_def in_set_conv_nth)
qed

definition elem :: "lookup_key \<Rightarrow> oop \<Rightarrow> cache_element" where
  "elem k v = \<lparr>elem_key = k, elem_result = \<lparr>result_value = v\<rparr>\<rparr>"

lemma elem_fields [simp]: "elem_key (elem k v) = k" "elem_result (elem k v) = \<lparr>result_value = v\<rparr>"
  "elem_clear e = elem no_key 0" "elem_initialize k \<lparr>result_value = v\<rparr> e = elem k v"
  by (simp_all add: elem_def elem_clear_def key_initialize_def no_key_def key_clear_def LookupKey_def
      result_clear_def elem_initialize_def)

text \<open>A miss and a hit in the secondary array, by what stands at the two places of the key.\<close>

lemma lookup_miss_step:
  assumes ok: "system_ok sys m" and sz: "cache_sized lc" and key: "key_verify (methods sys) key"
    and nz: "answer sys m key \<noteq> 0"
    and miss: "elem_key (primary lc ! primary_index key) \<noteq> key" "elem_key (secondary lc ! secondary_index key) \<noteq> key"
  shows "cache_lookup key False sys lc = ret (\<lparr>result_value = answer sys m key\<rparr>, sys,
    install key (elem key (answer sys m key)) (lc\<lparr>number_of_misses := number_of_misses lc + 1\<rparr>))"
proof -
  have "cache_miss_lookup key False sys = ret (\<lparr>result_value = answer sys m key\<rparr>, sys)"
    using miss_ok [OF ok, of False key] by (auto simp: compiles_def compiler_returns_def)
  moreover have "elem_verify sys (elem key (answer sys m key)) = ret ()"
    by (rule verify_ok [OF ok]) (simp add: elem_right_def nz)
  moreover have "length (primary lc) = primary_cache_size" using sz by (simp add: cache_sized_def)
  ultimately show ?thesis using miss key nz system_okD(7) [OF ok]
    by (simp add: cache_lookup_def Let_def result_is_empty_def install_def)
qed

lemma lookup_secondary_step:
  assumes sz: "cache_sized lc" and key: "key_verify (methods sys) key"
    and hit: "elem_key (primary lc ! primary_index key) \<noteq> key" "secondary lc ! secondary_index key = elem key v"
  shows "\<exists>lc'. cache_lookup key c sys lc = ret (\<lparr>result_value = v\<rparr>, sys, lc')"
proof -
  have "length (primary lc) = primary_cache_size" using sz by (simp add: cache_sized_def)
  then show ?thesis using hit key by (simp add: cache_lookup_def Let_def swap_elements_def)
qed

lemma install_places:
  assumes "cache_sized lc"
  shows "cache_sized (install key e lc)"
    "primary (install key e lc) ! primary_index key = e"
    "q \<noteq> primary_index key \<Longrightarrow> primary (install key e lc) ! q = primary lc ! q"
    "secondary (install key e lc) ! secondary_index key = primary lc ! primary_index key"
  using assms by (simp_all add: cache_sized_def install_def)

text \<open>
  Three lookups, a flush of the first key, then, after \<open>sys\<close> has become \<open>sys2\<close>, a flush of the
  second key, a lookup of the first and one of the second.
\<close>

definition flush_two :: "lookup_key \<Rightarrow> lookup_key \<Rightarrow> lookup_key \<Rightarrow> system \<Rightarrow> system \<Rightarrow> lookup_cache \<Rightarrow> lookup_result run" where
  "flush_two k1 k2 k3 sys sys2 lc =
     bindR (cache_lookup k1 False sys lc) (\<lambda>(_, _, lc).
     bindR (cache_lookup k2 False sys lc) (\<lambda>(_, _, lc).
     bindR (cache_lookup k3 False sys lc) (\<lambda>(_, _, lc).
     let lc = flush k2 (flush k1 lc) in
     bindR (cache_lookup k1 False sys2 lc) (\<lambda>(_, _, lc).
     bindR (cache_lookup k2 False sys2 lc) (\<lambda>(r, _, _). ret r)))))"

lemma flush_promotes:
  assumes "cache_sized lc" "elem_key (primary lc ! primary_index key) = key"
  shows "cache_sized (flush key lc)"
    "primary (flush key lc) ! primary_index key = secondary lc ! secondary_index key"
    "q \<noteq> primary_index key \<Longrightarrow> primary (flush key lc) ! q = primary lc ! q"
    "secondary (flush key lc) ! secondary_index key = elem no_key 0"
  using assms by (simp_all add: cache_sized_def flush_def Let_def)

lemma flush_all_places:
  assumes "cache_sized lc"
  shows "cache_sized (flush_all lc)" "q < primary_cache_size \<Longrightarrow> primary (flush_all lc) ! q = elem no_key 0"
    "t < secondary_cache_size \<Longrightarrow> secondary (flush_all lc) ! t = elem no_key 0"
  using assms by (simp_all add: cache_sized_def flush_all_def)

lemma flush_absent:
  "elem_key (primary lc ! primary_index key) \<noteq> key \<Longrightarrow> elem_key (secondary lc ! secondary_index key) \<noteq> key \<Longrightarrow>
    flush key lc = lc"
  by (simp add: flush_def Let_def)

lemma counters_keep [simp]:
  "primary (lc\<lparr>number_of_misses := n\<rparr>) = primary lc" "secondary (lc\<lparr>number_of_misses := n\<rparr>) = secondary lc"
  "cache_sized (lc\<lparr>number_of_misses := n\<rparr>) = cache_sized lc"
  by (simp_all add: cache_sized_def)

lemma flush_two_stale:
  assumes ok: "system_ok sys m" "system_ok sys2 m2" and sz: "cache_sized lc"
    and keys: "key_verify (methods sys) k1" "key_verify (methods sys) k2" "key_verify (methods sys) k3"
      "key_verify (methods sys2) k1" "key_verify (methods sys2) k2"
    and known: "answer sys m k1 \<noteq> 0" "answer sys m k2 \<noteq> 0" "answer sys m k3 \<noteq> 0" "answer sys2 m2 k1 \<noteq> 0"
    and index: "primary_index k2 = primary_index k3" "primary_index k1 \<noteq> primary_index k2"
      "secondary_index k1 = secondary_index k2" "k2 \<noteq> k3"
  shows "flush_two k1 k2 k3 sys sys2 (flush_all lc) = ret \<lparr>result_value = answer sys m k2\<rparr>"
proof -
  let ?p = "primary_index k1" and ?q = "primary_index k2" and ?s = "secondary_index k2"
  note ne = index(2) index(2) [symmetric]
  have s3: "secondary_index k3 = ?s" using index(1) by (simp add: secondary_index_def)
  have nk: "k1 \<noteq> no_key" "k2 \<noteq> no_key" "k3 \<noteq> no_key"
    using keys(1-3) system_okD(5) [OF ok(1)] by (auto simp: key_verify_iff)
  have ks: "k1 \<noteq> k2" "k1 \<noteq> k3" using index(1,2) by auto
  define l0 where "l0 = flush_all lc"
  have v0: "cache_sized l0" "primary l0 ! ?p = elem no_key 0" "primary l0 ! ?q = elem no_key 0"
    "secondary l0 ! ?s = elem no_key 0" using flush_all_places [OF sz] by (simp_all add: l0_def)
  define l1 where "l1 = install k1 (elem k1 (answer sys m k1)) (l0\<lparr>number_of_misses := number_of_misses l0 + 1\<rparr>)"
  have r1: "cache_lookup k1 False sys l0 = ret (\<lparr>result_value = answer sys m k1\<rparr>, sys, l1)"
    unfolding l1_def by (rule lookup_miss_step) (use ok(1) v0 keys known nk index in simp_all)
  have v1: "cache_sized l1" "primary l1 ! ?p = elem k1 (answer sys m k1)" "primary l1 ! ?q = elem no_key 0"
    "secondary l1 ! ?s = elem no_key 0"
    unfolding l1_def using install_places [where lc = "l0\<lparr>number_of_misses := number_of_misses l0 + 1\<rparr>" and key = k1] v0 ne index(3)
    by simp_all
  define l2 where "l2 = install k2 (elem k2 (answer sys m k2)) (l1\<lparr>number_of_misses := number_of_misses l1 + 1\<rparr>)"
  have r2: "cache_lookup k2 False sys l1 = ret (\<lparr>result_value = answer sys m k2\<rparr>, sys, l2)"
    unfolding l2_def by (rule lookup_miss_step) (use ok(1) v1 keys known nk in simp_all)
  have v2: "cache_sized l2" "primary l2 ! ?p = elem k1 (answer sys m k1)" "primary l2 ! ?q = elem k2 (answer sys m k2)"
    "secondary l2 ! ?s = elem no_key 0"
    unfolding l2_def using install_places [where lc = "l1\<lparr>number_of_misses := number_of_misses l1 + 1\<rparr>" and key = k2] v1 ne
    by simp_all
  define l3 where "l3 = install k3 (elem k3 (answer sys m k3)) (l2\<lparr>number_of_misses := number_of_misses l2 + 1\<rparr>)"
  have r3: "cache_lookup k3 False sys l2 = ret (\<lparr>result_value = answer sys m k3\<rparr>, sys, l3)"
    unfolding l3_def by (rule lookup_miss_step) (use ok(1) v2 keys known nk ks index(4) s3 in \<open>simp_all add: index(1) [symmetric]\<close>)
  have v3: "cache_sized l3" "primary l3 ! ?p = elem k1 (answer sys m k1)" "primary l3 ! ?q = elem k3 (answer sys m k3)"
    "secondary l3 ! ?s = elem k2 (answer sys m k2)"
    unfolding l3_def using install_places [where lc = "l2\<lparr>number_of_misses := number_of_misses l2 + 1\<rparr>" and key = k3] v2 ne
    by (simp_all add: index(1) [symmetric] s3)
  define l4 where "l4 = flush k1 l3"
  have v4: "cache_sized l4" "primary l4 ! ?p = elem k2 (answer sys m k2)" "primary l4 ! ?q = elem k3 (answer sys m k3)"
    "secondary l4 ! ?s = elem no_key 0"
    unfolding l4_def using flush_promotes [where lc = l3 and key = k1] v3 ne index(3) by simp_all
  have f4: "flush k2 l4 = l4" using v4 nk index(4) by (intro flush_absent) simp_all
  define l5 where "l5 = install k1 (elem k1 (answer sys2 m2 k1)) (l4\<lparr>number_of_misses := number_of_misses l4 + 1\<rparr>)"
  have r5: "cache_lookup k1 False sys2 l4 = ret (\<lparr>result_value = answer sys2 m2 k1\<rparr>, sys2, l5)"
    unfolding l5_def by (rule lookup_miss_step) (use ok(2) v4 keys known nk index ks in simp_all)
  have v5: "cache_sized l5" "primary l5 ! ?q = elem k3 (answer sys m k3)" "secondary l5 ! ?s = elem k2 (answer sys m k2)"
    unfolding l5_def using install_places [where lc = "l4\<lparr>number_of_misses := number_of_misses l4 + 1\<rparr>" and key = k1] v4 ne index(3)
    by simp_all
  obtain l6 where r6: "cache_lookup k2 False sys2 l5 = ret (\<lparr>result_value = answer sys m k2\<rparr>, sys2, l6)"
    using lookup_secondary_step [OF v5(1) keys(5) _ v5(3)] v5(2) index(4) by auto
  show ?thesis
    unfolding flush_two_def l0_def [symmetric]
    by (simp add: r1 r2 r3 l4_def [symmetric] f4 r5 r6)
qed

text \<open>
  C34. Flushing single keys leaves stale answers behind. When the answer for one key changes in
  a coherent cache, flushing that key makes all answers of the cache right for the new system;
  but the flush may promote the element of another key to a primary index that is not its
  own, where a later flush of that other key does not look: after three lookups and a flush
  of the first key, the second key is flushed when its answer changes, and a lookup of it
  still returns the old answer, while the lookup without the cache returns the new one.
\<close>

theorem flush_key_leaves_stale:
  assumes "system_ok sys m" "system_ok sys2 m2" "cache_sized lc"
    and "\<And>k. k \<in> {k1, k2, k3} \<Longrightarrow> key_verify (methods sys) k \<and> key_verify (methods sys2) k \<and>
      answer sys m k \<noteq> 0 \<and> answer sys2 m2 k \<noteq> 0"
    and "primary_index k2 = primary_index k3" "primary_index k1 \<noteq> primary_index k2"
      "secondary_index k1 = secondary_index k2" "k2 \<noteq> k3"
    and "\<And>k. k \<noteq> k2 \<Longrightarrow> answer sys2 m2 k = answer sys m k"
  shows "(coherent (answer sys m) c \<longrightarrow> answers_right (answer sys2 m2) (flush k2 c)) \<and>
    flush_two k1 k2 k3 sys sys2 (flush_all lc) = ret \<lparr>result_value = answer sys m k2\<rparr> \<and>
    uncached_lookup k2 sys2 = ret \<lparr>result_value = answer sys2 m2 k2\<rparr>"
proof (intro conjI impI)
  have nk: "k2 \<noteq> no_key" using assms(4) [of k2] system_okD(5) [OF assms(1)] by (auto simp: key_verify_iff)
  show "answers_right (answer sys2 m2) (flush k2 c)" if "coherent (answer sys m) c"
    by (rule flush_right [OF that nk assms(9)])
  show "flush_two k1 k2 k3 sys sys2 (flush_all lc) = ret \<lparr>result_value = answer sys m k2\<rparr>"
    by (rule flush_two_stale [OF assms(1-3)]) (use assms(4-8) in simp_all)
  show "uncached_lookup k2 sys2 = ret \<lparr>result_value = answer sys2 m2 k2\<rparr>"
    by (rule uncached_ok [OF assms(2)])
qed

text \<open>A small system: class 32784 answers the method \<open>v\<close> to the selector 0, and otherwise there is the method 5.\<close>

definition sample_system :: "oop \<Rightarrow> system" where
  "sample_system v = \<lparr>methods = \<lparr>identity_hash = (\<lambda>p. p), is_klass = (\<lambda>p. p \<noteq> 0), isSymbol = (\<lambda>p. p = 0),
       is_method = (\<lambda>p. p = 5 \<or> p = 9), is_blockMethod = (\<lambda>_. False), method_selector = (\<lambda>_. 0),
       klass_lookup = (\<lambda>k s. if k = 32784 \<and> s = 0 then v else 5), superKlass = (\<lambda>_. 0),
       lookupKey_of = (\<lambda>nm. LookupKey nm 0)\<rparr>,
     code_table = CodeTable_new 1 [0] Map.empty, entry_point_of = (\<lambda>nm. nm), method_at_entry = (\<lambda>nm. nm),
     method_of = (\<lambda>nm. 5), sweeper_running = False, in_vm_operation = False, CompiledCodeOnly = False,
     UseInliningDatabase = False, UseInliningDatabaseEagerly = False, theCompiler = True,
     in_inlining_database = (\<lambda>_. False), compile_from_database = (\<lambda>_ ob ct. (ob, ct, 0)),
     optimize = (\<lambda>_ _ ob ct. (ob, ct, 0))\<rparr>"

definition sample_cache :: lookup_cache where
  "sample_cache = \<lparr>primary = replicate primary_cache_size (elem no_key 0),
     secondary = replicate secondary_cache_size (elem no_key 0),
     number_of_primary_hits = 0, number_of_secondary_hits = 0, number_of_misses = 0\<rparr>"

lemma sample_system_ok: "v = 5 \<or> v = 9 \<Longrightarrow> system_ok (sample_system v) Map.empty"
proof -
  assume v: "v = 5 \<or> v = 9"
  have "table_represents (methods (sample_system v)) (code_table (sample_system v)) Map.empty"
    using new_ok [of 1 "[0]" "methods (sample_system v)" Map.empty] by (simp add: sample_system_def)
  moreover have "isMemOop 5" "isMemOop 9" by (simp_all add: isMemOop_def tag_take MEMOOP_TAG_def take_bit_eq_mod)
  ultimately show ?thesis using v
    by (auto simp: system_ok_def compiler_ok_def sample_system_def)
qed

lemma sample_sized: "cache_sized sample_cache"
  by (simp add: cache_sized_def sample_cache_def)

lemma sample_answers:
  "answer (sample_system v) Map.empty (LookupKey k 0) = (if k = 32784 then v else 5)"
  by (simp add: answer_def sample_system_def is_normal_type_def)

lemma sample_index:
  "primary_index (LookupKey 16 0) = 1" "primary_index (LookupKey 32784 0) = 2049"
  "primary_index (LookupKey 294928 0) = 2049"
  by (simp_all add: primary_index_def hash_value_def sizeof_CacheElement_def primary_cache_size_def)

lemma sample_verify: "k \<noteq> 0 \<Longrightarrow> key_verify (methods (sample_system v)) (LookupKey k 0)"
  by (simp add: key_verify_iff sample_system_def)


theorem flush_key_leaves_stale_witness:
  "flush_two (LookupKey 16 0) (LookupKey 32784 0) (LookupKey 294928 0) (sample_system 5) (sample_system 9)
     (flush_all sample_cache) = ret \<lparr>result_value = 5\<rparr> \<and>
   uncached_lookup (LookupKey 32784 0) (sample_system 9) = ret \<lparr>result_value = 9\<rparr>"
proof -
  have other: "answer (sample_system 9) Map.empty k = answer (sample_system 5) Map.empty k"
    if "k \<noteq> LookupKey 32784 0" for k
  proof -
    have "\<not> (key_klass k = 32784 \<and> selector_or_method k = 0)" using that LookupKey_eta [of k] by auto
    then show ?thesis by (auto simp: answer_def sample_system_def is_normal_type_def)
  qed
  have "secondary_index (LookupKey 16 0) = secondary_index (LookupKey 32784 0)"
    by (simp add: secondary_index_def sample_index secondary_cache_size_def)
  moreover have "key_verify (methods (sample_system 5)) k \<and> key_verify (methods (sample_system 9)) k \<and>
      answer (sample_system 5) Map.empty k \<noteq> 0 \<and> answer (sample_system 9) Map.empty k \<noteq> 0"
    if "k \<in> {LookupKey 16 0, LookupKey 32784 0, LookupKey 294928 0}" for k
    using that by (auto simp: sample_answers sample_verify)
  ultimately show ?thesis
    using flush_key_leaves_stale [OF sample_system_ok [of 5] sample_system_ok [of 9] sample_sized,
        of "LookupKey 16 0" "LookupKey 32784 0" "LookupKey 294928 0" sample_cache] other
    by (simp add: sample_answers sample_index)
qed

end
