(* ===== verification/ByteCodes.thy ===== *)
theory ByteCodes
  imports Prelude
begin

text \<open>
  The table of byte codes (\<^verbatim>\<open>vm/interpreter/ByteCodes\<close>): the enumerations, the 256 codes
  (a code is the byte itself, its enumerators are abbreviations), the calls of \<open>def\<close> made by
  \<open>init\<close>, with the plausibility checks of \<open>def\<close> as faults, and the transitions between
  send codes and between primitive-call codes that the interpreter's caches use. The theorems:
  initialization passes all its checks and defines exactly the rows of the calls; the transitions
  keep the layout of the instruction, its arguments and whether it pops its result, with the
  one exception the table has. Tracing and the generation of Smalltalk and HTML are output.
\<close>

section \<open>Enumerations\<close>

datatype Format =
    B | BB | BBB | BBBB
  | BBO | BBL | BO | BOO
  | BLO | BOL | BLL | BL
  | BLB | BBOO | BBLO | BOOLB
  | BBS | UNDEFINED

datatype CodeType =
    LOCAL_ACCESS | INSTANCE_VARIABLE_ACCESS | CONTEXT_ACCESS | CLASS_VARIABLE_ACCESS
  | GLOBAL_ACCESS | NEW_CLOSURE | NEW_CONTEXT | CONTROL_STRUCTURE
  | MESSAGE_SEND | NONLOCAL_RETURN | PRIMITIVE_CALL | DLL_CALL
  | FLOAT_OPERATION | MISCELLANEOUS

datatype ArgumentSpec =
    recv_0_args | recv_1_args | recv_2_args | recv_n_args
  | args_only | no_args

datatype SendType =
    INTERPRETED_SEND | COMPILED_SEND | POLYMORPHIC_SEND | MEGAMORPHIC_SEND
  | PREDICTED_SEND | ACCESSOR_SEND | PRIMITIVE_SEND | NO_SEND

datatype LoopType =
    LOOP_START | LOOP_END | NO_LOOP

type_synonym Code = "8 word"

abbreviation (input) push_temp_0 :: Code where "push_temp_0 \<equiv> 0x00"
abbreviation (input) push_temp_1 :: Code where "push_temp_1 \<equiv> 0x01"
abbreviation (input) push_temp_2 :: Code where "push_temp_2 \<equiv> 0x02"
abbreviation (input) push_temp_3 :: Code where "push_temp_3 \<equiv> 0x03"
abbreviation (input) push_temp_4 :: Code where "push_temp_4 \<equiv> 0x04"
abbreviation (input) push_temp_5 :: Code where "push_temp_5 \<equiv> 0x05"
abbreviation (input) unimplemented_06 :: Code where "unimplemented_06 \<equiv> 0x06"
abbreviation (input) push_temp_n :: Code where "push_temp_n \<equiv> 0x07"
abbreviation (input) push_arg_1 :: Code where "push_arg_1 \<equiv> 0x08"
abbreviation (input) push_arg_2 :: Code where "push_arg_2 \<equiv> 0x09"
abbreviation (input) push_arg_3 :: Code where "push_arg_3 \<equiv> 0x0a"
abbreviation (input) push_arg_n :: Code where "push_arg_n \<equiv> 0x0b"
abbreviation (input) allocate_temp_1 :: Code where "allocate_temp_1 \<equiv> 0x0c"
abbreviation (input) allocate_temp_2 :: Code where "allocate_temp_2 \<equiv> 0x0d"
abbreviation (input) allocate_temp_3 :: Code where "allocate_temp_3 \<equiv> 0x0e"
abbreviation (input) allocate_temp_n :: Code where "allocate_temp_n \<equiv> 0x0f"
abbreviation (input) store_temp_0_pop :: Code where "store_temp_0_pop \<equiv> 0x10"
abbreviation (input) store_temp_1_pop :: Code where "store_temp_1_pop \<equiv> 0x11"
abbreviation (input) store_temp_2_pop :: Code where "store_temp_2_pop \<equiv> 0x12"
abbreviation (input) store_temp_3_pop :: Code where "store_temp_3_pop \<equiv> 0x13"
abbreviation (input) store_temp_4_pop :: Code where "store_temp_4_pop \<equiv> 0x14"
abbreviation (input) store_temp_5_pop :: Code where "store_temp_5_pop \<equiv> 0x15"
abbreviation (input) store_temp_n :: Code where "store_temp_n \<equiv> 0x16"
abbreviation (input) store_temp_n_pop :: Code where "store_temp_n_pop \<equiv> 0x17"
abbreviation (input) push_neg_n :: Code where "push_neg_n \<equiv> 0x18"
abbreviation (input) push_succ_n :: Code where "push_succ_n \<equiv> 0x19"
abbreviation (input) push_literal :: Code where "push_literal \<equiv> 0x1a"
abbreviation (input) push_tos :: Code where "push_tos \<equiv> 0x1b"
abbreviation (input) push_self :: Code where "push_self \<equiv> 0x1c"
abbreviation (input) push_nil :: Code where "push_nil \<equiv> 0x1d"
abbreviation (input) push_true :: Code where "push_true \<equiv> 0x1e"
abbreviation (input) push_false :: Code where "push_false \<equiv> 0x1f"
abbreviation (input) unimplemented_20 :: Code where "unimplemented_20 \<equiv> 0x20"
abbreviation (input) unimplemented_21 :: Code where "unimplemented_21 \<equiv> 0x21"
abbreviation (input) unimplemented_22 :: Code where "unimplemented_22 \<equiv> 0x22"
abbreviation (input) unimplemented_23 :: Code where "unimplemented_23 \<equiv> 0x23"
abbreviation (input) unimplemented_24 :: Code where "unimplemented_24 \<equiv> 0x24"
abbreviation (input) unimplemented_25 :: Code where "unimplemented_25 \<equiv> 0x25"
abbreviation (input) unimplemented_26 :: Code where "unimplemented_26 \<equiv> 0x26"
abbreviation (input) unimplemented_27 :: Code where "unimplemented_27 \<equiv> 0x27"
abbreviation (input) return_instVar_name :: Code where "return_instVar_name \<equiv> 0x28"
abbreviation (input) push_classVar :: Code where "push_classVar \<equiv> 0x29"
abbreviation (input) store_classVar_pop :: Code where "store_classVar_pop \<equiv> 0x2a"
abbreviation (input) store_classVar :: Code where "store_classVar \<equiv> 0x2b"
abbreviation (input) return_instVar :: Code where "return_instVar \<equiv> 0x2c"
abbreviation (input) push_instVar :: Code where "push_instVar \<equiv> 0x2d"
abbreviation (input) store_instVar_pop :: Code where "store_instVar_pop \<equiv> 0x2e"
abbreviation (input) store_instVar :: Code where "store_instVar \<equiv> 0x2f"
abbreviation (input) float_allocate :: Code where "float_allocate \<equiv> 0x30"
abbreviation (input) float_floatify_pop :: Code where "float_floatify_pop \<equiv> 0x31"
abbreviation (input) float_move :: Code where "float_move \<equiv> 0x32"
abbreviation (input) float_set :: Code where "float_set \<equiv> 0x33"
abbreviation (input) float_nullary_op :: Code where "float_nullary_op \<equiv> 0x34"
abbreviation (input) float_unary_op :: Code where "float_unary_op \<equiv> 0x35"
abbreviation (input) float_binary_op :: Code where "float_binary_op \<equiv> 0x36"
abbreviation (input) float_unary_op_to_oop :: Code where "float_unary_op_to_oop \<equiv> 0x37"
abbreviation (input) float_binary_op_to_oop :: Code where "float_binary_op_to_oop \<equiv> 0x38"
abbreviation (input) unimplemented_39 :: Code where "unimplemented_39 \<equiv> 0x39"
abbreviation (input) unimplemented_3a :: Code where "unimplemented_3a \<equiv> 0x3a"
abbreviation (input) unimplemented_3b :: Code where "unimplemented_3b \<equiv> 0x3b"
abbreviation (input) unimplemented_3c :: Code where "unimplemented_3c \<equiv> 0x3c"
abbreviation (input) push_instVar_name :: Code where "push_instVar_name \<equiv> 0x3d"
abbreviation (input) store_instVar_pop_name :: Code where "store_instVar_pop_name \<equiv> 0x3e"
abbreviation (input) store_instVar_name :: Code where "store_instVar_name \<equiv> 0x3f"
abbreviation (input) push_temp_0_context_0 :: Code where "push_temp_0_context_0 \<equiv> 0x40"
abbreviation (input) push_temp_1_context_0 :: Code where "push_temp_1_context_0 \<equiv> 0x41"
abbreviation (input) push_temp_2_context_0 :: Code where "push_temp_2_context_0 \<equiv> 0x42"
abbreviation (input) push_temp_n_context_0 :: Code where "push_temp_n_context_0 \<equiv> 0x43"
abbreviation (input) store_temp_0_context_0_pop :: Code where "store_temp_0_context_0_pop \<equiv> 0x44"
abbreviation (input) store_temp_1_context_0_pop :: Code where "store_temp_1_context_0_pop \<equiv> 0x45"
abbreviation (input) store_temp_2_context_0_pop :: Code where "store_temp_2_context_0_pop \<equiv> 0x46"
abbreviation (input) store_temp_n_context_0_pop :: Code where "store_temp_n_context_0_pop \<equiv> 0x47"
abbreviation (input) push_new_closure_context_0 :: Code where "push_new_closure_context_0 \<equiv> 0x48"
abbreviation (input) push_new_closure_context_1 :: Code where "push_new_closure_context_1 \<equiv> 0x49"
abbreviation (input) push_new_closure_context_2 :: Code where "push_new_closure_context_2 \<equiv> 0x4a"
abbreviation (input) push_new_closure_context_n :: Code where "push_new_closure_context_n \<equiv> 0x4b"
abbreviation (input) install_new_context_method_0 :: Code where "install_new_context_method_0 \<equiv> 0x4c"
abbreviation (input) install_new_context_method_1 :: Code where "install_new_context_method_1 \<equiv> 0x4d"
abbreviation (input) install_new_context_method_2 :: Code where "install_new_context_method_2 \<equiv> 0x4e"
abbreviation (input) install_new_context_method_n :: Code where "install_new_context_method_n \<equiv> 0x4f"
abbreviation (input) push_temp_0_context_1 :: Code where "push_temp_0_context_1 \<equiv> 0x50"
abbreviation (input) push_temp_1_context_1 :: Code where "push_temp_1_context_1 \<equiv> 0x51"
abbreviation (input) push_temp_2_context_1 :: Code where "push_temp_2_context_1 \<equiv> 0x52"
abbreviation (input) push_temp_n_context_1 :: Code where "push_temp_n_context_1 \<equiv> 0x53"
abbreviation (input) store_temp_0_context_1_pop :: Code where "store_temp_0_context_1_pop \<equiv> 0x54"
abbreviation (input) store_temp_1_context_1_pop :: Code where "store_temp_1_context_1_pop \<equiv> 0x55"
abbreviation (input) store_temp_2_context_1_pop :: Code where "store_temp_2_context_1_pop \<equiv> 0x56"
abbreviation (input) store_temp_n_context_1_pop :: Code where "store_temp_n_context_1_pop \<equiv> 0x57"
abbreviation (input) push_new_closure_tos_0 :: Code where "push_new_closure_tos_0 \<equiv> 0x58"
abbreviation (input) push_new_closure_tos_1 :: Code where "push_new_closure_tos_1 \<equiv> 0x59"
abbreviation (input) push_new_closure_tos_2 :: Code where "push_new_closure_tos_2 \<equiv> 0x5a"
abbreviation (input) push_new_closure_tos_n :: Code where "push_new_closure_tos_n \<equiv> 0x5b"
abbreviation (input) only_pop :: Code where "only_pop \<equiv> 0x5c"
abbreviation (input) install_new_context_block_1 :: Code where "install_new_context_block_1 \<equiv> 0x5d"
abbreviation (input) install_new_context_block_2 :: Code where "install_new_context_block_2 \<equiv> 0x5e"
abbreviation (input) install_new_context_block_n :: Code where "install_new_context_block_n \<equiv> 0x5f"
abbreviation (input) push_temp_0_context_n :: Code where "push_temp_0_context_n \<equiv> 0x60"
abbreviation (input) push_temp_1_context_n :: Code where "push_temp_1_context_n \<equiv> 0x61"
abbreviation (input) push_temp_2_context_n :: Code where "push_temp_2_context_n \<equiv> 0x62"
abbreviation (input) push_temp_n_context_n :: Code where "push_temp_n_context_n \<equiv> 0x63"
abbreviation (input) store_temp_0_context_n_pop :: Code where "store_temp_0_context_n_pop \<equiv> 0x64"
abbreviation (input) store_temp_1_context_n_pop :: Code where "store_temp_1_context_n_pop \<equiv> 0x65"
abbreviation (input) store_temp_2_context_n_pop :: Code where "store_temp_2_context_n_pop \<equiv> 0x66"
abbreviation (input) store_temp_n_context_n_pop :: Code where "store_temp_n_context_n_pop \<equiv> 0x67"
abbreviation (input) set_self_via_context :: Code where "set_self_via_context \<equiv> 0x68"
abbreviation (input) copy_1_into_context :: Code where "copy_1_into_context \<equiv> 0x69"
abbreviation (input) copy_2_into_context :: Code where "copy_2_into_context \<equiv> 0x6a"
abbreviation (input) copy_n_into_context :: Code where "copy_n_into_context \<equiv> 0x6b"
abbreviation (input) copy_self_into_context :: Code where "copy_self_into_context \<equiv> 0x6c"
abbreviation (input) copy_self_1_into_context :: Code where "copy_self_1_into_context \<equiv> 0x6d"
abbreviation (input) copy_self_2_into_context :: Code where "copy_self_2_into_context \<equiv> 0x6e"
abbreviation (input) copy_self_n_into_context :: Code where "copy_self_n_into_context \<equiv> 0x6f"
abbreviation (input) ifTrue_byte :: Code where "ifTrue_byte \<equiv> 0x70"
abbreviation (input) ifFalse_byte :: Code where "ifFalse_byte \<equiv> 0x71"
abbreviation (input) and_byte :: Code where "and_byte \<equiv> 0x72"
abbreviation (input) or_byte :: Code where "or_byte \<equiv> 0x73"
abbreviation (input) whileTrue_byte :: Code where "whileTrue_byte \<equiv> 0x74"
abbreviation (input) whileFalse_byte :: Code where "whileFalse_byte \<equiv> 0x75"
abbreviation (input) jump_else_byte :: Code where "jump_else_byte \<equiv> 0x76"
abbreviation (input) jump_loop_byte :: Code where "jump_loop_byte \<equiv> 0x77"
abbreviation (input) ifTrue_word :: Code where "ifTrue_word \<equiv> 0x78"
abbreviation (input) ifFalse_word :: Code where "ifFalse_word \<equiv> 0x79"
abbreviation (input) and_word :: Code where "and_word \<equiv> 0x7a"
abbreviation (input) or_word :: Code where "or_word \<equiv> 0x7b"
abbreviation (input) whileTrue_word :: Code where "whileTrue_word \<equiv> 0x7c"
abbreviation (input) whileFalse_word :: Code where "whileFalse_word \<equiv> 0x7d"
abbreviation (input) jump_else_word :: Code where "jump_else_word \<equiv> 0x7e"
abbreviation (input) jump_loop_word :: Code where "jump_loop_word \<equiv> 0x7f"
abbreviation (input) interpreted_send_0 :: Code where "interpreted_send_0 \<equiv> 0x80"
abbreviation (input) interpreted_send_1 :: Code where "interpreted_send_1 \<equiv> 0x81"
abbreviation (input) interpreted_send_2 :: Code where "interpreted_send_2 \<equiv> 0x82"
abbreviation (input) interpreted_send_n :: Code where "interpreted_send_n \<equiv> 0x83"
abbreviation (input) interpreted_send_0_pop :: Code where "interpreted_send_0_pop \<equiv> 0x84"
abbreviation (input) interpreted_send_1_pop :: Code where "interpreted_send_1_pop \<equiv> 0x85"
abbreviation (input) interpreted_send_2_pop :: Code where "interpreted_send_2_pop \<equiv> 0x86"
abbreviation (input) interpreted_send_n_pop :: Code where "interpreted_send_n_pop \<equiv> 0x87"
abbreviation (input) interpreted_send_self :: Code where "interpreted_send_self \<equiv> 0x88"
abbreviation (input) interpreted_send_self_pop :: Code where "interpreted_send_self_pop \<equiv> 0x89"
abbreviation (input) interpreted_send_super :: Code where "interpreted_send_super \<equiv> 0x8a"
abbreviation (input) interpreted_send_super_pop :: Code where "interpreted_send_super_pop \<equiv> 0x8b"
abbreviation (input) return_tos_pop_0 :: Code where "return_tos_pop_0 \<equiv> 0x8c"
abbreviation (input) return_tos_pop_1 :: Code where "return_tos_pop_1 \<equiv> 0x8d"
abbreviation (input) return_tos_pop_2 :: Code where "return_tos_pop_2 \<equiv> 0x8e"
abbreviation (input) return_tos_pop_n :: Code where "return_tos_pop_n \<equiv> 0x8f"
abbreviation (input) polymorphic_send_0 :: Code where "polymorphic_send_0 \<equiv> 0x90"
abbreviation (input) polymorphic_send_1 :: Code where "polymorphic_send_1 \<equiv> 0x91"
abbreviation (input) polymorphic_send_2 :: Code where "polymorphic_send_2 \<equiv> 0x92"
abbreviation (input) polymorphic_send_n :: Code where "polymorphic_send_n \<equiv> 0x93"
abbreviation (input) polymorphic_send_0_pop :: Code where "polymorphic_send_0_pop \<equiv> 0x94"
abbreviation (input) polymorphic_send_1_pop :: Code where "polymorphic_send_1_pop \<equiv> 0x95"
abbreviation (input) polymorphic_send_2_pop :: Code where "polymorphic_send_2_pop \<equiv> 0x96"
abbreviation (input) polymorphic_send_n_pop :: Code where "polymorphic_send_n_pop \<equiv> 0x97"
abbreviation (input) polymorphic_send_self :: Code where "polymorphic_send_self \<equiv> 0x98"
abbreviation (input) polymorphic_send_self_pop :: Code where "polymorphic_send_self_pop \<equiv> 0x99"
abbreviation (input) polymorphic_send_super :: Code where "polymorphic_send_super \<equiv> 0x9a"
abbreviation (input) polymorphic_send_super_pop :: Code where "polymorphic_send_super_pop \<equiv> 0x9b"
abbreviation (input) return_self_pop_0 :: Code where "return_self_pop_0 \<equiv> 0x9c"
abbreviation (input) return_self_pop_1 :: Code where "return_self_pop_1 \<equiv> 0x9d"
abbreviation (input) return_self_pop_2 :: Code where "return_self_pop_2 \<equiv> 0x9e"
abbreviation (input) return_self_pop_n :: Code where "return_self_pop_n \<equiv> 0x9f"
abbreviation (input) compiled_send_0 :: Code where "compiled_send_0 \<equiv> 0xa0"
abbreviation (input) compiled_send_1 :: Code where "compiled_send_1 \<equiv> 0xa1"
abbreviation (input) compiled_send_2 :: Code where "compiled_send_2 \<equiv> 0xa2"
abbreviation (input) compiled_send_n :: Code where "compiled_send_n \<equiv> 0xa3"
abbreviation (input) compiled_send_0_pop :: Code where "compiled_send_0_pop \<equiv> 0xa4"
abbreviation (input) compiled_send_1_pop :: Code where "compiled_send_1_pop \<equiv> 0xa5"
abbreviation (input) compiled_send_2_pop :: Code where "compiled_send_2_pop \<equiv> 0xa6"
abbreviation (input) compiled_send_n_pop :: Code where "compiled_send_n_pop \<equiv> 0xa7"
abbreviation (input) compiled_send_self :: Code where "compiled_send_self \<equiv> 0xa8"
abbreviation (input) compiled_send_self_pop :: Code where "compiled_send_self_pop \<equiv> 0xa9"
abbreviation (input) compiled_send_super :: Code where "compiled_send_super \<equiv> 0xaa"
abbreviation (input) compiled_send_super_pop :: Code where "compiled_send_super_pop \<equiv> 0xab"
abbreviation (input) return_tos_zap_pop_n :: Code where "return_tos_zap_pop_n \<equiv> 0xac"
abbreviation (input) return_self_zap_pop_n :: Code where "return_self_zap_pop_n \<equiv> 0xad"
abbreviation (input) non_local_return_tos_pop_n :: Code where "non_local_return_tos_pop_n \<equiv> 0xae"
abbreviation (input) non_local_return_self_pop_n :: Code where "non_local_return_self_pop_n \<equiv> 0xaf"
abbreviation (input) prim_call :: Code where "prim_call \<equiv> 0xb0"
abbreviation (input) predict_primitive_call :: Code where "predict_primitive_call \<equiv> 0xb1"
abbreviation (input) primitive_call_failure :: Code where "primitive_call_failure \<equiv> 0xb2"
abbreviation (input) predict_primitive_call_failure :: Code where "predict_primitive_call_failure \<equiv> 0xb3"
abbreviation (input) dll_call_sync :: Code where "dll_call_sync \<equiv> 0xb4"
abbreviation (input) primitive_call_self :: Code where "primitive_call_self \<equiv> 0xb5"
abbreviation (input) primitive_call_self_failure :: Code where "primitive_call_self_failure \<equiv> 0xb6"
abbreviation (input) unimplemented_b7 :: Code where "unimplemented_b7 \<equiv> 0xb7"
abbreviation (input) access_send_self :: Code where "access_send_self \<equiv> 0xb8"
abbreviation (input) primitive_send_0 :: Code where "primitive_send_0 \<equiv> 0xb9"
abbreviation (input) primitive_send_super :: Code where "primitive_send_super \<equiv> 0xba"
abbreviation (input) primitive_send_super_pop :: Code where "primitive_send_super_pop \<equiv> 0xbb"
abbreviation (input) unimplemented_bc :: Code where "unimplemented_bc \<equiv> 0xbc"
abbreviation (input) primitive_send_1 :: Code where "primitive_send_1 \<equiv> 0xbd"
abbreviation (input) primitive_send_2 :: Code where "primitive_send_2 \<equiv> 0xbe"
abbreviation (input) primitive_send_n :: Code where "primitive_send_n \<equiv> 0xbf"
abbreviation (input) primitive_call_lookup :: Code where "primitive_call_lookup \<equiv> 0xc0"
abbreviation (input) predict_primitive_call_lookup :: Code where "predict_primitive_call_lookup \<equiv> 0xc1"
abbreviation (input) primitive_call_failure_lookup :: Code where "primitive_call_failure_lookup \<equiv> 0xc2"
abbreviation (input) predict_primitive_call_failure_lookup :: Code where "predict_primitive_call_failure_lookup \<equiv> 0xc3"
abbreviation (input) dll_call_async :: Code where "dll_call_async \<equiv> 0xc4"
abbreviation (input) primitive_call_self_lookup :: Code where "primitive_call_self_lookup \<equiv> 0xc5"
abbreviation (input) primitive_call_self_failure_lookup :: Code where "primitive_call_self_failure_lookup \<equiv> 0xc6"
abbreviation (input) unimplemented_c7 :: Code where "unimplemented_c7 \<equiv> 0xc7"
abbreviation (input) access_send_0 :: Code where "access_send_0 \<equiv> 0xc8"
abbreviation (input) primitive_send_0_pop :: Code where "primitive_send_0_pop \<equiv> 0xc9"
abbreviation (input) primitive_send_self :: Code where "primitive_send_self \<equiv> 0xca"
abbreviation (input) primitive_send_self_pop :: Code where "primitive_send_self_pop \<equiv> 0xcb"
abbreviation (input) unimplemented_cc :: Code where "unimplemented_cc \<equiv> 0xcc"
abbreviation (input) primitive_send_1_pop :: Code where "primitive_send_1_pop \<equiv> 0xcd"
abbreviation (input) primitive_send_2_pop :: Code where "primitive_send_2_pop \<equiv> 0xce"
abbreviation (input) primitive_send_n_pop :: Code where "primitive_send_n_pop \<equiv> 0xcf"
abbreviation (input) megamorphic_send_0 :: Code where "megamorphic_send_0 \<equiv> 0xd0"
abbreviation (input) megamorphic_send_1 :: Code where "megamorphic_send_1 \<equiv> 0xd1"
abbreviation (input) megamorphic_send_2 :: Code where "megamorphic_send_2 \<equiv> 0xd2"
abbreviation (input) megamorphic_send_n :: Code where "megamorphic_send_n \<equiv> 0xd3"
abbreviation (input) megamorphic_send_0_pop :: Code where "megamorphic_send_0_pop \<equiv> 0xd4"
abbreviation (input) megamorphic_send_1_pop :: Code where "megamorphic_send_1_pop \<equiv> 0xd5"
abbreviation (input) megamorphic_send_2_pop :: Code where "megamorphic_send_2_pop \<equiv> 0xd6"
abbreviation (input) megamorphic_send_n_pop :: Code where "megamorphic_send_n_pop \<equiv> 0xd7"
abbreviation (input) megamorphic_send_self :: Code where "megamorphic_send_self \<equiv> 0xd8"
abbreviation (input) megamorphic_send_self_pop :: Code where "megamorphic_send_self_pop \<equiv> 0xd9"
abbreviation (input) megamorphic_send_super :: Code where "megamorphic_send_super \<equiv> 0xda"
abbreviation (input) megamorphic_send_super_pop :: Code where "megamorphic_send_super_pop \<equiv> 0xdb"
abbreviation (input) unimplemented_dc :: Code where "unimplemented_dc \<equiv> 0xdc"
abbreviation (input) special_primitive_send_1_hint :: Code where "special_primitive_send_1_hint \<equiv> 0xdd"
abbreviation (input) unimplemented_de :: Code where "unimplemented_de \<equiv> 0xde"
abbreviation (input) unimplemented_df :: Code where "unimplemented_df \<equiv> 0xdf"
abbreviation (input) smi_add :: Code where "smi_add \<equiv> 0xe0"
abbreviation (input) smi_sub :: Code where "smi_sub \<equiv> 0xe1"
abbreviation (input) smi_mult :: Code where "smi_mult \<equiv> 0xe2"
abbreviation (input) smi_div :: Code where "smi_div \<equiv> 0xe3"
abbreviation (input) smi_mod :: Code where "smi_mod \<equiv> 0xe4"
abbreviation (input) smi_create_point :: Code where "smi_create_point \<equiv> 0xe5"
abbreviation (input) smi_equal :: Code where "smi_equal \<equiv> 0xe6"
abbreviation (input) smi_not_equal :: Code where "smi_not_equal \<equiv> 0xe7"
abbreviation (input) smi_less :: Code where "smi_less \<equiv> 0xe8"
abbreviation (input) smi_less_equal :: Code where "smi_less_equal \<equiv> 0xe9"
abbreviation (input) smi_greater :: Code where "smi_greater \<equiv> 0xea"
abbreviation (input) smi_greater_equal :: Code where "smi_greater_equal \<equiv> 0xeb"
abbreviation (input) objectArray_at :: Code where "objectArray_at \<equiv> 0xec"
abbreviation (input) objectArray_at_put :: Code where "objectArray_at_put \<equiv> 0xed"
abbreviation (input) double_equal :: Code where "double_equal \<equiv> 0xee"
abbreviation (input) double_tilde :: Code where "double_tilde \<equiv> 0xef"
abbreviation (input) push_global :: Code where "push_global \<equiv> 0xf0"
abbreviation (input) store_global_pop :: Code where "store_global_pop \<equiv> 0xf1"
abbreviation (input) store_global :: Code where "store_global \<equiv> 0xf2"
abbreviation (input) push_classVar_name :: Code where "push_classVar_name \<equiv> 0xf3"
abbreviation (input) store_classVar_pop_name :: Code where "store_classVar_pop_name \<equiv> 0xf4"
abbreviation (input) store_classVar_name :: Code where "store_classVar_name \<equiv> 0xf5"
abbreviation (input) smi_and :: Code where "smi_and \<equiv> 0xf6"
abbreviation (input) smi_or :: Code where "smi_or \<equiv> 0xf7"
abbreviation (input) smi_xor :: Code where "smi_xor \<equiv> 0xf8"
abbreviation (input) smi_shift :: Code where "smi_shift \<equiv> 0xf9"
abbreviation (input) unimplemented_fa :: Code where "unimplemented_fa \<equiv> 0xfa"
abbreviation (input) unimplemented_fb :: Code where "unimplemented_fb \<equiv> 0xfb"
abbreviation (input) unimplemented_fc :: Code where "unimplemented_fc \<equiv> 0xfc"
abbreviation (input) unimplemented_fd :: Code where "unimplemented_fd \<equiv> 0xfd"
abbreviation (input) unimplemented_fe :: Code where "unimplemented_fe \<equiv> 0xfe"
abbreviation (input) halt :: Code where "halt \<equiv> 0xff"

section \<open>Defining a byte code\<close>

text \<open>The overloads of \<open>def\<close>, as the calls to them.\<close>

datatype def_call =
    Undefined Code
  | Instruction Code string Format CodeType bool bool
  | Send Code string Format ArgumentSpec SendType bool

record byte_codes =
  entry_point_table :: "Code \<Rightarrow> 32 word"
  name_table :: "Code \<Rightarrow> string option"
  format_table :: "Code \<Rightarrow> Format"
  code_type_table :: "Code \<Rightarrow> CodeType"
  argument_spec_table :: "Code \<Rightarrow> ArgumentSpec"
  send_type_table :: "Code \<Rightarrow> SendType"
  single_step_table :: "Code \<Rightarrow> bool"
  pop_tos_table :: "Code \<Rightarrow> bool"

definition set_entries ::
  "Code \<Rightarrow> string \<Rightarrow> Format \<Rightarrow> CodeType \<Rightarrow> bool \<Rightarrow> ArgumentSpec \<Rightarrow> SendType \<Rightarrow> bool \<Rightarrow>
     byte_codes \<Rightarrow> byte_codes" where
  "set_entries code name format code_type single_step argument_spec send_type pop_tos t =
     t\<lparr>entry_point_table := (entry_point_table t)(code := 0),
       name_table := (name_table t)(code := Some name),
       format_table := (format_table t)(code := format),
       code_type_table := (code_type_table t)(code := code_type),
       argument_spec_table := (argument_spec_table t)(code := argument_spec),
       send_type_table := (send_type_table t)(code := send_type),
       single_step_table := (single_step_table t)(code := single_step),
       pop_tos_table := (pop_tos_table t)(code := pop_tos)\<rparr>"

definition def_code ::
  "Code \<Rightarrow> string \<Rightarrow> Format \<Rightarrow> CodeType \<Rightarrow> bool \<Rightarrow> ArgumentSpec \<Rightarrow> SendType \<Rightarrow> bool \<Rightarrow>
     byte_codes \<Rightarrow> byte_codes run" where
  "def_code code name format code_type single_step argument_spec send_type pop_tos t =
     bindR (guard (name_table t code = None) ''bytecode defined twice'') (\<lambda>_.
     bindR (guard (format = UNDEFINED \<longrightarrow> take 9 name = ''undefined'')
              ''inconsistency with naming convention'') (\<lambda>_.
     bindR (guard (pop_tos \<longrightarrow> take 5 name \<noteq> ''push_'') ''unlikely naming'') (\<lambda>_.
     bindR (guard (argument_spec \<noteq> no_args \<longrightarrow> send_type \<noteq> NO_SEND)
              ''inconsistency between argument_spec and send_type'') (\<lambda>_.
     bindR (guard (code_type = CONTROL_STRUCTURE \<longrightarrow> \<not> single_step)
              ''control structures cannot be single-stepped'') (\<lambda>_.
     bindR (guard (code_type = FLOAT_OPERATION \<longrightarrow> take 6 name = ''float_'')
              ''inconsistency with naming convention'') (\<lambda>_.
     ret (set_entries code name format code_type single_step argument_spec send_type pop_tos t)))))))"

fun def_of :: "def_call \<Rightarrow> byte_codes \<Rightarrow> byte_codes run" where
  "def_of (Undefined code) t =
     def_code code ''undefined'' UNDEFINED MISCELLANEOUS False no_args NO_SEND False t"
| "def_of (Instruction code name format code_type single_step pop_tos) t =
     def_code code name format code_type single_step no_args NO_SEND pop_tos t"
| "def_of (Send code name format argument_spec send_type pop_tos) t =
     bindR (guard (send_type \<noteq> NO_SEND) ''must be a send'') (\<lambda>_.
     def_code code name format MESSAGE_SEND True argument_spec send_type pop_tos t)"

section \<open>Initialization\<close>

definition init_row_0 :: "def_call list" where
  "init_row_0 =
    [Instruction push_temp_0 ''push_temp_0'' B LOCAL_ACCESS False False,
     Instruction push_temp_1 ''push_temp_1'' B LOCAL_ACCESS False False,
     Instruction push_temp_2 ''push_temp_2'' B LOCAL_ACCESS False False,
     Instruction push_temp_3 ''push_temp_3'' B LOCAL_ACCESS False False,
     Instruction push_temp_4 ''push_temp_4'' B LOCAL_ACCESS False False,
     Instruction push_temp_5 ''push_temp_5'' B LOCAL_ACCESS False False,
     Undefined unimplemented_06,
     Instruction push_temp_n ''push_temp_n'' BB LOCAL_ACCESS False False,
     Instruction push_arg_1 ''push_arg_1'' B LOCAL_ACCESS False False,
     Instruction push_arg_2 ''push_arg_2'' B LOCAL_ACCESS False False,
     Instruction push_arg_3 ''push_arg_3'' B LOCAL_ACCESS False False,
     Instruction push_arg_n ''push_arg_n'' BB LOCAL_ACCESS False False,
     Instruction allocate_temp_1 ''allocate_temp_1'' B MISCELLANEOUS False False,
     Instruction allocate_temp_2 ''allocate_temp_2'' B MISCELLANEOUS False False,
     Instruction allocate_temp_3 ''allocate_temp_3'' B MISCELLANEOUS False False,
     Instruction allocate_temp_n ''allocate_temp_n'' BB MISCELLANEOUS False False]"

definition init_row_1 :: "def_call list" where
  "init_row_1 =
    [Instruction store_temp_0_pop ''store_temp_0_pop'' B LOCAL_ACCESS True True,
     Instruction store_temp_1_pop ''store_temp_1_pop'' B LOCAL_ACCESS True True,
     Instruction store_temp_2_pop ''store_temp_2_pop'' B LOCAL_ACCESS True True,
     Instruction store_temp_3_pop ''store_temp_3_pop'' B LOCAL_ACCESS True True,
     Instruction store_temp_4_pop ''store_temp_4_pop'' B LOCAL_ACCESS True True,
     Instruction store_temp_5_pop ''store_temp_5_pop'' B LOCAL_ACCESS True True,
     Instruction store_temp_n ''store_temp_n'' BB LOCAL_ACCESS True False,
     Instruction store_temp_n_pop ''store_temp_n_pop'' BB LOCAL_ACCESS True True,
     Instruction push_neg_n ''push_neg_n'' BB MISCELLANEOUS False False,
     Instruction push_succ_n ''push_succ_n'' BB MISCELLANEOUS False False,
     Instruction push_literal ''push_literal'' BO MISCELLANEOUS False False,
     Instruction push_tos ''push_tos'' B MISCELLANEOUS False False,
     Instruction push_self ''push_self'' B MISCELLANEOUS False False,
     Instruction push_nil ''push_nil'' B MISCELLANEOUS False False,
     Instruction push_true ''push_true'' B MISCELLANEOUS False False,
     Instruction push_false ''push_false'' B MISCELLANEOUS False False]"

definition init_row_2 :: "def_call list" where
  "init_row_2 =
    [Undefined unimplemented_20,
     Undefined unimplemented_21,
     Undefined unimplemented_22,
     Undefined unimplemented_23,
     Undefined unimplemented_24,
     Undefined unimplemented_25,
     Undefined unimplemented_26,
     Undefined unimplemented_27,
     Instruction return_instVar_name ''return_instVar_name'' BO INSTANCE_VARIABLE_ACCESS False False,
     Instruction push_classVar ''push_classVar'' BO CLASS_VARIABLE_ACCESS False False,
     Instruction store_classVar_pop ''store_classVar_pop'' BO CLASS_VARIABLE_ACCESS True True,
     Instruction store_classVar ''store_classVar'' BO CLASS_VARIABLE_ACCESS True False,
     Instruction return_instVar ''return_instVar'' BL INSTANCE_VARIABLE_ACCESS True False,
     Instruction push_instVar ''push_instVar'' BL INSTANCE_VARIABLE_ACCESS False False,
     Instruction store_instVar_pop ''store_instVar_pop'' BL INSTANCE_VARIABLE_ACCESS True True,
     Instruction store_instVar ''store_instVar'' BL INSTANCE_VARIABLE_ACCESS True False]"

definition init_row_3 :: "def_call list" where
  "init_row_3 =
    [Instruction float_allocate ''float_allocate'' BBBB FLOAT_OPERATION False False,
     Instruction float_floatify_pop ''float_floatify_pop'' BB FLOAT_OPERATION False True,
     Instruction float_move ''float_move'' BBB FLOAT_OPERATION False False,
     Instruction float_set ''float_set'' BBO FLOAT_OPERATION False False,
     Instruction float_nullary_op ''float_nullary_op'' BBB FLOAT_OPERATION False False,
     Instruction float_unary_op ''float_unary_op'' BBB FLOAT_OPERATION False False,
     Instruction float_binary_op ''float_binary_op'' BBB FLOAT_OPERATION False False,
     Instruction float_unary_op_to_oop ''float_unary_op_to_oop'' BBB FLOAT_OPERATION False False,
     Instruction float_binary_op_to_oop ''float_binary_op_to_oop'' BBB FLOAT_OPERATION False False,
     Undefined unimplemented_39,
     Undefined unimplemented_3a,
     Undefined unimplemented_3b,
     Undefined unimplemented_3c,
     Instruction push_instVar_name ''push_instVar_name'' BO INSTANCE_VARIABLE_ACCESS False False,
     Instruction store_instVar_pop_name ''store_instVar_pop_name'' BO INSTANCE_VARIABLE_ACCESS False True,
     Instruction store_instVar_name ''store_instVar_name'' BO INSTANCE_VARIABLE_ACCESS False False]"

definition init_row_4 :: "def_call list" where
  "init_row_4 =
    [Instruction push_temp_0_context_0 ''push_temp_0_context_0'' B CONTEXT_ACCESS False False,
     Instruction push_temp_1_context_0 ''push_temp_1_context_0'' B CONTEXT_ACCESS False False,
     Instruction push_temp_2_context_0 ''push_temp_2_context_0'' B CONTEXT_ACCESS False False,
     Instruction push_temp_n_context_0 ''push_temp_n_context_0'' BB CONTEXT_ACCESS False False,
     Instruction store_temp_0_context_0_pop ''store_temp_0_context_0_pop'' B CONTEXT_ACCESS True True,
     Instruction store_temp_1_context_0_pop ''store_temp_1_context_0_pop'' B CONTEXT_ACCESS True True,
     Instruction store_temp_2_context_0_pop ''store_temp_2_context_0_pop'' B CONTEXT_ACCESS True True,
     Instruction store_temp_n_context_0_pop ''store_temp_n_context_0_pop'' BB CONTEXT_ACCESS True True,
     Instruction push_new_closure_context_0 ''push_new_closure_context_0'' BO NEW_CLOSURE False False,
     Instruction push_new_closure_context_1 ''push_new_closure_context_1'' BO NEW_CLOSURE False False,
     Instruction push_new_closure_context_2 ''push_new_closure_context_2'' BO NEW_CLOSURE False False,
     Instruction push_new_closure_context_n ''push_new_closure_context_n'' BBO NEW_CLOSURE False False,
     Instruction install_new_context_method_0 ''install_new_context_method_0'' B NEW_CONTEXT False False,
     Instruction install_new_context_method_1 ''install_new_context_method_1'' B NEW_CONTEXT False False,
     Instruction install_new_context_method_2 ''install_new_context_method_2'' B NEW_CONTEXT False False,
     Instruction install_new_context_method_n ''install_new_context_method_n'' BB NEW_CONTEXT False False]"

definition init_row_5 :: "def_call list" where
  "init_row_5 =
    [Instruction push_temp_0_context_1 ''push_temp_0_context_1'' B CONTEXT_ACCESS False False,
     Instruction push_temp_1_context_1 ''push_temp_1_context_1'' B CONTEXT_ACCESS False False,
     Instruction push_temp_2_context_1 ''push_temp_2_context_1'' B CONTEXT_ACCESS False False,
     Instruction push_temp_n_context_1 ''push_temp_n_context_1'' BB CONTEXT_ACCESS False False,
     Instruction store_temp_0_context_1_pop ''store_temp_0_context_1_pop'' B CONTEXT_ACCESS True True,
     Instruction store_temp_1_context_1_pop ''store_temp_1_context_1_pop'' B CONTEXT_ACCESS True True,
     Instruction store_temp_2_context_1_pop ''store_temp_2_context_1_pop'' B CONTEXT_ACCESS True True,
     Instruction store_temp_n_context_1_pop ''store_temp_n_context_1_pop'' BB CONTEXT_ACCESS True True,
     Instruction push_new_closure_tos_0 ''push_new_closure_tos_0'' BO NEW_CLOSURE False False,
     Instruction push_new_closure_tos_1 ''push_new_closure_tos_1'' BO NEW_CLOSURE False False,
     Instruction push_new_closure_tos_2 ''push_new_closure_tos_2'' BO NEW_CLOSURE False False,
     Instruction push_new_closure_tos_n ''push_new_closure_tos_n'' BBO NEW_CLOSURE False False,
     Instruction only_pop ''only_pop'' B NEW_CONTEXT False True,
     Instruction install_new_context_block_1 ''install_new_context_block_1'' B NEW_CONTEXT False False,
     Instruction install_new_context_block_2 ''install_new_context_block_2'' B NEW_CONTEXT False False,
     Instruction install_new_context_block_n ''install_new_context_block_n'' BB NEW_CONTEXT False False]"

definition init_row_6 :: "def_call list" where
  "init_row_6 =
    [Instruction push_temp_0_context_n ''push_temp_0_context_n'' BB CONTEXT_ACCESS False False,
     Instruction push_temp_1_context_n ''push_temp_1_context_n'' BB CONTEXT_ACCESS False False,
     Instruction push_temp_2_context_n ''push_temp_2_context_n'' BB CONTEXT_ACCESS False False,
     Instruction push_temp_n_context_n ''push_temp_n_context_n'' BBB CONTEXT_ACCESS False False,
     Instruction store_temp_0_context_n_pop ''store_temp_0_context_n_pop'' BB CONTEXT_ACCESS True True,
     Instruction store_temp_1_context_n_pop ''store_temp_1_context_n_pop'' BB CONTEXT_ACCESS True True,
     Instruction store_temp_2_context_n_pop ''store_temp_2_context_n_pop'' BB CONTEXT_ACCESS True True,
     Instruction store_temp_n_context_n_pop ''store_temp_n_context_n_pop'' BBB CONTEXT_ACCESS True True,
     Instruction set_self_via_context ''set_self_via_context'' B CONTEXT_ACCESS False False,
     Instruction copy_1_into_context ''copy_1_into_context'' BB CONTEXT_ACCESS False False,
     Instruction copy_2_into_context ''copy_2_into_context'' BBB CONTEXT_ACCESS False False,
     Instruction copy_n_into_context ''copy_n_into_context'' BBS CONTEXT_ACCESS False False,
     Instruction copy_self_into_context ''copy_self_into_context'' B CONTEXT_ACCESS False False,
     Instruction copy_self_1_into_context ''copy_self_1_into_context'' BB CONTEXT_ACCESS False False,
     Instruction copy_self_2_into_context ''copy_self_2_into_context'' BBB CONTEXT_ACCESS False False,
     Instruction copy_self_n_into_context ''copy_self_n_into_context'' BBS CONTEXT_ACCESS False False]"

definition init_row_7 :: "def_call list" where
  "init_row_7 =
    [Instruction ifTrue_byte ''ifTrue_byte'' BBB CONTROL_STRUCTURE False False,
     Instruction ifFalse_byte ''ifFalse_byte'' BBB CONTROL_STRUCTURE False False,
     Instruction and_byte ''and_byte'' BB CONTROL_STRUCTURE False False,
     Instruction or_byte ''or_byte'' BB CONTROL_STRUCTURE False False,
     Instruction whileTrue_byte ''whileTrue_byte'' BB CONTROL_STRUCTURE False False,
     Instruction whileFalse_byte ''whileFalse_byte'' BB CONTROL_STRUCTURE False False,
     Instruction jump_else_byte ''jump_else_byte'' BB CONTROL_STRUCTURE False False,
     Instruction jump_loop_byte ''jump_loop_byte'' BBB CONTROL_STRUCTURE False False,
     Instruction ifTrue_word ''ifTrue_word'' BBL CONTROL_STRUCTURE False False,
     Instruction ifFalse_word ''ifFalse_word'' BBL CONTROL_STRUCTURE False False,
     Instruction and_word ''and_word'' BL CONTROL_STRUCTURE False False,
     Instruction or_word ''or_word'' BL CONTROL_STRUCTURE False False,
     Instruction whileTrue_word ''whileTrue_word'' BL CONTROL_STRUCTURE False False,
     Instruction whileFalse_word ''whileFalse_word'' BL CONTROL_STRUCTURE False False,
     Instruction jump_else_word ''jump_else_word'' BL CONTROL_STRUCTURE False False,
     Instruction jump_loop_word ''jump_loop_word'' BLL CONTROL_STRUCTURE False False]"

definition init_row_8 :: "def_call list" where
  "init_row_8 =
    [Send interpreted_send_0 ''interpreted_send_0'' BOO recv_0_args INTERPRETED_SEND False,
     Send interpreted_send_1 ''interpreted_send_1'' BOO recv_1_args INTERPRETED_SEND False,
     Send interpreted_send_2 ''interpreted_send_2'' BOO recv_2_args INTERPRETED_SEND False,
     Send interpreted_send_n ''interpreted_send_n'' BBOO recv_n_args INTERPRETED_SEND False,
     Send interpreted_send_0_pop ''interpreted_send_0_pop'' BOO recv_0_args INTERPRETED_SEND True,
     Send interpreted_send_1_pop ''interpreted_send_1_pop'' BOO recv_1_args INTERPRETED_SEND True,
     Send interpreted_send_2_pop ''interpreted_send_2_pop'' BOO recv_2_args INTERPRETED_SEND True,
     Send interpreted_send_n_pop ''interpreted_send_n_pop'' BBOO recv_n_args INTERPRETED_SEND True,
     Send interpreted_send_self ''interpreted_send_self'' BOO args_only INTERPRETED_SEND False,
     Send interpreted_send_self_pop ''interpreted_send_self_pop'' BOO args_only INTERPRETED_SEND True,
     Send interpreted_send_super ''interpreted_send_super'' BOO args_only INTERPRETED_SEND False,
     Send interpreted_send_super_pop ''interpreted_send_super_pop'' BOO args_only INTERPRETED_SEND True,
     Instruction return_tos_pop_0 ''return_tos_pop_0'' B MISCELLANEOUS True False,
     Instruction return_tos_pop_1 ''return_tos_pop_1'' B MISCELLANEOUS True False,
     Instruction return_tos_pop_2 ''return_tos_pop_2'' B MISCELLANEOUS True False,
     Instruction return_tos_pop_n ''return_tos_pop_n'' BB MISCELLANEOUS True False]"

definition init_row_9 :: "def_call list" where
  "init_row_9 =
    [Send polymorphic_send_0 ''polymorphic_send_0'' BOO recv_0_args POLYMORPHIC_SEND False,
     Send polymorphic_send_1 ''polymorphic_send_1'' BOO recv_1_args POLYMORPHIC_SEND False,
     Send polymorphic_send_2 ''polymorphic_send_2'' BOO recv_2_args POLYMORPHIC_SEND False,
     Send polymorphic_send_n ''polymorphic_send_n'' BBOO recv_n_args POLYMORPHIC_SEND False,
     Send polymorphic_send_0_pop ''polymorphic_send_0_pop'' BOO recv_0_args POLYMORPHIC_SEND True,
     Send polymorphic_send_1_pop ''polymorphic_send_1_pop'' BOO recv_1_args POLYMORPHIC_SEND True,
     Send polymorphic_send_2_pop ''polymorphic_send_2_pop'' BOO recv_2_args POLYMORPHIC_SEND True,
     Send polymorphic_send_n_pop ''polymorphic_send_n_pop'' BBOO recv_n_args POLYMORPHIC_SEND True,
     Send polymorphic_send_self ''polymorphic_send_self'' BOO args_only POLYMORPHIC_SEND False,
     Send polymorphic_send_self_pop ''polymorphic_send_self_pop'' BOO args_only POLYMORPHIC_SEND True,
     Send polymorphic_send_super ''polymorphic_send_super'' BOO args_only POLYMORPHIC_SEND False,
     Send polymorphic_send_super_pop ''polymorphic_send_super_pop'' BOO args_only POLYMORPHIC_SEND True,
     Instruction return_self_pop_0 ''return_self_pop_0'' B MISCELLANEOUS True False,
     Instruction return_self_pop_1 ''return_self_pop_1'' B MISCELLANEOUS True False,
     Instruction return_self_pop_2 ''return_self_pop_2'' B MISCELLANEOUS True False,
     Instruction return_self_pop_n ''return_self_pop_n'' BB MISCELLANEOUS True False]"

definition init_row_a :: "def_call list" where
  "init_row_a =
    [Send compiled_send_0 ''compiled_send_0'' BLO recv_0_args COMPILED_SEND False,
     Send compiled_send_1 ''compiled_send_1'' BLO recv_1_args COMPILED_SEND False,
     Send compiled_send_2 ''compiled_send_2'' BLO recv_2_args COMPILED_SEND False,
     Send compiled_send_n ''compiled_send_n'' BBLO recv_n_args COMPILED_SEND False,
     Send compiled_send_0_pop ''compiled_send_0_pop'' BLO recv_0_args COMPILED_SEND True,
     Send compiled_send_1_pop ''compiled_send_1_pop'' BLO recv_1_args COMPILED_SEND True,
     Send compiled_send_2_pop ''compiled_send_2_pop'' BLO recv_2_args COMPILED_SEND True,
     Send compiled_send_n_pop ''compiled_send_n_pop'' BBLO recv_n_args COMPILED_SEND True,
     Send compiled_send_self ''compiled_send_self'' BLO args_only COMPILED_SEND False,
     Send compiled_send_self_pop ''compiled_send_self_pop'' BLO args_only COMPILED_SEND True,
     Send compiled_send_super ''compiled_send_super'' BLO args_only COMPILED_SEND False,
     Send compiled_send_super_pop ''compiled_send_super_pop'' BLO args_only COMPILED_SEND True,
     Instruction return_tos_zap_pop_n ''return_tos_zap_pop_n'' BB MISCELLANEOUS True False,
     Instruction return_self_zap_pop_n ''return_self_zap_pop_n'' BB MISCELLANEOUS True False,
     Instruction non_local_return_tos_pop_n ''non_local_return_tos_pop_n'' BB NONLOCAL_RETURN True False,
     Instruction non_local_return_self_pop_n ''non_local_return_self_pop_n'' BB NONLOCAL_RETURN True False]"

definition init_row_b :: "def_call list" where
  "init_row_b =
    [Instruction prim_call ''prim_call'' BL PRIMITIVE_CALL True False,
     Instruction predict_primitive_call ''predict_primitive_call'' BL PRIMITIVE_CALL True False,
     Instruction primitive_call_failure ''primitive_call_failure'' BLL PRIMITIVE_CALL True False,
     Instruction predict_primitive_call_failure ''predict_primitive_call_failure'' BLL PRIMITIVE_CALL True False,
     Instruction dll_call_sync ''dll_call_sync'' BOOLB DLL_CALL True False,
     Instruction primitive_call_self ''primitive_call_self'' BL PRIMITIVE_CALL True False,
     Instruction primitive_call_self_failure ''primitive_call_self_failure'' BLL PRIMITIVE_CALL True False,
     Undefined unimplemented_b7,
     Send access_send_self ''access_send_self'' BOO args_only ACCESSOR_SEND False,
     Send primitive_send_0 ''primitive_send_0'' BOO recv_0_args PRIMITIVE_SEND False,
     Send primitive_send_super ''primitive_send_super'' BOO args_only PRIMITIVE_SEND False,
     Send primitive_send_super_pop ''primitive_send_super_pop'' BOO args_only PRIMITIVE_SEND True,
     Undefined unimplemented_bc,
     Send primitive_send_1 ''primitive_send_1'' BOO recv_1_args PRIMITIVE_SEND False,
     Send primitive_send_2 ''primitive_send_2'' BOO recv_2_args PRIMITIVE_SEND False,
     Send primitive_send_n ''primitive_send_n'' BBOO recv_n_args PRIMITIVE_SEND False]"

definition init_row_c :: "def_call list" where
  "init_row_c =
    [Instruction primitive_call_lookup ''primitive_call_lookup'' BO PRIMITIVE_CALL False False,
     Instruction predict_primitive_call_lookup ''predict_primitive_call_lookup'' BO PRIMITIVE_CALL False False,
     Instruction primitive_call_failure_lookup ''primitive_call_failure_lookup'' BOL PRIMITIVE_CALL False False,
     Instruction predict_primitive_call_failure_lookup ''predict_primitive_call_failure_lookup'' BOL PRIMITIVE_CALL False False,
     Instruction dll_call_async ''dll_call_async'' BOOLB DLL_CALL True False,
     Instruction primitive_call_self_lookup ''primitive_call_self_lookup'' BO PRIMITIVE_CALL False False,
     Instruction primitive_call_self_failure_lookup ''primitive_call_self_failure_lookup'' BOL PRIMITIVE_CALL False False,
     Undefined unimplemented_c7,
     Send access_send_0 ''access_send_0'' BOO recv_0_args ACCESSOR_SEND False,
     Send primitive_send_0_pop ''primitive_send_0_pop'' BOO recv_0_args PRIMITIVE_SEND True,
     Send primitive_send_self ''primitive_send_self'' BOO args_only PRIMITIVE_SEND False,
     Send primitive_send_self_pop ''primitive_send_self_pop'' BOO args_only PRIMITIVE_SEND True,
     Undefined unimplemented_cc,
     Send primitive_send_1_pop ''primitive_send_1_pop'' BOO recv_1_args PRIMITIVE_SEND True,
     Send primitive_send_2_pop ''primitive_send_2_pop'' BOO recv_2_args PRIMITIVE_SEND True,
     Send primitive_send_n_pop ''primitive_send_n_pop'' BBOO recv_n_args PRIMITIVE_SEND True]"

definition init_row_d :: "def_call list" where
  "init_row_d =
    [Send megamorphic_send_0 ''megamorphic_send_0'' BOO recv_0_args MEGAMORPHIC_SEND False,
     Send megamorphic_send_1 ''megamorphic_send_1'' BOO recv_1_args MEGAMORPHIC_SEND False,
     Send megamorphic_send_2 ''megamorphic_send_2'' BOO recv_2_args MEGAMORPHIC_SEND False,
     Send megamorphic_send_n ''megamorphic_send_n'' BBOO recv_n_args MEGAMORPHIC_SEND False,
     Send megamorphic_send_0_pop ''megamorphic_send_0_pop'' BOO recv_0_args MEGAMORPHIC_SEND True,
     Send megamorphic_send_1_pop ''megamorphic_send_1_pop'' BOO recv_1_args MEGAMORPHIC_SEND True,
     Send megamorphic_send_2_pop ''megamorphic_send_2_pop'' BOO recv_2_args MEGAMORPHIC_SEND True,
     Send megamorphic_send_n_pop ''megamorphic_send_n_pop'' BBOO recv_n_args MEGAMORPHIC_SEND True,
     Send megamorphic_send_self ''megamorphic_send_self'' BOO args_only MEGAMORPHIC_SEND False,
     Send megamorphic_send_self_pop ''megamorphic_send_self_pop'' BOO args_only MEGAMORPHIC_SEND True,
     Send megamorphic_send_super ''megamorphic_send_super'' BOO args_only MEGAMORPHIC_SEND False,
     Send megamorphic_send_super_pop ''megamorphic_send_super_pop'' BOO args_only MEGAMORPHIC_SEND True,
     Undefined unimplemented_dc,
     Instruction special_primitive_send_1_hint ''special_primitive_send_1_hint'' BB MISCELLANEOUS False False,
     Undefined unimplemented_de,
     Undefined unimplemented_df]"

definition init_row_e :: "def_call list" where
  "init_row_e =
    [Send smi_add ''smi_add'' BOO recv_1_args PREDICTED_SEND False,
     Send smi_sub ''smi_sub'' BOO recv_1_args PREDICTED_SEND False,
     Send smi_mult ''smi_mult'' BOO recv_1_args PREDICTED_SEND False,
     Send smi_div ''smi_div'' BOO recv_1_args PREDICTED_SEND False,
     Send smi_mod ''smi_mod'' BOO recv_1_args PREDICTED_SEND False,
     Send smi_create_point ''smi_create_point'' BOO recv_1_args PREDICTED_SEND False,
     Send smi_equal ''smi_equal'' BOO recv_1_args PREDICTED_SEND False,
     Send smi_not_equal ''smi_not_equal'' BOO recv_1_args PREDICTED_SEND False,
     Send smi_less ''smi_less'' BOO recv_1_args PREDICTED_SEND False,
     Send smi_less_equal ''smi_less_equal'' BOO recv_1_args PREDICTED_SEND False,
     Send smi_greater ''smi_greater'' BOO recv_1_args PREDICTED_SEND False,
     Send smi_greater_equal ''smi_greater_equal'' BOO recv_1_args PREDICTED_SEND False,
     Send objectArray_at ''objectArray_at'' BOO recv_1_args PREDICTED_SEND False,
     Send objectArray_at_put ''objectArray_at_put'' BOO recv_1_args PREDICTED_SEND False,
     Instruction double_equal ''double_equal'' B MISCELLANEOUS True False,
     Instruction double_tilde ''double_tilde'' B MISCELLANEOUS True False]"

definition init_row_f :: "def_call list" where
  "init_row_f =
    [Instruction push_global ''push_global'' BO GLOBAL_ACCESS False False,
     Instruction store_global_pop ''store_global_pop'' BO GLOBAL_ACCESS True True,
     Instruction store_global ''store_global'' BO GLOBAL_ACCESS True False,
     Instruction push_classVar_name ''push_classVar_name'' BO CLASS_VARIABLE_ACCESS False False,
     Instruction store_classVar_pop_name ''store_classVar_pop_name'' BO CLASS_VARIABLE_ACCESS False True,
     Instruction store_classVar_name ''store_classVar_name'' BO CLASS_VARIABLE_ACCESS False False,
     Send smi_and ''smi_and'' BOO recv_1_args PREDICTED_SEND False,
     Send smi_or ''smi_or'' BOO recv_1_args PREDICTED_SEND False,
     Send smi_xor ''smi_xor'' BOO recv_1_args PREDICTED_SEND False,
     Send smi_shift ''smi_shift'' BOO recv_1_args PREDICTED_SEND False,
     Undefined unimplemented_fa,
     Undefined unimplemented_fb,
     Undefined unimplemented_fc,
     Undefined unimplemented_fd,
     Undefined unimplemented_fe,
     Instruction halt ''halt'' B CONTROL_STRUCTURE False False]"

definition init_calls :: "def_call list" where
  "init_calls =
     init_row_0 @ init_row_1 @ init_row_2 @ init_row_3 @ init_row_4 @ init_row_5 @ init_row_6 @
     init_row_7 @ init_row_8 @ init_row_9 @ init_row_a @ init_row_b @ init_row_c @ init_row_d @
     init_row_e @ init_row_f"

fun def_all :: "def_call list \<Rightarrow> byte_codes \<Rightarrow> byte_codes run" where
  "def_all [] t = ret t"
| "def_all (d # ds) t = bindR (def_of d t) (def_all ds)"

definition all_codes :: "Code list" where
  "all_codes = map of_nat [0..<256]"

definition ByteCodes_init :: "byte_codes \<Rightarrow> byte_codes run" where
  "ByteCodes_init t =
     bindR (def_all init_calls (t\<lparr>name_table := (\<lambda>_. None)\<rparr>)) (\<lambda>t.
     bindR (guard (list_all (\<lambda>c. name_table t c \<noteq> None) all_codes)
              ''bytecode table not fully initialized'') (\<lambda>_. ret t))"

text \<open>What a call defines, as a function of the code.\<close>

fun call_code :: "def_call \<Rightarrow> Code" where
  "call_code (Undefined code) = code"
| "call_code (Instruction code name format code_type single_step pop_tos) = code"
| "call_code (Send code name format argument_spec send_type pop_tos) = code"

fun call_name :: "def_call \<Rightarrow> string" where
  "call_name (Undefined code) = ''undefined''"
| "call_name (Instruction code name format code_type single_step pop_tos) = name"
| "call_name (Send code name format argument_spec send_type pop_tos) = name"

fun call_format :: "def_call \<Rightarrow> Format" where
  "call_format (Undefined code) = UNDEFINED"
| "call_format (Instruction code name format code_type single_step pop_tos) = format"
| "call_format (Send code name format argument_spec send_type pop_tos) = format"

fun call_code_type :: "def_call \<Rightarrow> CodeType" where
  "call_code_type (Undefined code) = MISCELLANEOUS"
| "call_code_type (Instruction code name format code_type single_step pop_tos) = code_type"
| "call_code_type (Send code name format argument_spec send_type pop_tos) = MESSAGE_SEND"

fun call_argument_spec :: "def_call \<Rightarrow> ArgumentSpec" where
  "call_argument_spec (Send code name format argument_spec send_type pop_tos) = argument_spec"
| "call_argument_spec _ = no_args"

fun call_send_type :: "def_call \<Rightarrow> SendType" where
  "call_send_type (Send code name format argument_spec send_type pop_tos) = send_type"
| "call_send_type _ = NO_SEND"

fun call_single_step :: "def_call \<Rightarrow> bool" where
  "call_single_step (Undefined code) = False"
| "call_single_step (Instruction code name format code_type single_step pop_tos) = single_step"
| "call_single_step (Send code name format argument_spec send_type pop_tos) = True"

fun call_pop_tos :: "def_call \<Rightarrow> bool" where
  "call_pop_tos (Undefined code) = False"
| "call_pop_tos (Instruction code name format code_type single_step pop_tos) = pop_tos"
| "call_pop_tos (Send code name format argument_spec send_type pop_tos) = pop_tos"

definition call_of :: "Code \<Rightarrow> def_call" where
  "call_of code = init_calls ! unat code"

definition byte_code_table :: byte_codes where
  "byte_code_table =
     \<lparr>entry_point_table = (\<lambda>_. 0),
      name_table = (\<lambda>c. Some (call_name (call_of c))),
      format_table = (\<lambda>c. call_format (call_of c)),
      code_type_table = (\<lambda>c. call_code_type (call_of c)),
      argument_spec_table = (\<lambda>c. call_argument_spec (call_of c)),
      send_type_table = (\<lambda>c. call_send_type (call_of c)),
      single_step_table = (\<lambda>c. call_single_step (call_of c)),
      pop_tos_table = (\<lambda>c. call_pop_tos (call_of c))\<rparr>"

section \<open>Accessors and testers\<close>

text \<open>The tables are static and only \<open>init\<close> writes them (the entry points apart), so the
  accessors read the table it leaves.\<close>

definition code_name :: "Code \<Rightarrow> string option" where
  "code_name code = name_table byte_code_table code"

definition code_format :: "Code \<Rightarrow> Format" where
  "code_format code = format_table byte_code_table code"

definition code_type :: "Code \<Rightarrow> CodeType" where
  "code_type code = code_type_table byte_code_table code"

definition argument_spec :: "Code \<Rightarrow> ArgumentSpec" where
  "argument_spec code = argument_spec_table byte_code_table code"

definition send_type :: "Code \<Rightarrow> SendType" where
  "send_type code = send_type_table byte_code_table code"

definition single_step :: "Code \<Rightarrow> bool" where
  "single_step code = single_step_table byte_code_table code"

definition pop_tos :: "Code \<Rightarrow> bool" where
  "pop_tos code = pop_tos_table byte_code_table code"

definition is_defined :: "byte_codes \<Rightarrow> Code \<Rightarrow> bool" where
  "is_defined t code \<longleftrightarrow> unat code < 256 \<and> format_table t code \<noteq> UNDEFINED"

definition is_send_code :: "Code \<Rightarrow> bool" where
  "is_send_code code \<longleftrightarrow> send_type code \<noteq> NO_SEND"

definition set_entry_point ::
  "Code \<Rightarrow> 32 word \<Rightarrow> byte_codes \<times> (Code \<Rightarrow> 32 word) \<Rightarrow> (byte_codes \<times> (Code \<Rightarrow> 32 word)) run" where
  "set_entry_point code entry_point s = (case s of (t, original_table) \<Rightarrow>
     bindR (guard (is_defined t code) ''undefined byte code'') (\<lambda>_.
     bindR (guard (entry_point \<noteq> 0) ''not a valid entry_point'') (\<lambda>_.
     ret (t\<lparr>entry_point_table := (entry_point_table t)(code := entry_point)\<rparr>,
          original_table(code := entry_point)))))"

definition actually_generated :: "Code \<Rightarrow> bool" where
  "actually_generated code \<longleftrightarrow> is_defined byte_code_table code \<and>
     (send_type code = NO_SEND \<or> send_type code = INTERPRETED_SEND \<or> send_type code = PREDICTED_SEND)"

definition has_instVar_access :: "Code \<Rightarrow> bool" where
  "has_instVar_access code \<longleftrightarrow> code_type code = INSTANCE_VARIABLE_ACCESS"

definition has_classVar_access :: "Code \<Rightarrow> bool" where
  "has_classVar_access code \<longleftrightarrow> code_type code = CLASS_VARIABLE_ACCESS"

definition has_inline_cache :: "Code \<Rightarrow> bool" where
  "has_inline_cache code \<longleftrightarrow> send_type code \<noteq> NO_SEND"

section \<open>Classification and transitions\<close>

definition is_self_send :: "Code \<Rightarrow> bool" where
  "is_self_send code \<longleftrightarrow> code \<in>
    {interpreted_send_self, compiled_send_self, polymorphic_send_self,
     megamorphic_send_self, interpreted_send_self_pop, compiled_send_self_pop,
     polymorphic_send_self_pop, megamorphic_send_self_pop}"

definition is_super_send :: "Code \<Rightarrow> bool" where
  "is_super_send code \<longleftrightarrow> code \<in>
    {interpreted_send_super, compiled_send_super, polymorphic_send_super,
     megamorphic_send_super, interpreted_send_super_pop, compiled_send_super_pop,
     polymorphic_send_super_pop, megamorphic_send_super_pop}"

definition has_access_send_code :: "Code \<Rightarrow> bool" where
  "has_access_send_code code \<longleftrightarrow> code \<in>
    {interpreted_send_0, interpreted_send_self}"

definition has_predicted_send_code :: "Code \<Rightarrow> bool" where
  "has_predicted_send_code code \<longleftrightarrow> code \<in>
    {interpreted_send_1}"

definition interpreted_send_code_for :: "Code \<Rightarrow> Code run" where
  "interpreted_send_code_for code =
    (if code \<in> {interpreted_send_0, compiled_send_0, primitive_send_0,
               polymorphic_send_0, megamorphic_send_0}
     then ret interpreted_send_0
     else if code \<in> {interpreted_send_0_pop, compiled_send_0_pop, primitive_send_0_pop,
               polymorphic_send_0_pop, megamorphic_send_0_pop}
     then ret interpreted_send_0_pop
     else if code \<in> {interpreted_send_1, compiled_send_1, primitive_send_1,
               polymorphic_send_1, megamorphic_send_1}
     then ret interpreted_send_1
     else if code \<in> {interpreted_send_1_pop, compiled_send_1_pop, primitive_send_1_pop,
               polymorphic_send_1_pop, megamorphic_send_1_pop}
     then ret interpreted_send_1_pop
     else if code \<in> {interpreted_send_2, compiled_send_2, primitive_send_2,
               polymorphic_send_2, megamorphic_send_2}
     then ret interpreted_send_2
     else if code \<in> {interpreted_send_2_pop, compiled_send_2_pop, primitive_send_2_pop,
               polymorphic_send_2_pop, megamorphic_send_2_pop}
     then ret interpreted_send_2_pop
     else if code \<in> {interpreted_send_n, compiled_send_n, primitive_send_n,
               polymorphic_send_n, megamorphic_send_n}
     then ret interpreted_send_n
     else if code \<in> {interpreted_send_n_pop, compiled_send_n_pop, primitive_send_n_pop,
               polymorphic_send_n_pop, megamorphic_send_n_pop}
     then ret interpreted_send_n_pop
     else if code \<in> {interpreted_send_self, compiled_send_self, primitive_send_self,
               polymorphic_send_self, megamorphic_send_self}
     then ret interpreted_send_self
     else if code \<in> {interpreted_send_self_pop, compiled_send_self_pop, primitive_send_self_pop,
               polymorphic_send_self_pop, megamorphic_send_self_pop}
     then ret interpreted_send_self_pop
     else if code \<in> {interpreted_send_super, compiled_send_super, primitive_send_super,
               polymorphic_send_super, megamorphic_send_super}
     then ret interpreted_send_super
     else if code \<in> {interpreted_send_super_pop, compiled_send_super_pop, primitive_send_super_pop,
               polymorphic_send_super_pop, megamorphic_send_super_pop}
     then ret interpreted_send_super_pop
     else if code = access_send_0
     then ret interpreted_send_0
     else if code = access_send_self
     then ret interpreted_send_self
     else if code \<in> {smi_add, smi_sub, smi_mult,
               smi_div, smi_mod, smi_create_point,
               smi_equal, smi_not_equal, smi_less,
               smi_less_equal, smi_greater, smi_greater_equal,
               smi_and, smi_or, smi_xor,
               smi_shift, double_equal, double_tilde,
               objectArray_at}
     then ret interpreted_send_1
     else if code = objectArray_at_put
     then ret interpreted_send_2
     else raise (Fatal ''not a send bytecode''))"

definition original_send_code_for :: "Code \<Rightarrow> Code run" where
  "original_send_code_for code =
    (if code \<in> {smi_add, smi_sub, smi_mult,
               smi_div, smi_mod, smi_create_point,
               smi_equal, smi_not_equal, smi_less,
               smi_less_equal, smi_greater, smi_greater_equal,
               smi_and, smi_or, smi_xor,
               smi_shift, objectArray_at, objectArray_at_put,
               double_equal, double_tilde}
     then ret code
     else interpreted_send_code_for code)"

definition compiled_send_code_for :: "Code \<Rightarrow> Code run" where
  "compiled_send_code_for code = bindR (interpreted_send_code_for code) (\<lambda>c.
    (if c = interpreted_send_0
     then ret compiled_send_0
     else if c = interpreted_send_1
     then ret compiled_send_1
     else if c = interpreted_send_2
     then ret compiled_send_2
     else if c = interpreted_send_n
     then ret compiled_send_n
     else if c = interpreted_send_self
     then ret compiled_send_self
     else if c = interpreted_send_super
     then ret compiled_send_super
     else if c = interpreted_send_0_pop
     then ret compiled_send_0_pop
     else if c = interpreted_send_1_pop
     then ret compiled_send_1_pop
     else if c = interpreted_send_2_pop
     then ret compiled_send_2_pop
     else if c = interpreted_send_n_pop
     then ret compiled_send_n_pop
     else if c = interpreted_send_self_pop
     then ret compiled_send_self_pop
     else if c = interpreted_send_super_pop
     then ret compiled_send_super_pop
     else raise (Fatal ''no corresponding compiled send code'')))"

definition access_send_code_for :: "Code \<Rightarrow> Code run" where
  "access_send_code_for code = bindR (interpreted_send_code_for code) (\<lambda>c.
    (if c = interpreted_send_0
     then ret access_send_0
     else if c = interpreted_send_self
     then ret access_send_self
     else raise (Fatal ''no corresponding access send code'')))"

definition primitive_send_code_for :: "Code \<Rightarrow> Code run" where
  "primitive_send_code_for code = bindR (interpreted_send_code_for code) (\<lambda>c.
    (if c = interpreted_send_0
     then ret primitive_send_0
     else if c = interpreted_send_1
     then ret primitive_send_1
     else if c = interpreted_send_2
     then ret primitive_send_2
     else if c = interpreted_send_n
     then ret primitive_send_n
     else if c = interpreted_send_self
     then ret primitive_send_self
     else if c = interpreted_send_super
     then ret primitive_send_super
     else if c = interpreted_send_0_pop
     then ret primitive_send_0_pop
     else if c = interpreted_send_1_pop
     then ret primitive_send_1_pop
     else if c = interpreted_send_2_pop
     then ret primitive_send_2_pop
     else if c = interpreted_send_n_pop
     then ret primitive_send_n_pop
     else if c = interpreted_send_self_pop
     then ret primitive_send_self_pop
     else if c = interpreted_send_super_pop
     then ret primitive_send_super_pop
     else raise (Fatal ''no corresponding primitive send code'')))"

definition polymorphic_send_code_for :: "Code \<Rightarrow> Code run" where
  "polymorphic_send_code_for code = bindR (interpreted_send_code_for code) (\<lambda>c.
    (if c = interpreted_send_0
     then ret polymorphic_send_0
     else if c = interpreted_send_1
     then ret polymorphic_send_1
     else if c = interpreted_send_2
     then ret polymorphic_send_2
     else if c = interpreted_send_n
     then ret polymorphic_send_n
     else if c = interpreted_send_self
     then ret polymorphic_send_self
     else if c = interpreted_send_super
     then ret polymorphic_send_super
     else if c = interpreted_send_0_pop
     then ret polymorphic_send_0_pop
     else if c = interpreted_send_1_pop
     then ret polymorphic_send_1_pop
     else if c = interpreted_send_2_pop
     then ret polymorphic_send_2_pop
     else if c = interpreted_send_n_pop
     then ret polymorphic_send_n_pop
     else if c = interpreted_send_self_pop
     then ret polymorphic_send_self_pop
     else if c = interpreted_send_super_pop
     then ret polymorphic_send_super_pop
     else raise (Fatal ''no corresponding POLYMORPHIC send code'')))"

definition megamorphic_send_code_for :: "Code \<Rightarrow> Code run" where
  "megamorphic_send_code_for code = bindR (interpreted_send_code_for code) (\<lambda>c.
    (if c = interpreted_send_0
     then ret megamorphic_send_0
     else if c = interpreted_send_1
     then ret megamorphic_send_1
     else if c = interpreted_send_2
     then ret megamorphic_send_2
     else if c = interpreted_send_n
     then ret megamorphic_send_n
     else if c = interpreted_send_self
     then ret megamorphic_send_self
     else if c = interpreted_send_super
     then ret megamorphic_send_super
     else if c = interpreted_send_0_pop
     then ret megamorphic_send_0_pop
     else if c = interpreted_send_1_pop
     then ret megamorphic_send_1_pop
     else if c = interpreted_send_2_pop
     then ret megamorphic_send_2_pop
     else if c = interpreted_send_n_pop
     then ret megamorphic_send_n_pop
     else if c = interpreted_send_self_pop
     then ret megamorphic_send_self_pop
     else if c = interpreted_send_super_pop
     then ret megamorphic_send_super_pop
     else raise (Fatal ''no corresponding MEGAMORPHIC send code'')))"

definition original_primitive_call_code_for :: "Code \<Rightarrow> Code run" where
  "original_primitive_call_code_for code =
    (if code \<in> {prim_call, primitive_call_lookup}
     then ret primitive_call_lookup
     else if code \<in> {primitive_call_self, primitive_call_self_lookup}
     then ret primitive_call_self_lookup
     else if code \<in> {primitive_call_failure, primitive_call_failure_lookup}
     then ret primitive_call_failure_lookup
     else if code \<in> {primitive_call_self_failure, primitive_call_self_failure_lookup}
     then ret primitive_call_self_failure_lookup
     else raise (Fatal ''no corresponding primitive call code''))"

definition primitive_call_code_for :: "Code \<Rightarrow> Code run" where
  "primitive_call_code_for code =
    (if code = primitive_call_lookup
     then ret prim_call
     else if code = primitive_call_self_lookup
     then ret primitive_call_self
     else if code = primitive_call_failure_lookup
     then ret primitive_call_failure
     else if code = primitive_call_self_failure_lookup
     then ret primitive_call_self_failure
     else raise (Fatal ''no corresponding primitive call code''))"

definition loop_type :: "Code \<Rightarrow> LoopType" where
  "loop_type code =
    (if code \<in> {jump_loop_byte, jump_loop_word} then LOOP_START
     else if code \<in> {whileTrue_byte, whileFalse_byte, whileTrue_word,
          whileFalse_word} then LOOP_END
     else NO_LOOP)"

fun format_as_string :: "Format \<Rightarrow> string" where
  "format_as_string B = ''B''"
| "format_as_string BB = ''BB''"
| "format_as_string BBB = ''BBB''"
| "format_as_string BBBB = ''BBBB''"
| "format_as_string BBO = ''BBO''"
| "format_as_string BBL = ''BBL''"
| "format_as_string BO = ''BO''"
| "format_as_string BOO = ''BOO''"
| "format_as_string BLO = ''BLO''"
| "format_as_string BOL = ''BOL''"
| "format_as_string BLL = ''BLL''"
| "format_as_string BL = ''BL''"
| "format_as_string BLB = ''BLB''"
| "format_as_string BBOO = ''BBOO''"
| "format_as_string BBLO = ''BBLO''"
| "format_as_string BOOLB = ''BOOLB''"
| "format_as_string BBS = ''BBS''"
| "format_as_string UNDEFINED = ''UNDEFINED''"

fun send_type_as_string :: "SendType \<Rightarrow> string" where
  "send_type_as_string INTERPRETED_SEND = ''ByteCodes::SendType::interpreted_send''"
| "send_type_as_string COMPILED_SEND = ''compiled_send''"
| "send_type_as_string POLYMORPHIC_SEND = ''ByteCodes::SendType::polymorphic_send''"
| "send_type_as_string MEGAMORPHIC_SEND = ''megamorphic_send''"
| "send_type_as_string PREDICTED_SEND = ''predicted_send''"
| "send_type_as_string ACCESSOR_SEND = ''accessor send''"
| "send_type_as_string PRIMITIVE_SEND = ''primitive_send''"
| "send_type_as_string NO_SEND = ''no_send''"

fun code_type_as_string :: "CodeType \<Rightarrow> string" where
  "code_type_as_string LOCAL_ACCESS = ''local_access''"
| "code_type_as_string INSTANCE_VARIABLE_ACCESS = ''instVar_access''"
| "code_type_as_string CONTEXT_ACCESS = ''context_access''"
| "code_type_as_string CLASS_VARIABLE_ACCESS = ''classVar_access''"
| "code_type_as_string GLOBAL_ACCESS = ''global_access''"
| "code_type_as_string NEW_CLOSURE = ''new_closure''"
| "code_type_as_string NEW_CONTEXT = ''new_context''"
| "code_type_as_string CONTROL_STRUCTURE = ''control_structure''"
| "code_type_as_string MESSAGE_SEND = ''message_send''"
| "code_type_as_string NONLOCAL_RETURN = ''nonlocal_return''"
| "code_type_as_string PRIMITIVE_CALL = ''primitive_call''"
| "code_type_as_string DLL_CALL = ''dll_call''"
| "code_type_as_string FLOAT_OPERATION = ''float_operation''"
| "code_type_as_string MISCELLANEOUS = ''miscellaneous''"

fun argument_spec_as_string :: "ArgumentSpec \<Rightarrow> string" where
  "argument_spec_as_string recv_0_args = ''recv_0_args''"
| "argument_spec_as_string recv_1_args = ''recv_1_args''"
| "argument_spec_as_string recv_2_args = ''recv_2_args''"
| "argument_spec_as_string recv_n_args = ''ByteCodes::ArgumentSpec::recv_n_args''"
| "argument_spec_as_string args_only = ''ByteCodes::ArgumentSpec::args_only''"
| "argument_spec_as_string no_args = ''no_args''"

fun loop_type_as_string :: "LoopType \<Rightarrow> string" where
  "loop_type_as_string LOOP_START = ''loop_start''"
| "loop_type_as_string LOOP_END = ''loop_end''"
| "loop_type_as_string NO_LOOP = ''no_loop''"
section \<open>The calls of the initialization\<close>

lemmas init_rows =
  init_row_0_def init_row_1_def init_row_2_def init_row_3_def init_row_4_def init_row_5_def
  init_row_6_def init_row_7_def init_row_8_def init_row_9_def init_row_a_def init_row_b_def
  init_row_c_def init_row_d_def init_row_e_def init_row_f_def

lemma init_codes: "map call_code init_calls = all_codes"
  by (simp add: init_calls_def init_rows all_codes_def upt_rec)

lemma length_init_calls [simp]: "length init_calls = 256"
  using arg_cong [OF init_codes, of length] by (simp add: all_codes_def)

lemma distinct_init_calls: "distinct (map call_code init_calls)"
proof -
  have "map (\<lambda>i. i mod 256) [0..<256] = [0..<256::nat]" by (rule map_idI) simp
  then have "distinct (map unat all_codes)" by (simp add: all_codes_def comp_def unat_of_nat)
  then show ?thesis by (simp add: init_codes distinct_map)
qed

lemma unat_Code: "unat (c :: Code) < 256"
  using unsigned_less [of c, where ?'a = nat] by simp

lemma all_calls: "(\<forall>c. P c (call_of c)) \<longleftrightarrow> list_all (\<lambda>d. P (call_code d) d) init_calls"
proof -
  have code: "call_code (init_calls ! i) = of_nat i" if "i < 256" for i
    using arg_cong [OF init_codes, of "\<lambda>cs. cs ! i"] that by (simp add: all_codes_def)
  have "P c (call_of c)" if "list_all (\<lambda>d. P (call_code d) d) init_calls" for c
  proof -
    from that have "P (call_code (init_calls ! unat c)) (init_calls ! unat c)"
      using unat_Code [of c] by (simp add: list_all_length)
    with code [of "unat c"] unat_Code [of c] show ?thesis by (simp add: call_of_def)
  qed
  moreover have "P (call_code d) d" if P: "\<forall>c. P c (call_of c)" and "d \<in> set init_calls" for d
  proof -
    from that(2) obtain i where i: "i < 256" "d = init_calls ! i" by (auto simp: in_set_conv_nth)
    then have "call_of (of_nat i) = d" by (simp add: call_of_def unat_of_nat)
    with P i code show ?thesis by metis
  qed
  ultimately show ?thesis by (auto simp: list_all_iff)
qed

section \<open>Initialization\<close>

definition set_call :: "def_call \<Rightarrow> byte_codes \<Rightarrow> byte_codes" where
  "set_call d = set_entries (call_code d) (call_name d) (call_format d) (call_code_type d)
     (call_single_step d) (call_argument_spec d) (call_send_type d) (call_pop_tos d)"

text \<open>The checks of \<open>def\<close> that only read the call.\<close>

definition plausible :: "def_call \<Rightarrow> bool" where
  "plausible d \<longleftrightarrow>
     (call_format d = UNDEFINED \<longrightarrow> take 9 (call_name d) = ''undefined'') \<and>
     (call_pop_tos d \<longrightarrow> take 5 (call_name d) \<noteq> ''push_'') \<and>
     (call_argument_spec d \<noteq> no_args \<longrightarrow> call_send_type d \<noteq> NO_SEND) \<and>
     (call_code_type d = MESSAGE_SEND \<longrightarrow> call_send_type d \<noteq> NO_SEND) \<and>
     (call_code_type d = CONTROL_STRUCTURE \<longrightarrow> \<not> call_single_step d) \<and>
     (call_code_type d = FLOAT_OPERATION \<longrightarrow> take 6 (call_name d) = ''float_'')"

lemma init_calls_plausible: "list_all plausible init_calls"
  by (simp add: init_calls_def init_rows plausible_def)

lemma def_of_plausible:
  "plausible d \<Longrightarrow> name_table t (call_code d) = None \<Longrightarrow> def_of d t = ret (set_call d t)"
  by (cases d) (auto simp: plausible_def def_code_def set_call_def)

definition entries ::
  "byte_codes \<Rightarrow> Code \<Rightarrow>
     32 word \<times> string option \<times> Format \<times> CodeType \<times> bool \<times> ArgumentSpec \<times> SendType \<times> bool" where
  "entries t c = (entry_point_table t c, name_table t c, format_table t c, code_type_table t c,
     single_step_table t c, argument_spec_table t c, send_type_table t c, pop_tos_table t c)"

lemma entries_inject: "entries t = entries t' \<Longrightarrow> t = t'"
  by (cases t; cases t') (auto simp: entries_def fun_eq_iff)

lemma entries_set_call:
  "entries (set_call d t) = (entries t)(call_code d := (0, Some (call_name d), call_format d,
     call_code_type d, call_single_step d, call_argument_spec d, call_send_type d, call_pop_tos d))"
  by (auto simp: entries_def set_call_def set_entries_def)

lemma name_set_call:
  "name_table (set_call d t) = (name_table t)(call_code d := Some (call_name d))"
  by (simp add: set_call_def set_entries_def)

lemma def_all_ret:
  "\<lbrakk>distinct (map call_code ds); list_all plausible ds;
    \<forall>d \<in> set ds. name_table t (call_code d) = None\<rbrakk> \<Longrightarrow> def_all ds t = ret (fold set_call ds t)"
proof (induction ds arbitrary: t)
  case (Cons d ds)
  then have "\<forall>d' \<in> set ds. name_table (set_call d t) (call_code d') = None"
    by (auto simp: name_set_call image_iff)
  with Cons show ?case by (auto simp: def_of_plausible)
qed simp

lemma entries_fold:
  "distinct (map call_code ds) \<Longrightarrow>
   entries (fold set_call ds t) c =
     (case find (\<lambda>d. call_code d = c) ds of None \<Rightarrow> entries t c
      | Some d \<Rightarrow> (0, Some (call_name d), call_format d, call_code_type d, call_single_step d,
          call_argument_spec d, call_send_type d, call_pop_tos d))"
proof (induction ds arbitrary: t)
  case (Cons d ds)
  have "find (\<lambda>d. call_code d = c) ds = None" if "call_code d = c"
    using Cons.prems that by (auto simp: find_None_iff image_iff)
  with Cons show ?case by (auto simp: entries_set_call split: option.split)
qed simp

lemma find_call: "find (\<lambda>d. call_code d = c) init_calls = Some (call_of c)"
proof -
  have code: "call_code (call_of c) = c"
    using all_calls [of "\<lambda>c d. call_code d = c"] by (simp add: list_all_iff)
  have "call_of c \<in> set init_calls"
    using unat_Code [of c] by (simp add: call_of_def)
  then obtain d where d: "find (\<lambda>d. call_code d = c) init_calls = Some d"
    using code by (cases "find (\<lambda>d. call_code d = c) init_calls") (auto simp only: find_None_iff)
  then have "d \<in> set init_calls" "call_code d = c" by (auto simp: find_Some_iff)
  with \<open>call_of c \<in> _\<close> code distinct_init_calls have "d = call_of c"
    by (metis distinct_map inj_onD)
  with d show ?thesis by simp
qed

theorem init_defines_table: "ByteCodes_init t = ret byte_code_table"
proof -
  let ?t = "t\<lparr>name_table := (\<lambda>_. None)\<rparr>"
  have "entries (fold set_call init_calls ?t) = entries byte_code_table"
    by (rule ext, subst entries_fold [OF distinct_init_calls]) (simp add: find_call entries_def byte_code_table_def)
  then have "fold set_call init_calls ?t = byte_code_table" by (rule entries_inject)
  then have "def_all init_calls ?t = ret byte_code_table"
    by (simp add: def_all_ret distinct_init_calls init_calls_plausible)
  then show ?thesis by (simp add: ByteCodes_init_def list_all_iff) (simp add: byte_code_table_def)
qed

text \<open>The row of every code, as rewrite rules.\<close>

lemma call_of_rows: "list_all (\<lambda>d. call_of (call_code d) = d) init_calls"
proof -
  have "call_of (call_code d) = d" if "d \<in> set init_calls" for d
    using find_call [of "call_code d"] that distinct_init_calls
    by (auto simp: find_Some_iff distinct_map inj_on_def dest: nth_mem)
  then show ?thesis by (simp add: list_all_iff)
qed

lemmas call_of_simps =
  call_of_rows [unfolded init_calls_def init_rows append.simps list.pred_inject call_code.simps]

lemma bytecode_tables:
  "code_name c = Some (call_name (call_of c))" "code_format c = call_format (call_of c)"
  "code_type c = call_code_type (call_of c)" "argument_spec c = call_argument_spec (call_of c)"
  "send_type c = call_send_type (call_of c)" "single_step c = call_single_step (call_of c)"
  "pop_tos c = call_pop_tos (call_of c)" "is_send_code c \<longleftrightarrow> call_send_type (call_of c) \<noteq> NO_SEND"
  by (simp_all add: code_name_def code_format_def code_type_def argument_spec_def send_type_def
      single_step_def pop_tos_def is_send_code_def byte_code_table_def)

section \<open>Transitions between send codes\<close>

text \<open>How many bytes of a send precede the alignment of its inline cache.\<close>

fun bytes_before_cache :: "Format \<Rightarrow> nat option" where
  "bytes_before_cache BOO = Some 1"
| "bytes_before_cache BLO = Some 1"
| "bytes_before_cache BBOO = Some 2"
| "bytes_before_cache BBLO = Some 2"
| "bytes_before_cache _ = None"

definition same_send :: "Code \<Rightarrow> Code \<Rightarrow> bool" where
  "same_send c c' \<longleftrightarrow>
     bytes_before_cache (code_format c) \<noteq> None \<and>
     bytes_before_cache (code_format c) = bytes_before_cache (code_format c') \<and>
     argument_spec c = argument_spec c' \<and> pop_tos c = pop_tos c' \<and>
     code_type c = code_type c'"

definition interpreted_sends :: "Code list" where
  "interpreted_sends =
     [interpreted_send_0, interpreted_send_1, interpreted_send_2, interpreted_send_n,
      interpreted_send_0_pop, interpreted_send_1_pop, interpreted_send_2_pop, interpreted_send_n_pop,
      interpreted_send_self, interpreted_send_self_pop, interpreted_send_super,
      interpreted_send_super_pop]"

lemma interpreted_of_send_rows:
  "list_all (\<lambda>d. if call_send_type d = NO_SEND then True
     else if call_code d = objectArray_at_put then True
     else \<exists>i. interpreted_send_code_for (call_code d) = ret i \<and> i \<in> set interpreted_sends \<and>
       same_send i (call_code d) \<and>
       (call_send_type d = PRIMITIVE_SEND \<or> is_super_send i = is_super_send (call_code d)))
     init_calls"
  by (simp add: init_calls_def init_rows same_send_def bytecode_tables call_of_simps interpreted_sends_def
      interpreted_send_code_for_def is_super_send_def)

lemma interpreted_of_interpreted:
  "list_all (\<lambda>i. send_type i = INTERPRETED_SEND \<and> interpreted_send_code_for i = ret i) interpreted_sends"
  by (simp add: interpreted_sends_def bytecode_tables call_of_simps interpreted_send_code_for_def)

lemma compiled_of_interpreted:
  "list_all (\<lambda>i. \<exists>k. compiled_send_code_for i = ret k \<and> send_type k = COMPILED_SEND \<and>
     interpreted_send_code_for k = ret i \<and> same_send k i) interpreted_sends"
  by (simp add: interpreted_sends_def same_send_def bytecode_tables call_of_simps
      interpreted_send_code_for_def compiled_send_code_for_def)

lemma polymorphic_of_interpreted:
  "list_all (\<lambda>i. \<exists>k. polymorphic_send_code_for i = ret k \<and> send_type k = POLYMORPHIC_SEND \<and>
     interpreted_send_code_for k = ret i \<and> same_send k i) interpreted_sends"
  by (simp add: interpreted_sends_def same_send_def bytecode_tables call_of_simps
      interpreted_send_code_for_def polymorphic_send_code_for_def)

lemma megamorphic_of_interpreted:
  "list_all (\<lambda>i. \<exists>k. megamorphic_send_code_for i = ret k \<and> send_type k = MEGAMORPHIC_SEND \<and>
     interpreted_send_code_for k = ret i \<and> same_send k i) interpreted_sends"
  by (simp add: interpreted_sends_def same_send_def bytecode_tables call_of_simps
      interpreted_send_code_for_def megamorphic_send_code_for_def)

lemma primitive_of_interpreted:
  "list_all (\<lambda>i. \<exists>k. primitive_send_code_for i = ret k \<and> send_type k = PRIMITIVE_SEND \<and>
     interpreted_send_code_for k = ret i \<and> same_send k i) interpreted_sends"
  by (simp add: interpreted_sends_def same_send_def bytecode_tables call_of_simps
      interpreted_send_code_for_def primitive_send_code_for_def)

lemma same_send_trans [trans]: "same_send a b \<Longrightarrow> same_send b c \<Longrightarrow> same_send a c"
  by (auto simp: same_send_def)

lemma interpreted_of_send:
  assumes "is_send_code c" and "c \<noteq> objectArray_at_put"
  obtains i where "interpreted_send_code_for c = ret i" "i \<in> set interpreted_sends" "same_send i c"
    "send_type c = PRIMITIVE_SEND \<or> is_super_send i = is_super_send c"
proof -
  have "\<forall>c. if call_send_type (call_of c) = NO_SEND then True else if c = objectArray_at_put then True
      else \<exists>i. interpreted_send_code_for c = ret i \<and> i \<in> set interpreted_sends \<and> same_send i c \<and>
        (call_send_type (call_of c) = PRIMITIVE_SEND \<or> is_super_send i = is_super_send c)"
    by (rule iffD2 [OF all_calls]) (rule interpreted_of_send_rows)
  with assms that show ?thesis by (auto simp: bytecode_tables split: if_splits)
qed

lemma original_of_send:
  assumes "is_send_code c" and "interpreted_send_code_for c = ret i"
  shows "\<exists>s. original_send_code_for c = ret s \<and> (s = c \<and> send_type c = PREDICTED_SEND \<or> s = i)"
proof -
  have "if call_send_type (call_of c) = NO_SEND then True
        else if original_send_code_for c = interpreted_send_code_for c then True
        else original_send_code_for c = ret c \<and> call_send_type (call_of c) = PREDICTED_SEND"
    if "original_send_code_for c \<noteq> interpreted_send_code_for c"
    using that unfolding original_send_code_for_def
    by (auto simp: call_of_simps split: if_splits)
  with assms show ?thesis by (auto simp: bytecode_tables split: if_splits)
qed

lemma transitions_of_interpreted:
  assumes "i \<in> set interpreted_sends"
  obtains k p m q where
    "compiled_send_code_for i = ret k" "send_type k = COMPILED_SEND"
    "interpreted_send_code_for k = ret i" "same_send k i"
    "polymorphic_send_code_for i = ret p" "send_type p = POLYMORPHIC_SEND"
    "interpreted_send_code_for p = ret i" "same_send p i"
    "megamorphic_send_code_for i = ret m" "send_type m = MEGAMORPHIC_SEND"
    "interpreted_send_code_for m = ret i" "same_send m i"
    "primitive_send_code_for i = ret q" "send_type q = PRIMITIVE_SEND"
    "interpreted_send_code_for q = ret i" "same_send q i"
  using assms compiled_of_interpreted polymorphic_of_interpreted megamorphic_of_interpreted
    primitive_of_interpreted unfolding list_all_iff by meson

lemma transitions_by_interpreted:
  assumes "interpreted_send_code_for c = ret i" and "interpreted_send_code_for i = ret i"
  shows "compiled_send_code_for c = compiled_send_code_for i"
    "polymorphic_send_code_for c = polymorphic_send_code_for i"
    "megamorphic_send_code_for c = megamorphic_send_code_for i"
    "primitive_send_code_for c = primitive_send_code_for i"
  by (simp_all only: compiled_send_code_for_def polymorphic_send_code_for_def
      megamorphic_send_code_for_def primitive_send_code_for_def assms)



text \<open>The exception: the table declares one argument, the transitions two.\<close>

lemma objectArray_at_put_arguments:
  "interpreted_send_code_for objectArray_at_put = ret interpreted_send_2 \<and>
   argument_spec interpreted_send_2 = recv_2_args \<and> argument_spec objectArray_at_put = recv_1_args"
  by (simp add: interpreted_send_code_for_def bytecode_tables call_of_simps)

text \<open>Two codes of the switch are not sends at all: they have no inline cache.\<close>

lemma double_equal_not_a_send:
  "interpreted_send_code_for double_equal = ret interpreted_send_1 \<and> \<not> is_send_code double_equal \<and>
   interpreted_send_code_for double_tilde = ret interpreted_send_1 \<and> \<not> is_send_code double_tilde"
  by (simp add: interpreted_send_code_for_def bytecode_tables call_of_simps)

section \<open>The layout of sends and of primitive calls\<close>

lemma send_code_layout:
  assumes "is_send_code c"
  shows "128 \<le> unat c" "c \<noteq> halt" "code_type c = MESSAGE_SEND"
    "argument_spec c \<noteq> no_args"
    "bytes_before_cache (code_format c) = Some (if argument_spec c = recv_n_args then 2 else 1)"
proof -
  have "\<forall>c. if call_send_type (call_of c) = NO_SEND then True
      else 128 \<le> unat c \<and> c \<noteq> halt \<and> call_code_type (call_of c) = MESSAGE_SEND \<and>
        call_argument_spec (call_of c) \<noteq> no_args \<and> bytes_before_cache (call_format (call_of c)) =
          Some (if call_argument_spec (call_of c) = recv_n_args then 2 else 1)"
    by (rule iffD2 [OF all_calls]) (simp add: init_calls_def init_rows)
  with assms show "128 \<le> unat c" "c \<noteq> halt" "code_type c = MESSAGE_SEND"
    "argument_spec c \<noteq> no_args"
    "bytes_before_cache (code_format c) = Some (if argument_spec c = recv_n_args then 2 else 1)"
    by (auto simp: bytecode_tables split: if_splits)
qed

text \<open>A primitive call and its lookup form lead to each other; the predicted forms have no
  transition at all.\<close>

lemma primitive_call_transitions:
  "primitive_call_code_for c = ret d \<longleftrightarrow> original_primitive_call_code_for d = ret c \<and> d \<noteq> c"
  by (auto simp: primitive_call_code_for_def original_primitive_call_code_for_def split: if_splits)

lemma predicted_primitive_calls_fault:
  assumes "c \<in> {predict_primitive_call, predict_primitive_call_failure,
    predict_primitive_call_lookup, predict_primitive_call_failure_lookup}"
  shows "code_type c = PRIMITIVE_CALL \<and>
    primitive_call_code_for c = raise (Fatal ''no corresponding primitive call code'') \<and>
    original_primitive_call_code_for c = raise (Fatal ''no corresponding primitive call code'')"
  using assms by (auto simp: primitive_call_code_for_def original_primitive_call_code_for_def
      bytecode_tables call_of_simps)

text \<open>Super sends keep being super sends, except as primitive sends, whose codes the tester
  does not know.\<close>

lemma super_send_transitions:
  assumes "is_send_code c" and "c \<noteq> objectArray_at_put" and "send_type c \<noteq> PRIMITIVE_SEND"
    and "interpreted_send_code_for c = ret i"
  shows "is_super_send i \<longleftrightarrow> is_super_send c"
  using interpreted_of_send [OF assms(1,2)] assms(3,4) by (metis ret_inject)

text \<open>The types alone, for all sends.\<close>

lemma send_transition_types:
  assumes "is_send_code c"
  obtains k p m s where "compiled_send_code_for c = ret k" "send_type k = COMPILED_SEND"
    "polymorphic_send_code_for c = ret p" "send_type p = POLYMORPHIC_SEND"
    "megamorphic_send_code_for c = ret m" "send_type m = MEGAMORPHIC_SEND"
    "original_send_code_for c = ret s" "send_type s \<in> {INTERPRETED_SEND, PREDICTED_SEND}"
proof (cases "c = objectArray_at_put")
  case True
  then show ?thesis
    by (intro that) (auto simp: compiled_send_code_for_def polymorphic_send_code_for_def
        megamorphic_send_code_for_def original_send_code_for_def interpreted_send_code_for_def
        bytecode_tables call_of_simps)
next
  case False
  obtain i where i: "interpreted_send_code_for c = ret i" "i \<in> set interpreted_sends"
    using interpreted_of_send [OF assms False] by blast
  have ii: "send_type i = INTERPRETED_SEND" "interpreted_send_code_for i = ret i"
    using interpreted_of_interpreted i(2) by (auto simp: list_all_iff)
  obtain s where s: "original_send_code_for c = ret s" "s = c \<and> send_type c = PREDICTED_SEND \<or> s = i"
    using original_of_send [OF assms i(1)] by blast
  show ?thesis
    using that s ii transitions_by_interpreted [OF i(1) ii(2)]
    by (rule_tac transitions_of_interpreted [OF i(2)]) auto
qed

lemma original_of_original:
  assumes "send_type c \<in> {INTERPRETED_SEND, PREDICTED_SEND}"
  shows "original_send_code_for c = ret c"
proof -
  have "\<forall>c. if call_send_type (call_of c) = INTERPRETED_SEND then c \<in> set interpreted_sends
      else if call_send_type (call_of c) = PREDICTED_SEND then original_send_code_for c = ret c else True"
    by (rule iffD2 [OF all_calls])
      (simp add: init_calls_def init_rows interpreted_sends_def original_send_code_for_def)
  moreover have "original_send_code_for c = interpreted_send_code_for c" if "c \<in> set interpreted_sends"
    using that by (auto simp: interpreted_sends_def original_send_code_for_def)
  ultimately show ?thesis
    using assms interpreted_of_interpreted by (auto simp: bytecode_tables list_all_iff split: if_splits)
qed

lemma access_transition:
  assumes "has_access_send_code c"
  obtains a where "access_send_code_for c = ret a" "send_type a = ACCESSOR_SEND" "a \<noteq> halt"
  using assms by (auto simp: has_access_send_code_def access_send_code_for_def
      interpreted_send_code_for_def bytecode_tables call_of_simps)

end
