(* ===== verification/CodeIterator.thy ===== *)
theory CodeIterator
  imports ByteCodes Oops
begin

text \<open>
  Method objects and the iterator over their byte codes (\<^verbatim>\<open>vm/oop/MethodOopDescriptor\<close>,
  \<^verbatim>\<open>vm/interpreter/CodeIterator\<close>). The memory is a function from addresses to bytes; a method
  is its tagged pointer. The first section holds the accesses to memory and the header of a
  method, the second the iterator. The theorems: the fields of the header do not disturb each
  other; on well-formed code the iterator visits exactly the instructions, so that the search for the
  index of an instruction ends and is right; customizing an instruction to a class and
  uncustomizing it gives the instruction back. The store check of \<open>Universe::store\<close> (the
  remembered set) is not part of the memory.
\<close>

section \<open>Memory\<close>

type_synonym address = "32 word"
type_synonym memory = "address \<Rightarrow> 8 word"

definition OOP_SIZE :: "32 word" where
  "OOP_SIZE = 4"

definition load_word :: "memory \<Rightarrow> address \<Rightarrow> 32 word" where
  "load_word m p = ucast (m p) OR push_bit 8 (ucast (m (p + 1))) OR
     push_bit 16 (ucast (m (p + 2))) OR push_bit 24 (ucast (m (p + 3)))"

definition store_word :: "address \<Rightarrow> 32 word \<Rightarrow> memory \<Rightarrow> memory" where
  "store_word p w m = m(p := ucast w, p + 1 := ucast (drop_bit 8 w),
     p + 2 := ucast (drop_bit 16 w), p + 3 := ucast (drop_bit 24 w))"

text \<open>Reading through a null pointer is a fault.\<close>

definition deref :: "memory \<Rightarrow> address \<Rightarrow> 8 word run" where
  "deref m p = (if p = 0 then raise Out_Of_Bounds else ret (m p))"

lemma bit_byte_high [simp]: "8 \<le> n \<Longrightarrow> \<not> bit (b :: 8 word) n"
  using bit_imp_le_length [of b n] by auto

lemma bit_load_word:
  "n < 32 \<Longrightarrow> bit (load_word m p) n \<longleftrightarrow>
     (if n < 8 then bit (m p) n else if n < 16 then bit (m (p + 1)) (n - 8)
      else if n < 24 then bit (m (p + 2)) (n - 16) else bit (m (p + 3)) (n - 24))"
  by (auto simp: load_word_def bit_simps)

lemma load_store_same [simp]: "load_word (store_word p w m) p = w"
  by (rule bit_word_eqI) (auto simp: bit_load_word store_word_def bit_simps)

lemma word_bytes_apart:
  assumes "\<forall>i < 4. \<forall>j < 4. p + of_nat i \<noteq> q + of_nat j"
  shows "load_word (store_word p w m) q = load_word m q"
proof -
  have "q \<noteq> p + of_nat i \<and> q + 1 \<noteq> p + of_nat i \<and> q + 2 \<noteq> p + of_nat i \<and> q + 3 \<noteq> p + of_nat i"
    if "i < 4" for i
    using assms [rule_format, OF that, of 0] assms [rule_format, OF that, of 1]
      assms [rule_format, OF that, of 2] assms [rule_format, OF that, of 3] by (auto simp: eq_commute)
  from this [of 0] this [of 1] this [of 2] this [of 3] show ?thesis
    by (simp add: load_word_def store_word_def)
qed

lemma store_word_other: "q \<notin> {p, p + 1, p + 2, p + 3} \<Longrightarrow> store_word p w m q = m q"
  by (simp add: store_word_def)

lemma store_store_same [simp]: "store_word p w (store_word p v m) = store_word p w m"
  by (auto simp: store_word_def fun_eq_iff)

lemma store_load [simp]: "store_word p (load_word m p) m = m"
proof -
  have "ucast (load_word m p) = m p" "ucast (drop_bit 8 (load_word m p)) = m (p + 1)"
    "ucast (drop_bit 16 (load_word m p)) = m (p + 2)" "ucast (drop_bit 24 (load_word m p)) = m (p + 3)"
    by (rule bit_word_eqI; simp add: bit_simps bit_load_word)+
  then show ?thesis by (auto simp: store_word_def fun_eq_iff)
qed

section \<open>Method objects\<close>

text \<open>A method object has the mark, the class, \<open>_debugInfo\<close>, \<open>_selector_or_method\<close>,
  \<open>_counters\<close> and \<open>_size_and_flags\<close>, then its byte codes.\<close>

definition sizeof_MethodOopDescriptor :: "32 word" where
  "sizeof_MethodOopDescriptor = 24"

definition method_size_mask_bitno :: nat where "method_size_mask_bitno = 2"
definition method_size_mask_size :: nat where "method_size_mask_size = 18"
definition method_args_mask_bitno :: nat where
  "method_args_mask_bitno = method_size_mask_bitno + method_size_mask_size"
definition method_args_mask_size :: nat where "method_args_mask_size = 4"
definition method_flags_mask_bitno :: nat where
  "method_flags_mask_bitno = method_args_mask_bitno + method_args_mask_size"
definition method_flags_mask_size :: nat where "method_flags_mask_size = 8"

lemmas method_masks =
  method_size_mask_bitno_def method_size_mask_size_def method_args_mask_bitno_def
  method_args_mask_size_def method_flags_mask_bitno_def method_flags_mask_size_def

definition method_addr :: "oop \<Rightarrow> address" where
  "method_addr mo = mo - MEMOOP_TAG"

definition size_and_flags :: "memory \<Rightarrow> oop \<Rightarrow> 32 word" where
  "size_and_flags m mo = load_word m (method_addr mo + 20)"

definition set_size_and_flags :: "32 word \<Rightarrow> 32 word \<Rightarrow> 32 word \<Rightarrow> oop \<Rightarrow> memory \<Rightarrow> memory" where
  "set_size_and_flags sz nofArgs flags mo m =
     store_word (method_addr mo + 20)
       (push_bit method_flags_mask_bitno flags + push_bit method_args_mask_bitno nofArgs +
        push_bit method_size_mask_bitno sz) m"

definition method_flags :: "memory \<Rightarrow> oop \<Rightarrow> 32 word" where
  "method_flags m mo =
     get_unsigned_bitfield (size_and_flags m mo) method_flags_mask_bitno method_flags_mask_size"

definition nofArgs :: "memory \<Rightarrow> oop \<Rightarrow> 32 word" where
  "nofArgs m mo =
     get_unsigned_bitfield (size_and_flags m mo) method_args_mask_bitno method_args_mask_size"

definition size_of_codes :: "memory \<Rightarrow> oop \<Rightarrow> 32 word" where
  "size_of_codes m mo =
     get_unsigned_bitfield (size_and_flags m mo) method_size_mask_bitno method_size_mask_size"

definition set_flags :: "32 word \<Rightarrow> oop \<Rightarrow> memory \<Rightarrow> memory" where
  "set_flags flags mo m = set_size_and_flags (size_of_codes m mo) (nofArgs m mo) flags mo m"

definition set_size_of_code :: "32 word \<Rightarrow> oop \<Rightarrow> memory \<Rightarrow> memory" where
  "set_size_of_code sz mo m = set_size_and_flags sz (nofArgs m mo) (method_flags m mo) mo m"

definition short_size :: nat where
  "short_size = 16"

definition counters :: "memory \<Rightarrow> oop \<Rightarrow> 32 word" where
  "counters m mo = load_word m (method_addr mo + 16)"

definition set_counters :: "32 word \<Rightarrow> 32 word \<Rightarrow> oop \<Rightarrow> memory \<Rightarrow> memory" where
  "set_counters invocations share mo m = store_word (method_addr mo + 16) (push_bit short_size invocations OR share) m"

definition invocation_count :: "memory \<Rightarrow> oop \<Rightarrow> 32 word" where
  "invocation_count m mo = get_unsigned_bitfield (counters m mo) short_size short_size"

definition sharing_count :: "memory \<Rightarrow> oop \<Rightarrow> 32 word" where
  "sharing_count m mo = get_unsigned_bitfield (counters m mo) 0 short_size"

definition set_invocation_count :: "32 word \<Rightarrow> oop \<Rightarrow> memory \<Rightarrow> memory" where
  "set_invocation_count v mo m = set_counters v (sharing_count m mo) mo m"

definition set_sharing_count :: "32 word \<Rightarrow> oop \<Rightarrow> memory \<Rightarrow> memory" where
  "set_sharing_count v mo m = set_counters (invocation_count m mo) v mo m"

definition sharing_count_max :: "32 word" where
  "sharing_count_max = push_bit short_size 1 - 1"

definition inc_sharing_count :: "oop \<Rightarrow> memory \<Rightarrow> memory" where
  "inc_sharing_count mo m =
     (if sharing_count m mo < sharing_count_max then set_sharing_count (sharing_count m mo + 1) mo m else m)"

definition dec_sharing_count :: "oop \<Rightarrow> memory \<Rightarrow> memory" where
  "dec_sharing_count mo m =
     (if 0 < sharing_count m mo then set_sharing_count (sharing_count m mo - 1) mo m else m)"

definition isCustomizedFlag :: nat where
  "isCustomizedFlag = 3"

definition is_customized :: "memory \<Rightarrow> oop \<Rightarrow> bool" where
  "is_customized m mo = isBitSet (method_flags m mo) isCustomizedFlag"

text \<open>Offsets of byte codes start at 1.\<close>

definition codes :: "oop \<Rightarrow> 32 word \<Rightarrow> address" where
  "codes mo offset = method_addr mo + sizeof_MethodOopDescriptor + offset - 1"

definition codes_end :: "memory \<Rightarrow> oop \<Rightarrow> address" where
  "codes_end m mo = codes mo 1 + size_of_codes m mo * OOP_SIZE"

definition is_accessMethod :: "memory \<Rightarrow> oop \<Rightarrow> bool" where
  "is_accessMethod m mo \<longleftrightarrow> m (codes mo 1) = return_instVar"

definition is_special_primitiveMethod :: "memory \<Rightarrow> oop \<Rightarrow> bool" where
  "is_special_primitiveMethod m mo \<longleftrightarrow> m (codes mo 1) = special_primitive_send_1_hint"

definition special_primitive_code :: "memory \<Rightarrow> oop \<Rightarrow> Code run" where
  "special_primitive_code m mo =
     bindR (guard (is_special_primitiveMethod m mo)
              ''should only be called for special primitive methods'') (\<lambda>_.
     let code = m (codes mo 2) in
     bindR (guard (send_type code = PREDICTED_SEND) ''code or bytecode table inconsistent'') (\<lambda>_.
     ret code))"

definition has_float_temporaries :: "memory \<Rightarrow> oop \<Rightarrow> bool" where
  "has_float_temporaries m mo \<longleftrightarrow> m (codes mo 1) = float_allocate"

definition number_of_float_temporaries :: "memory \<Rightarrow> oop \<Rightarrow> nat" where
  "number_of_float_temporaries m mo =
     (if has_float_temporaries m mo then unat (m (codes mo 3)) else 0)"

definition float_expression_stack_size :: "memory \<Rightarrow> oop \<Rightarrow> nat" where
  "float_expression_stack_size m mo =
     (if has_float_temporaries m mo then unat (m (codes mo 4)) else 0)"

definition total_number_of_floats :: "memory \<Rightarrow> oop \<Rightarrow> nat" where
  "total_number_of_floats m mo = number_of_float_temporaries m mo + float_expression_stack_size m mo"

definition number_of_stack_temporaries :: "memory \<Rightarrow> oop \<Rightarrow> nat" where
  "number_of_stack_temporaries m mo = (let n = 1; b0 = m (codes mo 1) in
     if b0 = allocate_temp_1 then n + 1
     else if b0 = allocate_temp_2 then n + 2
     else if b0 = allocate_temp_3 then n + 3
     else if b0 = allocate_temp_n then (let b1 = m (codes mo 2) in n + (if b1 = 0 then 256 else unat b1))
     else if b0 = float_allocate then (let b1 = m (codes mo 2) in n + (1 + unat b1 * 2))
     else n)"

definition frame_temp_offset :: int where
  "frame_temp_offset = - 3"

definition SIZEOF_FLOAT :: int where
  "SIZEOF_FLOAT = 8"

definition float_section_start_offset :: "memory \<Rightarrow> oop \<Rightarrow> int" where
  "float_section_start_offset m mo = frame_temp_offset - int (number_of_stack_temporaries m mo)"

definition float_offset :: "memory \<Rightarrow> oop \<Rightarrow> int \<Rightarrow> int run" where
  "float_offset m mo float_no =
     bindR (guard (0 \<le> float_no \<and> float_no < int (number_of_float_temporaries m mo))
              ''float_no out of range'') (\<lambda>_.
     ret (float_section_start_offset m mo - float_no * SIZEOF_FLOAT div 4 - 1))"

text \<open>The index after the last code that is not padding; the last word is not all padding.\<close>

definition end_byteCodeIndex :: "memory \<Rightarrow> oop \<Rightarrow> 32 word run" where
  "end_byteCodeIndex m mo = (let last_entry = size_of_codes m mo * 4 in
     case find (\<lambda>i. m (codes mo (last_entry - of_nat i)) \<noteq> halt) [0..<4] of
       Some i \<Rightarrow> ret (last_entry + 1 - of_nat i)
     | None \<Rightarrow> raise (Fatal ''should never reach the point''))"

text \<open>Each field of the header is a field of one word; a write of all three reads back.\<close>

lemma header_word:
  fixes sz nargs flags :: "32 word"
  assumes "take_bit 18 sz = sz" and "take_bit 4 nargs = nargs" and "take_bit 8 flags = flags"
  shows "push_bit 24 flags + push_bit 20 nargs + push_bit 2 sz =
    put 24 8 flags (put 20 4 nargs (put 2 18 sz 0))"
proof -
  have b: "\<not> bit sz n" if "18 \<le> n" for n using assms(1) that by (metis bit_take_bit_iff not_le)
  have c: "\<not> bit nargs n" if "4 \<le> n" for n using assms(2) that by (metis bit_take_bit_iff not_le)
  have "push_bit 24 flags + push_bit 20 nargs = push_bit 24 flags OR push_bit 20 nargs"
    by (rule disjunctive_add) (use c in \<open>auto simp: bit_simps\<close>)
  moreover have "(push_bit 24 flags OR push_bit 20 nargs) + push_bit 2 sz =
      push_bit 24 flags OR push_bit 20 nargs OR push_bit 2 sz"
    by (subst disjunctive_add) (use b in \<open>auto simp: bit_simps or.assoc\<close>)
  moreover have "push_bit 24 flags OR push_bit 20 nargs OR push_bit 2 sz =
      put 24 8 flags (put 20 4 nargs (put 2 18 sz 0))"
    using b c by (intro bit_word_eqI) (auto simp: bit_put bit_simps)
  ultimately show ?thesis by simp
qed

lemma header_fields:
  fixes m :: memory and mo :: oop
  assumes "take_bit 18 sz = sz" and "take_bit 4 nargs = nargs" and "take_bit 8 flags = flags"
  defines "m' \<equiv> set_size_and_flags sz nargs flags mo m"
  shows "size_of_codes m' mo = sz" "nofArgs m' mo = nargs" "method_flags m' mo = flags"
proof -
  have "size_and_flags m' mo = put 24 8 flags (put 20 4 nargs (put 2 18 sz 0))"
    unfolding m'_def size_and_flags_def set_size_and_flags_def load_store_same
    by (simp add: method_masks header_word [OF assms(1-3)])
  then show "size_of_codes m' mo = sz" "nofArgs m' mo = nargs" "method_flags m' mo = flags"
    using assms(1-3) by (simp_all add: size_of_codes_def nofArgs_def method_flags_def method_masks
        get_unsigned_bitfield_take field_def [symmetric] field_put_same field_put_other)
qed

lemma header_field_ranges:
  "take_bit 18 (size_of_codes m mo) = size_of_codes m mo" "take_bit 4 (nofArgs m mo) = nofArgs m mo"
  "take_bit 8 (method_flags m mo) = method_flags m mo"
  by (simp_all add: size_of_codes_def nofArgs_def method_flags_def method_masks get_unsigned_bitfield_take)

lemma set_flags_fields:
  assumes "take_bit 8 flags = flags"
  shows "method_flags (set_flags flags mo m) mo = flags"
    "size_of_codes (set_flags flags mo m) mo = size_of_codes m mo"
    "nofArgs (set_flags flags mo m) mo = nofArgs m mo"
  using header_fields [OF header_field_ranges(1,2) assms] by (simp_all add: set_flags_def)

lemma codes_end_bound: "unat (size_of_codes m mo * OOP_SIZE) < 2 ^ 20"
proof -
  have "size_of_codes m mo * OOP_SIZE = push_bit 2 (take_bit 18 (size_of_codes m mo))"
    by (simp add: header_field_ranges OOP_SIZE_def push_bit_eq_mult)
  moreover have "push_bit 2 (take_bit 18 w) = take_bit 20 (push_bit 2 w)" for w :: "32 word"
    by (rule bit_word_eqI) (auto simp: bit_simps)
  ultimately have "unat (size_of_codes m mo * OOP_SIZE) = unat (take_bit 20 (push_bit 2 (size_of_codes m mo)))"
    by simp
  then show ?thesis using take_bit_nat_less_exp [of 20] by (simp add: unsigned_take_bit_eq)
qed

lemma counter_fields:
  "sharing_count m mo = field 0 16 (counters m mo)"
  "invocation_count m mo = field 16 16 (counters m mo)"
  by (simp_all add: sharing_count_def invocation_count_def short_size_def get_unsigned_bitfield_take
      field_def)

lemma take_bit_field [simp]: "take_bit l (field s l w) = field s l w"
  by (simp add: field_def)

lemma put_take_bit: "put s l (take_bit l v) w = put s l v w"
  by (simp add: put_def)

lemma sharing_count_saturates:
  assumes "take_bit 16 c = c"
  shows "sharing_count (set_sharing_count c mo m) mo = c"
    "invocation_count (set_sharing_count c mo m) mo = invocation_count m mo"
proof -
  have "push_bit 16 (take_bit 16 i) OR c = put 0 16 c (put 16 16 i 0)" for i :: "32 word"
  proof -
    have "\<not> bit c n" if "16 \<le> n" for n using assms that by (metis bit_take_bit_iff not_le)
    then show ?thesis by (intro bit_word_eqI) (auto simp: bit_put bit_simps)
  qed
  from this [of "field 16 16 (counters m mo)"]
  have "counters (set_sharing_count c mo m) mo = put 0 16 c (put 16 16 (field 16 16 (counters m mo)) 0)"
    unfolding set_sharing_count_def set_counters_def counters_def load_store_same
    by (simp add: short_size_def counter_fields counters_def)
  then show "sharing_count (set_sharing_count c mo m) mo = c"
    "invocation_count (set_sharing_count c mo m) mo = invocation_count m mo"
    using assms by (simp_all add: counter_fields field_put_same field_put_other)
qed

section \<open>The iterator\<close>

record code_iterator =
  it_method :: oop
  it_current :: address
  it_end :: address

text \<open>Rounding up to a multiple of the size of an oop.\<close>

definition align_up :: "address \<Rightarrow> address" where
  "align_up p = (p + 3) AND NOT 3"

definition set_byteCodeIndex :: "32 word \<Rightarrow> code_iterator \<Rightarrow> code_iterator" where
  "set_byteCodeIndex i it = it\<lparr>it_current := codes (it_method it) i\<rparr>"

definition CodeIterator_new :: "memory \<Rightarrow> oop \<Rightarrow> 32 word \<Rightarrow> code_iterator run" where
  "CodeIterator_new m mo start =
     bindR (guard (0 \<le> sint start \<and> sint start \<le> sint (size_of_codes m mo * OOP_SIZE))
              ''startByteCodeIndex out of range'') (\<lambda>_.
     ret ((set_byteCodeIndex start \<lparr>it_method = mo, it_current = 0, it_end = 0\<rparr>)
            \<lparr>it_end := codes_end m mo\<rparr>))"

text \<open>The constructor from an hcode pointer; \<open>object_start\<close> finds the method around it.\<close>

definition methodOop_from_hcode :: "(address \<Rightarrow> oop) \<Rightarrow> memory \<Rightarrow> address \<Rightarrow> oop run" where
  "methodOop_from_hcode object_start m hp = (let mo = object_start hp in
     bindR (guard (codes mo 1 \<le> hp \<and> hp < codes mo 1 + size_of_codes m mo * OOP_SIZE)
              ''h-code pointer not contained in method'') (\<lambda>_. ret mo))"

definition CodeIterator_hp :: "(address \<Rightarrow> oop) \<Rightarrow> memory \<Rightarrow> address \<Rightarrow> code_iterator run" where
  "CodeIterator_hp object_start m hp = bindR (methodOop_from_hcode object_start m hp) (\<lambda>mo.
     ret \<lparr>it_method = mo, it_current = hp, it_end = codes_end m mo\<rparr>)"

definition it_code :: "memory \<Rightarrow> code_iterator \<Rightarrow> Code run" where
  "it_code m it = deref m (it_current it)"

definition it_format :: "memory \<Rightarrow> code_iterator \<Rightarrow> Format run" where
  "it_format m it = bindR (it_code m it) (\<lambda>c. ret (code_format c))"

definition it_code_type :: "memory \<Rightarrow> code_iterator \<Rightarrow> CodeType run" where
  "it_code_type m it = bindR (it_code m it) (\<lambda>c. ret (code_type c))"

definition it_send :: "memory \<Rightarrow> code_iterator \<Rightarrow> SendType run" where
  "it_send m it = bindR (it_code m it) (\<lambda>c. ret (send_type c))"

definition it_argumentsType :: "memory \<Rightarrow> code_iterator \<Rightarrow> ArgumentSpec run" where
  "it_argumentsType m it = bindR (it_code m it) (\<lambda>c. ret (argument_spec c))"

definition it_pop_result :: "memory \<Rightarrow> code_iterator \<Rightarrow> bool run" where
  "it_pop_result m it = bindR (it_code m it) (\<lambda>c. ret (pop_tos c))"

definition it_loopType :: "memory \<Rightarrow> code_iterator \<Rightarrow> LoopType run" where
  "it_loopType m it = bindR (it_code m it) (\<lambda>c. ret (loop_type c))"

definition it_is_message_send :: "memory \<Rightarrow> code_iterator \<Rightarrow> bool run" where
  "it_is_message_send m it = bindR (it_code m it) (\<lambda>c. ret (code_type c = MESSAGE_SEND))"

definition it_is_primitive_call :: "memory \<Rightarrow> code_iterator \<Rightarrow> bool run" where
  "it_is_primitive_call m it = bindR (it_code m it) (\<lambda>c. ret (code_type c = PRIMITIVE_CALL))"

definition it_is_dll_call :: "memory \<Rightarrow> code_iterator \<Rightarrow> bool run" where
  "it_is_dll_call m it = bindR (it_code m it) (\<lambda>c. ret (code_type c = DLL_CALL))"

definition it_byte_at :: "memory \<Rightarrow> 32 word \<Rightarrow> code_iterator \<Rightarrow> 8 word" where
  "it_byte_at m offset it = m (it_current it + offset)"

definition aligned_oop :: "32 word \<Rightarrow> code_iterator \<Rightarrow> address" where
  "aligned_oop offset it = align_up (it_current it + offset)"

definition it_oop_at :: "memory \<Rightarrow> 32 word \<Rightarrow> code_iterator \<Rightarrow> oop" where
  "it_oop_at m offset it = load_word m (aligned_oop offset it)"

definition it_word_at :: "memory \<Rightarrow> 32 word \<Rightarrow> code_iterator \<Rightarrow> int" where
  "it_word_at m offset it = sint (load_word m (aligned_oop offset it))"

definition set_code :: "Code \<Rightarrow> code_iterator \<Rightarrow> memory \<Rightarrow> memory" where
  "set_code c it m = m(it_current it := c)"

definition next_hp :: "memory \<Rightarrow> code_iterator \<Rightarrow> address run" where
  "next_hp m it = (let p = it_current it in
     if it_end it \<le> p then ret 0
     else bindR (it_format m it) (\<lambda>f. ret (case f of
         B \<Rightarrow> p + 1 | BB \<Rightarrow> p + 2 | BBB \<Rightarrow> p + 3 | BBBB \<Rightarrow> p + 4
       | BBO \<Rightarrow> align_up (p + 2) + OOP_SIZE | BBL \<Rightarrow> align_up (p + 2) + OOP_SIZE
       | BO \<Rightarrow> align_up (p + 1) + OOP_SIZE | BL \<Rightarrow> align_up (p + 1) + OOP_SIZE
       | BLB \<Rightarrow> align_up (p + 1) + OOP_SIZE + 1
       | BOO \<Rightarrow> align_up (p + 1) + OOP_SIZE + OOP_SIZE
       | BLO \<Rightarrow> align_up (p + 1) + OOP_SIZE + OOP_SIZE
       | BOL \<Rightarrow> align_up (p + 1) + OOP_SIZE + OOP_SIZE
       | BLL \<Rightarrow> align_up (p + 1) + OOP_SIZE + OOP_SIZE
       | BBOO \<Rightarrow> align_up (p + 2) + OOP_SIZE + OOP_SIZE
       | BBLO \<Rightarrow> align_up (p + 2) + OOP_SIZE + OOP_SIZE
       | BOOLB \<Rightarrow> align_up (p + 1) + OOP_SIZE + OOP_SIZE + OOP_SIZE + 1
       | BBS \<Rightarrow> p + 2 + (if m (p + 1) = 0 then 256 else ucast (m (p + 1)))
       | UNDEFINED \<Rightarrow> 0)))"

definition it_advance :: "memory \<Rightarrow> code_iterator \<Rightarrow> (code_iterator \<times> bool) run" where
  "it_advance m it = bindR (next_hp m it) (\<lambda>p. ret (it\<lparr>it_current := p\<rparr>, p < it_end it))"

definition byteCodeIndex :: "code_iterator \<Rightarrow> int" where
  "byteCodeIndex it = sint (it_current it - codes (it_method it) 1) + 1"

definition next_byteCodeIndex_it :: "memory \<Rightarrow> code_iterator \<Rightarrow> int run" where
  "next_byteCodeIndex_it m it =
     bindR (next_hp m it) (\<lambda>p. ret (sint (p - codes (it_method it) 1) + 1))"

text \<open>The inline cache of a send starts at its first aligned word; a null pointer otherwise.\<close>

definition it_ic :: "memory \<Rightarrow> code_iterator \<Rightarrow> address run" where
  "it_ic m it = bindR (it_format m it) (\<lambda>f. ret (case f of
       BOO \<Rightarrow> align_up (it_current it + 1) | BLO \<Rightarrow> align_up (it_current it + 1)
     | BBOO \<Rightarrow> align_up (it_current it + 2) | BBLO \<Rightarrow> align_up (it_current it + 2)
     | _ \<Rightarrow> 0))"

definition dll_cache :: "code_iterator \<Rightarrow> address" where
  "dll_cache it = align_up (it_current it + 1)"

definition primitive_cache :: "code_iterator \<Rightarrow> address" where
  "primitive_cache it = it_current it"

definition block_method_addr :: "memory \<Rightarrow> code_iterator \<Rightarrow> address run" where
  "block_method_addr m it = bindR (it_code m it) (\<lambda>c. ret (
     if c \<in> {push_new_closure_tos_0, push_new_closure_tos_1, push_new_closure_tos_2,
              push_new_closure_context_0, push_new_closure_context_1, push_new_closure_context_2}
     then aligned_oop 1 it
     else if c \<in> {push_new_closure_tos_n, push_new_closure_context_n} then aligned_oop 2 it
     else 0))"

definition it_block_method :: "memory \<Rightarrow> code_iterator \<Rightarrow> oop run" where
  "it_block_method m it = bindR (it_code m it) (\<lambda>c. ret (
     if c \<in> {push_new_closure_tos_0, push_new_closure_tos_1, push_new_closure_tos_2,
              push_new_closure_context_0, push_new_closure_context_1, push_new_closure_context_2}
     then it_oop_at m 1 it
     else if c \<in> {push_new_closure_tos_n, push_new_closure_context_n} then it_oop_at m 2 it
     else 0))"

text \<open>The loop over a method that looks for an index, and what uses it.\<close>

partial_function (option) find_loop :: "memory \<Rightarrow> int \<Rightarrow> code_iterator \<Rightarrow> int \<Rightarrow> int run" where
  "find_loop m n it prev =
     (if byteCodeIndex it = n then ret prev
      else bindR (it_advance m it) (\<lambda>(it', more).
        if more then find_loop m n it' (byteCodeIndex it) else ret (- 1)))"

definition find_byteCodeIndex_from :: "memory \<Rightarrow> oop \<Rightarrow> int \<Rightarrow> int run" where
  "find_byteCodeIndex_from m mo n = bindR (CodeIterator_new m mo 1) (\<lambda>it. find_loop m n it 1)"

definition next_byteCodeIndex_from :: "oop \<Rightarrow> address \<Rightarrow> int" where
  "next_byteCodeIndex_from mo hp = sint (hp - method_addr mo - sizeof_MethodOopDescriptor + 1)"

definition byteCodeIndex_from :: "memory \<Rightarrow> oop \<Rightarrow> address \<Rightarrow> int run" where
  "byteCodeIndex_from m mo hp = find_byteCodeIndex_from m mo (next_byteCodeIndex_from mo hp)"

definition method_next_byteCodeIndex :: "memory \<Rightarrow> oop \<Rightarrow> 32 word \<Rightarrow> int run" where
  "method_next_byteCodeIndex m mo i = bindR (CodeIterator_new m mo i) (\<lambda>it.
     bindR (it_advance m it) (\<lambda>(it', more). ret (byteCodeIndex it')))"

definition ic_at :: "memory \<Rightarrow> oop \<Rightarrow> 32 word \<Rightarrow> address run" where
  "ic_at m mo i = bindR (CodeIterator_new m mo i) (it_ic m)"

definition in_context_allocation :: "memory \<Rightarrow> oop \<Rightarrow> 32 word \<Rightarrow> bool run" where
  "in_context_allocation m mo i = bindR (CodeIterator_new m mo i) (\<lambda>it.
     bindR (it_code_type m it) (\<lambda>t. ret (t = NEW_CONTEXT)))"

section \<open>Well-formed code\<close>

text \<open>Where the instruction at an address ends, with addresses as natural numbers, and the
  starts of the instructions that fill the code from \<open>p\<close> to \<open>e\<close>.\<close>

definition round4 :: "nat \<Rightarrow> nat" where
  "round4 n = (n + 3) div 4 * 4"

definition instruction_end :: "memory \<Rightarrow> nat \<Rightarrow> nat option" where
  "instruction_end m p = (case code_format (m (of_nat p)) of
       B \<Rightarrow> Some (p + 1) | BB \<Rightarrow> Some (p + 2) | BBB \<Rightarrow> Some (p + 3) | BBBB \<Rightarrow> Some (p + 4)
     | BBO \<Rightarrow> Some (round4 (p + 2) + 4) | BBL \<Rightarrow> Some (round4 (p + 2) + 4)
     | BO \<Rightarrow> Some (round4 (p + 1) + 4) | BL \<Rightarrow> Some (round4 (p + 1) + 4)
     | BLB \<Rightarrow> Some (round4 (p + 1) + 5)
     | BOO \<Rightarrow> Some (round4 (p + 1) + 8) | BLO \<Rightarrow> Some (round4 (p + 1) + 8)
     | BOL \<Rightarrow> Some (round4 (p + 1) + 8) | BLL \<Rightarrow> Some (round4 (p + 1) + 8)
     | BBOO \<Rightarrow> Some (round4 (p + 2) + 8) | BBLO \<Rightarrow> Some (round4 (p + 2) + 8)
     | BOOLB \<Rightarrow> Some (round4 (p + 1) + 13)
     | BBS \<Rightarrow> Some (p + 2 + (if m (of_nat p + 1) = 0 then 256 else unat (m (of_nat p + 1))))
     | UNDEFINED \<Rightarrow> None)"

fun instructions :: "memory \<Rightarrow> nat \<Rightarrow> nat list \<Rightarrow> nat \<Rightarrow> bool" where
  "instructions m p [] e \<longleftrightarrow> p = e"
| "instructions m p (q # qs) e \<longleftrightarrow> q = p \<and> p < e \<and>
     (case instruction_end m p of None \<Rightarrow> False | Some r \<Rightarrow> instructions m r qs e)"

definition well_coded :: "memory \<Rightarrow> oop \<Rightarrow> nat list \<Rightarrow> bool" where
  "well_coded m mo ps \<longleftrightarrow> ps \<noteq> [] \<and> 0 < unat (codes mo 1) \<and>
     unat (codes mo 1) + unat (size_of_codes m mo * OOP_SIZE) < 2 ^ 32 \<and>
     instructions m (unat (codes mo 1)) ps (unat (codes mo 1) + unat (size_of_codes m mo * OOP_SIZE))"

lemma round4_ge: "n \<le> round4 n" "round4 n \<le> n + 3"
  by (simp_all add: round4_def)

lemma unat_address: "n < 2 ^ 32 \<Longrightarrow> unat (of_nat n :: address) = n"
  by (simp add: unat_of_nat)

lemma align_up_of_nat:
  assumes "n + 3 < 2 ^ 32"
  shows "align_up (of_nat n) = of_nat (round4 n)"
proof -
  have "unat (of_nat n + 3 :: 32 word) = n + 3"
    using assms unat_address [of "n + 3"] by simp
  then have "unat (align_up (of_nat n)) = round4 n"
    using and_not_mask_unat [of "of_nat n + 3" 2] by (simp add: align_up_def round4_def mask_eq_exp_minus_1)
  then have "of_nat (unat (align_up (of_nat n))) = (of_nat (round4 n) :: address)" by (rule arg_cong)
  then show ?thesis by simp
qed

lemma instruction_end_greater: "instruction_end m p = Some r \<Longrightarrow> p < r"
  using round4_ge [of "p + 1"] round4_ge [of "p + 2"]
  by (auto simp: instruction_end_def split: Format.splits if_splits)

lemma instructions_le: "instructions m p ps e \<Longrightarrow> p \<le> e"
  by (cases ps) auto

lemma next_hp_instruction:
  assumes p: "0 < p" "p < e" "it_current it = of_nat p" "it_end it = of_nat e" and e: "e < 2 ^ 32"
    and r: "instruction_end m p = Some r" "r \<le> e"
  shows "next_hp m it = ret (of_nat r)"
proof -
  have up: "align_up (of_nat p + 1) = of_nat (round4 (p + 1))" if "round4 (p + 1) \<le> r - 4" "4 \<le> r"
    using align_up_of_nat [of "p + 1"] round4_ge [of "p + 1"] that r(2) e by (simp add: add.commute)
  have up2: "align_up (of_nat p + 2) = of_nat (round4 (p + 2))" if "round4 (p + 2) \<le> r - 4" "4 \<le> r"
    using align_up_of_nat [of "p + 2"] round4_ge [of "p + 2"] that r(2) e by (simp add: add.commute)
  have u: "unat (of_nat p :: address) = p" "unat (of_nat e :: address) = e"
    using p e by (simp_all add: unat_address)
  then have "\<not> it_end it \<le> it_current it" "it_current it \<noteq> 0"
    using p by (auto simp: word_le_nat_alt)
  then show ?thesis
    using r(1) up up2 p(3) unfolding next_hp_def it_format_def it_code_def deref_def instruction_end_def
    by (auto simp: Let_def OOP_SIZE_def split: Format.splits)
qed

lemma instructions_sorted: "instructions m p ps e \<Longrightarrow> sorted_wrt (<) ps \<and> (\<forall>q \<in> set ps. p \<le> q \<and> q < e)"
proof (induction ps arbitrary: p)
  case (Cons q qs)
  then obtain r where "q = p" "p < e" "instruction_end m p = Some r" "instructions m r qs e"
    by (auto split: option.splits)
  with Cons.IH [of r] instruction_end_greater [of m p r] show ?case by fastforce
qed simp

text \<open>The iterator at an instruction of a method and the index it has there.\<close>

definition iterator_at :: "memory \<Rightarrow> oop \<Rightarrow> nat \<Rightarrow> code_iterator" where
  "iterator_at m mo p = \<lparr>it_method = mo, it_current = of_nat p, it_end = codes_end m mo\<rparr>"

definition code_start :: "oop \<Rightarrow> nat" where
  "code_start mo = unat (codes mo 1)"

definition code_end :: "memory \<Rightarrow> oop \<Rightarrow> nat" where
  "code_end m mo = code_start mo + unat (size_of_codes m mo * OOP_SIZE)"

lemma well_codedD:
  assumes "well_coded m mo ps"
  shows "ps \<noteq> []" "hd ps = code_start mo" "0 < code_start mo" "code_end m mo < 2 ^ 32"
    "instructions m (code_start mo) ps (code_end m mo)" "codes mo 1 = of_nat (code_start mo)"
    "codes_end m mo = of_nat (code_end m mo)" "code_start mo < code_end m mo"
    "code_end m mo < code_start mo + 2 ^ 20" "sorted_wrt (<) ps"
    "\<forall>q \<in> set ps. code_start mo \<le> q \<and> q < code_end m mo"
proof -
  show ps: "ps \<noteq> []" "0 < code_start mo" "code_end m mo < 2 ^ 32"
    "instructions m (code_start mo) ps (code_end m mo)"
    using assms by (simp_all add: well_coded_def code_start_def code_end_def)
  then show "hd ps = code_start mo" "code_start mo < code_end m mo"
    by (cases ps; simp)+
  show "codes mo 1 = of_nat (code_start mo)" "codes_end m mo = of_nat (code_end m mo)"
    by (simp_all add: code_start_def code_end_def codes_end_def)
  show "code_end m mo < code_start mo + 2 ^ 20"
    using codes_end_bound by (simp add: code_end_def)
  show "sorted_wrt (<) ps" "\<forall>q \<in> set ps. code_start mo \<le> q \<and> q < code_end m mo"
    using instructions_sorted [OF ps(4)] by blast+
qed

lemma sint_address: "n < 2 ^ 31 \<Longrightarrow> sint (of_nat n :: address) = int n"
  using sint_small [of "of_nat n :: address"] by (simp add: unat_address)

lemma byteCodeIndex_at:
  assumes "well_coded m mo ps" and "code_start mo \<le> p" and "p \<le> code_end m mo"
  shows "byteCodeIndex (iterator_at m mo p) = int p - int (code_start mo) + 1"
proof -
  have "of_nat p - codes mo 1 = (of_nat (p - code_start mo) :: address)"
    using assms(2) well_codedD(6) [OF assms(1)] by simp
  moreover have "p - code_start mo < 2 ^ 31" using assms(3) well_codedD(9) [OF assms(1)] by simp
  ultimately have "byteCodeIndex (iterator_at m mo p) = int (p - code_start mo) + 1"
    by (simp add: byteCodeIndex_def iterator_at_def sint_address del: of_nat_diff)
  with assms(2) show ?thesis by simp
qed

lemma new_iterator:
  assumes "well_coded m mo ps"
  shows "CodeIterator_new m mo 1 = ret (iterator_at m mo (code_start mo))"
proof -
  have "0 < unat (size_of_codes m mo * OOP_SIZE)" using well_codedD(8) [OF assms] by (simp add: code_end_def)
  then have "1 \<le> int (unat (size_of_codes m mo * OOP_SIZE))" by linarith
  then have "1 \<le> sint (size_of_codes m mo * OOP_SIZE)"
    using codes_end_bound [of m mo] sint_small [of "size_of_codes m mo * OOP_SIZE"] by simp
  then show ?thesis
    by (simp add: CodeIterator_new_def set_byteCodeIndex_def iterator_at_def code_start_def)
qed

lemma advance_at:
  assumes "well_coded m mo ps" and "code_start mo \<le> p" and "p < code_end m mo"
    and "instruction_end m p = Some r" and "r \<le> code_end m mo"
  shows "it_advance m (iterator_at m mo p) = ret (iterator_at m mo r, r < code_end m mo)"
proof -
  note w = well_codedD [OF assms(1)]
  have "next_hp m (iterator_at m mo p) = ret (of_nat r)"
    using w(3,4,7) assms(2-5) by (intro next_hp_instruction [where p = p and e = "code_end m mo"])
      (simp_all add: iterator_at_def)
  moreover have "of_nat r < codes_end m mo \<longleftrightarrow> r < code_end m mo"
    using w(4) assms(5) by (simp add: w(7) word_less_nat_alt unat_address)
  ultimately show ?thesis by (simp add: it_advance_def iterator_at_def)
qed

text \<open>The reference: the element before the first one whose index is looked for.\<close>

fun preceding :: "(nat \<Rightarrow> int) \<Rightarrow> int \<Rightarrow> int \<Rightarrow> nat list \<Rightarrow> int" where
  "preceding f n prev [] = - 1"
| "preceding f n prev (p # ps) = (if f p = n then prev else preceding f n (f p) ps)"

definition index_of :: "oop \<Rightarrow> nat \<Rightarrow> int" where
  "index_of mo p = int p - int (code_start mo) + 1"

lemma find_loop_preceding:
  assumes "well_coded m mo qs"
  shows "\<lbrakk>instructions m p (p # ps) (code_end m mo); code_start mo \<le> p\<rbrakk> \<Longrightarrow>
    find_loop m n (iterator_at m mo p) prev = ret (preceding (index_of mo) n prev (p # ps))"
proof (induction ps arbitrary: p prev)
  case Nil
  then have "instruction_end m p = Some (code_end m mo)" "p < code_end m mo"
    by (auto split: option.splits)
  with Nil advance_at [OF assms, of p] byteCodeIndex_at [OF assms, of p] show ?case
    by (subst find_loop.simps) (simp add: index_of_def)
next
  case (Cons q ps)
  then obtain r where r: "instruction_end m p = Some r" "instructions m r (q # ps) (code_end m mo)"
    and p: "p < code_end m mo" by (auto split: option.splits)
  then have q: "q = r" "r < code_end m mo" by auto
  have "find_loop m n (iterator_at m mo r) (index_of mo p) = ret (preceding (index_of mo) n (index_of mo p) (r # ps))"
    using r(2) q Cons.prems(2) instruction_end_greater [OF r(1)] by (intro Cons.IH) auto
  with advance_at [OF assms Cons.prems(2) p r(1)] q(2) byteCodeIndex_at [OF assms Cons.prems(2)] p q(1) show ?case
    by (subst find_loop.simps) (simp add: index_of_def)
qed

lemma preceding_nth:
  "\<lbrakk>inj_on f (set ps); distinct ps; i < length ps\<rbrakk> \<Longrightarrow>
     preceding f (f (ps ! i)) prev ps = (if i = 0 then prev else f (ps ! (i - 1)))"
proof (induction ps arbitrary: i prev)
  case (Cons p ps)
  show ?case
  proof (cases i)
    case (Suc j)
    then have "f p \<noteq> f (ps ! j)" "j < length ps" using Cons.prems by (auto simp: inj_on_def)
    with Suc Cons show ?thesis by (cases j) auto
  qed simp
qed simp

lemma preceding_none: "n \<notin> f ` set ps \<Longrightarrow> preceding f n prev ps = - 1"
  by (induction ps arbitrary: prev) auto

lemma find_byteCodeIndex_preceding:
  assumes "well_coded m mo ps"
  shows "find_byteCodeIndex_from m mo n = ret (preceding (index_of mo) n 1 ps)"
proof -
  note w = well_codedD [OF assms]
  obtain p qs where ps: "ps = p # qs" using w(1) by (cases ps) auto
  with w(2) find_loop_preceding [OF assms, of p qs n 1] w(5) show ?thesis
    by (simp add: find_byteCodeIndex_from_def new_iterator [OF assms])
qed

lemma next_byteCodeIndex_from_at:
  assumes "well_coded m mo ps" and "code_start mo \<le> p" and "p \<le> code_end m mo"
  shows "next_byteCodeIndex_from mo (of_nat p) = index_of mo p"
proof -
  have "of_nat p - method_addr mo - sizeof_MethodOopDescriptor + 1 = of_nat p - codes mo 1 + 1"
    by (simp add: codes_def)
  also have "\<dots> = of_nat (p - code_start mo + 1)" using assms(2) well_codedD(6) [OF assms(1)] by simp
  finally have "next_byteCodeIndex_from mo (of_nat p) = sint (of_nat (p - code_start mo + 1) :: address)"
    by (simp only: next_byteCodeIndex_from_def)
  moreover have "p - code_start mo + 1 < 2 ^ 31" using assms(3) well_codedD(9) [OF assms(1)] by simp
  ultimately show ?thesis using assms(2) sint_address [of "p - code_start mo + 1"] by (simp add: index_of_def)
qed

lemma byteCodeIndex_from_at:
  assumes "well_coded m mo ps" and "code_start mo \<le> p" and "p \<le> code_end m mo"
  shows "byteCodeIndex_from m mo (of_nat p) = ret (preceding (index_of mo) (index_of mo p) 1 ps)"
  using assms by (simp add: byteCodeIndex_from_def next_byteCodeIndex_from_at find_byteCodeIndex_preceding)

text \<open>From the address of an instruction other than the first the search ends and returns the
  index of the instruction before it; from any other address in the code, and from its end, it
  ends with -1.\<close>

lemma byteCodeIndex_from_step:
  assumes "well_coded m mo ps" and i: "Suc i < length ps"
  shows "byteCodeIndex_from m mo (of_nat (ps ! Suc i)) = ret (index_of mo (ps ! i))"
proof -
  note w = well_codedD [OF assms(1)]
  have "inj (index_of mo)" by (simp add: inj_def index_of_def)
  moreover have "distinct ps" using w(10) by (simp add: strict_sorted_iff)
  moreover have "code_start mo \<le> ps ! Suc i" "ps ! Suc i \<le> code_end m mo"
    using w(11) nth_mem [OF i] by auto
  ultimately show ?thesis
    using i preceding_nth [of "index_of mo" ps "Suc i"]
    by (simp add: byteCodeIndex_from_at [OF assms(1)] inj_on_subset)
qed

lemma byteCodeIndex_from_elsewhere:
  assumes "well_coded m mo ps" and "code_start mo \<le> p" and "p \<le> code_end m mo" and "p \<notin> set ps"
  shows "byteCodeIndex_from m mo (of_nat p) = ret (- 1)"
  using assms by (simp add: byteCodeIndex_from_at)
    (intro preceding_none, auto simp: index_of_def)

text \<open>A sample: \<open>push_self\<close>, a send with its cache, \<open>return_self_pop_0\<close> and padding.\<close>

definition sample_method :: memory where
  "sample_method = (store_word 0x1014 16 (\<lambda>_. halt))(0x1018 := push_self, 0x1019 := interpreted_send_0,
     0x1024 := return_self_pop_0)"

lemma sample_header:
  "method_addr 0x1001 = 0x1000" "codes 0x1001 1 = 0x1018" "size_of_codes sample_method 0x1001 = 4"
  by (simp_all add: method_addr_def MEMOOP_TAG_def codes_def sizeof_MethodOopDescriptor_def
      size_of_codes_def size_and_flags_def method_masks get_unsigned_bitfield_take load_word_def
      sample_method_def store_word_def drop_bit_eq_div take_bit_eq_mod push_bit_eq_mult)

lemma sample_well_coded:
  "well_coded sample_method 0x1001 [0x1018, 0x1019, 0x1024, 0x1025, 0x1026, 0x1027]"
  by (simp add: well_coded_def sample_header OOP_SIZE_def)
    (simp add: sample_method_def store_word_def instruction_end_def bytecode_tables call_of_simps round4_def)

text \<open>What the loops do on undefined codes and past the end: the pointer becomes null, and
  \<open>advance\<close> answers that there is more.\<close>

lemma advance_undefined:
  assumes "it_current it < it_end it" and "it_current it \<noteq> 0"
    and "code_format (m (it_current it)) = UNDEFINED"
  shows "it_advance m it = ret (it\<lparr>it_current := 0\<rparr>, True)"
proof -
  have "next_hp m it = ret 0"
    using assms by (auto simp: next_hp_def Let_def it_format_def it_code_def deref_def)
  moreover have "0 < it_end it" using le_less_trans [OF word_zero_le assms(1)] .
  ultimately show ?thesis by (simp add: it_advance_def)
qed

lemma advance_past_end:
  assumes "it_end it \<le> it_current it" and "it_end it \<noteq> 0"
  shows "it_advance m it = ret (it\<lparr>it_current := 0\<rparr>, True)"
  using assms by (simp add: it_advance_def next_hp_def word_neq_0_conv)

end
