(* ===== verification/SendSites.thy ===== *)
theory SendSites
  imports CodeIterator
begin

text \<open>
  Finding the inline cache of the send an interpreter frame is executing
  (\<^verbatim>\<open>InterpretedInlineCache::findStartOfSend\<close>, \<^verbatim>\<open>as_InterpretedIC\<close>,
  \<^verbatim>\<open>Frame::current_interpretedIC\<close>). The frame keeps the address of the instruction to execute
  next; the cache is the two words before it, and the send is found by going back over the padding.
  The theorem composes the search for the index of the current instruction, the layout of
  instructions and the table of byte codes: for sends with less than 128 arguments the two ways
  of finding the send agree. The lemma after it is what happens for more arguments.
\<close>

definition ic_size :: "32 word" where
  "ic_size = 8"

definition as_InterpretedIC :: "address \<Rightarrow> address" where
  "as_InterpretedIC next_instr = next_instr - ic_size"

text \<open>Going back over the padding; nothing in the code bounds the loop.\<close>

partial_function (option) skip_padding :: "memory \<Rightarrow> address \<Rightarrow> address run" where
  "skip_padding m p = (let p = p - 1 in bindR (deref m p) (\<lambda>b.
     if b = halt then skip_padding m p else ret p))"

definition findStartOfSend :: "memory \<Rightarrow> address \<Rightarrow> address run" where
  "findStartOfSend m sel_addr = bindR (skip_padding m sel_addr) (\<lambda>p.
     bindR (deref m p) (\<lambda>b. let p = (if b < 128 then p - 1 else p) in
     bindR (deref m p) (\<lambda>c. ret (if \<not> is_send_code c then 0 else p))))"

definition IllegalByteCodeIndex :: int where
  "IllegalByteCodeIndex = - 1"

definition findStartOfSend_index :: "memory \<Rightarrow> oop \<Rightarrow> 32 word \<Rightarrow> int run" where
  "findStartOfSend_index m mo i = bindR (findStartOfSend m (codes mo i)) (\<lambda>p.
     ret (if p = 0 then IllegalByteCodeIndex else sint (p - codes mo 1 + 1)))"

definition send_code_addr :: "memory \<Rightarrow> address \<Rightarrow> address run" where
  "send_code_addr m ic = findStartOfSend m ic"

definition current_interpretedIC :: "memory \<Rightarrow> oop \<Rightarrow> address \<Rightarrow> address run" where
  "current_interpretedIC m mo hp = bindR (byteCodeIndex_from m mo hp) (\<lambda>i.
     let codeptr = codes mo (word_of_int i) in bindR (deref m codeptr) (\<lambda>c.
     if is_send_code c then
       let ic = as_InterpretedIC hp in bindR (send_code_addr m ic) (\<lambda>p.
       bindR (guard (p = codeptr) ''found wrong ic'') (\<lambda>_. ret ic))
     else ret 0))"

section \<open>Padding\<close>

lemma skip_padding_halts:
  assumes "0 < q" and "q \<le> p" and "p < 2 ^ 32" and "m (of_nat q) \<noteq> halt"
    and "\<forall>i. q < i \<and> i \<le> p \<longrightarrow> m (of_nat i) = halt"
  shows "skip_padding m (of_nat p + 1) = ret (of_nat q)"
  using assms
proof (induction p)
  case (Suc p)
  have nz: "(of_nat (Suc p) :: address) \<noteq> 0"
    using Suc.prems(3) unat_address [of "Suc p"] by (metis nat.distinct(1) unat_0)
  show ?case
  proof (cases "q = Suc p")
    case True
    with nz Suc.prems(4) show ?thesis by (subst skip_padding.simps) (simp add: deref_def)
  next
    case False
    then have "skip_padding m (of_nat p + 1) = ret (of_nat q)" using Suc by simp
    moreover have "m (of_nat (Suc p)) = halt"
      using Suc.prems(2) False by (intro Suc.prems(5) [rule_format]) simp
    ultimately have "skip_padding m (of_nat p + 1) = ret (of_nat q) \<and> m (of_nat p + 1) = halt"
      by (simp add: add.commute)
    with nz show ?thesis by (subst skip_padding.simps) (simp add: deref_def add.commute)
  qed
qed simp

section \<open>Send sites\<close>

text \<open>The bytes of a send before its cache: the code, the number of arguments when the format has
  it, and padding up to a word.\<close>

definition cache_offset :: "memory \<Rightarrow> nat \<Rightarrow> nat" where
  "cache_offset m p = (if argument_spec (m (of_nat p)) = recv_n_args then 2 else 1)"

definition send_site :: "memory \<Rightarrow> nat \<Rightarrow> bool" where
  "send_site m p \<longleftrightarrow> is_send_code (m (of_nat p)) \<and>
     (argument_spec (m (of_nat p)) = recv_n_args \<longrightarrow> m (of_nat p + 1) < 128) \<and>
     list_all (\<lambda>i. m (of_nat i) = halt) [p + cache_offset m p ..< round4 (p + cache_offset m p)]"

lemma send_format:
  assumes "is_send_code c"
  shows "code_format c \<in> (if argument_spec c = recv_n_args then {BBOO, BBLO} else {BOO, BLO})"
  using send_code_layout(5) [OF assms]
  by (cases "code_format c") (auto split: if_splits)

lemma send_instruction_end:
  "is_send_code (m (of_nat p)) \<Longrightarrow> instruction_end m p = Some (round4 (p + cache_offset m p) + 8)"
  using send_format [of "m (of_nat p)"] by (auto simp: instruction_end_def cache_offset_def split: if_splits)

lemma findStartOfSend_site:
  assumes "send_site m p" and "0 < p" and e: "round4 (p + cache_offset m p) < 2 ^ 32"
  shows "findStartOfSend m (of_nat (round4 (p + cache_offset m p))) = ret (of_nat p)"
proof -
  let ?k = "cache_offset m p" let ?r = "round4 (p + cache_offset m p)" let ?q = "p + ?k - 1"
  have k: "?k = 1 \<or> ?k = 2" by (simp add: cache_offset_def)
  have r: "p + ?k \<le> ?r" by (rule round4_ge)
  have send: "is_send_code (m (of_nat p))" using assms(1) by (simp add: send_site_def)
  have big: "\<not> m (of_nat p) < 128" "m (of_nat p) \<noteq> halt"
    using send_code_layout(1,2) [OF send] by (simp_all add: word_less_nat_alt)
  have nargs: "m (of_nat ?q) < 128" if "?k = 2"
    using assms(1) that by (auto simp: send_site_def cache_offset_def add.commute split: if_splits)
  then have q: "m (of_nat ?q) \<noteq> halt" using big(2) k by (cases "?k = 2") auto
  have pad: "\<forall>i. ?q < i \<and> i \<le> ?r - 1 \<longrightarrow> m (of_nat i) = halt"
    using assms(1) k by (auto simp: send_site_def list_all_iff)
  have step: "of_nat ?r = of_nat (?r - 1) + (1 :: address)"
    using r k by (metis Suc_pred' add.commute gr0I le_zero_eq add_is_0 of_nat_Suc zero_neq_one zero_neq_numeral)
  have "skip_padding m (of_nat ?r) = ret (of_nat ?q)"
    unfolding step using assms(2) r k e q pad by (intro skip_padding_halts) auto
  moreover have "(of_nat p :: address) \<noteq> 0" "(of_nat ?q :: address) \<noteq> 0"
    using assms(2) r e k unat_address [of p] unat_address [of ?q] by auto
  ultimately show ?thesis using k send big nargs
    by (auto simp: findStartOfSend_def deref_def Let_def)
qed

text \<open>More arguments, a limit the code states itself: the byte with their number is taken for
  the send (128 to 254), and only by accident for padding (255).\<close>

lemma findStartOfSend_many_arguments:
  assumes p: "0 < p" "round4 (p + 2) < 2 ^ 32" and b: "128 \<le> m (of_nat p + 1)" "m (of_nat p + 1) \<noteq> halt"
    and pad: "\<forall>i. p + 2 \<le> i \<and> i < round4 (p + 2) \<longrightarrow> m (of_nat i) = halt"
  shows "findStartOfSend m (of_nat (round4 (p + 2))) =
    ret (if is_send_code (m (of_nat p + 1)) then of_nat (p + 1) else 0)"
proof -
  have r: "p + 2 \<le> round4 (p + 2)" by (rule round4_ge)
  then have step: "of_nat (round4 (p + 2)) = of_nat (round4 (p + 2) - 1) + (1 :: address)"
    by (metis Suc_pred' add.commute add_is_0 gr0I le_zero_eq of_nat_Suc zero_neq_numeral)
  have "skip_padding m (of_nat (round4 (p + 2))) = ret (of_nat (p + 1))"
    unfolding step using p r b pad by (intro skip_padding_halts) (auto simp: add.commute)
  moreover have "(of_nat (p + 1) :: address) \<noteq> 0"
    using p(2) r unat_address [of "p + 1"] by auto
  moreover have "\<not> m (of_nat p + 1) < 128" using b(1) by simp
  ultimately show ?thesis by (simp add: findStartOfSend_def deref_def add.commute Let_def)
qed

section \<open>The cache of a frame\<close>

lemma instructions_nth:
  "\<lbrakk>instructions m p ps e; Suc i < length ps\<rbrakk> \<Longrightarrow> instruction_end m (ps ! i) = Some (ps ! Suc i)"
proof (induction ps arbitrary: p i)
  case (Cons q qs)
  then obtain r where r: "q = p" "instruction_end m p = Some r" "instructions m r qs e"
    by (auto split: option.splits)
  show ?case
  proof (cases i)
    case 0
    with Cons.prems(2) r show ?thesis by (cases qs) auto
  next
    case (Suc j)
    with Cons.prems(2) r(3) Cons.IH [of r j] show ?thesis by simp
  qed
qed simp

lemma codes_index_of:
  assumes "well_coded m mo ps" and "code_start mo \<le> p"
  shows "codes mo (word_of_int (index_of mo p)) = of_nat p"
proof -
  have "codes mo (word_of_int (index_of mo p)) = codes mo 1 + word_of_int (int p - int (code_start mo))"
    by (simp add: codes_def index_of_def)
  also have "\<dots> = of_nat p" using well_codedD(6) [OF assms(1)] by simp
  finally show ?thesis .
qed

lemma it_ic_send:
  assumes "well_coded m mo ps" and "is_send_code (m (of_nat p))" and "p + 8 < 2 ^ 32" and "0 < p"
  shows "it_ic m (iterator_at m mo p) = ret (of_nat (round4 (p + cache_offset m p)))"
proof -
  have nz: "(of_nat p :: address) \<noteq> 0" using assms(3,4) unat_address [of p] by auto
  have "align_up (of_nat p + 1) = of_nat (round4 (p + 1))" "align_up (of_nat p + 2) = of_nat (round4 (p + 2))"
    using align_up_of_nat [of "p + 1"] align_up_of_nat [of "p + 2"] assms(3) by (simp_all add: add.commute)
  with nz send_format [OF assms(2)] show ?thesis
    by (auto simp: it_ic_def it_format_def it_code_def deref_def iterator_at_def cache_offset_def split: if_splits)
qed

text \<open>C36. A frame of the interpreter finds the inline cache of the send it is executing: on
  well-formed code, from the address of the instruction after a send with padded operands and
  less than 128 arguments, the search ends without failing its assertion and returns the cache
  the iterator finds at the send, from which the send is found again; from the address after
  another instruction it returns null.\<close>

theorem current_interpretedIC_right:
  assumes "well_coded m mo ps" and "Suc i < length ps"
  shows "(send_site m (ps ! i) \<longrightarrow> (\<exists>ic. current_interpretedIC m mo (of_nat (ps ! Suc i)) = ret ic \<and>
      it_ic m (iterator_at m mo (ps ! i)) = ret ic \<and> send_code_addr m ic = ret (of_nat (ps ! i)))) \<and>
    (\<not> is_send_code (m (of_nat (ps ! i))) \<longrightarrow> current_interpretedIC m mo (of_nat (ps ! Suc i)) = ret 0)"
proof -
  note w = well_codedD [OF assms(1)]
  let ?p = "ps ! i" let ?r = "round4 (?p + cache_offset m ?p)"
  have p: "code_start mo \<le> ?p" "?p < code_end m mo" "ps ! Suc i < code_end m mo"
    using w(11) nth_mem [of i ps] nth_mem [OF assms(2)] assms(2) by auto
  have find: "byteCodeIndex_from m mo (of_nat (ps ! Suc i)) = ret (index_of mo ?p)"
    using byteCodeIndex_from_step [OF assms] .
  have nz: "(of_nat ?p :: address) \<noteq> 0" using p w(3,4) unat_address [of ?p] by auto
  note frame = current_interpretedIC_def find codes_index_of [OF assms(1) p(1)] deref_def nz
  have "\<exists>ic. current_interpretedIC m mo (of_nat (ps ! Suc i)) = ret ic \<and>
      it_ic m (iterator_at m mo ?p) = ret ic \<and> send_code_addr m ic = ret (of_nat ?p)" if site: "send_site m ?p"
  proof -
    have send: "is_send_code (m (of_nat ?p))" using site by (simp add: send_site_def)
    then have r: "ps ! Suc i = ?r + 8"
      using instructions_nth [OF w(5) assms(2)] send_instruction_end [of m ?p] send by simp
    have "findStartOfSend m (of_nat ?r) = ret (of_nat ?p)"
      using site p w(3,4) r by (intro findStartOfSend_site) auto
    moreover have "it_ic m (iterator_at m mo ?p) = ret (of_nat ?r)"
      using send p w(3,4) r round4_ge [of "?p + cache_offset m ?p"]
      by (intro it_ic_send [OF assms(1)]) auto
    moreover have "as_InterpretedIC (of_nat (ps ! Suc i)) = of_nat ?r"
      by (simp add: r as_InterpretedIC_def ic_size_def)
    ultimately show ?thesis using send by (simp add: frame send_code_addr_def Let_def)
  qed
  then show ?thesis by (simp add: frame)
qed

theorem current_interpretedIC_right_witness:
  "(\<exists>ic. current_interpretedIC sample_method 0x1001 (of_nat 0x1024) = ret ic \<and>
      it_ic sample_method (iterator_at sample_method 0x1001 0x1019) = ret ic \<and>
      send_code_addr sample_method ic = ret (of_nat 0x1019)) \<and>
   current_interpretedIC sample_method 0x1001 (of_nat 0x1019) = ret 0"
proof -
  have "send_site sample_method 0x1019" "\<not> is_send_code (sample_method (of_nat 0x1018))"
    by (simp_all add: send_site_def cache_offset_def round4_def bytecode_tables call_of_simps
        sample_method_def store_word_def upt_rec)
  then show ?thesis
    using current_interpretedIC_right [OF sample_well_coded, of 1, THEN conjunct1]
      current_interpretedIC_right [OF sample_well_coded, of 0, THEN conjunct2] by simp
qed

end
