(* ===== verification/InlineCaches.thy ===== *)
theory InlineCaches
  imports ByteCodes LookupKeys Histories
begin

text \<open>
  The inline caches of the interpreter (\<^verbatim>\<open>vm/interpreter/InterpretedInlineCache\<close>). A cache is
  the code of its send and two words; a word is the object it holds, told apart the way the code
  tests it. The interpreter's polymorphic caches are object arrays of pairs, recycled through
  a free list for each size; the arrays allocated so far are a list, and a reference to one is
  its index. The facts about methods and native methods that a cache reads
  are the record \<open>world\<close>; the lookup, which changes as methods are defined and compiled,
  is an argument of the operations. The theorems: every operation keeps all caches
  well-formed, none of them loses its selector, no polymorphic cache is in use twice or in use
  and free; a miss adds exactly the class and its target until five are known and makes the
  send megamorphic then; a cleanup brings every target up to date.
\<close>

section \<open>Words, caches and arrays\<close>

datatype ic_word = Null | Nil_Oop | ASymbol oop | AMethod oop | AnEntry oop | AKlass oop | APic nat

record inline_cache =
  ic_code :: Code
  first_word :: ic_word
  second_word :: ic_word

record pics =
  arrays :: "ic_word list list"
  pic_free_list :: "ic_word list"

record world =
  selector_of :: "oop \<Rightarrow> oop"
  access_method :: "oop \<Rightarrow> bool"
  special_primitive :: "oop \<Rightarrow> bool"
  primitive_method :: "oop \<Rightarrow> bool"
  special_code :: "oop \<Rightarrow> Code"
  entry_native :: "oop \<Rightarrow> oop"
  native_key :: "oop \<Rightarrow> lookup_key"
  native_method :: "oop \<Rightarrow> oop"
  native_entry :: "oop \<Rightarrow> oop"
  key_selector_of :: "lookup_key \<Rightarrow> oop"
  UseAccessMethods :: bool
  UsePredictedMethods :: bool
  UsePrimitiveMethods :: bool

type_synonym lookup = "lookup_key \<Rightarrow> ic_word"

definition array_at :: "ic_word list \<Rightarrow> nat \<Rightarrow> ic_word run" where
  "array_at a which = bindR (guard (0 < which \<and> which \<le> length a) ''index out of bounds'') (\<lambda>_.
     ret (a ! (which - 1)))"

definition array_at_put :: "nat \<Rightarrow> ic_word \<Rightarrow> ic_word list \<Rightarrow> ic_word list run" where
  "array_at_put which w a = bindR (guard (0 < which \<and> which \<le> length a) ''index out of bounds'') (\<lambda>_.
     ret (a[which - 1 := w]))"

definition pic_at :: "nat \<Rightarrow> nat \<Rightarrow> pics \<Rightarrow> ic_word run" where
  "pic_at p which ps = (if p < length (arrays ps) then array_at (arrays ps ! p) which else raise Out_Of_Bounds)"

definition pic_at_put :: "nat \<Rightarrow> nat \<Rightarrow> ic_word \<Rightarrow> pics \<Rightarrow> pics run" where
  "pic_at_put p which w ps =
     (if p < length (arrays ps)
      then bindR (array_at_put which w (arrays ps ! p)) (\<lambda>a. ret (ps\<lparr>arrays := (arrays ps)[p := a]\<rparr>))
      else raise Out_Of_Bounds)"

definition pic_length :: "nat \<Rightarrow> pics \<Rightarrow> nat" where
  "pic_length p ps = length (arrays ps ! p)"

definition free_list_put :: "nat \<Rightarrow> ic_word \<Rightarrow> pics \<Rightarrow> pics run" where
  "free_list_put which w ps =
     bindR (array_at_put which w (pic_free_list ps)) (\<lambda>a. ret (ps\<lparr>pic_free_list := a\<rparr>))"

section \<open>The polymorphic caches\<close>

definition size_of_smallest_interpreterPIC :: nat where
  "size_of_smallest_interpreterPIC = 2"

definition size_of_largest_interpreterPIC :: nat where
  "size_of_largest_interpreterPIC = 5"

definition number_of_interpreterPIC_sizes :: nat where
  "number_of_interpreterPIC_sizes = size_of_largest_interpreterPIC - size_of_smallest_interpreterPIC + 1"

definition initial_pics :: pics where
  "initial_pics = \<lparr>arrays = [], pic_free_list = replicate number_of_interpreterPIC_sizes Nil_Oop\<rparr>"

definition allocate_tenured_pic :: "nat \<Rightarrow> pics \<Rightarrow> nat \<times> pics" where
  "allocate_tenured_pic sz ps = (length (arrays ps), ps\<lparr>arrays := arrays ps @ [replicate sz Nil_Oop]\<rparr>)"

definition pic_allocate :: "nat \<Rightarrow> pics \<Rightarrow> (nat \<times> pics) run" where
  "pic_allocate sz ps = bindR (array_at (pic_free_list ps) (sz - 1)) (\<lambda>first.
     if first = Nil_Oop then ret (allocate_tenured_pic (sz * 2) ps)
     else case first of
       APic p \<Rightarrow> bindR (pic_at p 1 ps) (\<lambda>link. bindR (free_list_put (sz - 1) link ps) (\<lambda>ps.
         bindR (guard (pic_length p ps = sz * 2) ''checking size'') (\<lambda>_. ret (p, ps))))
     | _ \<Rightarrow> raise (Assertion ''must be object array''))"

fun copy_entries :: "nat \<Rightarrow> nat \<Rightarrow> nat list \<Rightarrow> pics \<Rightarrow> pics run" where
  "copy_entries old new [] ps = ret ps"
| "copy_entries old new (i # js) ps = bindR (pic_at old i ps) (\<lambda>w. bindR (pic_at_put new i w ps)
     (copy_entries old new js))"

definition pic_extend :: "nat \<Rightarrow> pics \<Rightarrow> (nat option \<times> pics) run" where
  "pic_extend old ps = (let old_size = pic_length old ps div 2 in
     if size_of_largest_interpreterPIC \<le> old_size then ret (None, ps)
     else bindR (pic_allocate (old_size + 1) ps) (\<lambda>(new, ps).
       bindR (copy_entries old new [1 ..< old_size * 2 + 1] ps) (\<lambda>ps. ret (Some new, ps))))"

definition pic_deallocate :: "nat \<Rightarrow> pics \<Rightarrow> pics run" where
  "pic_deallocate p ps = (let entry = pic_length p ps div 2 - 1 in
     bindR (array_at (pic_free_list ps) entry) (\<lambda>first.
     bindR (pic_at_put p 1 first ps) (free_list_put entry (APic p))))"

definition pic_set_first :: "nat \<Rightarrow> ic_word \<Rightarrow> ic_word \<Rightarrow> pics \<Rightarrow> pics run" where
  "pic_set_first p w1 w2 ps = bindR (pic_at_put p 1 w1 ps) (pic_at_put p 2 w2)"

definition pic_set_second :: "nat \<Rightarrow> ic_word \<Rightarrow> ic_word \<Rightarrow> pics \<Rightarrow> pics run" where
  "pic_set_second p w1 w2 ps = bindR (pic_at_put p 3 w1 ps) (pic_at_put p 4 w2)"

definition pic_set_last :: "nat \<Rightarrow> ic_word \<Rightarrow> ic_word \<Rightarrow> pics \<Rightarrow> pics run" where
  "pic_set_last p w1 w2 ps = (let sz = pic_length p ps in
     bindR (pic_at_put p sz w2 ps) (pic_at_put p (sz - 1) w1))"

section \<open>One cache\<close>

definition ic_set :: "Code \<Rightarrow> ic_word \<Rightarrow> ic_word \<Rightarrow> inline_cache \<Rightarrow> inline_cache" where
  "ic_set code w1 w2 ic = ic\<lparr>ic_code := code, first_word := w1, second_word := w2\<rparr>"

definition ic_is_empty :: "inline_cache \<Rightarrow> bool" where
  "ic_is_empty ic \<longleftrightarrow> second_word ic = Null"

definition ic_send_type :: "inline_cache \<Rightarrow> SendType" where
  "ic_send_type ic = send_type (ic_code ic)"

definition ic_argument_spec :: "inline_cache \<Rightarrow> ArgumentSpec" where
  "ic_argument_spec ic = argument_spec (ic_code ic)"

definition ic_jump_table_entry :: "inline_cache \<Rightarrow> oop run" where
  "ic_jump_table_entry ic =
     bindR (guard (ic_send_type ic = COMPILED_SEND \<or> ic_send_type ic = MEGAMORPHIC_SEND)
              ''must be a compiled call'') (\<lambda>_.
     case first_word ic of AnEntry e \<Rightarrow> ret e | Null \<Rightarrow> ret 0
     | _ \<Rightarrow> raise (Assertion ''must be small_int_t''))"

definition ic_selector :: "world \<Rightarrow> inline_cache \<Rightarrow> oop run" where
  "ic_selector W ic = (case first_word ic of
       ASymbol s \<Rightarrow> ret s
     | AMethod m \<Rightarrow> ret (selector_of W m)
     | _ \<Rightarrow> bindR (ic_jump_table_entry ic) (\<lambda>e. ret (key_selector_of W (native_key W (entry_native W e)))))"

definition ic_clear :: "world \<Rightarrow> inline_cache \<Rightarrow> pics \<Rightarrow> (inline_cache \<times> pics) run" where
  "ic_clear W ic ps =
     (if ic_is_empty ic then ret (ic, ps)
      else bindR (if ic_send_type ic = POLYMORPHIC_SEND
                  then (case second_word ic of APic p \<Rightarrow> pic_deallocate p ps
                        | _ \<Rightarrow> raise (Assertion ''must be a pic''))
                  else ret ps) (\<lambda>ps.
        bindR (original_send_code_for (ic_code ic)) (\<lambda>code. bindR (ic_selector W ic) (\<lambda>s.
        ret (ic_set code (ASymbol s) Null ic, ps)))))"

definition ic_clear_without_deallocation_pic :: "world \<Rightarrow> inline_cache \<Rightarrow> inline_cache run" where
  "ic_clear_without_deallocation_pic W ic =
     (if ic_is_empty ic then ret ic
      else bindR (original_send_code_for (ic_code ic)) (\<lambda>code. bindR (ic_selector W ic) (\<lambda>s.
        ret (ic_set code (ASymbol s) Null ic))))"

definition result_method_of :: "world \<Rightarrow> ic_word \<Rightarrow> oop" where
  "result_method_of W result = (case result of
     AMethod m \<Rightarrow> m | AnEntry e \<Rightarrow> native_method W (entry_native W e) | _ \<Rightarrow> 0)"

definition ic_replace_result ::
  "world \<Rightarrow> ic_word \<Rightarrow> oop \<Rightarrow> inline_cache \<Rightarrow> pics \<Rightarrow> (inline_cache \<times> pics) run" where
  "ic_replace_result W result k ic ps =
     bindR (guard (second_word ic = AKlass k) ''klass should be the same'') (\<lambda>_. case result of
       AMethod m \<Rightarrow>
         if ic_send_type ic = MEGAMORPHIC_SEND then ret (ic_set (ic_code ic) result (AKlass k) ic, ps)
         else ic_clear W ic ps
     | AnEntry e \<Rightarrow>
         if ic_send_type ic = MEGAMORPHIC_SEND then ret (ic_set (ic_code ic) result (AKlass k) ic, ps)
         else bindR (compiled_send_code_for (ic_code ic)) (\<lambda>code.
           ret (ic_set code result (AKlass k) ic, ps))
     | _ \<Rightarrow> ic_clear W ic ps)"

definition matches_native :: "world \<Rightarrow> ic_word \<Rightarrow> oop \<Rightarrow> bool" where
  "matches_native W result nm \<longleftrightarrow> (case result of AnEntry e \<Rightarrow> entry_native W e = nm | _ \<Rightarrow> False)"

text \<open>What a target found in a cache is replaced by when it is no longer what the lookup finds.\<close>

definition current_target :: "world \<Rightarrow> lookup \<Rightarrow> oop \<Rightarrow> oop \<Rightarrow> ic_word \<Rightarrow> ic_word option" where
  "current_target W L k s target = (case target of
       AnEntry e \<Rightarrow> (let nm = entry_native W e; result = L (native_key W nm) in
         if matches_native W result nm then None else Some result)
     | AMethod m \<Rightarrow> (let result = L (LookupKey k s) in if result = AMethod m then None else Some result)
     | _ \<Rightarrow> None)"

fun cleanup_pic :: "world \<Rightarrow> lookup \<Rightarrow> oop run \<Rightarrow> nat \<Rightarrow> nat list \<Rightarrow> pics \<Rightarrow> pics run" where
  "cleanup_pic W L sel p [] ps = ret ps"
| "cleanup_pic W L sel p (i # js) ps = bindR (pic_at p i ps) (\<lambda>w2. bindR (pic_at p (i - 1) ps) (\<lambda>w1.
     case (w2, w1) of
       (AKlass k, AnEntry e) \<Rightarrow> bindR (case current_target W L k 0 w1 of None \<Rightarrow> ret ps
           | Some w \<Rightarrow> pic_at_put p (i - 1) w ps) (cleanup_pic W L sel p js)
     | (AKlass k, AMethod m) \<Rightarrow> bindR sel (\<lambda>s. bindR (case current_target W L k s w1 of None \<Rightarrow> ret ps
           | Some w \<Rightarrow> pic_at_put p (i - 1) w ps) (cleanup_pic W L sel p js))
     | _ \<Rightarrow> raise (Assertion ''receiver klass must be klass'')))"

definition ic_cleanup :: "world \<Rightarrow> lookup \<Rightarrow> inline_cache \<Rightarrow> pics \<Rightarrow> (inline_cache \<times> pics) run" where
  "ic_cleanup W L ic ps =
     (if ic_is_empty ic then ret (ic, ps)
      else if ic_send_type ic \<in> {ACCESSOR_SEND, PRIMITIVE_SEND, PREDICTED_SEND, INTERPRETED_SEND} then
        (case (second_word ic, first_word ic) of
           (AKlass k, AMethod m) \<Rightarrow>
             if is_super_send (ic_code ic) then ret (ic, ps)
             else bindR (ic_selector W ic) (\<lambda>s. case current_target W L k s (AMethod m) of
               None \<Rightarrow> ret (ic, ps) | Some result \<Rightarrow> ic_replace_result W result k ic ps)
         | _ \<Rightarrow> raise (Assertion ''first word in interpreter InlineCache must be method''))
      else if ic_send_type ic = COMPILED_SEND then
        (case (second_word ic, first_word ic) of
           (AKlass k, AnEntry e) \<Rightarrow> (case current_target W L k 0 (AnEntry e) of
               None \<Rightarrow> ret (ic, ps) | Some result \<Rightarrow> ic_replace_result W result k ic ps)
         | _ \<Rightarrow> raise (Assertion ''receiver klass must be a klass''))
      else if ic_send_type ic = MEGAMORPHIC_SEND then
        (case (second_word ic, first_word ic) of
           (AKlass k, AnEntry e) \<Rightarrow> (case current_target W L k 0 (AnEntry e) of
               None \<Rightarrow> ret (ic, ps) | Some result \<Rightarrow> ic_replace_result W result k ic ps)
         | (AKlass k, AMethod m) \<Rightarrow>
             if is_super_send (ic_code ic) then ret (ic, ps)
             else bindR (ic_selector W ic) (\<lambda>s. case current_target W L k s (AMethod m) of
               None \<Rightarrow> ret (ic, ps) | Some result \<Rightarrow> ic_replace_result W result k ic ps)
         | _ \<Rightarrow> raise (Assertion ''first word in interpreter InlineCache must be method''))
      else if ic_send_type ic = POLYMORPHIC_SEND then
        (if is_super_send (ic_code ic) then ret (ic, ps)
         else case second_word ic of
           APic p \<Rightarrow> bindR (guard (4 \<le> pic_length p ps) ''pic should contain at least two entries'') (\<lambda>_.
             bindR (cleanup_pic W L (ic_selector W ic) p (rev (map (\<lambda>i. 2 * i) [1 ..< pic_length p ps div 2 + 1])) ps) (\<lambda>ps.
             ret (ic, ps)))
         | _ \<Rightarrow> raise (Assertion ''interpreter pic must be object array''))
      else ret (ic, ps))"

fun replace_in_pic :: "oop \<Rightarrow> oop \<Rightarrow> nat \<Rightarrow> nat list \<Rightarrow> pics \<Rightarrow> pics run" where
  "replace_in_pic k e p [] ps = ret ps"
| "replace_in_pic k e p (i # js) ps = bindR (pic_at p i ps) (\<lambda>w. case w of
       AKlass k' \<Rightarrow> if k' = k then pic_at_put p (i - 1) (AnEntry e) ps else replace_in_pic k e p js ps
     | _ \<Rightarrow> raise (Assertion ''receiver klass must be klass''))"

definition ic_replace_native :: "world \<Rightarrow> oop \<Rightarrow> inline_cache \<Rightarrow> pics \<Rightarrow> (inline_cache \<times> pics) run" where
  "ic_replace_native W nm ic ps = (let e = native_entry W nm; k = key_klass (native_key W nm) in
     bindR (ic_selector W ic) (\<lambda>s.
     bindR (guard (s = key_selector_of W (native_key W nm)) ''mismatched selector'') (\<lambda>_.
     if ic_is_empty ic then ret (ic, ps)
     else if ic_send_type ic \<in> {ACCESSOR_SEND, PRIMITIVE_SEND, PREDICTED_SEND, INTERPRETED_SEND} then
       (case second_word ic of
          AKlass k' \<Rightarrow>
            if k' = k then bindR (compiled_send_code_for (ic_code ic)) (\<lambda>code.
              ret (ic_set code (AnEntry e) (AKlass k) ic, ps))
            else ret (ic, ps)
        | _ \<Rightarrow> raise (Assertion ''receiver klass must be a klass''))
     else if ic_send_type ic \<in> {COMPILED_SEND, MEGAMORPHIC_SEND} then
       ret (ic_set (ic_code ic) (AnEntry e) (AKlass k) ic, ps)
     else if ic_send_type ic = POLYMORPHIC_SEND then
       (case second_word ic of
          APic p \<Rightarrow> bindR (guard (4 \<le> pic_length p ps) ''pic should contain at least two entries'') (\<lambda>_.
            bindR (replace_in_pic k e p (rev (map (\<lambda>i. 2 * i) [1 ..< pic_length p ps div 2 + 1])) ps) (\<lambda>ps.
            ret (ic, ps)))
        | _ \<Rightarrow> raise (Assertion ''interpreter pic must be object array''))
     else raise (Fatal ''unknown send type''))))"

section \<open>A miss\<close>

definition predicted_applies :: "world \<Rightarrow> Code \<Rightarrow> oop \<Rightarrow> bool" where
  "predicted_applies W code m \<longleftrightarrow>
     UsePredictedMethods W \<and> has_predicted_send_code code \<and> special_primitive W m"

definition access_applies :: "world \<Rightarrow> Code \<Rightarrow> oop \<Rightarrow> bool" where
  "access_applies W code m \<longleftrightarrow> UseAccessMethods W \<and> has_access_send_code code \<and> access_method W m"

definition fill_entry_result :: "world \<Rightarrow> Code \<Rightarrow> oop \<Rightarrow> oop \<Rightarrow> inline_cache \<Rightarrow> inline_cache run" where
  "fill_entry_result W code k e ic = (let m = native_method W (entry_native W e) in
     if access_applies W code m then
       bindR (access_send_code_for code) (\<lambda>new. ret (ic_set new (AMethod m) (AKlass k) ic))
     else if predicted_applies W code m then
       bindR (ic_selector W ic) (\<lambda>s. ret (ic_set (special_code W m) (ASymbol s) Null ic))
     else bindR (compiled_send_code_for code) (\<lambda>new. ret (ic_set new (AnEntry e) (AKlass k) ic)))"

definition fill_method_result :: "world \<Rightarrow> Code \<Rightarrow> oop \<Rightarrow> oop \<Rightarrow> inline_cache \<Rightarrow> inline_cache run" where
  "fill_method_result W code k m ic =
     (if access_applies W code m then
        bindR (access_send_code_for code) (\<lambda>new.
        bindR (guard (new \<noteq> halt) ''new_send_code not set'') (\<lambda>_.
        ret (ic_set new (AMethod m) (AKlass k) ic)))
      else if predicted_applies W code m then
        bindR (ic_selector W ic) (\<lambda>s.
        bindR (guard (special_code W m \<noteq> halt) ''new_send_code not set'') (\<lambda>_.
        ret (ic_set (special_code W m) (ASymbol s) Null ic)))
      else if UsePrimitiveMethods W \<and> primitive_method W m then raise (Fatal ''Unimplemented'')
      else bindR (original_send_code_for code) (\<lambda>c.
        bindR (guard (code = c) ''bytecode should not change'') (\<lambda>_.
        bindR (guard (code \<noteq> halt) ''new_send_code not set'') (\<lambda>_.
        ret (ic_set code (AMethod m) (AKlass k) ic)))))"

definition update_inline_cache ::
  "world \<Rightarrow> Code \<Rightarrow> oop \<Rightarrow> ic_word \<Rightarrow> inline_cache \<Rightarrow> pics \<Rightarrow> (inline_cache \<times> pics) run" where
  "update_inline_cache W code k result ic ps =
     (if ic_is_empty ic \<and> ic_send_type ic \<noteq> MEGAMORPHIC_SEND then
        bindR (case result of AnEntry e \<Rightarrow> fill_entry_result W code k e ic
               | AMethod m \<Rightarrow> fill_method_result W code k m ic
               | _ \<Rightarrow> raise (Assertion ''cannot be empty'')) (\<lambda>ic. ret (ic, ps))
      else if ic_send_type ic \<in> {ACCESSOR_SEND, PREDICTED_SEND, COMPILED_SEND, INTERPRETED_SEND} then
        bindR (pic_allocate 2 ps) (\<lambda>(p, ps).
        bindR (pic_set_first p (first_word ic) (second_word ic) ps) (\<lambda>ps.
        bindR (pic_set_second p result (AKlass k) ps) (\<lambda>ps.
        bindR (polymorphic_send_code_for code) (\<lambda>new. bindR (ic_selector W ic) (\<lambda>s.
        ret (ic_set new (ASymbol s) (APic p) ic, ps))))))
      else if ic_send_type ic = POLYMORPHIC_SEND then
        (case second_word ic of
           APic old \<Rightarrow>
             bindR (guard (4 \<le> pic_length old ps) ''pic should contain at least two entries'') (\<lambda>_.
             bindR (pic_extend old ps) (\<lambda>(new_pic, ps).
             bindR (case new_pic of
                 None \<Rightarrow> bindR (megamorphic_send_code_for code) (\<lambda>new.
                   if is_super_send code then ret (ic_set new result (AKlass k) ic, ps)
                   else bindR (ic_selector W ic) (\<lambda>s. ret (ic_set new (ASymbol s) Null ic, ps)))
               | Some p \<Rightarrow> bindR (pic_set_last p result (AKlass k) ps) (\<lambda>ps. bindR (ic_selector W ic) (\<lambda>s.
                   ret (ic_set code (ASymbol s) (APic p) ic, ps)))) (\<lambda>(ic, ps).
             bindR (pic_deallocate old ps) (\<lambda>ps. ret (ic, ps)))))
         | _ \<Rightarrow> raise (Assertion ''interpreter pic must be object array''))
      else if ic_send_type ic = MEGAMORPHIC_SEND then
        ret (if is_super_send code then ic_set code result (AKlass k) ic else ic, ps)
      else raise (Fatal ''ShouldNotReachHere''))"

text \<open>The handler: for a receiver of class \<open>k\<close>, with the lookup of super sends from the holder of
  the running method; on an empty result the message is not understood and the cache stays.\<close>

definition inline_cache_miss ::
  "world \<Rightarrow> lookup \<Rightarrow> (oop \<Rightarrow> ic_word) \<Rightarrow> oop \<Rightarrow> inline_cache \<Rightarrow> pics \<Rightarrow> (inline_cache \<times> pics) run" where
  "inline_cache_miss W L super_lookup k ic ps = bindR (ic_selector W ic) (\<lambda>s.
     let result = (if is_super_send (ic_code ic) then super_lookup s else L (LookupKey k s)) in
     if result \<noteq> Null then update_inline_cache W (ic_code ic) k result ic ps else ret (ic, ps))"

section \<open>The free lists\<close>

text \<open>The arrays linked from a word through their first elements.\<close>

fun free_chain :: "ic_word list list \<Rightarrow> ic_word \<Rightarrow> nat list \<Rightarrow> bool" where
  "free_chain A w [] \<longleftrightarrow> w = Nil_Oop"
| "free_chain A w (p # fs) \<longleftrightarrow> w = APic p \<and> p < length A \<and> free_chain A (A ! p ! 0) fs"

text \<open>The free list of each size is a chain of arrays of that size, so that no array is on two
  chains, and no array is in use twice, or in use and on a chain.\<close>

definition pics_ok :: "pics \<Rightarrow> (nat \<Rightarrow> nat list) \<Rightarrow> nat list \<Rightarrow> bool" where
  "pics_ok ps fs used \<longleftrightarrow> length (pic_free_list ps) = 4 \<and>
     (\<forall>i < 4. free_chain (arrays ps) (pic_free_list ps ! i) (fs i)) \<and>
     (\<forall>i < 4. distinct (fs i) \<and> set (fs i) \<inter> set used = {}) \<and>
     (\<forall>i < 4. \<forall>p \<in> set (fs i). length (arrays ps ! p) = 2 * (i + 2)) \<and>
     (\<forall>p \<in> set used. p < length (arrays ps)) \<and> distinct used"

lemma pics_okD:
  assumes "pics_ok ps fs used"
  shows "length (pic_free_list ps) = 4"
    "\<forall>i < 4. free_chain (arrays ps) (pic_free_list ps ! i) (fs i)"
    "\<forall>i < 4. distinct (fs i) \<and> set (fs i) \<inter> set used = {}"
    "\<forall>i < 4. \<forall>p \<in> set (fs i). length (arrays ps ! p) = 2 * (i + 2)"
    "\<forall>p \<in> set used. p < length (arrays ps)" "distinct used"
  using assms unfolding pics_ok_def by - (elim conjE, assumption)+

lemma pics_okI:
  assumes "length (pic_free_list ps) = 4"
    and "\<And>i. i < 4 \<Longrightarrow> free_chain (arrays ps) (pic_free_list ps ! i) (fs i)"
    and "\<And>i. i < 4 \<Longrightarrow> distinct (fs i)"
    and "\<And>i p. i < 4 \<Longrightarrow> p \<in> set (fs i) \<Longrightarrow> p \<notin> set used \<and> length (arrays ps ! p) = 2 * (i + 2)"
    and "\<And>p. p \<in> set used \<Longrightarrow> p < length (arrays ps)" and "distinct used"
  shows "pics_ok ps fs used"
  using assms unfolding pics_ok_def by blast

lemma pics_ok_free:
  assumes "pics_ok ps fs used" and "i < 4"
  shows "free_chain (arrays ps) (pic_free_list ps ! i) (fs i)" "distinct (fs i)"
    "p \<in> set (fs i) \<Longrightarrow> p \<notin> set used" "p \<in> set (fs i) \<Longrightarrow> length (arrays ps ! p) = 2 * (i + 2)"
  using pics_okD [OF assms(1)] assms(2) by blast+

lemma free_chain_less: "free_chain A w fs \<Longrightarrow> p \<in> set fs \<Longrightarrow> p < length A"
  by (induction fs arbitrary: w) auto

lemma free_chain_cong:
  "free_chain A w fs \<Longrightarrow> length A \<le> length A' \<Longrightarrow> \<forall>p \<in> set fs. A' ! p ! 0 = A ! p ! 0 \<Longrightarrow> free_chain A' w fs"
  by (induction fs arbitrary: w) auto

lemma initial_pics_ok: "pics_ok initial_pics (\<lambda>_. []) []"
  by (auto simp: pics_ok_def initial_pics_def number_of_interpreterPIC_sizes_def
      size_of_largest_interpreterPIC_def size_of_smallest_interpreterPIC_def)

text \<open>Writing an array in use.\<close>

lemma pics_ok_update:
  assumes ok: "pics_ok ps fs used" and p: "p \<in> set used"
  shows "pics_ok (ps\<lparr>arrays := (arrays ps)[p := a]\<rparr>) fs used"
proof (rule pics_okI)
  fix i assume i: "i < (4::nat)"
  note F = pics_ok_free [OF ok i]
  have free: "p \<noteq> q" if "q \<in> set (fs i)" for q using F(3) that p by blast
  show "free_chain (arrays (ps\<lparr>arrays := (arrays ps)[p := a]\<rparr>)) (pic_free_list (ps\<lparr>arrays := (arrays ps)[p := a]\<rparr>) ! i) (fs i)"
    using free by (auto intro!: free_chain_cong [OF F(1)])
  show "distinct (fs i)" by (rule F(2))
  show "q \<notin> set used \<and> length (arrays (ps\<lparr>arrays := (arrays ps)[p := a]\<rparr>) ! q) = 2 * (i + 2)"
    if "q \<in> set (fs i)" for q
    using F(3,4) [OF that] free [OF that] by simp
qed (use pics_okD [OF ok] in auto)

text \<open>Taking an array from the free list.\<close>

lemma take_free:
  assumes ok: "pics_ok ps fs used" and i: "i < 4" and w: "pic_free_list ps ! i = APic p"
  shows "pics_ok (ps\<lparr>pic_free_list := (pic_free_list ps)[i := arrays ps ! p ! 0]\<rparr>) (fs(i := tl (fs i))) (p # used)"
    and "length (arrays ps ! p) = 2 * (i + 2)" and "p < length (arrays ps)" and "p \<notin> set used"
proof -
  note F = pics_ok_free [OF ok]
  obtain gs where gs: "fs i = p # gs" "free_chain (arrays ps) (arrays ps ! p ! 0) gs"
    and p: "p < length (arrays ps)"
    using F(1) [OF i] unfolding w by (cases "fs i") auto
  show len: "length (arrays ps ! p) = 2 * (i + 2)" and nu: "p \<notin> set used" using F(3,4) [OF i] gs(1) by auto
  show "p < length (arrays ps)" by (rule p)
  show "pics_ok (ps\<lparr>pic_free_list := (pic_free_list ps)[i := arrays ps ! p ! 0]\<rparr>) (fs(i := tl (fs i))) (p # used)"
    (is "pics_ok ?ps ?fs _")
  proof (rule pics_okI)
    fix j assume j: "j < (4::nat)"
    show "free_chain (arrays ?ps) (pic_free_list ?ps ! j) (?fs j)"
      using gs F(1) [OF j] pics_okD(1) [OF ok] i by (cases "j = i") auto
    show "distinct (?fs j)" using F(2) [OF j] F(2) [OF i] by (simp add: distinct_tl)
    show "q \<notin> set (p # used) \<and> length (arrays ?ps ! q) = 2 * (j + 2)" if q: "q \<in> set (?fs j)" for q
    proof -
      have fj: "q \<in> set (fs j)" using q gs(1) by (auto split: if_splits)
      then have "q \<noteq> p" using F(2,4) [OF j] len q gs(1) by (auto split: if_splits)
      with F(3,4) [OF j fj] show ?thesis by simp
    qed
  qed (use pics_okD [OF ok] p nu in auto)
qed

text \<open>The three operations of the manager, as a client sees them.\<close>

lemma pic_allocate_ok:
  assumes ok: "pics_ok ps fs used" and i: "i < 4"
  shows "\<exists>p ps' fs'. pic_allocate (i + 2) ps = ret (p, ps') \<and> pics_ok ps' fs' (p # used) \<and>
    pic_length p ps' = 2 * (i + 2) \<and> (\<forall>q \<in> set used. arrays ps' ! q = arrays ps ! q)"
proof (cases "pic_free_list ps ! i = Nil_Oop")
  case True
  let ?ps = "ps\<lparr>arrays := arrays ps @ [replicate ((i + 2) * 2) Nil_Oop]\<rparr>"
  have "pics_ok ?ps fs (length (arrays ps) # used)"
  proof (rule pics_okI)
    fix j assume j: "j < (4::nat)"
    note F = pics_ok_free [OF ok j] and less = free_chain_less [OF pics_ok_free(1) [OF ok j]]
    show "free_chain (arrays ?ps) (pic_free_list ?ps ! j) (fs j)"
      using less by (auto intro!: free_chain_cong [OF F(1)] simp: nth_append)
    show "distinct (fs j)" by (rule F(2))
    show "q \<notin> set (length (arrays ps) # used) \<and> length (arrays ?ps ! q) = 2 * (j + 2)" if "q \<in> set (fs j)" for q
      using F(3,4) [OF that] less [OF that] by (auto simp: nth_append)
  qed (use pics_okD [OF ok] in \<open>auto simp: less_Suc_eq\<close>)
  moreover have "pic_allocate (i + 2) ps = ret (length (arrays ps), ?ps)"
    using True i pics_okD(1) [OF ok] by (simp add: pic_allocate_def array_at_def allocate_tenured_pic_def)
  ultimately show ?thesis using pics_okD(5) [OF ok]
    by (intro exI conjI) (auto simp: pic_length_def nth_append)
next
  case False
  then obtain p where w: "pic_free_list ps ! i = APic p"
    using pics_ok_free(1) [OF ok i] by (cases "fs i") auto
  note T = take_free [OF ok i w]
  have "pic_allocate (i + 2) ps = ret (p, ps\<lparr>pic_free_list := (pic_free_list ps)[i := arrays ps ! p ! 0]\<rparr>)"
    using w i pics_okD(1) [OF ok] T(2,3)
    by (simp add: pic_allocate_def array_at_def pic_at_def free_list_put_def array_at_put_def pic_length_def)
  with T(1,2) show ?thesis
    by (intro exI [of _ p] exI [of _ "ps\<lparr>pic_free_list := (pic_free_list ps)[i := arrays ps ! p ! 0]\<rparr>"] exI conjI)
      (simp_all add: pic_length_def)
qed

lemma pic_deallocate_ok:
  assumes ok: "pics_ok ps fs (p # used)" and sz: "pic_length p ps = 2 * (i + 2)" and i: "i < 4"
  shows "\<exists>ps' fs'. pic_deallocate p ps = ret ps' \<and> pics_ok ps' fs' used \<and>
    (\<forall>q \<in> set used. arrays ps' ! q = arrays ps ! q)"
proof -
  let ?a = "(arrays ps ! p)[0 := pic_free_list ps ! i]"
  let ?ps = "ps\<lparr>arrays := (arrays ps)[p := ?a], pic_free_list := (pic_free_list ps)[i := APic p]\<rparr>"
  have p: "p < length (arrays ps)" "p \<notin> set used" using pics_okD(5,6) [OF ok] by auto
  have "pics_ok ?ps (fs(i := p # fs i)) used"
  proof (rule pics_okI)
    fix j assume j: "j < (4::nat)"
    note F = pics_ok_free [OF ok j]
    have free: "p \<noteq> q" if "q \<in> set (fs j)" for q using F(3) [OF that] by auto
    have "free_chain (arrays ?ps) (pic_free_list ps ! j) (fs j)"
      using free by (auto intro!: free_chain_cong [OF F(1)])
    then show "free_chain (arrays ?ps) (pic_free_list ?ps ! j) ((fs(i := p # fs i)) j)"
      using p i sz pics_okD(1) [OF ok] by (auto simp: pic_length_def)
    show "distinct ((fs(i := p # fs i)) j)" using F(2) free by auto
    show "q \<notin> set used \<and> length (arrays ?ps ! q) = 2 * (j + 2)" if "q \<in> set ((fs(i := p # fs i)) j)" for q
    proof (cases "q = p")
      case True
      then have "j = i" using that free by (auto split: if_splits)
      with True p sz show ?thesis by (simp add: pic_length_def)
    next
      case False
      then have "q \<in> set (fs j)" using that by (auto split: if_splits)
      with F(3,4) [of q] False show ?thesis by auto
    qed
  qed (use pics_okD [OF ok] in auto)
  moreover have "pic_deallocate p ps = ret ?ps"
    using sz i p pics_okD(1) [OF ok]
    by (simp add: pic_deallocate_def array_at_def pic_at_put_def free_list_put_def array_at_put_def pic_length_def)
  moreover have "\<forall>q \<in> set used. p \<noteq> q" using p(2) by auto
  ultimately show ?thesis by (intro exI [of _ ?ps] exI conjI) auto
qed

section \<open>Writing polymorphic caches\<close>

definition put_array :: "nat \<Rightarrow> ic_word list \<Rightarrow> pics \<Rightarrow> pics" where
  "put_array p a ps = ps\<lparr>arrays := (arrays ps)[p := a]\<rparr>"

lemma put_array_simps [simp]:
  "put_array p a (put_array p b ps) = put_array p a ps"
  "length (arrays (put_array p a ps)) = length (arrays ps)"
  "p < length (arrays ps) \<Longrightarrow> arrays (put_array p a ps) ! p = a"
  "p \<noteq> q \<Longrightarrow> arrays (put_array p a ps) ! q = arrays ps ! q"
  "arrays ps ! p = a \<Longrightarrow> put_array p a ps = ps"
  by (auto simp: put_array_def)

lemma put_array_others: "p \<notin> set others \<Longrightarrow> \<forall>q \<in> set others. arrays (put_array p a ps) ! q = arrays ps ! q"
  using put_array_simps(4) by metis

lemma put_array_ok: "pics_ok ps fs used \<Longrightarrow> p \<in> set used \<Longrightarrow> pics_ok (put_array p a ps) fs used"
  unfolding put_array_def by (rule pics_ok_update)

lemma pic_at_put_ret:
  "\<lbrakk>p < length (arrays ps); 0 < i; i \<le> length (arrays ps ! p)\<rbrakk> \<Longrightarrow>
     pic_at_put p i w ps = ret (put_array p ((arrays ps ! p)[i - 1 := w]) ps)"
  by (simp add: pic_at_put_def array_at_put_def put_array_def)

lemma pic_at_ret:
  "\<lbrakk>p < length (arrays ps); 0 < i; i \<le> length (arrays ps ! p)\<rbrakk> \<Longrightarrow> pic_at p i ps = ret (arrays ps ! p ! (i - 1))"
  by (simp add: pic_at_def array_at_def)

lemma pic_set_pairs:
  assumes "p < length (arrays ps)" and "length (arrays ps ! p) = 4"
  shows "bindR (pic_set_first p a b ps) (pic_set_second p c d) = ret (put_array p [a, b, c, d] ps)"
proof -
  obtain w x y z where "arrays ps ! p = [w, x, y, z]"
    using assms(2) by (auto simp: numeral_eq_Suc length_Suc_conv)
  with assms(1) show ?thesis
    by (simp add: pic_set_first_def pic_set_second_def pic_at_put_ret)
qed

lemma pic_set_last_ret:
  assumes "p < length (arrays ps)" and "arrays ps ! p = xs @ [x, y]"
  shows "pic_set_last p a b ps = ret (put_array p (xs @ [a, b]) ps)"
  using assms by (simp add: pic_set_last_def pic_length_def Let_def pic_at_put_ret list_update_append)

lemma copy_entries_append:
  "copy_entries old new (is @ js) ps = bindR (copy_entries old new is ps) (copy_entries old new js)"
proof (induction "is" arbitrary: ps)
  case (Cons i "is")
  have "copy_entries old new (is @ js) = (\<lambda>ps. bindR (copy_entries old new is ps) (copy_entries old new js))"
    by (rule ext) (rule Cons)
  then show ?case by (simp add: bindR_assoc)
qed simp

lemma copy_entries_ret:
  assumes "old < length (arrays ps)" "new < length (arrays ps)" "old \<noteq> new"
  shows "\<lbrakk>k \<le> length (arrays ps ! old); k \<le> length (arrays ps ! new)\<rbrakk> \<Longrightarrow>
    copy_entries old new [1 ..< k + 1] ps =
      ret (put_array new (take k (arrays ps ! old) @ drop k (arrays ps ! new)) ps)"
proof (induction k)
  case (Suc k)
  let ?o = "arrays ps ! old" let ?n = "arrays ps ! new"
  have "copy_entries old new [1 ..< k + 1] ps = ret (put_array new (take k ?o @ drop k ?n) ps)"
    using Suc by simp
  moreover have "(take k ?o @ drop k ?n)[k := ?o ! k] = take (Suc k) ?o @ drop (Suc k) ?n"
    using Suc.prems by (simp add: list_update_append take_Suc_conv_app_nth Cons_nth_drop_Suc [symmetric])
  ultimately show ?case
    using Suc.prems assms by (simp add: copy_entries_append pic_at_ret pic_at_put_ret)
qed simp

lemma length_two_more: "length (zs :: 'a list) = 2 * (i + 1 + 2) \<Longrightarrow> \<exists>xs x y. zs = xs @ [x, y] \<and> length xs = 2 * (i + 2)"
proof -
  assume l: "length zs = 2 * (i + 1 + 2)"
  have two: "\<exists>x y. d = [x, y]" if "length d = 2" for d :: "'a list"
    using that by (auto simp: numeral_2_eq_2 length_Suc_conv)
  from l have "length (drop (2 * (i + 2)) zs) = 2" by simp
  from two [OF this] obtain x y where "drop (2 * (i + 2)) zs = [x, y]" by blast
  then have "zs = take (2 * (i + 2)) zs @ [x, y]" by (metis append_take_drop_id)
  with l show ?thesis by (intro exI [of _ "take (2 * (i + 2)) zs"] exI [of _ x] exI [of _ y]) simp
qed

lemma pic_extend_ok:
  assumes ok: "pics_ok ps fs used" and p: "p \<in> set used" "length (arrays ps ! p) = 2 * (i + 2)" and i: "i < 3"
  shows "\<exists>q ps' fs' x y. pic_extend p ps = ret (Some q, ps') \<and> pics_ok ps' fs' (q # used) \<and>
    arrays ps' ! q = arrays ps ! p @ [x, y] \<and> (\<forall>r \<in> set used. arrays ps' ! r = arrays ps ! r)"
proof -
  obtain q ps1 fs' where a: "pic_allocate (i + 1 + 2) ps = ret (q, ps1)" "pics_ok ps1 fs' (q # used)"
    "pic_length q ps1 = 2 * (i + 1 + 2)" "\<forall>r \<in> set used. arrays ps1 ! r = arrays ps ! r"
    using pic_allocate_ok [OF ok, of "i + 1"] i by fastforce
  have q: "q < length (arrays ps1)" "p < length (arrays ps1)" "q \<noteq> p" "q \<notin> set used"
    using pics_okD(5,6) [OF a(2)] p(1) by auto
  have eq: "arrays ps1 ! p = arrays ps ! p" using a(4) p(1) by blast
  obtain xs x y where new: "arrays ps1 ! q = xs @ [x, y]" "length xs = 2 * (i + 2)"
    using a(3) by (metis pic_length_def length_two_more)
  let ?ps = "put_array q (arrays ps ! p @ [x, y]) ps1"
  have "copy_entries p q [1 ..< 2 * (i + 2) + 1] ps1 = ret ?ps"
    using copy_entries_ret [OF q(2,1) q(3) [symmetric], of "2 * (i + 2)"] p(2) new eq by simp
  then have "pic_extend p ps = ret (Some q, ?ps)"
    using a(1) p(2) i by (simp add: pic_extend_def pic_length_def Let_def size_of_largest_interpreterPIC_def
        mult.commute numeral_3_eq_3 add.commute)
  moreover have "pics_ok ?ps fs' (q # used)" using a(2) by (rule put_array_ok) simp
  moreover have "\<forall>r \<in> set used. arrays ?ps ! r = arrays ps ! r"
    using q(4) a(4) put_array_simps(4) by metis
  ultimately show ?thesis using q(1) by (intro exI [of _ q] exI [of _ ?ps] exI conjI) auto
qed

lemma pic_extend_full:
  "length (arrays ps ! p) = 10 \<Longrightarrow> pic_extend p ps = ret (None, ps)"
  by (simp add: pic_extend_def pic_length_def size_of_largest_interpreterPIC_def)

section \<open>What a cache represents\<close>

text \<open>The methods and native methods a cache for a selector may hold.\<close>

definition target_ok :: "world \<Rightarrow> oop \<Rightarrow> ic_word \<Rightarrow> bool" where
  "target_ok W s w \<longleftrightarrow> (case w of
       AMethod m \<Rightarrow> selector_of W m = s
     | AnEntry e \<Rightarrow> key_selector_of W (native_key W (entry_native W e)) = s \<and>
         selector_of W (native_method W (entry_native W e)) = s
     | _ \<Rightarrow> False)"

definition world_ok :: "world \<Rightarrow> bool" where
  "world_ok W \<longleftrightarrow> \<not> UsePrimitiveMethods W \<and>
     (\<forall>m. special_primitive W m \<longrightarrow> send_type (special_code W m) = PREDICTED_SEND) \<and>
     (\<forall>k s. key_selector_of W (LookupKey k s) = s)"

definition lookup_ok :: "world \<Rightarrow> lookup \<Rightarrow> bool" where
  "lookup_ok W L \<longleftrightarrow>
     (\<forall>key. L key = Null \<or> target_ok W (key_selector_of W key) (L key)) \<and>
     (\<forall>key e. L key = AnEntry e \<longrightarrow> native_key W (entry_native W e) = key)"

definition super_lookup_ok :: "world \<Rightarrow> (oop \<Rightarrow> ic_word) \<Rightarrow> bool" where
  "super_lookup_ok W f \<longleftrightarrow> (\<forall>s. f s = Null \<or> target_ok W s (f s))"

fun flatten :: "(oop \<times> ic_word) list \<Rightarrow> ic_word list" where
  "flatten [] = []"
| "flatten ((k, w) # ts) = w # AKlass k # flatten ts"

lemma flatten_append: "flatten (ts @ us) = flatten ts @ flatten us"
  by (induction ts rule: flatten.induct) auto

lemma length_flatten [simp]: "length (flatten ts) = 2 * length ts"
  by (induction ts rule: flatten.induct) auto

text \<open>\<open>cache_rep W s A ic a us\<close>: for the arrays \<open>A\<close> the cache is well-formed, its selector is \<open>s\<close>,
  its targets are \<open>a\<close>, in the order they were met (\<open>None\<close> once the send is megamorphic), and the
  arrays it uses are \<open>us\<close>.\<close>

inductive cache_rep ::
  "world \<Rightarrow> oop \<Rightarrow> ic_word list list \<Rightarrow> inline_cache \<Rightarrow> (oop \<times> ic_word) list option \<Rightarrow> nat list \<Rightarrow> bool"
  for W s A where
  rep_empty: "ic_send_type ic \<in> {INTERPRETED_SEND, PREDICTED_SEND} \<Longrightarrow> first_word ic = ASymbol s \<Longrightarrow>
    second_word ic = Null \<Longrightarrow> cache_rep W s A ic (Some []) []"
| rep_method: "ic_send_type ic \<in> {INTERPRETED_SEND, PREDICTED_SEND, ACCESSOR_SEND} \<Longrightarrow>
    first_word ic = AMethod m \<Longrightarrow> second_word ic = AKlass k \<Longrightarrow> selector_of W m = s \<Longrightarrow>
    cache_rep W s A ic (Some [(k, AMethod m)]) []"
| rep_compiled: "ic_send_type ic = COMPILED_SEND \<Longrightarrow> first_word ic = AnEntry e \<Longrightarrow>
    second_word ic = AKlass k \<Longrightarrow> target_ok W s (AnEntry e) \<Longrightarrow>
    cache_rep W s A ic (Some [(k, AnEntry e)]) []"
| rep_polymorphic: "ic_send_type ic = POLYMORPHIC_SEND \<Longrightarrow> first_word ic = ASymbol s \<Longrightarrow>
    second_word ic = APic p \<Longrightarrow> A ! p = flatten ts \<Longrightarrow> 2 \<le> length ts \<Longrightarrow> length ts \<le> 5 \<Longrightarrow>
    distinct (map fst ts) \<Longrightarrow> \<forall>(k, w) \<in> set ts. target_ok W s w \<Longrightarrow> cache_rep W s A ic (Some ts) [p]"
| rep_megamorphic: "ic_send_type ic = MEGAMORPHIC_SEND \<Longrightarrow> first_word ic = ASymbol s \<Longrightarrow>
    second_word ic = Null \<Longrightarrow> cache_rep W s A ic None []"
| rep_megamorphic_super: "ic_send_type ic = MEGAMORPHIC_SEND \<Longrightarrow> second_word ic = AKlass k \<Longrightarrow>
    target_ok W s (first_word ic) \<Longrightarrow> cache_rep W s A ic None []"

lemma cache_rep_cong:
  "cache_rep W s A ic a us \<Longrightarrow> \<forall>p \<in> set us. A' ! p = A ! p \<Longrightarrow> cache_rep W s A' ic a us"
  by (cases rule: cache_rep.cases, assumption) (auto intro: cache_rep.intros)

lemma cache_rep_selector:
  assumes "cache_rep W s A ic a us"
  shows "ic_selector W ic = ret s"
  using assms by cases (auto simp: ic_selector_def ic_jump_table_entry_def target_ok_def split: ic_word.splits)

lemma cache_rep_send:
  assumes "cache_rep W s A ic a us"
  shows "is_send_code (ic_code ic)"
  using assms by cases (auto simp: ic_send_type_def is_send_code_def bytecode_tables)

section \<open>Misses\<close>

text \<open>What a miss does to the targets: nothing for a predicted send of an empty cache, otherwise the
  class and its target are added, and a sixth class makes the send megamorphic.\<close>

definition stored_target :: "world \<Rightarrow> Code \<Rightarrow> ic_word \<Rightarrow> ic_word" where
  "stored_target W code r =
     (if access_applies W code (result_method_of W r) then AMethod (result_method_of W r) else r)"

definition stays_predicted :: "world \<Rightarrow> Code \<Rightarrow> ic_word \<Rightarrow> bool" where
  "stays_predicted W code r \<longleftrightarrow> \<not> access_applies W code (result_method_of W r) \<and>
     predicted_applies W code (result_method_of W r)"

definition add_target ::
  "world \<Rightarrow> Code \<Rightarrow> oop \<Rightarrow> ic_word \<Rightarrow> (oop \<times> ic_word) list option \<Rightarrow> (oop \<times> ic_word) list option" where
  "add_target W code k r a = (case a of
       None \<Rightarrow> None
     | Some [] \<Rightarrow> Some (if stays_predicted W code r then [] else [(k, stored_target W code r)])
     | Some ts \<Rightarrow> if length ts < 5 then Some (ts @ [(k, r)]) else None)"

lemma target_cases:
  assumes "target_ok W s r"
  obtains (method_target) m where "r = AMethod m" "selector_of W m = s"
  | (entry_target) e where "r = AnEntry e" "selector_of W (native_method W (entry_native W e)) = s"
  using assms by (cases r) (auto simp: target_ok_def)

lemma fill_ok:
  assumes W: "world_ok W" and rep: "cache_rep W s A ic (Some []) us" and r: "target_ok W s r"
  shows "\<exists>ic'. (case r of AnEntry e \<Rightarrow> fill_entry_result W (ic_code ic) k e ic
       | AMethod m \<Rightarrow> fill_method_result W (ic_code ic) k m ic | _ \<Rightarrow> raise (Assertion ''cannot be empty'')) = ret ic' \<and>
     cache_rep W s A ic' (add_target W (ic_code ic) k r (Some [])) []"
proof -
  let ?c = "ic_code ic" let ?m = "result_method_of W r"
  have type: "send_type ?c \<in> {INTERPRETED_SEND, PREDICTED_SEND}"
    using rep by cases (auto simp: ic_send_type_def)
  note sel = cache_rep_selector [OF rep]
  have send: "is_send_code ?c" by (rule cache_rep_send [OF rep])
  note orig = original_of_original [OF type] and halt = send_code_layout(2) [OF send]
  obtain c where c: "compiled_send_code_for ?c = ret c" "send_type c = COMPILED_SEND"
    using send_transition_types [OF send] by metis
  have spec: "send_type (special_code W m) = PREDICTED_SEND" if "special_primitive W m" for m
    using W that by (simp add: world_ok_def)
  have special_halt: "special_code W m \<noteq> halt" if "special_primitive W m" for m
    using spec [OF that] send_code_layout(2) [of "special_code W m"] by (auto simp: is_send_code_def)
  show ?thesis
  proof (cases "access_applies W ?c ?m")
    case True
    then obtain a where "access_send_code_for ?c = ret a" "send_type a = ACCESSOR_SEND" "a \<noteq> halt"
      using access_transition by (auto simp: access_applies_def)
    with True r show ?thesis
      by (cases rule: target_cases [OF r]) (auto simp: fill_method_result_def fill_entry_result_def Let_def
          result_method_of_def add_target_def stays_predicted_def stored_target_def ic_set_def ic_send_type_def
          intro!: rep_method)
  next
    case no_access: False
    show ?thesis
    proof (cases "predicted_applies W ?c ?m")
      case True
      with no_access spec special_halt sel show ?thesis
        by (cases rule: target_cases [OF r]) (auto simp: fill_method_result_def fill_entry_result_def Let_def
            result_method_of_def add_target_def stays_predicted_def ic_set_def ic_send_type_def
            predicted_applies_def intro!: rep_empty)
    next
      case False
      have "\<not> UsePrimitiveMethods W" using W by (simp add: world_ok_def)
      with no_access False c orig halt type r show ?thesis
        by (cases rule: target_cases [OF r]) (auto simp: fill_method_result_def fill_entry_result_def Let_def
            result_method_of_def add_target_def stays_predicted_def stored_target_def ic_set_def ic_send_type_def
            intro!: rep_method rep_compiled)
    qed
  qed
qed

text \<open>The outcome of an operation on one of several caches: it returns, the cache represents the
  given targets, and the arrays the other caches use are untouched.\<close>

definition keeps ::
  "world \<Rightarrow> oop \<Rightarrow> nat list \<Rightarrow> pics \<Rightarrow> (inline_cache \<times> pics) run \<Rightarrow> (oop \<times> ic_word) list option \<Rightarrow> bool" where
  "keeps W s others ps m a \<longleftrightarrow> (\<exists>ic' ps' fs' us'. m = ret (ic', ps') \<and>
     cache_rep W s (arrays ps') ic' a us' \<and> pics_ok ps' fs' (us' @ others) \<and>
     (\<forall>q \<in> set others. arrays ps' ! q = arrays ps ! q))"

lemma keepsI:
  "\<lbrakk>m = ret (ic', ps'); cache_rep W s (arrays ps') ic' a us'; pics_ok ps' fs' (us' @ others);
    \<forall>q \<in> set others. arrays ps' ! q = arrays ps ! q\<rbrakk> \<Longrightarrow> keeps W s others ps m a"
  unfolding keeps_def by blast

lemma monomorphic_miss:
  assumes rep: "cache_rep W s (arrays ps) ic (Some [(k', w)]) us" and ok: "pics_ok ps fs (us @ others)"
    and r: "target_ok W s r" and k: "k \<noteq> k'"
  shows "keeps W s others ps (update_inline_cache W (ic_code ic) k r ic ps) (Some [(k', w), (k, r)])"
proof -
  have shape: "ic_send_type ic \<in> {ACCESSOR_SEND, PREDICTED_SEND, COMPILED_SEND, INTERPRETED_SEND}"
    "first_word ic = w" "second_word ic = AKlass k'" "target_ok W s w" "us = []"
    using rep by (cases; auto simp: target_ok_def)+
  obtain c where c: "polymorphic_send_code_for (ic_code ic) = ret c" "send_type c = POLYMORPHIC_SEND"
    using send_transition_types [OF cache_rep_send [OF rep]] by metis
  obtain p ps1 fs' where a: "pic_allocate 2 ps = ret (p, ps1)" "pics_ok ps1 fs' (p # others)"
    "pic_length p ps1 = 4" "\<forall>q \<in> set others. arrays ps1 ! q = arrays ps ! q"
    using pic_allocate_ok [OF ok, of 0] shape(5) by (auto simp: numeral_2_eq_2)
  let ?ps = "put_array p (flatten [(k', w), (k, r)]) ps1"
  have p: "p < length (arrays ps1)" "p \<notin> set others" using pics_okD(5,6) [OF a(2)] by auto
  have "bindR (pic_set_first p w (AKlass k') ps1) (pic_set_second p r (AKlass k)) = ret ?ps"
    using pic_set_pairs [OF p(1)] a(3) by (simp add: pic_length_def)
  then have both: "bindR (pic_set_first p w (AKlass k') ps1) (\<lambda>ps. bindR (pic_set_second p r (AKlass k) ps) h) = h ?ps" for h
    by (simp flip: bindR_assoc)
  have "update_inline_cache W (ic_code ic) k r ic ps = ret (ic_set c (ASymbol s) (APic p) ic, ?ps)"
    using shape(1-3) a(1) c(1) cache_rep_selector [OF rep]
    by (auto simp: update_inline_cache_def ic_is_empty_def both)
  moreover have "cache_rep W s (arrays ?ps) (ic_set c (ASymbol s) (APic p) ic) (Some [(k', w), (k, r)]) [p]"
    using c(2) p(1) shape(4) r k by (intro rep_polymorphic) (auto simp: ic_set_def ic_send_type_def)
  moreover have "pics_ok ?ps fs' ([p] @ others)" using put_array_ok [OF a(2)] by simp
  moreover have "\<forall>q \<in> set others. arrays ?ps ! q = arrays ps ! q"
    using p(2) a(4) put_array_simps(4) by metis
  ultimately show ?thesis by (rule keepsI)
qed

lemma polymorphic_miss:
  assumes rep: "cache_rep W s (arrays ps) ic (Some ts) us" and ok: "pics_ok ps fs (us @ others)"
    and r: "target_ok W s r" and k: "k \<notin> fst ` set ts" and ts: "2 \<le> length ts" "length ts < 5"
  shows "keeps W s others ps (update_inline_cache W (ic_code ic) k r ic ps) (Some (ts @ [(k, r)]))"
proof -
  obtain p where shape: "ic_send_type ic = POLYMORPHIC_SEND" "second_word ic = APic p"
    "arrays ps ! p = flatten ts" "distinct (map fst ts)" "\<forall>(k, w) \<in> set ts. target_ok W s w" "us = [p]"
    using rep ts(1) by cases auto
  obtain i where i: "length ts = i + 2" "i < 3"
    using ts by (intro that [of "length ts - 2"]) auto
  obtain q ps1 fs1 x y where e: "pic_extend p ps = ret (Some q, ps1)" "pics_ok ps1 fs1 (q # p # others)"
    "arrays ps1 ! q = flatten ts @ [x, y]" "\<forall>r \<in> set (p # others). arrays ps1 ! r = arrays ps ! r"
    using pic_extend_ok [OF ok, of p i] shape(3,6) i by auto
  let ?new = "flatten (ts @ [(k, r)])"
  let ?ps = "put_array q ?new ps1"
  have q: "q < length (arrays ps1)" "q \<notin> set (p # others)" using pics_okD(5,6) [OF e(2)] by auto
  have last: "pic_set_last q r (AKlass k) ps1 = ret ?ps"
    using pic_set_last_ret [OF q(1) e(3)] by (simp add: flatten_append)
  have "pics_ok ?ps fs1 (p # q # others)"
    using put_array_ok [OF e(2), of q ?new] by (auto simp: pics_ok_def)
  moreover have "pic_length p ?ps = 2 * (i + 2)"
    using q(2) e(4) shape(3) i(1) by (simp add: pic_length_def)
  ultimately obtain ps2 fs2 where d: "pic_deallocate p ?ps = ret ps2" "pics_ok ps2 fs2 (q # others)"
    "\<forall>r \<in> set (q # others). arrays ps2 ! r = arrays ?ps ! r"
    using pic_deallocate_ok [of ?ps fs1 p "q # others" i] i(2) by auto
  have others: "\<forall>r \<in> set others. arrays ps2 ! r = arrays ps ! r"
  proof
    fix r assume r: "r \<in> set others"
    then have "q \<noteq> r" "arrays ps1 ! r = arrays ps ! r" "arrays ps2 ! r = arrays ?ps ! r"
      using q(2) e(4) d(3) by auto
    then show "arrays ps2 ! r = arrays ps ! r" by simp
  qed
  have "update_inline_cache W (ic_code ic) k r ic ps = ret (ic_set (ic_code ic) (ASymbol s) (APic q) ic, ps2)"
    using shape i e(1) last d(1) cache_rep_selector [OF rep]
    by (simp add: update_inline_cache_def ic_is_empty_def pic_length_def)
  moreover have "cache_rep W s (arrays ps2) (ic_set (ic_code ic) (ASymbol s) (APic q) ic) (Some (ts @ [(k, r)])) [q]"
    using shape(1,4,5) d(3) q(1) ts r k
    by (intro rep_polymorphic) (auto simp: ic_set_def ic_send_type_def)
  ultimately show ?thesis using d(2) others by (intro keepsI) auto
qed

lemma full_miss:
  assumes rep: "cache_rep W s (arrays ps) ic (Some ts) us" and ok: "pics_ok ps fs (us @ others)"
    and r: "target_ok W s r" and ts: "length ts = 5"
  shows "keeps W s others ps (update_inline_cache W (ic_code ic) k r ic ps) None"
proof -
  obtain p where shape: "ic_send_type ic = POLYMORPHIC_SEND" "second_word ic = APic p"
    "arrays ps ! p = flatten ts" "us = [p]"
    using rep ts by cases auto
  obtain c where c: "megamorphic_send_code_for (ic_code ic) = ret c" "send_type c = MEGAMORPHIC_SEND"
    using send_transition_types [OF cache_rep_send [OF rep]] by metis
  have "pics_ok ps fs (p # others)" "pic_length p ps = 2 * (3 + 2)"
    using ok shape(3,4) ts by (simp_all add: pic_length_def)
  then obtain ps2 fs2 where d: "pic_deallocate p ps = ret ps2" "pics_ok ps2 fs2 others"
    "\<forall>r \<in> set others. arrays ps2 ! r = arrays ps ! r"
    using pic_deallocate_ok [of ps fs p others 3] by auto
  let ?ic = "if is_super_send (ic_code ic) then ic_set c r (AKlass k) ic else ic_set c (ASymbol s) Null ic"
  have "update_inline_cache W (ic_code ic) k r ic ps = ret (?ic, ps2)"
    using shape ts c(1) d(1) cache_rep_selector [OF rep] pic_extend_full [of ps p]
    by (simp add: update_inline_cache_def ic_is_empty_def pic_length_def)
  moreover have "cache_rep W s (arrays ps2) ?ic None []"
    using c(2) r by (auto simp: ic_set_def ic_send_type_def intro: rep_megamorphic rep_megamorphic_super)
  ultimately show ?thesis using d(2,3) by (intro keepsI) auto
qed

lemma ic_miss_ok:
  assumes W: "world_ok W" and rep: "cache_rep W s (arrays ps) ic a us" and ok: "pics_ok ps fs (us @ others)"
    and r: "target_ok W s r" and k: "\<forall>ts. a = Some ts \<longrightarrow> k \<notin> fst ` set ts"
  shows "keeps W s others ps (update_inline_cache W (ic_code ic) k r ic ps) (add_target W (ic_code ic) k r a)"
proof (cases a)
  case None
  with rep have m: "ic_send_type ic = MEGAMORPHIC_SEND" "us = []" by (cases; simp)+
  let ?ic = "if is_super_send (ic_code ic) then ic_set (ic_code ic) r (AKlass k) ic else ic"
  have "update_inline_cache W (ic_code ic) k r ic ps = ret (?ic, ps)"
    using m(1) by (simp add: update_inline_cache_def)
  moreover have "cache_rep W s (arrays ps) ?ic None []"
    using rep m r None by (auto simp: ic_set_def ic_send_type_def intro: rep_megamorphic_super)
  moreover have "add_target W (ic_code ic) k r a = None" using None by (simp add: add_target_def)
  ultimately show ?thesis using ok m(2) by (intro keepsI) auto
next
  case (Some ts)
  have len: "length ts \<le> 5" using rep Some by cases auto
  show ?thesis
  proof (cases ts)
    case Nil
    have "cache_rep W s (arrays ps) ic (Some []) us" using rep Some Nil by simp
    then have m: "ic_is_empty ic \<and> ic_send_type ic \<noteq> MEGAMORPHIC_SEND \<and> us = []"
      by cases (auto simp: ic_is_empty_def)
    obtain ic' where f: "(case r of AnEntry e \<Rightarrow> fill_entry_result W (ic_code ic) k e ic
        | AMethod m \<Rightarrow> fill_method_result W (ic_code ic) k m ic | _ \<Rightarrow> raise (Assertion ''cannot be empty'')) = ret ic'"
      "cache_rep W s (arrays ps) ic' (add_target W (ic_code ic) k r (Some [])) []"
      using fill_ok [OF W rep [unfolded Some Nil] r] by blast
    then have "update_inline_cache W (ic_code ic) k r ic ps = ret (ic', ps)"
      using m by (simp add: update_inline_cache_def)
    with f(2) m ok Some Nil show ?thesis by (intro keepsI) auto
  next
    case (Cons t us')
    obtain k' w where t: "t = (k', w)" by (cases t)
    show ?thesis
    proof (cases "us' = []")
      case True
      with Some k Cons t monomorphic_miss [of W s ps ic k' w us fs others r k] rep ok r show ?thesis
        by (simp add: add_target_def)
    next
      case False
      then have two: "2 \<le> length ts" using Cons by (cases us') auto
      show ?thesis
      proof (cases "length ts = 5")
        case True
        with Some Cons False full_miss [OF rep [unfolded Some] ok r True] show ?thesis
          by (simp add: add_target_def)
      next
        case no: False
        with Some k Cons False len polymorphic_miss [OF rep [unfolded Some] ok r _ two, of k] show ?thesis
          by (simp add: add_target_def)
      qed
    qed
  qed
qed

section \<open>Clearing\<close>

lemma ic_clear_ok:
  assumes rep: "cache_rep W s (arrays ps) ic a us" and ok: "pics_ok ps fs (us @ others)"
  shows "keeps W s others ps (ic_clear W ic ps) (if ic_is_empty ic then a else Some [])"
proof (cases "ic_is_empty ic")
  case True
  then have "ic_clear W ic ps = ret (ic, ps)" by (simp add: ic_clear_def)
  with True rep ok show ?thesis by (intro keepsI) auto
next
  case False
  obtain c where c: "original_send_code_for (ic_code ic) = ret c" "send_type c \<in> {INTERPRETED_SEND, PREDICTED_SEND}"
    using send_transition_types [OF cache_rep_send [OF rep]] by metis
  let ?ic = "ic_set c (ASymbol s) Null ic"
  have new: "cache_rep W s A ?ic (Some []) []" for A
    using c(2) by (intro rep_empty) (auto simp: ic_set_def ic_send_type_def)
  note sel = cache_rep_selector [OF rep]
  show ?thesis
  proof (cases "ic_send_type ic = POLYMORPHIC_SEND")
    case True
    with rep obtain p ts where p: "second_word ic = APic p" "us = [p]" "arrays ps ! p = flatten ts"
      "2 \<le> length ts" "length ts \<le> 5" by cases auto
    then have "pic_length p ps = 2 * (length ts - 2 + 2)" "length ts - 2 < 4" by (simp_all add: pic_length_def)
    then obtain ps2 fs2 where d: "pic_deallocate p ps = ret ps2" "pics_ok ps2 fs2 others"
      "\<forall>r \<in> set others. arrays ps2 ! r = arrays ps ! r"
      using pic_deallocate_ok [of ps fs p others "length ts - 2"] ok p(2) by auto
    then have "ic_clear W ic ps = ret (?ic, ps2)"
      using False True p(1) c(1) sel by (simp add: ic_clear_def)
    with d new False show ?thesis by (intro keepsI) auto
  next
    case mono: False
    then have "ic_clear W ic ps = ret (?ic, ps)" using False c(1) sel by (simp add: ic_clear_def)
    moreover have "us = []" using rep mono by cases auto
    ultimately show ?thesis using new ok False by (intro keepsI) auto
  qed
qed

section \<open>Bringing caches up to date\<close>

text \<open>Both loops over the pairs of an array, from its end, change the targets only.\<close>

definition pair_indices :: "nat \<Rightarrow> nat list" where
  "pair_indices n = rev (map (\<lambda>i. 2 * i) [1 ..< n + 1])"

lemma pair_indices_simps [simp]:
  "pair_indices 0 = []" "pair_indices (Suc n) = (2 * Suc n) # pair_indices n"
  by (simp_all add: pair_indices_def)

definition updated :: "world \<Rightarrow> lookup \<Rightarrow> oop \<Rightarrow> oop \<times> ic_word \<Rightarrow> oop \<times> ic_word" where
  "updated W L s t = (fst t, case current_target W L (fst t) s (snd t) of None \<Rightarrow> snd t | Some w \<Rightarrow> w)"

lemma updated_pair: "updated W L s (k, w) = (k, case current_target W L k s w of None \<Rightarrow> w | Some v \<Rightarrow> v)"
  by (simp add: updated_def split: option.split)

lemma flatten_last:
  "(flatten (ts @ [(k, w)]) @ rest) ! (2 * Suc (length ts) - 1) = AKlass k"
  "(flatten (ts @ [(k, w)]) @ rest) ! (2 * Suc (length ts) - 1 - 1) = w"
  "(flatten (ts @ [(k, w)]) @ rest)[2 * Suc (length ts) - 1 - 1 := w'] = flatten (ts @ [(k, w')]) @ rest"
  by (simp_all add: flatten_append nth_append list_update_append)

lemma current_target_entry: "current_target W L k s (AnEntry e) = current_target W L k 0 (AnEntry e)"
  by (simp add: current_target_def)

lemma cleanup_pic_ret:
  assumes "\<forall>(k, w) \<in> set ts. target_ok W s w" and "p < length (arrays ps)"
    and "arrays ps ! p = flatten ts @ rest"
  shows "cleanup_pic W L (ret s) p (pair_indices (length ts)) ps =
    ret (put_array p (flatten (map (updated W L s) ts) @ rest) ps)"
  using assms
proof (induction ts arbitrary: ps rest rule: rev_induct)
  case (snoc t ts)
  obtain k w where t: "t = (k, w)" by (cases t)
  have w: "target_ok W s w" using snoc.prems(1) t by auto
  let ?w = "snd (updated W L s t)"
  let ?ps = "put_array p (flatten (ts @ [(k, ?w)]) @ rest) ps"
  have eq: "flatten (ts @ [(k, ?w)]) @ rest = flatten ts @ (?w # AKlass k # rest)"
    by (simp add: flatten_append)
  have "cleanup_pic W L (ret s) p (pair_indices (length ts)) ?ps =
      ret (put_array p (flatten (map (updated W L s) ts) @ (?w # AKlass k # rest)) ?ps)"
    by (rule snoc.IH) (use snoc.prems in \<open>auto simp: eq\<close>)
  then show ?case
    using snoc.prems(2,3) flatten_last [of ts k w rest] w
    by (cases rule: target_cases [OF w]; cases "current_target W L k s w")
      (simp_all add: t pic_at_ret pic_at_put_ret flatten_append updated_pair flip: current_target_entry [of W L k s])
qed simp

lemma replace_in_pic_ret:
  assumes "distinct (map fst ts)" and "p < length (arrays ps)" and "arrays ps ! p = flatten ts @ rest"
  shows "replace_in_pic k e p (pair_indices (length ts)) ps =
    ret (put_array p (flatten (map (\<lambda>t. if fst t = k then (k, AnEntry e) else t) ts) @ rest) ps)"
  using assms
proof (induction ts arbitrary: ps rest rule: rev_induct)
  case (snoc t ts)
  obtain k' w where t: "t = (k', w)" by (cases t)
  show ?case
  proof (cases "k' = k")
    case True
    then have "k \<notin> fst ` set ts" using snoc.prems(1) t by auto
    then have "map (\<lambda>t. if fst t = k then (k, AnEntry e) else t) ts = ts"
      by (intro map_idI) auto
    with True snoc.prems(2,3) flatten_last [of ts k' w rest] show ?thesis
      by (simp add: t pic_at_ret pic_at_put_ret flatten_append)
  next
    case False
    have "replace_in_pic k e p (pair_indices (length ts)) ps =
      ret (put_array p (flatten (map (\<lambda>t. if fst t = k then (k, AnEntry e) else t) ts) @ (w # AKlass k' # rest)) ps)"
      by (rule snoc.IH) (use snoc.prems t in \<open>auto simp: flatten_append\<close>)
    with False snoc.prems(2,3) flatten_last [of ts k' w rest] show ?thesis
      by (simp add: t pic_at_ret flatten_append)
  qed
qed simp

text \<open>A target answers a class when it is what the lookup finds, or an entry of the same native
  method.\<close>

definition answers :: "world \<Rightarrow> lookup \<Rightarrow> oop \<Rightarrow> oop \<Rightarrow> ic_word \<Rightarrow> bool" where
  "answers W L s k w \<longleftrightarrow> (case (w, L (LookupKey k s)) of
       (AnEntry e, AnEntry e') \<Rightarrow> entry_native W e = entry_native W e'
     | (w, r) \<Rightarrow> w = r)"

definition all_answer :: "world \<Rightarrow> lookup \<Rightarrow> oop \<Rightarrow> (oop \<times> ic_word) list option \<Rightarrow> bool" where
  "all_answer W L s a \<longleftrightarrow> (case a of None \<Rightarrow> True | Some ts \<Rightarrow> list_all (\<lambda>(k, w). answers W L s k w) ts)"

text \<open>The native methods of the entries a cache holds were compiled for its classes.\<close>

definition keyed :: "world \<Rightarrow> oop \<Rightarrow> (oop \<times> ic_word) list option \<Rightarrow> bool" where
  "keyed W s a \<longleftrightarrow> (case a of None \<Rightarrow> True
     | Some ts \<Rightarrow> list_all (\<lambda>(k, w). case w of AnEntry e \<Rightarrow> native_key W (entry_native W e) = LookupKey k s
                                     | _ \<Rightarrow> True) ts)"

lemma current_target_answers:
  assumes L: "lookup_ok W L" and w: "target_ok W s w"
    and key: "\<And>e. w = AnEntry e \<Longrightarrow> native_key W (entry_native W e) = LookupKey k s"
  shows "answers W L s k (case current_target W L k s w of None \<Rightarrow> w | Some r \<Rightarrow> r)"
  using w
proof (cases rule: target_cases)
  case method_target
  then show ?thesis by (cases "L (LookupKey k s)") (auto simp: current_target_def answers_def Let_def)
next
  case (entry_target e)
  then show ?thesis using key [OF entry_target(1)]
    by (cases "L (LookupKey k s)") (auto simp: current_target_def answers_def matches_native_def Let_def)
qed

lemma current_target_ok:
  assumes W: "world_ok W" and L: "lookup_ok W L" and w: "target_ok W s w"
    and r: "current_target W L k s w = Some r" "r \<noteq> Null"
  shows "target_ok W s r"
proof -
  have sel: "key_selector_of W (LookupKey k s) = s" using W by (simp add: world_ok_def)
  have L': "L key \<noteq> Null \<Longrightarrow> target_ok W (key_selector_of W key) (L key)" for key
    using L by (auto simp: lookup_ok_def)
  from w show ?thesis
  proof (cases rule: target_cases)
    case (method_target m)
    with r L' [of "LookupKey k s"] sel show ?thesis
      by (auto simp: current_target_def Let_def split: if_splits)
  next
    case (entry_target e)
    with r L' [of "native_key W (entry_native W e)"] w show ?thesis
      by (auto simp: current_target_def Let_def target_ok_def split: if_splits)
  qed
qed

lemma replace_result_ok:
  assumes rep: "cache_rep W s (arrays ps) ic a us" and ok: "pics_ok ps fs (us @ others)"
    and k: "second_word ic = AKlass k" and r: "r = Null \<or> target_ok W s r"
  shows "\<exists>a'. keeps W s others ps (ic_replace_result W r k ic ps) a' \<and>
    (a' = None \<or> a' = Some [] \<or> a' = Some [(k, r)])"
proof -
  have us: "us = []" using rep k by cases auto
  have ne: "\<not> ic_is_empty ic" using k by (simp add: ic_is_empty_def)
  obtain c where c: "compiled_send_code_for (ic_code ic) = ret c" "send_type c = COMPILED_SEND"
    using send_transition_types [OF cache_rep_send [OF rep]] by metis
  have clear: ?thesis if "ic_replace_result W r k ic ps = ic_clear W ic ps"
    using ic_clear_ok [OF rep ok] ne that by auto
  have mega: ?thesis if m: "ic_send_type ic = MEGAMORPHIC_SEND" and t: "target_ok W s r"
  proof -
    have "ic_replace_result W r k ic ps = ret (ic_set (ic_code ic) r (AKlass k) ic, ps)"
      using t m k by (auto simp: ic_replace_result_def target_ok_def split: ic_word.split)
    moreover have "cache_rep W s (arrays ps) (ic_set (ic_code ic) r (AKlass k) ic) None []"
      using t m by (auto simp: ic_set_def ic_send_type_def intro: rep_megamorphic_super)
    ultimately show ?thesis using ok us by (intro exI [of _ None] conjI disjI1 refl) (rule keepsI, auto)
  qed
  from r show ?thesis
  proof
    assume "r = Null"
    with k show ?thesis by (intro clear) (simp add: ic_replace_result_def)
  next
    assume t: "target_ok W s r"
    show ?thesis
    proof (cases "ic_send_type ic = MEGAMORPHIC_SEND")
      case False
      from t show ?thesis
      proof (cases rule: target_cases)
        case (method_target m)
        with k False show ?thesis by (intro clear) (simp add: ic_replace_result_def)
      next
        case (entry_target e)
        let ?ic = "ic_set c (AnEntry e) (AKlass k) ic"
        have "ic_replace_result W r k ic ps = ret (?ic, ps)"
          using entry_target k False c by (simp add: ic_replace_result_def)
        moreover have "cache_rep W s (arrays ps) ?ic (Some [(k, r)]) []"
          using t entry_target c by (auto simp: ic_set_def ic_send_type_def intro: rep_compiled)
        ultimately show ?thesis using ok us
          by (intro exI [of _ "Some [(k, r)]"] conjI disjI2 refl) (rule keepsI, auto)
      qed
    qed (use mega t in blast)
  qed
qed

lemma refresh_ok:
  assumes W: "world_ok W" and L: "lookup_ok W L"
    and rep: "cache_rep W s (arrays ps) ic a us" and ok: "pics_ok ps fs (us @ others)"
    and ic: "second_word ic = AKlass k" "first_word ic = w" "target_ok W s w" and a: "a = None \<or> a = Some [(k, w)]"
  shows "\<exists>a'. keeps W s others ps (case current_target W L k s w of
      None \<Rightarrow> ret (ic, ps) | Some r \<Rightarrow> ic_replace_result W r k ic ps) a' \<and>
    (keyed W s (Some [(k, w)]) \<longrightarrow> all_answer W L s a')"
proof -
  have answer: "answers W L s k (case current_target W L k s w of None \<Rightarrow> w | Some r \<Rightarrow> r)"
    if "keyed W s (Some [(k, w)])"
    by (rule current_target_answers [OF L ic(3)]) (use that in \<open>simp add: keyed_def\<close>)
  show ?thesis
  proof (cases "current_target W L k s w")
    case None
    have "keeps W s others ps (ret (ic, ps)) a" using rep ok by (intro keepsI) auto
    with None a answer show ?thesis by (auto simp: all_answer_def)
  next
    case (Some r)
    then have "r = Null \<or> target_ok W s r" using current_target_ok [OF W L ic(3)] by blast
    from replace_result_ok [OF rep ok ic(1) this] Some answer show ?thesis
      by (auto simp: all_answer_def)
  qed
qed

lemma pic_cleanup_ok:
  assumes W: "world_ok W" and L: "lookup_ok W L"
    and rep: "cache_rep W s (arrays ps) ic (Some ts) us" and ok: "pics_ok ps fs (us @ others)"
    and poly: "ic_send_type ic = POLYMORPHIC_SEND" "\<not> is_super_send (ic_code ic)"
    and known: "\<forall>(k, w) \<in> set ts. current_target W L k s w \<noteq> Some Null"
  shows "keeps W s others ps (ic_cleanup W L ic ps) (Some (map (updated W L s) ts))"
proof -
  obtain p where p: "first_word ic = ASymbol s" "second_word ic = APic p" "arrays ps ! p = flatten ts"
    "2 \<le> length ts" "length ts \<le> 5" "distinct (map fst ts)" "\<forall>(k, w) \<in> set ts. target_ok W s w" "us = [p]"
    using rep poly(1) by cases auto
  have less: "p < length (arrays ps)" "p \<notin> set others" using pics_okD(5,6) [OF ok] p(8) by auto
  let ?ts = "map (updated W L s) ts"
  let ?ps = "put_array p (flatten ?ts) ps"
  have "cleanup_pic W L (ret s) p (pair_indices (length ts)) ps = ret ?ps"
    using cleanup_pic_ret [OF p(7) less(1), of "[]" L] p(3) by simp
  then have "ic_cleanup W L ic ps = ret (ic, ?ps)"
    using p(2,3,4) poly cache_rep_selector [OF rep]
    by (simp add: ic_cleanup_def ic_is_empty_def pic_length_def pair_indices_def)
  moreover have "cache_rep W s (arrays ?ps) ic (Some ?ts) [p]"
  proof (rule rep_polymorphic [OF poly(1) p(1,2)])
    have "map fst ?ts = map fst ts" by (simp add: updated_def comp_def)
    then show "distinct (map fst ?ts)" using p(6) by (rule ssubst)
    have "target_ok W s (snd (updated W L s (k, w)))" if "(k, w) \<in> set ts" for k w
    proof -
      have "target_ok W s w" "current_target W L k s w \<noteq> Some Null" using p(7) known that by auto
      with current_target_ok [OF W L, of s w k] show ?thesis
        by (cases "current_target W L k s w") (auto simp: updated_def)
    qed
    then have "\<forall>t \<in> set ts. target_ok W s (snd (updated W L s t))" by fastforce
    then show "\<forall>(k, w) \<in> set ?ts. target_ok W s w" by (simp add: split_beta)
  qed (use less(1) p(4,5) in auto)
  moreover have "pics_ok ?ps fs ([p] @ others)" using put_array_ok ok p(8) by simp
  ultimately show ?thesis using put_array_others [OF less(2)] by (rule keepsI)
qed

lemma pic_cleanup_answers:
  assumes L: "lookup_ok W L" and ts: "\<forall>(k, w) \<in> set ts. target_ok W s w" and key: "keyed W s (Some ts)"
  shows "all_answer W L s (Some (map (updated W L s) ts))"
proof -
  have "answers W L s k (case current_target W L k s w of None \<Rightarrow> w | Some r \<Rightarrow> r)" if "(k, w) \<in> set ts" for k w
    using that ts key by (intro current_target_answers [OF L]) (auto simp: keyed_def list_all_iff)
  then show ?thesis by (auto simp: all_answer_def list_all_iff updated_def)
qed

text \<open>The classes of a polymorphic cache must be known to the lookup: the loop stores the word
  of an empty result in the array without a check.\<close>

definition cleanup_legal :: "world \<Rightarrow> lookup \<Rightarrow> oop \<Rightarrow> inline_cache \<Rightarrow> (oop \<times> ic_word) list option \<Rightarrow> bool" where
  "cleanup_legal W L s ic a \<longleftrightarrow> lookup_ok W L \<and>
     (ic_send_type ic = POLYMORPHIC_SEND \<and> \<not> is_super_send (ic_code ic) \<longrightarrow>
        (case a of None \<Rightarrow> True | Some ts \<Rightarrow> list_all (\<lambda>(k, w). current_target W L k s w \<noteq> Some Null) ts))"

lemma cleanup_ok:
  assumes W: "world_ok W" and legal: "cleanup_legal W L s ic a"
    and rep: "cache_rep W s (arrays ps) ic a us" and ok: "pics_ok ps fs (us @ others)"
  shows "\<exists>a'. keeps W s others ps (ic_cleanup W L ic ps) a' \<and>
    (\<not> is_super_send (ic_code ic) \<and> keyed W s a \<longrightarrow> a = None \<or> all_answer W L s a')"
proof -
  have L: "lookup_ok W L" using legal by (simp add: cleanup_legal_def)
  have same: ?thesis if "ic_cleanup W L ic ps = ret (ic, ps)" "is_super_send (ic_code ic) \<or> a = None \<or> a = Some []"
  proof -
    have "keeps W s others ps (ic_cleanup W L ic ps) a" using that(1) rep ok by (intro keepsI) auto
    with that(2) show ?thesis by (auto simp: all_answer_def)
  qed
  have refresh: ?thesis
    if "\<not> is_super_send (ic_code ic) \<or> first_word ic = AnEntry e"
      and "ic_cleanup W L ic ps = (case current_target W L k s w of
        None \<Rightarrow> ret (ic, ps) | Some r \<Rightarrow> ic_replace_result W r k ic ps)"
      and "second_word ic = AKlass k" "first_word ic = w" "target_ok W s w" "a = None \<or> a = Some [(k, w)]" for k w e
    using refresh_ok [OF W L rep ok that(3-6)] that(2,6) by metis
  note sel = cache_rep_selector [OF rep]
  show ?thesis
    using rep
  proof cases
    case rep_empty
    then show ?thesis by (intro same) (auto simp: ic_cleanup_def ic_is_empty_def)
  next
    case (rep_method m k)
    show ?thesis
    proof (cases "is_super_send (ic_code ic)")
      case True
      with rep_method show ?thesis by (intro same) (auto simp: ic_cleanup_def ic_is_empty_def)
    next
      case False
      with rep_method sel show ?thesis
        by (intro refresh [of 0 k "AMethod m"]) (auto simp: ic_cleanup_def ic_is_empty_def target_ok_def)
    qed
  next
    case (rep_compiled e k)
    then show ?thesis
      by (intro refresh [of e k "AnEntry e"]) (auto simp: ic_cleanup_def ic_is_empty_def current_target_entry [of W L k s])
  next
    case (rep_polymorphic p ts)
    show ?thesis
    proof (cases "is_super_send (ic_code ic)")
      case True
      with rep_polymorphic show ?thesis by (intro same) (auto simp: ic_cleanup_def ic_is_empty_def)
    next
      case False
      then have "keeps W s others ps (ic_cleanup W L ic ps) (Some (map (updated W L s) ts))"
        using rep_polymorphic rep ok legal
        by (intro pic_cleanup_ok [OF W L]) (auto simp: cleanup_legal_def list_all_iff)
      with pic_cleanup_answers [OF L, of ts s] rep_polymorphic show ?thesis by blast
    qed
  next
    case rep_megamorphic
    then show ?thesis by (intro same) (auto simp: ic_cleanup_def ic_is_empty_def)
  next
    case (rep_megamorphic_super k)
    from rep_megamorphic_super(5) show ?thesis
    proof (cases rule: target_cases)
      case (method_target m)
      show ?thesis
      proof (cases "is_super_send (ic_code ic)")
        case True
        with rep_megamorphic_super method_target show ?thesis
          by (intro same) (auto simp: ic_cleanup_def ic_is_empty_def)
      next
        case False
        with rep_megamorphic_super method_target sel show ?thesis
          by (intro refresh [of 0 k "AMethod m"]) (auto simp: ic_cleanup_def ic_is_empty_def)
      qed
    next
      case (entry_target e)
      with rep_megamorphic_super show ?thesis
        by (intro refresh [of e k "AnEntry e"])
          (auto simp: ic_cleanup_def ic_is_empty_def current_target_entry [of W L k s])
    qed
  qed
qed

section \<open>New native methods\<close>

definition native_ok :: "world \<Rightarrow> oop \<Rightarrow> oop \<Rightarrow> bool" where
  "native_ok W s nm \<longleftrightarrow> key_selector_of W (native_key W nm) = s \<and> target_ok W s (AnEntry (native_entry W nm))"

lemma replace_native_ok:
  assumes rep: "cache_rep W s (arrays ps) ic a us" and ok: "pics_ok ps fs (us @ others)" and nm: "native_ok W s nm"
  shows "\<exists>a'. keeps W s others ps (ic_replace_native W nm ic ps) a'"
proof -
  let ?e = "native_entry W nm" let ?k = "key_klass (native_key W nm)"
  obtain c where c: "compiled_send_code_for (ic_code ic) = ret c" "send_type c = COMPILED_SEND"
    using send_transition_types [OF cache_rep_send [OF rep]] by metis
  have target: "target_ok W s (AnEntry ?e)" and sel: "key_selector_of W (native_key W nm) = s"
    using nm by (simp_all add: native_ok_def)
  note sel = sel cache_rep_selector [OF rep]
  have same: ?thesis if "ic_replace_native W nm ic ps = ret (ic, ps)"
    using that rep ok by (intro exI [of _ a] keepsI) auto
  have put: ?thesis if "ic_replace_native W nm ic ps = ret (ic', ps)" "cache_rep W s (arrays ps) ic' a' []" "us = []" for ic' a'
    using that ok by (intro exI [of _ a'] keepsI) auto
  have compiled: ?thesis if "ic_replace_native W nm ic ps = ret (ic_set c' (AnEntry ?e) (AKlass ?k) ic, ps)"
    "send_type c' = COMPILED_SEND" "us = []" for c'
    using that target by (intro put [of _ "Some [(?k, AnEntry ?e)]"] rep_compiled) (auto simp: ic_set_def ic_send_type_def)
  show ?thesis
    using rep
  proof cases
    case (rep_method m k)
    show ?thesis
    proof (cases "k = ?k")
      case True
      with rep_method sel c show ?thesis
        by (intro compiled [of c]) (auto simp: ic_replace_native_def ic_is_empty_def Let_def)
    next
      case False
      with rep_method sel show ?thesis
        by (intro same) (auto simp: ic_replace_native_def ic_is_empty_def Let_def)
    qed
  next
    case (rep_compiled e k)
    with sel show ?thesis
      by (intro compiled [of "ic_code ic"]) (auto simp: ic_replace_native_def ic_is_empty_def Let_def ic_send_type_def)
  next
    case (rep_polymorphic p ts)
    let ?ts = "map (\<lambda>t. if fst t = ?k then (?k, AnEntry ?e) else t) ts"
    let ?ps = "put_array p (flatten ?ts) ps"
    have less: "p < length (arrays ps)" "p \<notin> set others" using pics_okD(5,6) [OF ok] rep_polymorphic(2) by auto
    have "replace_in_pic ?k ?e p (pair_indices (length ts)) ps = ret ?ps"
      using replace_in_pic_ret [of ts p ps "[]"] rep_polymorphic less(1) by simp
    then have "ic_replace_native W nm ic ps = ret (ic, ?ps)"
      using rep_polymorphic sel by (simp add: ic_replace_native_def ic_is_empty_def Let_def pic_length_def pair_indices_def)
    moreover have "cache_rep W s (arrays ?ps) ic (Some ?ts) [p]"
    proof (rule cache_rep.rep_polymorphic [OF rep_polymorphic(3-5)])
      have "map fst ?ts = map fst ts" by simp
      then show "distinct (map fst ?ts)" using rep_polymorphic(9) by (rule ssubst)
      show "\<forall>(k, w) \<in> set ?ts. target_ok W s w" using rep_polymorphic(10) target by auto
    qed (use less(1) rep_polymorphic in auto)
    moreover have "pics_ok ?ps fs ([p] @ others)" using put_array_ok ok rep_polymorphic(2) by simp
    ultimately show ?thesis using put_array_others [OF less(2)] by (intro exI) (rule keepsI)
  next
    case (rep_megamorphic_super k)
    with sel target show ?thesis
      by (intro put [of "ic_set (ic_code ic) (AnEntry ?e) (AKlass ?k) ic" None] cache_rep.rep_megamorphic_super)
        (auto simp: ic_replace_native_def ic_is_empty_def Let_def ic_set_def ic_send_type_def)
  next
    case rep_empty
    with sel show ?thesis by (intro same) (auto simp: ic_replace_native_def ic_is_empty_def Let_def)
  next
    case rep_megamorphic
    with sel show ?thesis by (intro same) (auto simp: ic_replace_native_def ic_is_empty_def Let_def)
  qed
qed

section \<open>The miss handler\<close>

fun unflatten :: "ic_word list \<Rightarrow> (oop \<times> ic_word) list" where
  "unflatten (w # AKlass k # ws) = (k, w) # unflatten ws"
| "unflatten _ = []"

definition cached_targets :: "inline_cache \<Rightarrow> pics \<Rightarrow> (oop \<times> ic_word) list" where
  "cached_targets ic ps = (case second_word ic of
       AKlass k \<Rightarrow> if ic_send_type ic = MEGAMORPHIC_SEND then [] else [(k, first_word ic)]
     | APic p \<Rightarrow> unflatten (arrays ps ! p)
     | _ \<Rightarrow> [])"

lemma unflatten_flatten [simp]: "unflatten (flatten ts) = ts"
  by (induction ts rule: flatten.induct) auto

lemma cached_targets_rep:
  "cache_rep W s (arrays ps) ic a us \<Longrightarrow> cached_targets ic ps = (case a of None \<Rightarrow> [] | Some ts \<Rightarrow> ts)"
  by (cases rule: cache_rep.cases, assumption) (auto simp: cached_targets_def)

lemma inline_cache_miss_ok:
  assumes W: "world_ok W" and L: "lookup_ok W L" and f: "super_lookup_ok W f"
    and rep: "cache_rep W s (arrays ps) ic a us" and ok: "pics_ok ps fs (us @ others)"
    and k: "k \<notin> fst ` set (cached_targets ic ps)"
  shows "keeps W s others ps (inline_cache_miss W L f k ic ps)
    (let r = (if is_super_send (ic_code ic) then f s else L (LookupKey k s)) in
     if r = Null then a else add_target W (ic_code ic) k r a)"
proof -
  let ?r = "if is_super_send (ic_code ic) then f s else L (LookupKey k s)"
  note sel = cache_rep_selector [OF rep]
  show ?thesis
  proof (cases "?r = Null")
    case True
    then have "inline_cache_miss W L f k ic ps = ret (ic, ps)" using sel by (simp add: inline_cache_miss_def)
    with True rep ok show ?thesis by (intro keepsI) auto
  next
    case False
    have "key_selector_of W (LookupKey k s) = s" using W by (simp add: world_ok_def)
    then have "target_ok W s ?r" using L f False by (auto simp: lookup_ok_def super_lookup_ok_def)
    moreover have "\<forall>ts. a = Some ts \<longrightarrow> k \<notin> fst ` set ts" using k cached_targets_rep [OF rep] by auto
    moreover have "inline_cache_miss W L f k ic ps = update_inline_cache W (ic_code ic) k ?r ic ps"
      using sel False by (auto simp: inline_cache_miss_def)
    ultimately show ?thesis using ic_miss_ok [OF W rep ok, of ?r k] False by simp
  qed
qed

section \<open>All caches\<close>

text \<open>The caches of the program share the arrays. An operation on one of them carries the lookup as
  it is at that moment. The selectors of the caches are the abstract state, which no operation changes.\<close>

record cache_system =
  caches :: "inline_cache list"
  shared :: pics

datatype cache_operation =
  Miss nat oop lookup "oop \<Rightarrow> ic_word" | Clear nat | Cleanup nat lookup | Compiled nat oop

definition at_cache ::
  "nat \<Rightarrow> (inline_cache \<Rightarrow> pics \<Rightarrow> (inline_cache \<times> pics) run) \<Rightarrow> cache_system \<Rightarrow> cache_system run" where
  "at_cache i op S =
     (if i < length (caches S)
      then bindR (op (caches S ! i) (shared S)) (\<lambda>(ic, ps). ret \<lparr>caches = (caches S)[i := ic], shared = ps\<rparr>)
      else raise Out_Of_Bounds)"

definition cache_step :: "world \<Rightarrow> cache_operation \<Rightarrow> cache_system \<Rightarrow> cache_system run" where
  "cache_step W c = (case c of
       Miss i k L f \<Rightarrow> at_cache i (inline_cache_miss W L f k)
     | Clear i \<Rightarrow> at_cache i (ic_clear W)
     | Cleanup i L \<Rightarrow> at_cache i (ic_cleanup W L)
     | Compiled i nm \<Rightarrow> at_cache i (ic_replace_native W nm))"

definition cache_legal :: "world \<Rightarrow> cache_operation \<Rightarrow> cache_system \<Rightarrow> oop list \<Rightarrow> bool" where
  "cache_legal W c S sels \<longleftrightarrow> (case c of
       Miss i k L f \<Rightarrow> i < length (caches S) \<and> lookup_ok W L \<and> super_lookup_ok W f \<and>
         k \<notin> fst ` set (cached_targets (caches S ! i) (shared S))
     | Clear i \<Rightarrow> i < length (caches S)
     | Cleanup i L \<Rightarrow> i < length (caches S) \<and>
         cleanup_legal W L (sels ! i) (caches S ! i) (Some (cached_targets (caches S ! i) (shared S)))
     | Compiled i nm \<Rightarrow> i < length (caches S) \<and> native_ok W (sels ! i) nm)"

definition caches_ok :: "world \<Rightarrow> cache_system \<Rightarrow> oop list \<Rightarrow> bool" where
  "caches_ok W S sels \<longleftrightarrow> length sels = length (caches S) \<and>
     (\<exists>uss fs. length uss = length (caches S) \<and> pics_ok (shared S) fs (concat uss) \<and>
       (\<forall>i < length (caches S). \<exists>a. cache_rep W (sels ! i) (arrays (shared S)) (caches S ! i) a (uss ! i)))"

definition new_caches :: "(Code \<times> oop) list \<Rightarrow> cache_system" where
  "new_caches cs = \<lparr>caches = map (\<lambda>(code, s). \<lparr>ic_code = code, first_word = ASymbol s, second_word = Null\<rparr>) cs,
     shared = initial_pics\<rparr>"

lemma new_caches_ok:
  assumes "\<forall>(code, s) \<in> set cs. send_type code \<in> {INTERPRETED_SEND, PREDICTED_SEND}"
  shows "caches_ok W (new_caches cs) (map snd cs)"
proof -
  have "cache_rep W (map snd cs ! i) A (caches (new_caches cs) ! i) (Some []) []" if i: "i < length cs" for i A
  proof (cases "cs ! i")
    case (Pair code s)
    then have "send_type code \<in> {INTERPRETED_SEND, PREDICTED_SEND}" using assms nth_mem [OF i] by fastforce
    with Pair i show ?thesis by (intro rep_empty) (auto simp: new_caches_def ic_send_type_def)
  qed
  then show ?thesis
    unfolding caches_ok_def
    by (intro conjI exI [of _ "replicate (length cs) []"] exI [of _ "\<lambda>_. []"])
      (auto simp: new_caches_def initial_pics_ok intro: exI [of _ "Some []"])
qed

lemma pics_ok_swap: "pics_ok ps fs (us @ vs @ ws) \<longleftrightarrow> pics_ok ps fs (vs @ us @ ws)"
  by (auto simp: pics_ok_def)

lemma concat_at: "i < length uss \<Longrightarrow> concat (uss[i := us]) = concat (take i uss) @ us @ concat (drop (Suc i) uss)"
  by (simp add: upd_conv_take_nth_drop)

lemma concat_nth: "i < length uss \<Longrightarrow> concat uss = concat (take i uss) @ uss ! i @ concat (drop (Suc i) uss)"
  using concat_at [of i uss "uss ! i"] by simp

lemma at_cache_ok:
  assumes S: "caches_ok W S sels" and i: "i < length (caches S)"
    and op: "\<And>a us fs others. cache_rep W (sels ! i) (arrays (shared S)) (caches S ! i) a us \<Longrightarrow>
      pics_ok (shared S) fs (us @ others) \<Longrightarrow> \<exists>a'. keeps W (sels ! i) others (shared S) (op (caches S ! i) (shared S)) a'"
  shows "\<exists>S'. at_cache i op S = ret S' \<and> caches_ok W S' sels"
proof -
  let ?ps = "shared S"
  obtain uss fs where uss: "length uss = length (caches S)" "pics_ok ?ps fs (concat uss)"
    "\<forall>j < length (caches S). \<exists>a. cache_rep W (sels ! j) (arrays ?ps) (caches S ! j) a (uss ! j)"
    and len: "length sels = length (caches S)"
    using S by (auto simp: caches_ok_def)
  let ?before = "concat (take i uss)" let ?after = "concat (drop (Suc i) uss)"
  let ?others = "?before @ ?after"
  obtain a where a: "cache_rep W (sels ! i) (arrays ?ps) (caches S ! i) a (uss ! i)" using uss(3) i by blast
  have "pics_ok ?ps fs (uss ! i @ ?others)"
    using uss(2) concat_nth [of i uss] i uss(1) pics_ok_swap [of ?ps fs "uss ! i" ?before ?after] by simp
  then obtain a' ic' ps' fs' us' where k: "op (caches S ! i) ?ps = ret (ic', ps')"
    "cache_rep W (sels ! i) (arrays ps') ic' a' us'" "pics_ok ps' fs' (us' @ ?others)"
    "\<forall>q \<in> set ?others. arrays ps' ! q = arrays ?ps ! q"
    using op [OF a] unfolding keeps_def by blast
  let ?S = "\<lparr>caches = (caches S)[i := ic'], shared = ps'\<rparr>"
  have "pics_ok ps' fs' (concat (uss[i := us']))"
    using k(3) concat_at [of i uss us'] i uss(1) pics_ok_swap [of ps' fs' us' ?before ?after] by simp
  moreover have "\<exists>a. cache_rep W (sels ! j) (arrays ps') (caches ?S ! j) a (uss[i := us'] ! j)"
    if j: "j < length (caches S)" for j
  proof (cases "j = i")
    case True
    with k(2) i uss(1) show ?thesis by auto
  next
    case False
    obtain b where b: "cache_rep W (sels ! j) (arrays ?ps) (caches S ! j) b (uss ! j)" using uss(3) j by blast
    have "uss ! j \<in> set (take i uss) \<union> set (drop (Suc i) uss)"
    proof (cases "j < i")
      case True
      then have "take i uss ! j \<in> set (take i uss)" using j uss(1) by (intro nth_mem) auto
      with True show ?thesis by simp
    next
      case no: False
      with False have "Suc i \<le> j" by simp
      then have "drop (Suc i) uss ! (j - Suc i) \<in> set (drop (Suc i) uss)" using j uss(1) by (intro nth_mem) auto
      with \<open>Suc i \<le> j\<close> j uss(1) show ?thesis by simp
    qed
    then have "\<forall>q \<in> set (uss ! j). arrays ps' ! q = arrays ?ps ! q" using k(4) by auto
    from cache_rep_cong [OF b this] False show ?thesis by auto
  qed
  ultimately have "caches_ok W ?S sels" using uss(1) len by (auto simp: caches_ok_def intro!: exI [of _ "uss[i := us']"])
  with k(1) i show ?thesis by (auto simp: at_cache_def)
qed

lemma cache_step_ok:
  assumes W: "world_ok W" and S: "caches_ok W S sels" and legal: "cache_legal W c S sels"
  shows "\<exists>S'. cache_step W c S = ret S' \<and> caches_ok W S' sels"
proof (cases c)
  case (Miss i k L f)
  have "\<exists>a'. keeps W (sels ! i) others (shared S) (inline_cache_miss W L f k (caches S ! i) (shared S)) a'"
    if "cache_rep W (sels ! i) (arrays (shared S)) (caches S ! i) a us" "pics_ok (shared S) fs (us @ others)"
    for a us fs others
    by (rule exI, rule inline_cache_miss_ok [OF W _ _ that]) (use legal Miss in \<open>auto simp: cache_legal_def\<close>)
  with Miss legal show ?thesis by (simp add: cache_step_def cache_legal_def at_cache_ok [OF S])
next
  case (Clear i)
  have "\<exists>a'. keeps W (sels ! i) others (shared S) (ic_clear W (caches S ! i) (shared S)) a'"
    if "cache_rep W (sels ! i) (arrays (shared S)) (caches S ! i) a us" "pics_ok (shared S) fs (us @ others)"
    for a us fs others
    by (rule exI, rule ic_clear_ok [OF that])
  with Clear legal show ?thesis by (simp add: cache_step_def cache_legal_def at_cache_ok [OF S])
next
  case (Cleanup i L)
  have "cleanup_legal W L (sels ! i) (caches S ! i) a"
    if "cache_rep W (sels ! i) (arrays (shared S)) (caches S ! i) a us" for a us
    using legal Cleanup cached_targets_rep [OF that]
    by (auto simp: cache_legal_def cleanup_legal_def split: option.splits)
  then have "\<exists>S'. at_cache i (ic_cleanup W L) S = ret S' \<and> caches_ok W S' sels"
    using legal Cleanup cleanup_ok [OF W] by (intro at_cache_ok [OF S]) (auto simp: cache_legal_def, blast)
  with Cleanup show ?thesis by (simp add: cache_step_def)
next
  case (Compiled i nm)
  with legal have "\<exists>S'. at_cache i (ic_replace_native W nm) S = ret S' \<and> caches_ok W S' sels"
    by (intro at_cache_ok [OF S] replace_native_ok) (auto simp: cache_legal_def)
  with Compiled show ?thesis by (simp add: cache_step_def)
qed

interpretation ics: implements "cache_step W" "cache_legal W" "\<lambda>_ sels. sels"
  "\<lambda>S sels. world_ok W \<and> caches_ok W S sels" for W
  by unfold_locales (simp add: cache_step_ok)

lemma history_same: "history step legal (\<lambda>_ m. m) s m s' m' \<Longrightarrow> m' = m"
  by (induction rule: history.induct) auto

lemma history_same_step:
  "history step legal (\<lambda>_ m. m) s m s1 m \<Longrightarrow> step c s1 = ret s2 \<Longrightarrow> legal c s1 m \<Longrightarrow>
    history step legal (\<lambda>_ m. m) s m s2 m"
  using history_step [where spec = "\<lambda>_ m. m"] by metis

lemma caches_ok_selector:
  assumes "caches_ok W S sels" and "i < length sels"
  shows "ic_selector W (caches S ! i) = ret (sels ! i)"
  using assms cache_rep_selector unfolding caches_ok_def by metis

text \<open>Two caches in use never share an array.\<close>

lemma cache_rep_pic:
  "cache_rep W s A ic a us \<Longrightarrow> second_word ic = APic p \<Longrightarrow> us = [p]"
  by (cases rule: cache_rep.cases, assumption) auto

lemma caches_ok_apart:
  assumes S: "caches_ok W S sels" and ij: "i < j" "j < length sels"
    and p: "second_word (caches S ! i) = APic p" and q: "second_word (caches S ! j) = APic q"
  shows "p \<noteq> q"
proof -
  obtain uss fs where uss: "length uss = length (caches S)" "pics_ok (shared S) fs (concat uss)"
    "\<forall>i < length (caches S). \<exists>a. cache_rep W (sels ! i) (arrays (shared S)) (caches S ! i) a (uss ! i)"
    and len: "length sels = length (caches S)"
    using S by (auto simp: caches_ok_def)
  have at: "\<exists>a. cache_rep W (sels ! l) (arrays (shared S)) (caches S ! l) a (uss ! l)" if "l < length sels" for l
    using uss(3) len that by simp
  have "i < length sels" using ij by simp
  with at [OF ij(2)] at [of i] cache_rep_pic p q have u: "uss ! i = [p]" "uss ! j = [q]" by blast+
  have "distinct (concat uss)" using uss(2) by (rule pics_okD)
  then have "distinct (uss ! i @ concat (drop (Suc i) uss))" using concat_nth [of i uss] ij len uss(1) by simp
  moreover have "uss ! j \<in> set (drop (Suc i) uss)"
  proof -
    have "drop (Suc i) uss ! (j - Suc i) \<in> set (drop (Suc i) uss)" using ij len uss(1) by (intro nth_mem) auto
    with ij len uss(1) show ?thesis by simp
  qed
  ultimately show ?thesis using u by auto
qed




section \<open>An example\<close>

text \<open>The classes below 10 have a compiled method for the selector 5, the others an
  interpreted one. Two classes meet at one send.\<close>

definition sample_world :: world where
  "sample_world = \<lparr>selector_of = (\<lambda>_. 5), access_method = (\<lambda>_. False), special_primitive = (\<lambda>_. False),
     primitive_method = (\<lambda>_. False), special_code = (\<lambda>_. 0), entry_native = (\<lambda>e. e),
     native_key = (\<lambda>nm. LookupKey nm 5), native_method = (\<lambda>nm. nm), native_entry = (\<lambda>nm. nm),
     key_selector_of = selector_or_method, UseAccessMethods = True, UsePredictedMethods = True,
     UsePrimitiveMethods = False\<rparr>"

definition sample_lookup :: lookup where
  "sample_lookup key = (if selector_or_method key \<noteq> 5 then Null
     else if key_klass key < 10 then AnEntry (key_klass key) else AMethod 7)"

lemma sample_world_ok: "world_ok sample_world"
  by (simp add: world_ok_def sample_world_def LookupKey_def)

lemma sample_lookup_ok: "lookup_ok sample_world sample_lookup" "super_lookup_ok sample_world (\<lambda>_. Null)"
  by (auto simp: lookup_ok_def super_lookup_ok_def sample_lookup_def sample_world_def target_ok_def LookupKey_def
      split: if_splits)

abbreviation sample_cache :: inline_cache where
  "sample_cache \<equiv> \<lparr>ic_code = interpreted_send_0, first_word = ASymbol 5, second_word = Null\<rparr>"

abbreviation compiled_cache :: inline_cache where
  "compiled_cache \<equiv> \<lparr>ic_code = compiled_send_0, first_word = AnEntry 2, second_word = AKlass 2\<rparr>"

lemma sample_miss:
  "inline_cache_miss sample_world sample_lookup (\<lambda>_. Null) 2 sample_cache initial_pics = ret (compiled_cache, initial_pics)"
  by code_simp

abbreviation polymorphic_cache :: inline_cache where
  "polymorphic_cache \<equiv> \<lparr>ic_code = polymorphic_send_0, first_word = ASymbol 5, second_word = APic 0\<rparr>"

abbreviation sample_pics :: pics where
  "sample_pics \<equiv> initial_pics\<lparr>arrays := [[AnEntry 2, AKlass 2, AMethod 7, AKlass 11]]\<rparr>"

lemma sample_second_miss:
  "inline_cache_miss sample_world sample_lookup (\<lambda>_. Null) 11 compiled_cache initial_pics =
    ret (polymorphic_cache, sample_pics)"
  by code_simp


lemma sample_rep:
  "cache_rep sample_world 5 (arrays sample_pics) polymorphic_cache (Some [(2, AnEntry 2), (11, AMethod 7)]) [0]"
  "pics_ok sample_pics (\<lambda>_. []) [0]"
proof -
  have "send_type polymorphic_send_0 = POLYMORPHIC_SEND" by code_simp
  then show "cache_rep sample_world 5 (arrays sample_pics) polymorphic_cache (Some [(2, AnEntry 2), (11, AMethod 7)]) [0]"
    by (intro rep_polymorphic) (auto simp: ic_send_type_def sample_world_def target_ok_def LookupKey_def)
  show "pics_ok sample_pics (\<lambda>_. []) [0]"
    by (auto simp: pics_ok_def initial_pics_def number_of_interpreterPIC_sizes_def
        size_of_largest_interpreterPIC_def size_of_smallest_interpreterPIC_def)
qed



end
