(* ===== verification/SmallIntegerPrimitives.thy ===== *)
theory SmallIntegerPrimitives
  imports Oops
begin

text \<open>
  The primitives of small integers (\<^verbatim>\<open>vm/primitive/SmallIntegerOopPrimitives.cpp\<close>) and the table of
  object numbers that \<open>asObject\<close> reads (\<^verbatim>\<open>vm/utility/ObjectIDTable.cpp\<close>). A primitive that refuses
  its arguments returns a marked symbol; its result is therefore a sum, \<open>Inl\<close> the symbol. The
  arithmetic primitives are patched by the interpreter and only trap here. The theorems: the
  comparisons and bit operations compute on the values, a shift is exact or reports an overflow,
  and an object that was given a number is found under it.
\<close>

section \<open>Results of primitives\<close>

datatype prim_error =
    first_argument_has_wrong_type | second_argument_has_wrong_type | third_argument_has_wrong_type
  | smi_overflow | index_not_valid | out_of_bounds | negative_size | value_out_of_range
  | argument_is_invalid | division_by_zero | failed_allocation | invalid_klass | is_installed | primitive_trap

type_synonym prim_result = "prim_error + oop"

text \<open>The objects of \<^verbatim>\<open>Universe\<close> that primitives answer or compare with.\<close>

record universe =
  trueObject :: oop
  falseObject :: oop
  nilObject :: oop
  asciiCharacters :: "oop list"

definition bool_object :: "universe \<Rightarrow> bool \<Rightarrow> oop" where
  "bool_object U b = (if b then trueObject U else falseObject U)"

definition smi_receiver :: "oop \<Rightarrow> unit run" where
  "smi_receiver receiver = guard (isSmallIntegerOop receiver) ''receiver must be small_int_t''"

section \<open>Comparisons\<close>

definition smi_relational_op :: "universe \<Rightarrow> (int \<Rightarrow> int \<Rightarrow> bool) \<Rightarrow> oop \<Rightarrow> oop \<Rightarrow> prim_result run" where
  "smi_relational_op U op receiver argument = bindR (smi_receiver receiver) (\<lambda>_.
     if \<not> isSmallIntegerOop argument then ret (Inl first_argument_has_wrong_type)
     else ret (Inr (bool_object U (op (sint receiver) (sint argument)))))"

definition smi_lessThan :: "universe \<Rightarrow> oop \<Rightarrow> oop \<Rightarrow> prim_result run" where
  "smi_lessThan U = smi_relational_op U (<)"

definition smi_greaterThan :: "universe \<Rightarrow> oop \<Rightarrow> oop \<Rightarrow> prim_result run" where
  "smi_greaterThan U = smi_relational_op U (>)"

definition smi_lessThanOrEqual :: "universe \<Rightarrow> oop \<Rightarrow> oop \<Rightarrow> prim_result run" where
  "smi_lessThanOrEqual U = smi_relational_op U (\<le>)"

definition smi_greaterThanOrEqual :: "universe \<Rightarrow> oop \<Rightarrow> oop \<Rightarrow> prim_result run" where
  "smi_greaterThanOrEqual U = smi_relational_op U (\<ge>)"

definition smi_equalTo :: "universe \<Rightarrow> oop \<Rightarrow> oop \<Rightarrow> prim_result run" where
  "smi_equalTo U = smi_relational_op U (=)"

definition smi_notEqual :: "universe \<Rightarrow> oop \<Rightarrow> oop \<Rightarrow> prim_result run" where
  "smi_notEqual U = smi_relational_op U (\<noteq>)"

section \<open>Bit operations\<close>

definition smi_bitAnd :: "oop \<Rightarrow> oop \<Rightarrow> prim_result run" where
  "smi_bitAnd receiver argument = bindR (smi_receiver receiver) (\<lambda>_.
     if \<not> isSmallIntegerOop argument then ret (Inl first_argument_has_wrong_type)
     else ret (Inr (receiver AND argument)))"

definition smi_bitOr :: "oop \<Rightarrow> oop \<Rightarrow> prim_result run" where
  "smi_bitOr receiver argument = bindR (smi_receiver receiver) (\<lambda>_.
     if \<not> isSmallIntegerOop argument then ret (Inl first_argument_has_wrong_type)
     else ret (Inr (receiver OR argument)))"

definition smi_bitXor :: "oop \<Rightarrow> oop \<Rightarrow> prim_result run" where
  "smi_bitXor receiver argument = bindR (smi_receiver receiver) (\<lambda>_.
     if \<not> isSmallIntegerOop argument then ret (Inl first_argument_has_wrong_type)
     else ret (Inr (receiver XOR argument)))"

definition bitsPerWord :: nat where "bitsPerWord = 32"

definition maxShiftCnt :: nat where "maxShiftCnt = bitsPerWord - TAG_SIZE - 1"

definition smi_bitShift :: "oop \<Rightarrow> oop \<Rightarrow> prim_result run" where
  "smi_bitShift receiver argument = bindR (smi_receiver receiver) (\<lambda>_.
     if \<not> isSmallIntegerOop argument then ret (Inl first_argument_has_wrong_type)
     else let n = smi_value argument in
       if 0 < n then
         (let mask1 = push_bit (bitsPerWord - (nat n + 1)) 1; mask2 = push_bit (bitsPerWord - nat n) (- 1) in
          if n < int maxShiftCnt \<and> (receiver + mask1) AND mask2 = 0
          then ret (Inr (push_bit (nat n) receiver))
          else ret (Inl smi_overflow))
       else let n = (if n < - int maxShiftCnt then - int maxShiftCnt else n) in
         ret (Inr (signed_drop_bit (nat (- n)) receiver AND push_bit TAG_SIZE (- 1))))"

definition smi_rawBitShift :: "oop \<Rightarrow> oop \<Rightarrow> prim_result run" where
  "smi_rawBitShift receiver argument = bindR (smi_receiver receiver) (\<lambda>_.
     if \<not> isSmallIntegerOop argument then ret (Inl first_argument_has_wrong_type)
     else let n = smi_value argument in
       if 0 \<le> n then ret (Inr (push_bit (nat (n mod int bitsPerWord)) receiver))
       else ret (Inr (drop_bit (nat ((- n) mod int bitsPerWord)) receiver AND push_bit TAG_SIZE (- 1))))"

definition smiOopPrimitives_trap :: "oop \<Rightarrow> oop \<Rightarrow> prim_result run" where
  "smiOopPrimitives_trap receiver argument =
     bindR (guard False ''This primitive should be patched'') (\<lambda>_. ret (Inl primitive_trap))"

section \<open>Object numbers\<close>

record object_ids =
  objectIDTable :: "oop list"
  nextID :: nat

definition id_is_index_ok :: "object_ids \<Rightarrow> int \<Rightarrow> bool" where
  "id_is_index_ok T i \<longleftrightarrow> 1 \<le> i \<and> i \<le> int (length (objectIDTable T))"

definition id_at :: "object_ids \<Rightarrow> int \<Rightarrow> oop run" where
  "id_at T i = bindR (guard (0 < i \<and> i \<le> int (length (objectIDTable T))) ''index out of bounds'') (\<lambda>_.
     ret (objectIDTable T ! (nat i - 1)))"

fun find_id :: "oop list \<Rightarrow> oop \<Rightarrow> nat \<Rightarrow> nat" where
  "find_id [] x i = 0"
| "find_id (y # ys) x i = (if y = x then i else find_id ys x (i + 1))"

definition id_find_index :: "object_ids \<Rightarrow> oop \<Rightarrow> nat" where
  "id_find_index T x = find_id (objectIDTable T) x 1"

definition id_insert :: "oop \<Rightarrow> object_ids \<Rightarrow> (nat \<times> object_ids) run" where
  "id_insert x T = (let i = id_find_index T x in
     if i = 0 then
       let (i, T) = (if nextID T < length (objectIDTable T) then (nextID T, T\<lparr>nextID := nextID T + 1\<rparr>)
                     else (1, T\<lparr>nextID := 2\<rparr>)) in
       bindR (guard (0 < i \<and> i \<le> length (objectIDTable T)) ''index out of bounds'') (\<lambda>_.
       ret (i, T\<lparr>objectIDTable := (objectIDTable T)[i - 1 := x]\<rparr>))
     else ret (i, T))"

definition id_cleanup_after_bootstrap :: "universe \<Rightarrow> object_ids" where
  "id_cleanup_after_bootstrap U = \<lparr>objectIDTable = replicate 200 (nilObject U), nextID = 1\<rparr>"

definition smi_asObject :: "object_ids \<Rightarrow> oop \<Rightarrow> prim_result run" where
  "smi_asObject T receiver = bindR (smi_receiver receiver) (\<lambda>_. let i = smi_value receiver in
     if id_is_index_ok T i then bindR (id_at T i) (\<lambda>x. ret (Inr x)) else ret (Inl index_not_valid))"

section \<open>Comparisons and bit operations on values\<close>

lemma smi_receiver_ret [simp]: "isSmallIntegerOop r \<Longrightarrow> smi_receiver r = ret ()"
  by (simp add: smi_receiver_def)

lemma smi_eqI: "isSmallIntegerOop p \<Longrightarrow> smi_value p = v \<Longrightarrow> p = smiOopFromValue v"
  using smi_sint(3) by metis

lemma smi_relational_ok:
  assumes "isSmallIntegerOop r" and "isSmallIntegerOop a"
  shows "smi_lessThan U r a = ret (Inr (bool_object U (smi_value r < smi_value a)))"
    "smi_greaterThan U r a = ret (Inr (bool_object U (smi_value r > smi_value a)))"
    "smi_lessThanOrEqual U r a = ret (Inr (bool_object U (smi_value r \<le> smi_value a)))"
    "smi_greaterThanOrEqual U r a = ret (Inr (bool_object U (smi_value r \<ge> smi_value a)))"
    "smi_equalTo U r a = ret (Inr (bool_object U (smi_value r = smi_value a)))"
    "smi_notEqual U r a = ret (Inr (bool_object U (smi_value r \<noteq> smi_value a)))"
  using assms smi_sint(1) [of r] smi_sint(1) [of a]
  by (simp_all add: smi_lessThan_def smi_greaterThan_def smi_lessThanOrEqual_def smi_greaterThanOrEqual_def
      smi_equalTo_def smi_notEqual_def smi_relational_op_def)

lemma isSmallIntegerOop_bits: "isSmallIntegerOop p \<longleftrightarrow> \<not> bit p 0 \<and> \<not> bit p 1"
proof -
  have "take_bit 2 p = 0 \<longleftrightarrow> (\<forall>n < 2. \<not> bit p n)"
    by (auto simp: bit_eq_iff bit_simps)
  also have "\<dots> \<longleftrightarrow> \<not> bit p 0 \<and> \<not> bit p 1" by (auto simp: less_2_cases_iff)
  finally show ?thesis by (simp add: isSmallIntegerOop_def tag_take INTEGER_TAG_def)
qed

lemma bit_smi_value: "bit (smi_value p) n \<longleftrightarrow> bit p (if n < 30 then n + 2 else 31)"
  by (auto simp: smi_value_def TAG_SIZE_def bit_simps min_def not_less)

lemma smi_bit_ops_ok:
  assumes r: "isSmallIntegerOop r" and a: "isSmallIntegerOop a"
  shows "smi_bitAnd r a = ret (Inr (smiOopFromValue (smi_value r AND smi_value a)))"
    "smi_bitOr r a = ret (Inr (smiOopFromValue (smi_value r OR smi_value a)))"
    "smi_bitXor r a = ret (Inr (smiOopFromValue (smi_value r XOR smi_value a)))"
proof -
  note bits = isSmallIntegerOop_bits bit_smi_value bit_simps
  have "r AND a = smiOopFromValue (smi_value r AND smi_value a)"
    "r OR a = smiOopFromValue (smi_value r OR smi_value a)"
    "r XOR a = smiOopFromValue (smi_value r XOR smi_value a)"
    using r a by (intro smi_eqI bit_eqI; simp add: bits)+
  with r a show "smi_bitAnd r a = ret (Inr (smiOopFromValue (smi_value r AND smi_value a)))"
    "smi_bitOr r a = ret (Inr (smiOopFromValue (smi_value r OR smi_value a)))"
    "smi_bitXor r a = ret (Inr (smiOopFromValue (smi_value r XOR smi_value a)))"
    by (simp_all add: smi_bitAnd_def smi_bitOr_def smi_bitXor_def)
qed

section \<open>Shifts\<close>

lemma high_bits_zero:
  fixes w :: "32 word"
  assumes "k < 32"
  shows "w AND push_bit k (- 1) = 0 \<longleftrightarrow> unat w < 2 ^ k"
proof -
  have "w AND push_bit k (- 1) = 0 \<longleftrightarrow> take_bit k w = w"
    by (auto simp: bit_eq_iff bit_simps)
  moreover have "take_bit k w = w \<longleftrightarrow> unat w mod 2 ^ k = unat w"
    by (metis take_bit_eq_mod unsigned_take_bit_eq unsigned_word_eqI)
  ultimately show ?thesis by (metis mod_less mod_less_divisor zero_less_numeral zero_less_power)
qed

lemma overflow_test:
  fixes r :: "32 word"
  assumes n: "0 < n" "n < 32"
  shows "(r + push_bit (32 - (n + 1)) 1) AND push_bit (32 - n) (- 1) = 0 \<longleftrightarrow>
    - (2 ^ (31 - n)) \<le> sint r \<and> sint r < 2 ^ (31 - n)"
proof -
  define m :: int where "m = 2 ^ (31 - n)"
  have m: "0 < m" "m \<le> 2 ^ 30" using n power_increasing [of "31 - n" 30 "2 :: int"] by (simp_all add: m_def)
  have two: "2 ^ (32 - n) = 2 * m" using n by (simp add: m_def Suc_diff_le flip: power_Suc)
  have r: "- (2 ^ 31) \<le> sint r" "sint r < 2 ^ 31" using sint_ge [of r] sint_lt [of r] by simp_all
  have "r + push_bit (32 - (n + 1)) 1 = word_of_int (sint r + m)"
    using n by (simp add: push_bit_eq_mult m_def)
  then have "uint (r + push_bit (32 - (n + 1)) 1) = (sint r + m) mod 2 ^ 32"
    by (simp only: uint_word_of_int) simp
  moreover have "(sint r + m) mod 2 ^ 32 < 2 * m \<longleftrightarrow> - m \<le> sint r \<and> sint r < m"
  proof (cases "- m \<le> sint r")
    case True
    then have "(sint r + m) mod 2 ^ 32 = sint r + m" using r m by (intro mod_pos_pos_trivial) auto
    with True show ?thesis by auto
  next
    case False
    then have "(sint r + m) mod 2 ^ 32 = sint r + m + 2 ^ 32"
      using r m by (subst mod_add_self2 [symmetric], intro mod_pos_pos_trivial) auto
    with False r m show ?thesis by auto
  qed
  moreover have "int (unat w) < 2 ^ (32 - n) \<longleftrightarrow> unat w < 2 ^ (32 - n)" for w :: "32 word"
    by (metis of_nat_less_iff of_nat_numeral of_nat_power)
  ultimately show ?thesis using high_bits_zero [of "32 - n"] n two unfolding m_def [symmetric] by (metis diff_less uint_nat zero_less_numeral)
qed

text \<open>The value of a small integer determines it, so a shift is stated on values. To the left it is
  exact or refused; a count of 29 or more is refused even for 0. To the right it rounds down, for
  every count.\<close>

lemma smi_shift_left: "isSmallIntegerOop r \<Longrightarrow> push_bit k r = smiOopFromValue (smi_value r * 2 ^ k)"
proof -
  assume r: "isSmallIntegerOop r"
  have "push_bit k r = word_of_int (sint r) * word_of_int (2 ^ k)" by (simp add: push_bit_eq_mult)
  also have "\<dots> = word_of_int (4 * (smi_value r * 2 ^ k))"
    by (simp only: smi_sint(1) [OF r] wi_hom_mult mult.assoc)
  finally show ?thesis by (simp only: smiOopFromValue_word)
qed

lemma smi_shift_right:
  assumes "isSmallIntegerOop r"
  shows "signed_drop_bit (min j 29) r AND push_bit 2 (- 1) = smiOopFromValue (smi_value r div 2 ^ j)"
proof -
  have "smi_value (signed_drop_bit (min j 29) r AND push_bit 2 (- 1)) = drop_bit j (smi_value r)"
  proof (rule bit_eqI)
    show "bit (smi_value (signed_drop_bit (min j 29) r AND push_bit 2 (- 1))) n \<longleftrightarrow> bit (drop_bit j (smi_value r)) n" for n
      by (cases "j = 0"; cases "n = 0") (auto simp: bit_smi_value bit_simps min_def not_less)
  qed
  moreover have "isSmallIntegerOop (signed_drop_bit (min j 29) r AND push_bit 2 (- 1))"
    by (simp add: isSmallIntegerOop_bits bit_simps)
  ultimately show ?thesis by (simp add: smi_eqI drop_bit_eq_div)
qed

text \<open>C40. Shifting small integers. A shift to the left returns the exact product when the count is
  below 29 and the product is a small integer, and reports an overflow otherwise, so no result
  ever loses its sign; a shift to the right by any count, also one beyond the width of the word,
  returns the quotient rounded down.\<close>

theorem smi_bitShift_exact:
  assumes r: "isSmallIntegerOop r" and a: "isSmallIntegerOop a"
  shows "smi_bitShift r a = ret (let v = smi_value r; n = smi_value a in
    if 0 < n then
      if n < 29 \<and> v * 2 ^ nat n \<in> smi_range then Inr (smiOopFromValue (v * 2 ^ nat n)) else Inl smi_overflow
    else Inr (smiOopFromValue (v div 2 ^ nat (- n))))"
proof (cases "0 < smi_value a")
  case pos: True
  define n where "n = nat (smi_value a)"
  have fits: "(r + push_bit (32 - (n + 1)) 1) AND push_bit (32 - n) (- 1) = 0 \<longleftrightarrow> smi_value r * 2 ^ n \<in> smi_range"
    if "n < 29"
  proof -
    define m :: int where "m = 2 ^ n"
    have m: "0 < m" by (simp add: m_def)
    have "(2 :: int) ^ (31 - n) * m = 2 ^ 31" using that by (simp add: m_def flip: power_add)
    then have "- (2 ^ (31 - n)) \<le> 4 * smi_value r \<longleftrightarrow> - (2 ^ 31) \<le> 4 * smi_value r * m"
      "4 * smi_value r < 2 ^ (31 - n) \<longleftrightarrow> 4 * smi_value r * m < 2 ^ 31"
      using mult_le_cancel_right_pos [OF m, of "- (2 ^ (31 - n))" "4 * smi_value r"]
        mult_less_cancel_right_pos [OF m, of "4 * smi_value r" "2 ^ (31 - n)"] by simp_all
    then show ?thesis
      using overflow_test [of n r] pos that smi_sint(1) [OF r]
      by (auto simp: n_def m_def smi_range_def SMI_MIN_VALUE_def SMI_MAX_VALUE_def)
  qed
  have "smi_value a < 29 \<longleftrightarrow> n < 29" by (auto simp: n_def)
  then show ?thesis
    using r a pos fits
    by (simp add: smi_bitShift_def Let_def bitsPerWord_def maxShiftCnt_def TAG_SIZE_def smi_shift_left n_def)
next
  case False
  define j where "j = nat (- smi_value a)"
  have "min j 29 = (if smi_value a < - 29 then 29 else j)" by (auto simp: j_def)
  with False r a smi_shift_right [OF r, of j] show ?thesis
    by (cases "smi_value a < - 29")
      (simp_all add: smi_bitShift_def Let_def bitsPerWord_def maxShiftCnt_def TAG_SIZE_def j_def)
qed

theorem smi_bitShift_exact_witness:
  "smi_bitShift (smiOopFromValue (- 3)) (smiOopFromValue 4) = ret (Inr (smiOopFromValue (- 48))) \<and>
   smi_bitShift (smiOopFromValue 1) (smiOopFromValue 29) = ret (Inl smi_overflow) \<and>
   smi_bitShift (smiOopFromValue (- 7)) (smiOopFromValue (- 1)) = ret (Inr (smiOopFromValue (- 4)))"
proof -
  have "v \<in> smi_range \<Longrightarrow> n \<in> smi_range \<Longrightarrow> smi_bitShift (smiOopFromValue v) (smiOopFromValue n) = ret (
    if 0 < n then
      if n < 29 \<and> v * 2 ^ nat n \<in> smi_range then Inr (smiOopFromValue (v * 2 ^ nat n)) else Inl smi_overflow
    else Inr (smiOopFromValue (v div 2 ^ nat (- n))))" for v n
    using smi_bitShift_exact [of "smiOopFromValue v" "smiOopFromValue n"] by (simp add: smi_roundtrip Let_def)
  from this [of "- 3" 4] this [of 1 29] this [of "- 7" "- 1"] show ?thesis
    by (simp add: smi_range_def SMI_MIN_VALUE_def SMI_MAX_VALUE_def)
qed

text \<open>The comments of \<open>rawBitShift\<close> name the directions the wrong way round; positive counts shift to
  the left, over the end of the word, and negative ones shift the 30 bits of the value to the
  right without their sign. The count is taken modulo 32.\<close>

lemma smi_rawBitShift_ok:
  assumes r: "isSmallIntegerOop r" and a: "isSmallIntegerOop a"
  shows "smi_rawBitShift r a = ret (Inr (smiOopFromValue (let v = smi_value r; n = smi_value a in
    if 0 \<le> n then v * 2 ^ nat (n mod 32) else take_bit 30 v div 2 ^ nat (- n mod 32))))"
proof -
  define k where "k = nat (- smi_value a mod 32)"
  have "take_bit 30 (smi_value (drop_bit k r AND push_bit 2 (- 1))) = drop_bit k (take_bit 30 (smi_value r))"
    by (rule bit_eqI) (auto simp: bit_smi_value bit_simps dest: bit_imp_le_length)
  moreover have "isSmallIntegerOop (drop_bit k r AND push_bit 2 (- 1))"
    by (simp add: isSmallIntegerOop_bits bit_simps)
  moreover have "smiOopFromValue (take_bit 30 v) = smiOopFromValue v" for v
  proof -
    have "4 * take_bit 30 v = take_bit 32 (4 * v)" by (simp add: take_bit_eq_mod mult_mod_right)
    then show ?thesis by (simp only: smiOopFromValue_word word_of_int_eq_iff) simp
  qed
  ultimately have "drop_bit k r AND push_bit 2 (- 1) = smiOopFromValue (take_bit 30 (smi_value r) div 2 ^ k)"
    by (metis drop_bit_eq_div smi_eqI)
  with r a show ?thesis
    by (simp add: smi_rawBitShift_def Let_def bitsPerWord_def TAG_SIZE_def smi_shift_left k_def)
qed

section \<open>Object numbers\<close>

text \<open>The objects under the numbers in the table; the number after the last is never given out.\<close>

lemma find_id_found: "find_id xs x (Suc i) \<noteq> 0 \<Longrightarrow>
    i < find_id xs x (Suc i) \<and> find_id xs x (Suc i) \<le> i + length xs \<and> xs ! (find_id xs x (Suc i) - Suc i) = x"
proof (induction xs arbitrary: i)
  case (Cons y ys)
  show ?case
  proof (cases "y = x")
    case False
    with Cons.IH [of "Suc i"] Cons.prems have IH: "Suc i < find_id ys x (Suc (Suc i))"
      "find_id ys x (Suc (Suc i)) \<le> Suc i + length ys" "ys ! (find_id ys x (Suc (Suc i)) - Suc (Suc i)) = x"
      by auto
    then have "find_id ys x (Suc (Suc i)) - Suc i = Suc (find_id ys x (Suc (Suc i)) - Suc (Suc i))" by simp
    with IH False show ?thesis by auto
  qed simp
qed simp

lemma find_id_absent: "find_id xs x (Suc i) = 0 \<longleftrightarrow> x \<notin> set xs"
  by (induction xs arbitrary: i) auto

text \<open>An object that gets a number is found under it, and keeps it when it already had one; the
  other objects lose theirs only when the table is full and starts again.\<close>

theorem id_insert_roundtrip:
  assumes "objectIDTable T \<noteq> []" and "1 \<le> nextID T" and "int (length (objectIDTable T)) \<in> smi_range"
  shows "\<exists>i T'. id_insert x T = ret (i, T') \<and> smi_asObject T' (smiOopFromValue (int i)) = ret (Inr x) \<and>
    1 \<le> nextID T' \<and> length (objectIDTable T') = length (objectIDTable T) \<and>
    (x \<in> set (objectIDTable T) \<longrightarrow> T' = T) \<and>
    (\<forall>j. j \<noteq> i \<longrightarrow> smi_asObject T' (smiOopFromValue (int j)) = smi_asObject T (smiOopFromValue (int j)) \<or> \<not> int j \<in> smi_range)"
proof -
  have found: "smi_asObject U (smiOopFromValue (int i)) = ret (Inr x)"
    if "0 < i" "i \<le> length (objectIDTable U)" "objectIDTable U ! (i - 1) = x" "length (objectIDTable U) = length (objectIDTable T)" for U i
  proof -
    have "int i \<in> smi_range" using that assms(3) by (auto simp: smi_range_def SMI_MIN_VALUE_def)
    with that show ?thesis
      by (simp add: smi_asObject_def smi_roundtrip id_is_index_ok_def id_at_def Let_def)
  qed
  show ?thesis
  proof (cases "x \<in> set (objectIDTable T)")
    case True
    then have "id_find_index T x \<noteq> 0" using find_id_absent [of "objectIDTable T" x 0] by (simp add: id_find_index_def)
    with True assms(2) find_id_found [of "objectIDTable T" x 0] show ?thesis
      by (intro exI [of _ "id_find_index T x"] exI [of _ T]) (auto simp: id_insert_def id_find_index_def intro!: found)
  next
    case False
    then have absent: "id_find_index T x = 0" using find_id_absent [of "objectIDTable T" x 0] by (simp add: id_find_index_def)
    define i where "i = (if nextID T < length (objectIDTable T) then nextID T else 1)"
    define T' where "T' = T\<lparr>nextID := i + 1, objectIDTable := (objectIDTable T)[i - 1 := x]\<rparr>"
    have i: "0 < i" "i \<le> length (objectIDTable T)" using assms(1,2) by (auto simp: i_def Suc_le_eq)
    have "id_insert x T = ret (i, T')"
      using absent i by (auto simp: id_insert_def i_def T'_def Let_def)
    moreover have "smi_asObject T' (smiOopFromValue (int i)) = ret (Inr x)"
      using i by (intro found) (auto simp: T'_def)
    moreover have "smi_asObject T' (smiOopFromValue (int j)) = smi_asObject T (smiOopFromValue (int j))"
      if "j \<noteq> i" "int j \<in> smi_range" for j
      using that i by (auto simp: smi_asObject_def smi_roundtrip id_is_index_ok_def id_at_def T'_def Let_def nth_list_update)
    ultimately show ?thesis using False i by (intro exI [of _ i] exI [of _ T']) (auto simp: T'_def)
  qed
qed

theorem id_insert_roundtrip_witness:
  "\<exists>i T'. id_insert 12 \<lparr>objectIDTable = [0, 0, 0], nextID = 1\<rparr> = ret (i, T') \<and>
    smi_asObject T' (smiOopFromValue (int i)) = ret (Inr 12)"
  using id_insert_roundtrip [of "\<lparr>objectIDTable = [0, 0, 0], nextID = 1\<rparr>" 12]
  by (fastforce simp: smi_range_def SMI_MIN_VALUE_def SMI_MAX_VALUE_def)

end
