(* ===== verification/Spec2Isabelle.thy ===== *)
theory Spec2Isabelle
  imports IntegerText IntegerBits IntegerDivision Oops MacroAssembler ZoneHistory LookupCache
    SendSites InlineCaches SmallIntegerPrimitives
begin

text \<open>
  A verification library for the Strongtalk virtual machine
  (\<^verbatim>\<open>src/strongtalk/src/cpp/main/vm\<close>), a 32-bit Smalltalk system with a
  type-feedback compiler. Source files are named relative to that directory.

  \<^bold>\<open>The program\<close>

  The machine represents every value as a tagged word (\<^verbatim>\<open>oop\<close>), keeps objects in generations
  (\<^verbatim>\<open>memory\<close>), interprets byte codes (\<^verbatim>\<open>interpreter\<close>) and compiles hot methods
  (\<^verbatim>\<open>compiler\<close>, \<^verbatim>\<open>recompiler\<close>). Compiled code is written with an assembler into a code buffer
  (\<^verbatim>\<open>assembler\<close>), copied to its place in the zone of compiled code (\<^verbatim>\<open>code/ZoneHeap\<close>) with its
  relocation entries applied (\<^verbatim>\<open>code/RelocationInformation\<close>), entered in the code table
  (\<^verbatim>\<open>code/CodeTable\<close>) and made reachable through the jump table (\<^verbatim>\<open>code/JumpTable\<close>). A send that
  misses its inline cache asks the lookup cache (\<^verbatim>\<open>lookup\<close>), which consults the code table and
  then the classes. Large-integer primitives call the digit routines of \<^verbatim>\<open>utility/IntegerOps\<close>.
  The library covers the parts of this chain whose correctness is a matter of data structures,
  encodings and arithmetic.

  \<^bold>\<open>Conventions\<close> (\<open>Prelude\<close>, \<open>Histories\<close>)

  An operation that can fail or run for ever has a result of type \<open>'a run\<close>: \<open>None\<close> for a run
  without end, \<open>raise f\<close> for a fault (a failed assertion, a fatal error, an access outside its
  buffer), \<open>ret v\<close> for a result. Assertions are on, as in the debug build. Loops that may not
  end are \<open>partial_function (option)\<close>; the theorems that an operation returns state
  \<open>... = ret ...\<close>, so they include termination, and no fuel occurs anywhere. Machine integers
  are \<open>32 word\<close>s where wrap-around can matter (digits, oops, addresses of compiled code, counters)
  and integers where the code asserts that they stay small (positions in a code buffer,
  indices of the chunk map). \<open>Histories\<close> holds the locale \<open>implements\<close>: a component whose
  operations simulate those of an abstract specification does so along any history of them. It is
  interpreted for the code table, the jump table, the lookup cache and the inline caches.

  \<^bold>\<open>The theories\<close>

  Large integers. \<open>Digits\<close>: digits, carries and the digit steps of \<^verbatim>\<open>utility/IntegerOps.cpp\<close>, with
  the locales \<open>carry_chain\<close> and \<open>borrow_chain\<close>. \<open>Integers\<close>: the \<open>Integer\<close> record (signed length and
  buffer) and addition, subtraction, multiplication and comparison; \<open>IntegerArith\<close> proves them
  exact in a buffer of the size the code itself announces, and that a multiplication runs for
  ever on a zero digit of the outer operand. \<open>IntegerBits\<close>: \<open>And\<close>, \<open>Or\<close>, \<open>Xor\<close>, \<open>ash\<close> against two's
  complement, with the exact inputs on which a carry is lost. \<open>IntegerDivision\<close>: the division
  (which never returns on most inputs), powers, shifts and the hash. \<open>IntegerText\<close>: reading and
  writing integers, conversion from small ones.

  Tagged words. \<open>Bits\<close>: the helpers of \<^verbatim>\<open>system/bits.hpp\<close>. \<open>Oops\<close>: tags, small integers
  (\<^verbatim>\<open>oop/SmallIntegerOopDescriptor\<close>), the mark word and its fields
  (\<^verbatim>\<open>oop/MarkOopDescriptor\<close>, locale \<open>disjoint_fields\<close>), identity hashes and the age table
  (\<^verbatim>\<open>memory/AgeTable.cpp\<close>). \<open>SmallIntegerPrimitives\<close>: the primitives of small integers
  (\<^verbatim>\<open>primitive/SmallIntegerOopPrimitives.cpp\<close>) with the table of object numbers
  (\<^verbatim>\<open>utility/ObjectIDTable.cpp\<close>).

  The assembler. \<open>CodeBuffers\<close>: code as a list of bytes, relocation entries, copying with
  displacement, patching of calls, moves and inline-cache words. \<open>Assembler\<close>: registers,
  operands and their encoding, with a decoder of the Intel format as specification.
  \<open>Instructions\<close>: the instructions without labels. \<open>Labels\<close>: labels as chains of references
  through the code, binding, linking, elimination of jumps, all instructions with labels.
  \<open>MacroAssembler\<close>: alignment, frames, calls of C, the store check.

  Compiled code. \<open>ChunkMap\<close>: the map of blocks of the zone. \<open>FreeLists\<close>: rings of free blocks and
  the locale \<open>free_lists\<close>. \<open>ZoneHeap\<close>: the allocator's operations; \<open>ZoneAlloc\<close> its invariant and
  the correctness of each operation, \<open>ZoneHistory\<close> the histories of allocations and
  deallocations.

  Lookup. \<open>LookupKeys\<close>: keys of sends (\<^verbatim>\<open>lookup/LookupKey\<close>). \<open>CodeTable\<close>: the hash table of native
  methods with its chains in the C heap, a refinement of a map. \<open>JumpTable\<close>: the table of stubs
  with its free list, its blocks of entries and the walk from a block stub to its native
  method. \<open>LookupCache\<close>: lookup results and the two-level cache, with the lookup without the cache
  as reference.

  The interpreter. \<open>ByteCodes\<close>: the table of \<^verbatim>\<open>interpreter/ByteCodes.cpp\<close> as the sequence of its
  definitions with their checks, and the transitions between the codes of a send.
  \<open>CodeIterator\<close>: method objects in memory (\<^verbatim>\<open>oop/MethodOopDescriptor\<close>: header, counters, codes) and
  the iterator over their byte codes, with the sequence of instructions as specification.
  \<open>SendSites\<close>: the way back from an inline cache to its send and from a frame to its cache.
  \<open>InlineCaches\<close>: the caches of sends (\<^verbatim>\<open>interpreter/InterpretedInlineCache\<close>), their polymorphic
  arrays with the free lists, misses, cleanups and new native methods; the abstract
  counterpart of a cache is the list of the classes it has met with their targets.

  \<^bold>\<open>Locales\<close>

  Every locale is interpreted on the model's own definitions, in the theory that provides
  them: \<open>carry_chain\<close> and \<open>borrow_chain\<close> in \<open>Digits\<close>, \<open>disjoint_fields\<close> in \<open>Oops\<close>, \<open>free_lists\<close> in
  \<open>FreeLists\<close>, \<open>implements\<close> in \<open>CodeTable\<close>, \<open>JumpTable\<close>, \<open>LookupCache\<close> and
  \<open>InlineCaches\<close>.

  \<^bold>\<open>Parameters\<close>

  The operating system and the C library are arguments: the address of executable memory, the
  fresh addresses of allocations in the C heap, uninitialised memory. What a component reads of
  the objects of the heap (the class of an object, its identity hash, whether it is a method) is
  a record of functions (\<open>objects\<close>, \<open>native_methods\<close>, \<open>system\<close>, \<open>world\<close>), and the compiler, where a lookup
  may call it, a function with the stated contract \<open>compiler_ok\<close>.

  \<^bold>\<open>Not modelled\<close>

  The optimizing compiler and the recompiler work on large mutable graphs and on the stack of
  running frames; the interpreter, the stub routines and the generated primitives are emitted
  machine code whose meaning is the processor's; the inline caches of compiled code rewrite running
  code; the garbage
  collector walks raw memory; processes are coroutines on machine stacks. The pretty printer,
  logging, consoles and the disassembler are output, the platform layer and the bootstrap are
  services of the operating system. Floating point (conversions of large integers to doubles,
  fragmentation ratios) is left out of the components that are modelled.
\<close>

end
